(* ===== verification/Prelude.thy ===== *)
theory Prelude
  imports Main "HOL-Library.Word" "HOL-Library.Monad_Syntax"
begin

text \<open>
  What every theory of the development shares: names for the machine integers of the
  C++ code, the reading of raw memory as little-endian byte lists (the code copies
  integers to and from byte buffers with \<open>memcpy\<close> on a little-endian host), counted
  loops that update a state, and the collections of rewrite rules the components fill.

  Conventions.  \<open>u8\<close>, \<open>u16\<close>, \<open>u32\<close> and \<open>u64\<close> are the unsigned types of
  \<open>cstdint\<close>; \<open>int32_t\<close> and \<open>int64_t\<close> values are the same words read with
  \<open>sint\<close>.  A \<open>size_t\<close> that counts elements held in memory is a \<open>nat\<close>.
  \<open>'a ub\<close> is the result of code that reads raw memory through a pointer: \<open>None\<close>
  is an access outside the object, which C++ leaves undefined.
\<close>

unbundle bit_operations_syntax

type_synonym u8 = "8 word"
type_synonym u16 = "16 word"
type_synonym u32 = "32 word"
type_synonym u64 = "64 word"
type_synonym 'a ub = "'a option"

named_theorems bits_simps \<open>sizes and bit reads of the packed bit stores\<close>
named_theorems column_simps \<open>what the operations of a column do to each of its parts\<close>
named_theorems bytes_simps \<open>lengths and contents of encoded byte strings\<close>

section \<open>Lists\<close>

text \<open>\<open>std::vector::resize(n, x)\<close>: cut, or pad with copies of \<open>x\<close>.\<close>

definition vec_resize :: "nat \<Rightarrow> 'a \<Rightarrow> 'a list \<Rightarrow> 'a list" where
  "vec_resize n x xs = take n xs @ replicate (n - length xs) x"

lemma length_vec_resize [simp]: "length (vec_resize n x xs) = n"
  by (simp add: vec_resize_def)

lemma nth_vec_resize:
  "i < n \<Longrightarrow> vec_resize n x xs ! i = (if i < length xs then xs ! i else x)"
  by (auto simp: vec_resize_def nth_append)

lemma vec_resize_same [simp]: "vec_resize (length xs) x xs = xs"
  by (simp add: vec_resize_def)

lemma vec_resize_Suc [simp]: "vec_resize (Suc (length xs)) x xs = xs @ [x]"
  by (simp add: vec_resize_def)

lemma vec_resize_append [simp]: "vec_resize (length xs + n) x xs = xs @ replicate n x"
  by (simp add: vec_resize_def)

lemma vec_resize_grow: "length xs = n \<Longrightarrow> vec_resize (n + k) x xs = xs @ replicate k x"
  by auto

lemma take_drop_nth: "i < length xs \<Longrightarrow> take 1 (drop i xs) = [xs ! i]"
  by (induction xs arbitrary: i) (auto simp: nth_Cons split: nat.splits)

lemma ex_less_Suc_iff: "(\<exists>i<Suc n. P i) \<longleftrightarrow> P n \<or> (\<exists>i<n. P i)"
  using less_Suc_eq by auto

lemma ceil64_le: "i < bits \<Longrightarrow> i div 64 < (bits + 63) div (64 :: nat)"
  by (simp add: div_less_iff_less_mult)

section \<open>Counted loops\<close>

text \<open>\<open>for (i = lo; i < hi; ++i) s = f(i, s)\<close>\<close>

definition for_loop :: "nat \<Rightarrow> nat \<Rightarrow> (nat \<Rightarrow> 's \<Rightarrow> 's) \<Rightarrow> 's \<Rightarrow> 's" where
  "for_loop lo hi f s = fold f [lo..<hi] s"

lemma for_loop_empty [simp]: "hi \<le> lo \<Longrightarrow> for_loop lo hi f s = s"
  by (simp add: for_loop_def)

lemma for_loop_Suc: "lo \<le> hi \<Longrightarrow> for_loop lo (Suc hi) f s = f hi (for_loop lo hi f s)"
  by (simp add: for_loop_def)

lemma for_loop_step: "lo < hi \<Longrightarrow> for_loop lo hi f s = for_loop (Suc lo) hi f (f lo s)"
  by (simp add: for_loop_def upt_conv_Cons)

lemma for_loop_split:
  "lo \<le> mid \<Longrightarrow> mid \<le> hi \<Longrightarrow> for_loop lo hi f s = for_loop mid hi f (for_loop lo mid f s)"
  using upt_add_eq_append [of lo mid "hi - mid"] by (simp add: for_loop_def)

lemma for_loop_cong:
  "(\<And>i t. lo \<le> i \<Longrightarrow> i < hi \<Longrightarrow> f i t = g i t) \<Longrightarrow> for_loop lo hi f s = for_loop lo hi g s"
  unfolding for_loop_def by (rule fold_cong) auto

lemma for_loop_inv:
  assumes "P lo s" and "lo \<le> hi"
    and "\<And>i t. lo \<le> i \<Longrightarrow> i < hi \<Longrightarrow> P i t \<Longrightarrow> P (Suc i) (f i t)"
  shows "P hi (for_loop lo hi f s)"
  using assms(2,3)
proof (induction hi rule: dec_induct)
  case base
  with assms(1) show ?case by simp
next
  case (step n)
  then show ?case by (simp add: for_loop_Suc)
qed

section \<open>Little-endian memory\<close>

fun le_bytes :: "nat \<Rightarrow> 'a::len word \<Rightarrow> u8 list" where
  "le_bytes 0 w = []"
| "le_bytes (Suc n) w = ucast w # le_bytes n (drop_bit 8 w)"

fun le_word :: "u8 list \<Rightarrow> 'a::len word" where
  "le_word [] = 0"
| "le_word (b # bs) = ucast b OR push_bit 8 (le_word bs)"

lemma length_le_bytes [simp, bytes_simps]: "length (le_bytes n w) = n"
  by (induction n arbitrary: w) auto

lemma le_word_le_bytes: "le_word (le_bytes n w) = take_bit (8 * n) w"
proof (induction n arbitrary: w)
  case 0
  show ?case by simp
next
  case (Suc n)
  show ?case
    by (rule bit_word_eqI)
       (use Suc in \<open>auto simp: bit_simps\<close>)
qed

lemma le_word_le_bytes_full:
  "8 * n \<ge> LENGTH('a) \<Longrightarrow> le_word (le_bytes n (w :: 'a::len word)) = w"
  by (simp add: le_word_le_bytes take_bit_word_eq_self)

text \<open>An array of \<open>n\<close>-byte integers, and the element a pointer cast reads from it.\<close>

definition le_array :: "nat \<Rightarrow> 'a::len word list \<Rightarrow> u8 list" where
  "le_array n ws = concat (map (le_bytes n) ws)"

definition rd :: "nat \<Rightarrow> u8 list \<Rightarrow> nat \<Rightarrow> 'a::len word ub" where
  "rd n bs i = (if n * i + n \<le> length bs then Some (le_word (take n (drop (n * i) bs))) else None)"

lemma le_array_Nil [simp]: "le_array n [] = []"
  and le_array_Cons [simp]: "le_array n (w # ws) = le_bytes n w @ le_array n ws"
  and le_array_append: "le_array n (ws @ vs) = le_array n ws @ le_array n vs"
  by (simp_all add: le_array_def)

lemma length_le_array [simp, bytes_simps]: "length (le_array n ws) = n * length ws"
  by (induction ws) auto

lemma take_drop_le_array:
  "i < length ws \<Longrightarrow> take n (drop (n * i) (le_array n ws)) = le_bytes n (ws ! i)"
proof (induction ws arbitrary: i)
  case Nil
  then show ?case by simp
next
  case (Cons w ws)
  then show ?case by (cases i) (auto simp: add.commute)
qed

lemma rd_le_array:
  fixes ws :: "'a::len word list"
  assumes "i < length ws" and "8 * n \<ge> LENGTH('a)"
  shows "rd n (le_array n ws @ rest) i = Some (ws ! i)"
proof -
  have "n * Suc i \<le> n * length ws"
    using assms(1) by (intro mult_le_mono2) simp
  then have fits: "n * i + n \<le> length (le_array n ws)" by simp
  have "take n (drop (n * i) (le_array n ws @ rest)) = take n (drop (n * i) (le_array n ws))"
    using fits by simp
  with assms fits show ?thesis
    by (simp add: rd_def take_drop_le_array le_word_le_bytes_full)
qed

text \<open>\<open>memcpy\<close> of \<open>n\<close>-byte integers out of a buffer: all of them.\<close>

fun le_words :: "nat \<Rightarrow> nat \<Rightarrow> u8 list \<Rightarrow> 'a::len word list" where
  "le_words n 0 bs = []"
| "le_words n (Suc k) bs = le_word (take n bs) # le_words n k (drop n bs)"

lemma length_le_words [simp]: "length (le_words n k bs) = k"
  by (induction k arbitrary: bs) auto

lemma le_words_le_array:
  fixes ws :: "'a::len word list"
  assumes "8 * n \<ge> LENGTH('a)"
  shows "le_words n (length ws) (le_array n ws @ rest) = ws"
  by (induction ws) (auto simp: le_word_le_bytes_full assms)

end
