(* ===== verification/Float64.thy ===== *)
theory Float64
  imports Prelude
begin

text \<open>
  The C++ \<open>double\<close>: IEEE 754 binary64 by its bit pattern, round to nearest even.
  The engine keeps column statistics, aggregates and query constants as doubles, so
  comparisons (with NaN and signed zeros), conversions from integers, sums,
  differences and quotients are modelled on the bits, executable, with no
  approximation by reals.  This theory models the language, not the repository; its
  definitions are not mapped to source lines.
\<close>

type_synonym f64 = u64

section \<open>Fields and classes\<close>

definition f64_neg :: "f64 \<Rightarrow> bool" where
  "f64_neg x = bit x 63"

definition f64_mag :: "f64 \<Rightarrow> nat" where
  "f64_mag x = unat x mod 2 ^ 63"

definition f64_inf_mag :: nat where
  "f64_inf_mag = 2047 * 2 ^ 52"

definition f64_nan :: "f64 \<Rightarrow> bool" where
  "f64_nan x \<longleftrightarrow> f64_mag x > f64_inf_mag"

definition f64_inf :: "f64 \<Rightarrow> bool" where
  "f64_inf x \<longleftrightarrow> f64_mag x = f64_inf_mag"

text \<open>
  Away from NaN the order of doubles is the order of their magnitudes with the sign
  put back; the two zeros get the same key.
\<close>

definition f64_key :: "f64 \<Rightarrow> int" where
  "f64_key x = (if f64_neg x then - int (f64_mag x) else int (f64_mag x))"

definition f64_lt :: "f64 \<Rightarrow> f64 \<Rightarrow> bool" where
  "f64_lt x y \<longleftrightarrow> \<not> f64_nan x \<and> \<not> f64_nan y \<and> f64_key x < f64_key y"

definition f64_eq :: "f64 \<Rightarrow> f64 \<Rightarrow> bool" where
  "f64_eq x y \<longleftrightarrow> \<not> f64_nan x \<and> \<not> f64_nan y \<and> f64_key x = f64_key y"

definition f64_le :: "f64 \<Rightarrow> f64 \<Rightarrow> bool" where
  "f64_le x y \<longleftrightarrow> \<not> f64_nan x \<and> \<not> f64_nan y \<and> f64_key x \<le> f64_key y"

abbreviation f64_gt :: "f64 \<Rightarrow> f64 \<Rightarrow> bool" where
  "f64_gt x y \<equiv> f64_lt y x"

abbreviation f64_ge :: "f64 \<Rightarrow> f64 \<Rightarrow> bool" where
  "f64_ge x y \<equiv> f64_le y x"

abbreviation f64_ne :: "f64 \<Rightarrow> f64 \<Rightarrow> bool" where
  "f64_ne x y \<equiv> \<not> f64_eq x y"

lemmas f64_cmp_defs = f64_lt_def f64_eq_def f64_le_def

lemma f64_le_iff: "f64_le x y \<longleftrightarrow> f64_eq x y \<or> f64_lt x y"
  by (auto simp: f64_cmp_defs)

lemma f64_le_trans: "f64_le x y \<Longrightarrow> f64_le y z \<Longrightarrow> f64_le x z"
  and f64_lt_le_trans: "f64_lt x y \<Longrightarrow> f64_le y z \<Longrightarrow> f64_lt x z"
  and f64_le_lt_trans: "f64_le x y \<Longrightarrow> f64_lt y z \<Longrightarrow> f64_lt x z"
  by (auto simp: f64_cmp_defs)

lemma f64_not_lt: "\<not> f64_nan x \<Longrightarrow> \<not> f64_nan y \<Longrightarrow> \<not> f64_lt x y \<longleftrightarrow> f64_le y x"
  by (auto simp: f64_cmp_defs)

lemma f64_le_refl: "\<not> f64_nan x \<Longrightarrow> f64_le x x"
  by (simp add: f64_le_def)

lemma f64_nan_cmp [simp]:
  "f64_nan x \<Longrightarrow> \<not> f64_lt x y" "f64_nan y \<Longrightarrow> \<not> f64_lt x y"
  "f64_nan x \<Longrightarrow> \<not> f64_le x y" "f64_nan y \<Longrightarrow> \<not> f64_le x y"
  "f64_nan x \<Longrightarrow> \<not> f64_eq x y" "f64_nan y \<Longrightarrow> \<not> f64_eq x y"
  by (auto simp: f64_cmp_defs)

section \<open>Rounding\<close>

fun bit_len :: "nat \<Rightarrow> nat" where
  "bit_len n = (if n = 0 then 0 else Suc (bit_len (n div 2)))"

declare bit_len.simps [simp del]

lemma bit_len_0 [simp]: "bit_len 0 = 0"
  by (simp add: bit_len.simps)

lemma bit_len_pos: "0 < n \<Longrightarrow> bit_len n = Suc (bit_len (n div 2))"
  by (simp add: bit_len.simps [of n])

lemma bit_len_lower: "0 < n \<Longrightarrow> 2 ^ (bit_len n - 1) \<le> n"
proof (induction n rule: bit_len.induct)
  case (1 n)
  show ?case
  proof (cases "n div 2 = 0")
    case True
    with 1 show ?thesis by (simp add: bit_len_pos)
  next
    case False
    then have "2 ^ (bit_len (n div 2) - 1) \<le> n div 2"
      using 1 by simp
    moreover have "bit_len n - 1 = Suc (bit_len (n div 2) - 1)"
      using False 1(2) by (simp add: bit_len_pos bit_len.simps [of "n div 2"])
    ultimately show ?thesis by simp
  qed
qed

lemma bit_len_upper: "n < 2 ^ bit_len n"
proof (induction n rule: bit_len.induct)
  case (1 n)
  show ?case
    by (cases "n = 0") (use 1 in \<open>auto simp: bit_len_pos\<close>)
qed

text \<open>The quotient \<open>a / b\<close> to the nearest integer, ties to even.\<close>

definition rne_div :: "nat \<Rightarrow> nat \<Rightarrow> nat" where
  "rne_div a b =
     (let q = a div b; r = a mod b
      in if 2 * r > b \<or> (2 * r = b \<and> odd q) then Suc q else q)"

text \<open>
  The magnitude bits of \<open>n / d\<close> for \<open>n, d > 0\<close>: \<open>e\<close> is the exponent with
  \<open>2 ^ e \<le> n / d < 2 ^ (e + 1)\<close>, \<open>sh\<close> the weight of the last mantissa bit (not
  below the subnormal \<open>2 ^ -1074\<close>), and a mantissa that rounds up to \<open>2 ^ 53\<close>
  carries into the exponent field by the addition.
\<close>

definition pow_scale :: "nat \<Rightarrow> int \<Rightarrow> nat" where
  "pow_scale n k = n * 2 ^ nat k"

definition ratio_exponent :: "nat \<Rightarrow> nat \<Rightarrow> int" where
  "ratio_exponent n d =
     (let e0 = int (bit_len n) - int (bit_len d)
      in if pow_scale n (- e0) \<ge> pow_scale d e0 then e0 else e0 - 1)"

definition f64_round_mag :: "nat \<Rightarrow> nat \<Rightarrow> nat" where
  "f64_round_mag n d =
     (if n = 0 then 0
      else
        let sh = max (ratio_exponent n d - 52) (- 1074);
            m = rne_div (pow_scale n (- sh)) (pow_scale d sh);
            bits = nat (sh + 1074) * 2 ^ 52 + m
        in if bits \<ge> f64_inf_mag then f64_inf_mag else bits)"

definition f64_pack :: "bool \<Rightarrow> nat \<Rightarrow> f64" where
  "f64_pack s mag = of_nat (mag + (if s then 2 ^ 63 else 0))"

definition f64_of_ratio :: "bool \<Rightarrow> nat \<Rightarrow> nat \<Rightarrow> f64" where
  "f64_of_ratio s n d = f64_pack s (f64_round_mag n d)"

text \<open>\<open>static_cast<double>\<close> of signed and unsigned integers.\<close>

definition f64_of_int :: "int \<Rightarrow> f64" where
  "f64_of_int i = f64_of_ratio (i < 0) (nat \<bar>i\<bar>) 1"

definition f64_of_u64 :: "u64 \<Rightarrow> f64" where
  "f64_of_u64 w = f64_of_int (uint w)"

abbreviation f64_of_i64 :: "u64 \<Rightarrow> f64" where
  "f64_of_i64 w \<equiv> f64_of_int (sint w)"

abbreviation f64_of_i32 :: "u32 \<Rightarrow> f64" where
  "f64_of_i32 w \<equiv> f64_of_int (sint w)"

section \<open>Arithmetic\<close>

definition f64_quiet_nan :: f64 where
  "f64_quiet_nan = 0x7FF8000000000000"

definition f64_infinity :: "bool \<Rightarrow> f64" where
  "f64_infinity s = f64_pack s f64_inf_mag"

text \<open>A finite double is \<open>mant * 2 ^ expo\<close> with its sign.\<close>

definition f64_expo :: "f64 \<Rightarrow> int" where
  "f64_expo x = (let e = f64_mag x div 2 ^ 52 in if e = 0 then - 1074 else int e - 1075)"

definition f64_mant :: "f64 \<Rightarrow> nat" where
  "f64_mant x =
     (let e = f64_mag x div 2 ^ 52; f = f64_mag x mod 2 ^ 52 in if e = 0 then f else f + 2 ^ 52)"

definition f64_smant :: "f64 \<Rightarrow> int" where
  "f64_smant x = (if f64_neg x then - int (f64_mant x) else int (f64_mant x))"

definition f64_negate :: "f64 \<Rightarrow> f64" where
  "f64_negate x = x XOR push_bit 63 1"

definition f64_add :: "f64 \<Rightarrow> f64 \<Rightarrow> f64" where
  "f64_add x y =
     (if f64_nan x \<or> f64_nan y then f64_quiet_nan
      else if f64_inf x then (if f64_inf y \<and> f64_neg x \<noteq> f64_neg y then f64_quiet_nan else x)
      else if f64_inf y then y
      else
        let s = min (f64_expo x) (f64_expo y);
            m = f64_smant x * 2 ^ nat (f64_expo x - s) + f64_smant y * 2 ^ nat (f64_expo y - s)
        in if m = 0 then (if f64_neg x \<and> f64_neg y then f64_pack True 0 else 0)
           else f64_of_ratio (m < 0) (pow_scale (nat \<bar>m\<bar>) s) (pow_scale 1 (- s)))"

definition f64_sub :: "f64 \<Rightarrow> f64 \<Rightarrow> f64" where
  "f64_sub x y = f64_add x (f64_negate y)"

definition f64_mul :: "f64 \<Rightarrow> f64 \<Rightarrow> f64" where
  "f64_mul x y =
     (let s = (f64_neg x \<noteq> f64_neg y) in
      if f64_nan x \<or> f64_nan y then f64_quiet_nan
      else if f64_inf x \<or> f64_inf y then
        (if f64_mag x = 0 \<or> f64_mag y = 0 then f64_quiet_nan else f64_infinity s)
      else
        let e = f64_expo x + f64_expo y
        in f64_of_ratio s (pow_scale (f64_mant x * f64_mant y) e) (pow_scale 1 (- e)))"

definition f64_div :: "f64 \<Rightarrow> f64 \<Rightarrow> f64" where
  "f64_div x y =
     (let s = (f64_neg x \<noteq> f64_neg y) in
      if f64_nan x \<or> f64_nan y \<or> (f64_inf x \<and> f64_inf y) \<or> (f64_mag x = 0 \<and> f64_mag y = 0)
      then f64_quiet_nan
      else if f64_inf x \<or> f64_mag y = 0 then f64_infinity s
      else if f64_inf y then f64_pack s 0
      else
        let e = f64_expo x - f64_expo y
        in f64_of_ratio s (pow_scale (f64_mant x) e) (pow_scale (f64_mant y) (- e)))"

text \<open>
  The integer part of a finite non-negative double, for \<open>static_cast<uint64_t>\<close> and
  \<open>static_cast<uint32_t>\<close> of values in range.
\<close>

definition f64_trunc :: "f64 \<Rightarrow> nat" where
  "f64_trunc x = pow_scale (f64_mant x) (f64_expo x) div pow_scale 1 (- f64_expo x)"

end
