(* ===== verification/Hash.thy ===== *)
theory Hash
  imports Prelude
begin

text \<open>
  \<open>engine/src/hash.cpp\<close> (FNV-1a), the field types of \<open>engine/include/mimicdb/types.h\<close>
  and the schema of \<open>engine/src/schema.cpp\<close> with its fingerprint.  A fingerprint
  hashes the number of fields and then every name and type in order; the segment
  reader refuses a file whose fingerprint differs from the expected one.
\<close>

section \<open>FNV-1a\<close>

definition kFnvOffsetBasis :: u64 where
  "kFnvOffsetBasis = 14695981039346656037"

definition kFnvPrime :: u64 where
  "kFnvPrime = 1099511628211"

fun HashBytes :: "u64 \<Rightarrow> u8 list \<Rightarrow> u64" where
  "HashBytes hash [] = hash"
| "HashBytes hash (b # bs) = HashBytes ((hash XOR ucast b) * kFnvPrime) bs"

definition HashString :: "u64 \<Rightarrow> u8 list \<Rightarrow> u64" where
  "HashString hash s = HashBytes hash s"

definition HashValue :: "u64 \<Rightarrow> u8 list \<Rightarrow> u64" where
  "HashValue hash bytes = HashBytes hash bytes"

definition HashInit :: u64 where
  "HashInit = kFnvOffsetBasis"

lemma HashBytes_append: "HashBytes h (xs @ ys) = HashBytes (HashBytes h xs) ys"
  by (induction xs arbitrary: h) auto

text \<open>
  The prime is odd, so multiplication by it is a bijection of the 64-bit words and no
  step of the hash loses information: from the digest and the bytes, the seed is
  determined, and two inputs that differ in exactly one byte never collide.
\<close>

definition kFnvPrimeInv :: u64 where
  "kFnvPrimeInv = 14886173955864302971"

lemma kFnvPrime_inverse: "kFnvPrime * kFnvPrimeInv = 1"
  by (simp add: kFnvPrime_def kFnvPrimeInv_def)

lemma kFnvPrime_cancel: "a * kFnvPrime = b * kFnvPrime \<longleftrightarrow> a = b"
proof
  assume "a * kFnvPrime = b * kFnvPrime"
  then have "a * (kFnvPrime * kFnvPrimeInv) = b * (kFnvPrime * kFnvPrimeInv)"
    by (metis mult.assoc)
  then show "a = b" by (simp add: kFnvPrime_inverse)
qed simp

lemma xor_cancel_right: "(a :: 'a::len word) XOR c = b XOR c \<longleftrightarrow> a = b"
  by (metis xor.assoc xor_self_eq xor.right_neutral)

lemma xor_cancel_left: "(c :: 'a::len word) XOR a = c XOR b \<longleftrightarrow> a = b"
  by (metis xor.assoc xor_self_eq xor.left_neutral)

lemma ucast_u8_u64_inject: "(ucast (a :: u8) :: u64) = ucast b \<longleftrightarrow> a = b"
proof -
  have "(ucast (ucast w :: u64) :: u8) = w" for w :: u8
    by (rule bit_word_eqI) (simp add: bit_simps)
  then show ?thesis by metis
qed

lemma HashBytes_seed_inject: "HashBytes h xs = HashBytes h' xs \<longleftrightarrow> h = h'"
  by (induction xs arbitrary: h h') (simp_all add: kFnvPrime_cancel xor_cancel_right)

section \<open>Field types and schemas\<close>

datatype field_type =
    kInt32 | kInt64 | kFloat64 | kBool | kDictInt32 | kString | kBytes | kArray | kObject
  | kVectorFloat32

fun type_code :: "field_type \<Rightarrow> nat" where
  "type_code kInt32 = 0"
| "type_code kInt64 = 1"
| "type_code kFloat64 = 2"
| "type_code kBool = 3"
| "type_code kDictInt32 = 4"
| "type_code kString = 5"
| "type_code kBytes = 6"
| "type_code kArray = 7"
| "type_code kObject = 8"
| "type_code kVectorFloat32 = 9"

definition type_byte :: "field_type \<Rightarrow> u8" where
  "type_byte t = of_nat (type_code t)"

lemma type_code_less: "type_code t < 10"
  by (cases t) auto

lemma type_code_inject: "type_code s = type_code t \<longleftrightarrow> s = t"
  by (cases s; cases t) auto

lemma type_byte_inject: "type_byte s = type_byte t \<longleftrightarrow> s = t"
  by (cases s; cases t) (auto simp: type_byte_def)

text \<open>The columns that keep a length per row and the bytes of all rows.\<close>

definition is_varlen :: "field_type \<Rightarrow> bool" where
  "is_varlen t \<longleftrightarrow> t = kString \<or> t = kBytes \<or> t = kArray \<or> t = kVectorFloat32"

lemma is_varlen_simps [simp]:
  "\<not> is_varlen kInt32" "\<not> is_varlen kInt64" "\<not> is_varlen kFloat64" "\<not> is_varlen kBool"
  "\<not> is_varlen kDictInt32" "is_varlen kString" "is_varlen kBytes" "is_varlen kArray"
  "\<not> is_varlen kObject" "is_varlen kVectorFloat32"
  by (simp_all add: is_varlen_def)

record schema_field =
  sf_name :: "u8 list"
  sf_type :: field_type

record schema =
  sch_fields :: "schema_field list"

text \<open>The bytes a schema feeds to the hash, and the fingerprint as the code folds it.\<close>

definition fingerprint_step :: "schema_field \<Rightarrow> u64 \<Rightarrow> u64" where
  "fingerprint_step f hash = HashValue (HashString hash (sf_name f)) [type_byte (sf_type f)]"

definition Fingerprint :: "schema \<Rightarrow> u64" where
  "Fingerprint s =
     (let hash = HashValue HashInit (le_bytes 8 (of_nat (length (sch_fields s)) :: u64))
      in fold fingerprint_step (sch_fields s) hash)"

definition schema_bytes :: "schema \<Rightarrow> u8 list" where
  "schema_bytes s =
     le_bytes 8 (of_nat (length (sch_fields s)) :: u64) @
     concat (map (\<lambda>f. sf_name f @ [type_byte (sf_type f)]) (sch_fields s))"

lemma fold_fingerprint_step:
  "fold fingerprint_step fs h = HashBytes h (concat (map (\<lambda>f. sf_name f @ [type_byte (sf_type f)]) fs))"
  by (induction fs arbitrary: h)
     (simp_all add: fingerprint_step_def HashString_def HashValue_def HashBytes_append)

lemma Fingerprint_bytes: "Fingerprint s = HashBytes kFnvOffsetBasis (schema_bytes s)"
  by (simp add: Fingerprint_def schema_bytes_def fold_fingerprint_step HashBytes_append
      HashInit_def HashValue_def)

lemma HashBytes_differs: "x \<noteq> y \<Longrightarrow> HashBytes h (xs @ x # ys) \<noteq> HashBytes h (xs @ y # ys)"
  by (simp add: HashBytes_append HashBytes_seed_inject kFnvPrime_cancel xor_cancel_left
      ucast_u8_u64_inject)

lemma HashBytes_update_differs:
  assumes "i < length bs" and "b \<noteq> bs ! i"
  shows "HashBytes h (bs[i := b]) \<noteq> HashBytes h bs"
proof -
  have "HashBytes h (take i bs @ b # drop (Suc i) bs) \<noteq> HashBytes h (take i bs @ bs ! i # drop (Suc i) bs)"
    using assms(2) by (rule HashBytes_differs)
  then show ?thesis using assms(1) by (simp add: upd_conv_take_nth_drop flip: id_take_nth_drop)
qed

text \<open>
  FNV-1a never maps two byte strings that differ in exactly one byte to one digest,
  whatever the seed and the surrounding bytes.
\<close>
theorem HashBytes_one_byte_differs:
  "x \<noteq> y \<Longrightarrow> HashBytes h (xs @ x # ys) \<noteq> HashBytes h (xs @ y # ys)"
  by (rule HashBytes_differs)

theorem HashBytes_one_byte_differs_witness:
  "HashBytes HashInit [97, 98, 99] \<noteq> HashBytes HashInit [97, 120, 99]"
  using HashBytes_one_byte_differs [of 98 120 HashInit "[97]" "[99]"] by simp

end
