(* ===== verification/Bits.thy ===== *)
theory Bits
  imports Prelude
begin

text \<open>
  The three bit stores of the engine: \<open>Bitmap\<close> (\<open>engine/src/bitmap.cpp\<close>: the
  validity of a column), \<open>Mask\<close> and \<open>PackedMask\<close> (\<open>engine/src/mask.cpp\<close>: the rows
  a predicate selects).  Each packs bits into 64-bit words.  The classes have the same
  reads and writes but differ in \<open>Resize\<close>: a bitmap keeps its words, a mask is zeroed.

  \<open>std::vector::operator[]\<close> is the list access; each store has an invariant that
  says its words cover its bits, under which no access is out of range, and every
  operation but \<open>LoadWords\<close> keeps it.

  The interface of the three is the locale \<open>bit_store\<close>: what a read returns after a
  write.  Its lemma on the loop that sets a range of bits carries every builder below.
\<close>

section \<open>Words\<close>

definition kWordBits :: nat where
  "kWordBits = 64"

definition word_count_for :: "nat \<Rightarrow> nat" where
  "word_count_for bits = (bits + kWordBits - 1) div kWordBits"

definition words_get :: "u64 list \<Rightarrow> nat \<Rightarrow> bool" where
  "words_get ws index = (drop_bit (index mod kWordBits) (ws ! (index div kWordBits)) AND 1 = 1)"

definition words_set :: "u64 list \<Rightarrow> nat \<Rightarrow> bool \<Rightarrow> u64 list" where
  "words_set ws index value =
     (let word_index = index div kWordBits;
          mask = push_bit (index mod kWordBits) 1
      in if value then ws[word_index := ws ! word_index OR mask]
         else ws[word_index := ws ! word_index AND NOT mask])"

lemma words_get_bit: "words_get ws i = bit (ws ! (i div 64)) (i mod 64)"
  by (simp add: words_get_def kWordBits_def bit_iff_odd_drop_bit and_one_eq odd_iff_mod_2_eq_one)

lemma length_words_set [simp]: "length (words_set ws i v) = length ws"
  by (simp add: words_set_def Let_def)

lemma words_get_set:
  assumes "i div 64 < length ws"
  shows "words_get (words_set ws i v) j = (if j = i then v else words_get ws j)"
proof (cases "j div 64 = i div 64")
  case True
  have "j = i \<longleftrightarrow> j mod 64 = i mod 64"
    using True by (metis div_mod_decomp)
  moreover have "i mod 64 < 64" "j mod 64 < 64" by simp_all
  ultimately show ?thesis
    using True assms
    by (auto simp: words_get_bit words_set_def kWordBits_def Let_def bit_simps)
next
  case False
  then show ?thesis
    by (auto simp: words_get_bit words_set_def kWordBits_def Let_def)
qed

lemma word_count_for_eq: "word_count_for bits = (bits + 63) div 64"
  by (simp add: word_count_for_def kWordBits_def)

lemma word_index_bound: "i < bits \<Longrightarrow> i div 64 < word_count_for bits"
  unfolding word_count_for_eq by (rule ceil64_le)

lemma words_get_replicate [simp]:
  "i div 64 < n \<Longrightarrow> words_get (replicate n 0) i = False"
  by (simp add: words_get_bit)

section \<open>The interface\<close>

locale bit_store =
  fixes get :: "'s \<Rightarrow> nat \<Rightarrow> bool"
    and set_bit :: "'s \<Rightarrow> nat \<Rightarrow> bool \<Rightarrow> 's"
    and bits :: "'s \<Rightarrow> nat"
    and invar :: "'s \<Rightarrow> bool"
  assumes get_out: "bits s \<le> i \<Longrightarrow> \<not> get s i"
    and set_out: "bits s \<le> i \<Longrightarrow> set_bit s i v = s"
    and bits_set: "bits (set_bit s i v) = bits s"
    and get_set: "invar s \<Longrightarrow> i < bits s \<Longrightarrow> get (set_bit s i v) j = (if j = i then v else get s j)"
    and invar_set: "invar s \<Longrightarrow> invar (set_bit s i v)"
begin

lemma get_bound: "get s i \<Longrightarrow> i < bits s"
  using get_out not_le by blast

lemma bits_loop: "bits (for_loop lo hi (\<lambda>i s. set_bit s (g i) (f i)) s) = bits s"
proof (cases "lo \<le> hi")
  case True
  then show ?thesis
    by (induction hi rule: dec_induct) (simp_all add: for_loop_Suc bits_set)
qed simp

lemma invar_loop: "invar s \<Longrightarrow> invar (for_loop lo hi (\<lambda>i s. set_bit s (g i) (f i)) s)"
proof (cases "lo \<le> hi")
  case True
  assume "invar s"
  with True show ?thesis
    by (induction hi rule: dec_induct) (simp_all add: for_loop_Suc invar_set)
qed simp

text \<open>Setting the bits \<open>start + i\<close> for \<open>i\<close> below \<open>count\<close>, in order.\<close>

lemma get_range_loop:
  assumes "invar s" and "start + count \<le> bits s"
  shows "get (for_loop 0 count (\<lambda>i s. set_bit s (start + i) (f i)) s) j =
         (if start \<le> j \<and> j < start + count then f (j - start) else get s j)"
  using assms(2)
proof (induction count)
  case 0
  then show ?case by auto
next
  case (Suc count)
  let ?t = "for_loop 0 count (\<lambda>i s. set_bit s (start + i) (f i)) s"
  have "get (set_bit ?t (start + count) (f count)) j =
        (if j = start + count then f count else get ?t j)"
    using Suc.prems assms(1) by (intro get_set) (simp_all add: bits_loop invar_loop)
  with Suc show ?case by (auto simp: for_loop_Suc)
qed

lemma get_fill_loop:
  assumes "invar s" and "bits s = count"
  shows "get (for_loop 0 count (\<lambda>i s. set_bit s i (f i)) s) j = (j < count \<and> f j)"
  using get_range_loop [OF assms(1), of 0 count f j] assms(2) get_out [of s j]
  by auto

text \<open>Setting the bits from \<open>lo\<close> to \<open>hi\<close> by their own index.\<close>

lemma get_span_loop:
  assumes "invar s" and "lo \<le> hi" and "hi \<le> bits s"
  shows "get (for_loop lo hi (\<lambda>i s. set_bit s i (f i)) s) j =
         (if lo \<le> j \<and> j < hi then f j else get s j)"
  using assms(2,3)
proof (induction hi rule: dec_induct)
  case base
  then show ?case by auto
next
  case (step hi)
  let ?t = "for_loop lo hi (\<lambda>i s. set_bit s i (f i)) s"
  have "get (set_bit ?t hi (f hi)) j = (if j = hi then f hi else get ?t j)"
    using step.prems assms(1) by (intro get_set) (simp_all add: bits_loop [of lo hi "\<lambda>i. i"] invar_loop [of _ lo hi "\<lambda>i. i"])
  with step show ?case by (auto simp: for_loop_Suc)
qed

end

section \<open>Bitmap\<close>

record bitmap =
  bm_words :: "u64 list"
  bm_bit_count :: nat

definition bitmap_empty :: bitmap where
  "bitmap_empty = \<lparr>bm_words = [], bm_bit_count = 0\<rparr>"

definition bitmap_Resize :: "bitmap \<Rightarrow> nat \<Rightarrow> bitmap" where
  "bitmap_Resize b bits =
     b\<lparr>bm_words := vec_resize (word_count_for bits) 0 (bm_words b), bm_bit_count := bits\<rparr>"

definition bitmap_make :: "nat \<Rightarrow> bitmap" where
  "bitmap_make bits = bitmap_Resize bitmap_empty bits"

definition bitmap_Get :: "bitmap \<Rightarrow> nat \<Rightarrow> bool" where
  "bitmap_Get b index = (if index \<ge> bm_bit_count b then False else words_get (bm_words b) index)"

definition bitmap_Set :: "bitmap \<Rightarrow> nat \<Rightarrow> bool \<Rightarrow> bitmap" where
  "bitmap_Set b index value =
     (if index \<ge> bm_bit_count b then b
      else b\<lparr>bm_words := words_set (bm_words b) index value\<rparr>)"

definition bitmap_Size :: "bitmap \<Rightarrow> nat" where
  "bitmap_Size b = bm_bit_count b"

definition bitmap_Words :: "bitmap \<Rightarrow> u64 list" where
  "bitmap_Words b = bm_words b"

definition bitmap_WordCount :: "bitmap \<Rightarrow> nat" where
  "bitmap_WordCount b = length (bm_words b)"

text \<open>\<open>words\<close> is the list the pointer and the count describe.\<close>

definition bitmap_LoadWords :: "bitmap \<Rightarrow> u64 list \<Rightarrow> nat \<Rightarrow> bitmap" where
  "bitmap_LoadWords b words bit_count = b\<lparr>bm_words := words, bm_bit_count := bit_count\<rparr>"

definition bitmap_AppendAllTrue :: "bitmap \<Rightarrow> nat \<Rightarrow> bitmap" where
  "bitmap_AppendAllTrue b count =
     (let start = bm_bit_count b
      in for_loop 0 count (\<lambda>i b. bitmap_Set b (start + i) True)
           (bitmap_Resize b (bm_bit_count b + count)))"

definition bitmap_AppendBits :: "bitmap \<Rightarrow> u8 list \<Rightarrow> nat \<Rightarrow> bitmap" where
  "bitmap_AppendBits b validity count =
     (let start = bm_bit_count b
      in for_loop 0 count (\<lambda>i b. bitmap_Set b (start + i) (validity ! i \<noteq> 0))
           (bitmap_Resize b (bm_bit_count b + count)))"

definition bitmap_inv :: "bitmap \<Rightarrow> bool" where
  "bitmap_inv b \<longleftrightarrow> length (bm_words b) = word_count_for (bm_bit_count b)"

text \<open>The bits as a list: what a bitmap stands for.\<close>

definition bitmap_list :: "bitmap \<Rightarrow> bool list" where
  "bitmap_list b = map (bitmap_Get b) [0..<bm_bit_count b]"

interpretation bm: bit_store bitmap_Get bitmap_Set bm_bit_count bitmap_inv
proof unfold_locales
  fix s i v j
  assume inv: "bitmap_inv s" and i: "i < bm_bit_count s"
  have "i div 64 < length (bm_words s)"
    using inv i by (simp add: bitmap_inv_def word_index_bound)
  then show "bitmap_Get (bitmap_Set s i v) j = (if j = i then v else bitmap_Get s j)"
    using i by (simp add: bitmap_Get_def bitmap_Set_def words_get_set)
qed (auto simp: bitmap_Get_def bitmap_Set_def bitmap_inv_def)

lemma bitmap_Resize_count [simp, bits_simps]: "bm_bit_count (bitmap_Resize b n) = n"
  and bitmap_Set_count [simp, bits_simps]: "bm_bit_count (bitmap_Set b i v) = bm_bit_count b"
  and bitmap_empty_count [simp, bits_simps]: "bm_bit_count bitmap_empty = 0"
  by (simp_all add: bitmap_Resize_def bm.bits_set bitmap_empty_def)

lemma bitmap_inv_empty [simp]: "bitmap_inv bitmap_empty"
  and bitmap_inv_Resize [simp]: "bitmap_inv (bitmap_Resize b n)"
  by (simp_all add: bitmap_inv_def bitmap_empty_def word_count_for_eq bitmap_Resize_def)

lemma bitmap_LoadWords_inv:
  "bitmap_inv (bitmap_LoadWords b ws n) \<longleftrightarrow> length ws = word_count_for n"
  by (simp add: bitmap_inv_def bitmap_LoadWords_def)

text \<open>
  Growing keeps the old bits.  Words added are zero, but the unused bits of the old last
  word come into range with whatever they hold: after a shrink they may be stale, so only
  the bits below the old size are known.
\<close>

lemma words_get_vec_resize:
  "i div 64 < n \<Longrightarrow> i div 64 < length ws \<Longrightarrow> words_get (vec_resize n 0 ws) i = words_get ws i"
  by (simp add: words_get_bit nth_vec_resize)

lemma bitmap_Get_Resize:
  assumes "bitmap_inv b" and "bm_bit_count b \<le> n" and "i < bm_bit_count b"
  shows "bitmap_Get (bitmap_Resize b n) i = bitmap_Get b i"
proof -
  have "i div 64 < length (bm_words b)" "i div 64 < word_count_for n"
    using assms word_index_bound [of i "bm_bit_count b"] word_index_bound [of i n]
    by (simp_all add: bitmap_inv_def)
  then show ?thesis
    using assms by (simp add: bitmap_Get_def bitmap_Resize_def words_get_vec_resize)
qed

lemma bitmap_append_loop:
  assumes "bitmap_inv b"
  shows "bitmap_Get (for_loop 0 count (\<lambda>i s. bitmap_Set s (bm_bit_count b + i) (f i))
           (bitmap_Resize b (bm_bit_count b + count))) j =
         (if j < bm_bit_count b then bitmap_Get b j
          else j < bm_bit_count b + count \<and> f (j - bm_bit_count b))"
proof (cases "j < bm_bit_count b + count")
  case True
  then show ?thesis
    using assms bm.get_range_loop [of "bitmap_Resize b (bm_bit_count b + count)" "bm_bit_count b" count f j]
    by (simp add: bitmap_Get_Resize)
next
  case False
  then show ?thesis by (simp add: bm.get_out bm.bits_loop)
qed

lemma bitmap_AppendAllTrue_count [simp, bits_simps]:
  "bm_bit_count (bitmap_AppendAllTrue b n) = bm_bit_count b + n"
  and bitmap_AppendBits_count [simp, bits_simps]:
  "bm_bit_count (bitmap_AppendBits b v n) = bm_bit_count b + n"
  by (simp_all add: bitmap_AppendAllTrue_def bitmap_AppendBits_def bm.bits_loop)

lemma bitmap_AppendAllTrue_inv [simp]: "bitmap_inv (bitmap_AppendAllTrue b n)"
  and bitmap_AppendBits_inv [simp]: "bitmap_inv (bitmap_AppendBits b v n)"
  by (simp_all add: bitmap_AppendAllTrue_def bitmap_AppendBits_def bm.invar_loop)

lemma bitmap_list_eqI:
  assumes "bm_bit_count b = length xs" and "\<And>i. i < length xs \<Longrightarrow> bitmap_Get b i = xs ! i"
  shows "bitmap_list b = xs"
  using assms by (auto simp: bitmap_list_def intro: nth_equalityI)

lemma length_bitmap_list [simp]: "length (bitmap_list b) = bm_bit_count b"
  by (simp add: bitmap_list_def)

lemma nth_bitmap_list [simp]: "i < bm_bit_count b \<Longrightarrow> bitmap_list b ! i = bitmap_Get b i"
  by (simp add: bitmap_list_def)

lemma bitmap_list_AppendAllTrue:
  "bitmap_inv b \<Longrightarrow> bitmap_list (bitmap_AppendAllTrue b n) = bitmap_list b @ replicate n True"
  by (rule bitmap_list_eqI)
     (auto simp: nth_append bitmap_AppendAllTrue_def bitmap_append_loop bm.bits_loop)

lemma bitmap_list_AppendBits:
  "bitmap_inv b \<Longrightarrow> length v = n \<Longrightarrow>
   bitmap_list (bitmap_AppendBits b v n) = bitmap_list b @ map (\<lambda>x. x \<noteq> 0) v"
  by (rule bitmap_list_eqI)
     (auto simp: nth_append bitmap_AppendBits_def bitmap_append_loop bm.bits_loop)

text \<open>Appending one bit: how every single-row append of a column records validity.\<close>

lemma bitmap_list_push:
  assumes "bitmap_inv b" and "n = Suc (bm_bit_count b)"
  shows "bitmap_list (bitmap_Set (bitmap_Resize b n) (bm_bit_count b) v) = bitmap_list b @ [v]"
  using assms by (intro bitmap_list_eqI) (auto simp: bm.get_set nth_append bitmap_Get_Resize)

lemma bitmap_inv_push [simp]: "bitmap_inv (bitmap_Set (bitmap_Resize b n) i v)"
  by (simp add: bm.invar_set)

text \<open>Giving a column that had no nulls a bitmap of ones.\<close>

lemma bitmap_list_all_true:
  "bitmap_list (for_loop 0 n (\<lambda>i s. bitmap_Set s i True) (bitmap_Resize b n)) = replicate n True"
  by (rule bitmap_list_eqI) (simp_all add: bm.bits_loop [of _ _ "\<lambda>i. i"] bm.get_fill_loop)

lemma bitmap_all_true_count [simp, bits_simps]:
  "bm_bit_count (for_loop 0 n (\<lambda>i s. bitmap_Set s i True) (bitmap_Resize b n)) = n"
  by (simp add: bm.bits_loop [of _ _ "\<lambda>i. i"])

lemma bitmap_all_true_inv [simp]:
  "bitmap_inv (for_loop 0 n (\<lambda>i s. bitmap_Set s i True) (bitmap_Resize b n))"
  by (simp add: bm.invar_loop [of _ _ _ "\<lambda>i. i"])

end
