(* ===== verification/Compare.thy ===== *)
theory Compare
  imports Float64
begin

text \<open>
  \<open>engine/src/predicate.cpp\<close>: the comparison operators on integers and doubles, their
  branchless versions, and the test that prunes a segment by the range of a column.
  \<open>engine/src/simd_predicate.cpp\<close>: the equality kernel.  \<open>uint8_t\<close> flags are words,
  so the branchless forms are the bit operations of the source.
\<close>

section \<open>Comparison\<close>

datatype compare_op = kEq | kNe | kLt | kLe | kGt | kGe

definition CompareInt64 :: "u64 \<Rightarrow> u64 \<Rightarrow> compare_op \<Rightarrow> bool" where
  "CompareInt64 left right op =
     (case op of
        kEq \<Rightarrow> left = right
      | kNe \<Rightarrow> left \<noteq> right
      | kLt \<Rightarrow> sint left < sint right
      | kLe \<Rightarrow> sint left \<le> sint right
      | kGt \<Rightarrow> sint left > sint right
      | kGe \<Rightarrow> sint left \<ge> sint right)"

definition CompareFloat64 :: "f64 \<Rightarrow> f64 \<Rightarrow> compare_op \<Rightarrow> bool" where
  "CompareFloat64 left right op =
     (case op of
        kEq \<Rightarrow> f64_eq left right
      | kNe \<Rightarrow> f64_ne left right
      | kLt \<Rightarrow> f64_lt left right
      | kLe \<Rightarrow> f64_le left right
      | kGt \<Rightarrow> f64_gt left right
      | kGe \<Rightarrow> f64_ge left right)"

text \<open>\<open>static_cast<uint8_t>\<close> of a \<open>bool\<close>.\<close>

definition flag :: "bool \<Rightarrow> u8" where
  "flag b = (if b then 1 else 0)"

definition select_flag :: "u8 \<Rightarrow> u8 \<Rightarrow> u8 \<Rightarrow> compare_op \<Rightarrow> u8" where
  "select_flag eq lt gt op =
     (let le = eq OR lt;
          ge = eq OR gt;
          ne = eq XOR 1;
          is_eq = flag (op = kEq);
          is_ne = flag (op = kNe);
          is_lt = flag (op = kLt);
          is_le = flag (op = kLe);
          is_gt = flag (op = kGt);
          is_ge = flag (op = kGe)
      in (eq AND is_eq) OR (ne AND is_ne) OR (lt AND is_lt) OR (le AND is_le) OR
         (gt AND is_gt) OR (ge AND is_ge))"

definition CompareInt64Branchless :: "u64 \<Rightarrow> u64 \<Rightarrow> compare_op \<Rightarrow> u8" where
  "CompareInt64Branchless left right op =
     select_flag (flag (left = right)) (flag (sint left < sint right))
       (flag (sint left > sint right)) op"

definition CompareFloat64Branchless :: "f64 \<Rightarrow> f64 \<Rightarrow> compare_op \<Rightarrow> u8" where
  "CompareFloat64Branchless left right op =
     select_flag (flag (f64_eq left right)) (flag (f64_lt left right))
       (flag (f64_gt left right)) op"

definition PredicateCanMatchRange :: "f64 \<Rightarrow> f64 \<Rightarrow> compare_op \<Rightarrow> f64 \<Rightarrow> bool" where
  "PredicateCanMatchRange mn mx op v =
     (case op of
        kEq \<Rightarrow> f64_ge v mn \<and> f64_le v mx
      | kNe \<Rightarrow> f64_ne mn mx \<or> f64_ne v mn
      | kLt \<Rightarrow> f64_lt mn v
      | kLe \<Rightarrow> f64_le mn v
      | kGt \<Rightarrow> f64_gt mx v
      | kGe \<Rightarrow> f64_ge mx v)"

definition PredicateInt64EqScalar :: "u64 list \<Rightarrow> u64 \<Rightarrow> u8 list" where
  "PredicateInt64EqScalar data v = map (\<lambda>x. flag (x = v)) data"

definition GetPredicateKernelInt64Eq :: "bool \<Rightarrow> u64 list \<Rightarrow> u64 \<Rightarrow> u8 list" where
  "GetPredicateKernelInt64Eq cpu_has_avx2 =
     (if cpu_has_avx2 then PredicateInt64EqScalar else PredicateInt64EqScalar)"

section \<open>The branchless forms compute the comparisons\<close>

lemma flag_simps [simp]: "flag True = 1" "flag False = 0" "flag b = 0 \<longleftrightarrow> \<not> b" "flag b = 1 \<longleftrightarrow> b"
  by (simp_all add: flag_def)

lemma flag_bits: "flag a OR flag b = flag (a \<or> b)" "flag a AND flag b = flag (a \<and> b)"
  "flag a XOR 1 = flag (\<not> a)"
  by (simp_all add: flag_def)

lemma select_flag_flags:
  "select_flag (flag e) (flag l) (flag g) op =
   flag (case op of kEq \<Rightarrow> e | kNe \<Rightarrow> \<not> e | kLt \<Rightarrow> l | kLe \<Rightarrow> e \<or> l | kGt \<Rightarrow> g | kGe \<Rightarrow> e \<or> g)"
  by (cases op) (simp_all add: select_flag_def Let_def flag_bits del: flag_simps(1,2))

lemma sint_le_iff: "sint (a :: u64) \<le> sint b \<longleftrightarrow> a = b \<or> sint a < sint b"
  by (metis order_le_less signed_word_eqI)

lemma CompareInt64_flag:
  "CompareInt64Branchless left right op = flag (CompareInt64 left right op)"
  by (cases op)
     (auto simp: CompareInt64Branchless_def CompareInt64_def select_flag_flags sint_le_iff
       intro!: arg_cong [where f = flag])

lemma CompareFloat64_flag:
  "CompareFloat64Branchless left right op = flag (CompareFloat64 left right op)"
  by (cases op)
     (auto simp: CompareFloat64Branchless_def CompareFloat64_def select_flag_flags f64_le_iff
       f64_eq_def intro!: arg_cong [where f = flag])

text \<open>
  For every operator the branchless comparisons are 1 when \<open>CompareInt64\<close>,
  respectively \<open>CompareFloat64\<close>, holds and 0 otherwise: on every pair of signed 64-bit
  integers, and on every pair of doubles, NaN and signed zeros included.
\<close>
theorem Branchless_comparisons_eq:
  "CompareInt64Branchless a b op = flag (CompareInt64 a b op) \<and>
   CompareFloat64Branchless x y op = flag (CompareFloat64 x y op)"
  by (simp add: CompareInt64_flag CompareFloat64_flag)

section \<open>Pruning by range is sound\<close>

lemma PredicateCanMatchRange_sound:
  assumes "f64_le mn x" and "f64_le x mx" and "CompareFloat64 x v op"
  shows "PredicateCanMatchRange mn mx op v"
  using assms
  by (cases op) (auto simp: PredicateCanMatchRange_def CompareFloat64_def f64_cmp_defs)

text \<open>
  With a NaN bound the range test answers no to every operator but \<open>kNe\<close>.
\<close>

lemma PredicateCanMatchRange_nan:
  "f64_nan mn \<Longrightarrow> f64_nan mx \<Longrightarrow> PredicateCanMatchRange mn mx op v \<longleftrightarrow> op = kNe"
  by (cases op) (auto simp: PredicateCanMatchRange_def)

end
