(* ===== verification/Masks.thy ===== *)
theory Masks
  imports Bits Compare
begin

text \<open>
  \<open>engine/src/mask.cpp\<close>: \<open>Mask\<close> and \<open>PackedMask\<close>, conjunction and disjunction of
  masks, and the builders that fill a mask from a predicate over a column.  A null data
  pointer or comparison function is \<open>None\<close>.

  A mask keeps the bits above its size zero (\<open>words_clean\<close>): \<open>Or\<close> of masks of different
  sizes and the word-wise row-id extraction read whole words and rely on it.
\<close>

section \<open>The two classes\<close>

record mask =
  mk_words :: "u64 list"
  mk_bit_count :: nat

record packed_mask =
  pm_words :: "u64 list"
  pm_bit_count :: nat

definition mask_Resize :: "mask \<Rightarrow> nat \<Rightarrow> mask" where
  "mask_Resize m bits = m\<lparr>mk_bit_count := bits, mk_words := replicate (word_count_for bits) 0\<rparr>"

definition mask_make :: "nat \<Rightarrow> mask" where
  "mask_make bits = mask_Resize \<lparr>mk_words = [], mk_bit_count = 0\<rparr> bits"

definition mask_Size :: "mask \<Rightarrow> nat" where
  "mask_Size m = mk_bit_count m"

definition mask_Get :: "mask \<Rightarrow> nat \<Rightarrow> bool" where
  "mask_Get m index = (if index \<ge> mk_bit_count m then False else words_get (mk_words m) index)"

definition mask_Set :: "mask \<Rightarrow> nat \<Rightarrow> bool \<Rightarrow> mask" where
  "mask_Set m index value =
     (if index \<ge> mk_bit_count m then m
      else m\<lparr>mk_words := words_set (mk_words m) index value\<rparr>)"

definition packed_Resize :: "packed_mask \<Rightarrow> nat \<Rightarrow> packed_mask" where
  "packed_Resize m bits = m\<lparr>pm_bit_count := bits, pm_words := replicate (word_count_for bits) 0\<rparr>"

definition packed_make :: "nat \<Rightarrow> packed_mask" where
  "packed_make bits = packed_Resize \<lparr>pm_words = [], pm_bit_count = 0\<rparr> bits"

definition packed_Size :: "packed_mask \<Rightarrow> nat" where
  "packed_Size m = pm_bit_count m"

definition packed_Get :: "packed_mask \<Rightarrow> nat \<Rightarrow> bool" where
  "packed_Get m index = (if index \<ge> pm_bit_count m then False else words_get (pm_words m) index)"

definition packed_Set :: "packed_mask \<Rightarrow> nat \<Rightarrow> bool \<Rightarrow> packed_mask" where
  "packed_Set m index value =
     (if index \<ge> pm_bit_count m then m
      else m\<lparr>pm_words := words_set (pm_words m) index value\<rparr>)"

definition packed_Words :: "packed_mask \<Rightarrow> u64 list" where
  "packed_Words m = pm_words m"

definition packed_WordCount :: "packed_mask \<Rightarrow> nat" where
  "packed_WordCount m = length (pm_words m)"

section \<open>Conjunction and disjunction\<close>

definition word_or_zero :: "u64 list \<Rightarrow> nat \<Rightarrow> u64" where
  "word_or_zero ws i = (if i < length ws then ws ! i else 0)"

definition mask_And :: "mask \<Rightarrow> mask \<Rightarrow> mask" where
  "mask_And left right =
     (let bits = (if mk_bit_count left < mk_bit_count right then mk_bit_count left
                  else mk_bit_count right);
          result = mask_make bits
      in result\<lparr>mk_words := map (\<lambda>i. word_or_zero (mk_words left) i AND word_or_zero (mk_words right) i)
                               [0..<length (mk_words result)]\<rparr>)"

definition mask_Or :: "mask \<Rightarrow> mask \<Rightarrow> mask" where
  "mask_Or left right =
     (let bits = (if mk_bit_count left > mk_bit_count right then mk_bit_count left
                  else mk_bit_count right);
          result = mask_make bits
      in result\<lparr>mk_words := map (\<lambda>i. word_or_zero (mk_words left) i OR word_or_zero (mk_words right) i)
                               [0..<length (mk_words result)]\<rparr>)"

section \<open>Builders\<close>

definition BuildMask :: "u64 list option \<Rightarrow> u64 \<Rightarrow> (u64 \<Rightarrow> u64 \<Rightarrow> bool) option \<Rightarrow> nat \<Rightarrow> mask" where
  "BuildMask data v compare count =
     (let m = mask_make count in
      case (data, compare) of
        (Some d, Some f) \<Rightarrow> for_loop 0 count (\<lambda>i m. mask_Set m i (f (d ! i) v)) m
      | _ \<Rightarrow> m)"

definition BuildMaskBranchless :: "u64 list option \<Rightarrow> u64 \<Rightarrow> compare_op \<Rightarrow> nat \<Rightarrow> mask" where
  "BuildMaskBranchless data v op count =
     (let m = mask_make count in
      case data of
        Some d \<Rightarrow> for_loop 0 count (\<lambda>i m. mask_Set m i (CompareInt64Branchless (d ! i) v op \<noteq> 0)) m
      | None \<Rightarrow> m)"

definition BuildMaskBranchlessFloat64 :: "f64 list option \<Rightarrow> f64 \<Rightarrow> compare_op \<Rightarrow> nat \<Rightarrow> mask" where
  "BuildMaskBranchlessFloat64 data v op count =
     (let m = mask_make count in
      case data of
        Some d \<Rightarrow> for_loop 0 count (\<lambda>i m. mask_Set m i (CompareFloat64Branchless (d ! i) v op \<noteq> 0)) m
      | None \<Rightarrow> m)"

definition PackMask :: "mask \<Rightarrow> packed_mask" where
  "PackMask m =
     for_loop 0 (mask_Size m) (\<lambda>i p. packed_Set p i (mask_Get m i)) (packed_make (mask_Size m))"

section \<open>Invariants\<close>

definition words_clean :: "u64 list \<Rightarrow> nat \<Rightarrow> bool" where
  "words_clean ws bits \<longleftrightarrow>
     length ws = word_count_for bits \<and> (\<forall>i. bits \<le> i \<longrightarrow> i div 64 < length ws \<longrightarrow> \<not> words_get ws i)"

definition mask_inv :: "mask \<Rightarrow> bool" where
  "mask_inv m \<longleftrightarrow> words_clean (mk_words m) (mk_bit_count m)"

definition packed_inv :: "packed_mask \<Rightarrow> bool" where
  "packed_inv m \<longleftrightarrow> words_clean (pm_words m) (pm_bit_count m)"

lemma words_clean_replicate: "words_clean (replicate (word_count_for n) 0) n"
  by (simp add: words_clean_def)

lemma words_clean_set: "words_clean ws n \<Longrightarrow> i < n \<Longrightarrow> words_clean (words_set ws i v) n"
  by (auto simp: words_clean_def words_get_set word_index_bound)

lemma words_clean_index: "words_clean ws n \<Longrightarrow> i < n \<Longrightarrow> i div 64 < length ws"
  by (simp add: words_clean_def word_index_bound)

interpretation mk: bit_store mask_Get mask_Set mk_bit_count mask_inv
  by unfold_locales
     (auto simp: mask_Get_def mask_Set_def mask_inv_def words_get_set words_clean_index words_clean_set)

interpretation pm: bit_store packed_Get packed_Set pm_bit_count packed_inv
  by unfold_locales
     (auto simp: packed_Get_def packed_Set_def packed_inv_def words_get_set words_clean_index
       words_clean_set)

lemma mask_make_count [simp, bits_simps]: "mk_bit_count (mask_make n) = n"
  and mask_Resize_count [simp, bits_simps]: "mk_bit_count (mask_Resize m n) = n"
  and packed_make_count [simp, bits_simps]: "pm_bit_count (packed_make n) = n"
  by (simp_all add: mask_make_def mask_Resize_def packed_make_def packed_Resize_def)

lemma mask_make_inv [simp]: "mask_inv (mask_make n)"
  and mask_Resize_inv [simp]: "mask_inv (mask_Resize m n)"
  and packed_make_inv [simp]: "packed_inv (packed_make n)"
  by (simp_all add: mask_make_def mask_Resize_def packed_make_def packed_Resize_def mask_inv_def
      packed_inv_def words_clean_replicate)

lemma mask_Get_make [simp]: "\<not> mask_Get (mask_make n) i"
  and packed_Get_make [simp]: "\<not> packed_Get (packed_make n) i"
  and mask_Get_Resize [simp]: "\<not> mask_Get (mask_Resize m n) i"
  by (simp_all add: mask_Get_def mask_make_def mask_Resize_def packed_Get_def packed_make_def
      packed_Resize_def word_index_bound)

text \<open>A loop that sets every bit of a fresh or resized mask by its index.\<close>

lemmas mask_fill =
  mk.get_fill_loop mk.bits_loop [of _ _ "\<lambda>i. i"] mk.invar_loop [of _ _ _ "\<lambda>i. i"]

lemma mask_Get_clean:
  "mask_inv m \<Longrightarrow> i div 64 < length (mk_words m) \<Longrightarrow> mask_Get m i = words_get (mk_words m) i"
  by (auto simp: mask_Get_def mask_inv_def words_clean_def)

lemma words_get_or_zero:
  "mask_inv m \<Longrightarrow> bit (word_or_zero (mk_words m) (i div 64)) (i mod 64) = mask_Get m i"
proof (cases "i div 64 < length (mk_words m)")
  case True
  assume "mask_inv m"
  with True show ?thesis
    by (simp add: mask_Get_clean word_or_zero_def words_get_bit)
next
  case False
  assume "mask_inv m"
  with False have "mk_bit_count m \<le> i"
    using words_clean_index [of "mk_words m" "mk_bit_count m" i] not_le
    by (auto simp: mask_inv_def)
  with False show ?thesis
    by (simp add: word_or_zero_def mk.get_out)
qed

section \<open>What the operations compute\<close>

lemma mask_And_count [simp]: "mk_bit_count (mask_And l r) = min (mk_bit_count l) (mk_bit_count r)"
  and mask_Or_count [simp]: "mk_bit_count (mask_Or l r) = max (mk_bit_count l) (mk_bit_count r)"
  by (simp_all add: mask_And_def mask_Or_def Let_def)

lemma mask_words_length: "mask_inv m \<Longrightarrow> length (mk_words m) = word_count_for (mk_bit_count m)"
  by (simp add: mask_inv_def words_clean_def)

lemma mask_And_words:
  "length (mk_words (mask_And l r)) = word_count_for (min (mk_bit_count l) (mk_bit_count r))"
  and mask_Or_words:
  "length (mk_words (mask_Or l r)) = word_count_for (max (mk_bit_count l) (mk_bit_count r))"
  by (simp_all add: mask_And_def mask_Or_def Let_def mask_words_length)

lemma words_get_And:
  assumes "mask_inv l" and "mask_inv r" and "i div 64 < length (mk_words (mask_And l r))"
  shows "words_get (mk_words (mask_And l r)) i \<longleftrightarrow> mask_Get l i \<and> mask_Get r i"
  using assms
  by (simp add: words_get_bit mask_And_def Let_def bit_simps mask_words_length words_get_or_zero)

lemma words_get_Or:
  assumes "mask_inv l" and "mask_inv r" and "i div 64 < length (mk_words (mask_Or l r))"
  shows "words_get (mk_words (mask_Or l r)) i \<longleftrightarrow> mask_Get l i \<or> mask_Get r i"
  using assms
  by (simp add: words_get_bit mask_Or_def Let_def bit_simps mask_words_length words_get_or_zero)

lemma mask_And_inv: "mask_inv l \<Longrightarrow> mask_inv r \<Longrightarrow> mask_inv (mask_And l r)"
  unfolding mask_inv_def [of "mask_And l r"] words_clean_def
  by (auto simp: mask_And_words words_get_And mk.get_out dest!: mk.get_bound)

lemma mask_Or_inv: "mask_inv l \<Longrightarrow> mask_inv r \<Longrightarrow> mask_inv (mask_Or l r)"
  unfolding mask_inv_def [of "mask_Or l r"] words_clean_def
  by (auto simp: mask_Or_words words_get_Or mk.get_out)

lemma mask_Get_And:
  assumes "mask_inv l" and "mask_inv r"
  shows "mask_Get (mask_And l r) i \<longleftrightarrow> mask_Get l i \<and> mask_Get r i"
proof (cases "i < min (mk_bit_count l) (mk_bit_count r)")
  case True
  then show ?thesis
    using assms word_index_bound [OF True]
    by (auto simp: mask_Get_def [of "mask_And l r"] words_get_And mask_And_words mk.get_out min_le_iff_disj)
next
  case False
  then show ?thesis
    by (auto simp: mask_Get_def [of "mask_And l r"] min_def dest: mk.get_bound split: if_splits)
qed

lemma mask_Get_Or:
  assumes "mask_inv l" and "mask_inv r"
  shows "mask_Get (mask_Or l r) i \<longleftrightarrow> mask_Get l i \<or> mask_Get r i"
proof (cases "i < max (mk_bit_count l) (mk_bit_count r)")
  case True
  then show ?thesis
    using assms word_index_bound [OF True]
    by (auto simp: mask_Get_def [of "mask_Or l r"] words_get_Or mask_Or_words mk.get_out)
next
  case False
  then show ?thesis
    by (auto simp: mask_Get_def [of "mask_Or l r"] max_def dest: mk.get_bound split: if_splits)
qed

text \<open>
  On masks of any two sizes, \<open>Mask::And\<close> selects the rows both select and
  \<open>Mask::Or\<close> the rows either selects (a row beyond a mask's size counts as not
  selected), and both results keep their unused bits zero.
\<close>
theorem mask_And_Or_correct:
  assumes "mask_inv l" and "mask_inv r"
  shows "(mask_Get (mask_And l r) i \<longleftrightarrow> mask_Get l i \<and> mask_Get r i) \<and>
         (mask_Get (mask_Or l r) i \<longleftrightarrow> mask_Get l i \<or> mask_Get r i) \<and>
         mask_inv (mask_And l r) \<and> mask_inv (mask_Or l r)"
  using assms mask_Get_And mask_Get_Or mask_And_inv mask_Or_inv by simp

theorem mask_And_Or_correct_witness:
  "mask_Get (mask_And (mask_Set (mask_make 70) 65 True) (mask_Set (mask_make 66) 65 True)) 65 \<and>
   \<not> mask_Get (mask_Or (mask_Set (mask_make 70) 65 True) (mask_Set (mask_make 66) 65 True)) 3"
  using mask_And_Or_correct
    [of "mask_Set (mask_make 70) 65 True" "mask_Set (mask_make 66) 65 True" 65]
    mask_And_Or_correct
    [of "mask_Set (mask_make 70) 65 True" "mask_Set (mask_make 66) 65 True" 3]
  by (simp add: mk.invar_set mk.get_set)

lemma BuildMask_get: "mask_Get (BuildMask (Some d) v (Some f) n) i \<longleftrightarrow> i < n \<and> f (d ! i) v"
  by (simp add: BuildMask_def mask_fill)

lemma BuildMaskBranchless_get:
  "mask_Get (BuildMaskBranchless (Some d) v op n) i \<longleftrightarrow> i < n \<and> CompareInt64 (d ! i) v op"
  by (simp add: BuildMaskBranchless_def mask_fill CompareInt64_flag)

lemma BuildMaskBranchlessFloat64_get:
  "mask_Get (BuildMaskBranchlessFloat64 (Some d) v op n) i \<longleftrightarrow> i < n \<and> CompareFloat64 (d ! i) v op"
  by (simp add: BuildMaskBranchlessFloat64_def mask_fill CompareFloat64_flag)

lemma PackMask_count [simp]: "pm_bit_count (PackMask m) = mk_bit_count m"
  and PackMask_inv [simp]: "packed_inv (PackMask m)"
  by (simp_all add: PackMask_def mask_Size_def pm.bits_loop [of _ _ "\<lambda>i. i"]
      pm.invar_loop [of _ _ _ "\<lambda>i. i"])

lemma PackMask_get: "packed_Get (PackMask m) i = mask_Get m i"
  by (auto simp: PackMask_def mask_Size_def pm.get_fill_loop dest: mk.get_bound)

end
