(* ===== verification/Dictionary.thy ===== *)
theory Dictionary
  imports Prelude
begin

text \<open>
  \<open>engine/src/dictionary.cpp\<close>: the dictionary of a \<open>kDictInt32\<close> column, which gives
  each distinct value an id in order of first use.  The interface \<open>interner\<close> is shared
  with the dictionary the segment encoder builds (theory \<open>Encoders\<close>): adding values
  returns ids that the final value table maps back to them.
\<close>

section \<open>Interning\<close>

locale interner =
  fixes add :: "'d \<Rightarrow> 'v \<Rightarrow> u32 \<times> 'd"
    and table :: "'d \<Rightarrow> 'v list"
    and invar :: "'d \<Rightarrow> bool"
    and room :: "'d \<Rightarrow> 'v \<Rightarrow> bool"
  assumes add_invar: "invar d \<Longrightarrow> room d v \<Longrightarrow> invar (snd (add d v))"
    and add_table: "invar d \<Longrightarrow> room d v \<Longrightarrow>
       table (snd (add d v)) = (if v \<in> set (table d) then table d else table d @ [v])"
    and add_id: "invar d \<Longrightarrow> room d v \<Longrightarrow>
       unat (fst (add d v)) < length (table (snd (add d v))) \<and>
       table (snd (add d v)) ! unat (fst (add d v)) = v"
begin

lemma add_set: "invar d \<Longrightarrow> room d v \<Longrightarrow> set (table (snd (add d v))) = insert v (set (table d))"
  by (auto simp: add_table)

lemma add_keeps:
  "invar d \<Longrightarrow> room d v \<Longrightarrow> i < length (table d) \<Longrightarrow>
   i < length (table (snd (add d v))) \<and> table (snd (add d v)) ! i = table d ! i"
  by (auto simp: add_table nth_append)

lemma add_twice: "invar d \<Longrightarrow> room d v \<Longrightarrow> table d ! i = v \<Longrightarrow> i < length (table d) \<Longrightarrow>
  table (snd (add d v)) = table d"
  by (auto simp: add_table)

text \<open>Adding values one after the other, collecting the ids.\<close>

fun add_all :: "'d \<Rightarrow> 'v list \<Rightarrow> u32 list \<times> 'd" where
  "add_all d [] = ([], d)"
| "add_all d (v # vs) = (let (id, d') = add d v; (ids, d'') = add_all d' vs in (id # ids, d''))"

fun room_all :: "'d \<Rightarrow> 'v list \<Rightarrow> bool" where
  "room_all d [] \<longleftrightarrow> True"
| "room_all d (v # vs) \<longleftrightarrow> room d v \<and> room_all (snd (add d v)) vs"

lemma fst_add_all: "fst (add_all d (v # vs)) = fst (add d v) # fst (add_all (snd (add d v)) vs)"
  and snd_add_all: "snd (add_all d (v # vs)) = snd (add_all (snd (add d v)) vs)"
  by (simp_all split: prod.splits)

lemmas add_all_Cons = fst_add_all snd_add_all

lemma add_all_invar: "invar d \<Longrightarrow> room_all d vs \<Longrightarrow> invar (snd (add_all d vs))"
  by (induction vs arbitrary: d) (simp_all add: add_all_Cons add_invar del: add_all.simps(2))

lemma add_all_keeps:
  "invar d \<Longrightarrow> room_all d vs \<Longrightarrow> i < length (table d) \<Longrightarrow>
   i < length (table (snd (add_all d vs))) \<and> table (snd (add_all d vs)) ! i = table d ! i"
proof (induction vs arbitrary: d)
  case Nil
  then show ?case by simp
next
  case (Cons v vs)
  then show ?case
    using Cons.IH [of "snd (add d v)"] add_keeps [of d v i] add_invar [of d v]
    by (simp add: add_all_Cons del: add_all.simps(2))
qed

lemma add_all_ids:
  "invar d \<Longrightarrow> room_all d vs \<Longrightarrow> ids = fst (add_all d vs) \<Longrightarrow> tab = table (snd (add_all d vs)) \<Longrightarrow>
   length ids = length vs \<and> (\<forall>i<length vs. unat (ids ! i) < length tab \<and> tab ! unat (ids ! i) = vs ! i)"
proof (induction vs arbitrary: d ids)
  case Nil
  then show ?case by simp
next
  case (Cons v vs)
  let ?d = "snd (add d v)" and ?ids = "fst (add_all (snd (add d v)) vs)"
  have r: "room d v" "room_all ?d vs" and d: "invar ?d"
    using Cons.prems add_invar by auto
  have split: "ids = fst (add d v) # ?ids" "tab = table (snd (add_all ?d vs))"
    using Cons.prems by (simp_all add: add_all_Cons del: add_all.simps(2))
  have IH: "length ?ids = length vs \<and>
      (\<forall>i<length vs. unat (?ids ! i) < length tab \<and> tab ! unat (?ids ! i) = vs ! i)"
    using Cons.IH [OF d r(2) refl split(2)] .
  have "unat (fst (add d v)) < length tab \<and> tab ! unat (fst (add d v)) = v"
    using add_id [OF Cons.prems(1) r(1)] add_all_keeps [OF d r(2)] split(2) by auto
  with IH split(1) show ?case
    by (auto simp: nth_Cons split: nat.splits)
qed

end

section \<open>DictionaryInt32\<close>

record dictionary =
  dict_index :: "u32 \<Rightarrow> u32 option"
  dict_values :: "u32 list"

definition dict_empty :: dictionary where
  "dict_empty = \<lparr>dict_index = (\<lambda>_. None), dict_values = []\<rparr>"

definition dict_Add :: "dictionary \<Rightarrow> u32 \<Rightarrow> u32 \<times> dictionary" where
  "dict_Add d value =
     (case dict_index d value of
        Some i \<Rightarrow> (i, d)
      | None \<Rightarrow>
          let i = (of_nat (length (dict_values d)) :: u32)
          in (i, d\<lparr>dict_values := dict_values d @ [value], dict_index := (dict_index d)(value \<mapsto> i)\<rparr>))"

definition dict_Value :: "dictionary \<Rightarrow> u32 \<Rightarrow> u32" where
  "dict_Value d i = dict_values d ! unat i"

definition dict_Size :: "dictionary \<Rightarrow> u32" where
  "dict_Size d = of_nat (length (dict_values d))"

text \<open>\<open>out_id\<close> says whether the caller passed a place for the id.\<close>

definition dict_FindId :: "dictionary \<Rightarrow> u32 \<Rightarrow> bool \<Rightarrow> u32 option" where
  "dict_FindId d value out_id = (if \<not> out_id then None else dict_index d value)"

definition dict_inv :: "dictionary \<Rightarrow> bool" where
  "dict_inv d \<longleftrightarrow>
     distinct (dict_values d) \<and>
     (\<forall>v i. dict_index d v = Some i \<longleftrightarrow> unat i < length (dict_values d) \<and> dict_values d ! unat i = v)"

lemma dict_inv_empty [simp]: "dict_inv dict_empty"
  by (simp add: dict_inv_def dict_empty_def)

lemma length_distinct_words:
  fixes xs :: "'a::len word list"
  assumes "distinct xs"
  shows "length xs \<le> 2 ^ LENGTH('a)"
proof -
  have "length xs = card (set xs)" using assms by (simp add: distinct_card)
  also have "\<dots> \<le> card (UNIV :: 'a word set)" by (rule card_mono) auto
  finally show ?thesis by (simp add: card_word)
qed

lemma dict_index_None:
  assumes "dict_inv d"
  shows "dict_index d v = None \<longleftrightarrow> v \<notin> set (dict_values d)"
proof
  assume none: "dict_index d v = None"
  show "v \<notin> set (dict_values d)"
  proof
    assume "v \<in> set (dict_values d)"
    then obtain i where i: "i < length (dict_values d)" "dict_values d ! i = v"
      by (auto simp: in_set_conv_nth)
    have "length (dict_values d) \<le> 2 ^ 32"
      using assms length_distinct_words [of "dict_values d"] by (simp add: dict_inv_def)
    then have "unat (of_nat i :: u32) = i"
      using i(1) by (simp add: unat_of_nat take_bit_nat_eq_self)
    then have "dict_index d v = Some (of_nat i)"
      using assms i unfolding dict_inv_def by metis
    with none show False by simp
  qed
next
  assume "v \<notin> set (dict_values d)"
  then show "dict_index d v = None"
    using assms nth_mem unfolding dict_inv_def by (metis not_None_eq)
qed

text \<open>
  The ids are 32-bit and so are the values, so a new value always finds a free id: the
  truncation of the table size never loses information.
\<close>

lemma dict_Add_room:
  assumes "dict_inv d" and "v \<notin> set (dict_values d)"
  shows "unat (of_nat (length (dict_values d)) :: u32) = length (dict_values d)"
proof -
  have "length (v # dict_values d) \<le> 2 ^ 32"
    using assms length_distinct_words [of "v # dict_values d"] by (simp add: dict_inv_def)
  then show ?thesis by (simp add: unat_of_nat take_bit_nat_eq_self)
qed

lemma dict_Add_known:
  "dict_inv d \<Longrightarrow> v \<in> set (dict_values d) \<Longrightarrow>
   snd (dict_Add d v) = d \<and> dict_index d v = Some (fst (dict_Add d v))"
  using dict_index_None [of d v] by (auto simp: dict_Add_def)

lemma dict_Add_new:
  "dict_inv d \<Longrightarrow> v \<notin> set (dict_values d) \<Longrightarrow>
   dict_values (snd (dict_Add d v)) = dict_values d @ [v] \<and>
   dict_index (snd (dict_Add d v)) = (dict_index d)(v \<mapsto> fst (dict_Add d v)) \<and>
   unat (fst (dict_Add d v)) = length (dict_values d)"
  using dict_index_None [of d v] by (simp add: dict_Add_def Let_def dict_Add_room)

lemma dict_Add_inv:
  assumes "dict_inv d"
  shows "dict_inv (snd (dict_Add d v))"
proof (cases "v \<in> set (dict_values d)")
  case True
  with assms show ?thesis by (simp add: dict_Add_known)
next
  case False
  note new = dict_Add_new [OF assms False]
  have "dict_index (snd (dict_Add d v)) w = Some i \<longleftrightarrow>
        unat i < Suc (length (dict_values d)) \<and> (dict_values d @ [v]) ! unat i = w" for w i
  proof (cases "unat i = length (dict_values d)")
    case True
    then have "i = fst (dict_Add d v)" using new by (metis word_unat_eq_iff)
    with True new show ?thesis
      using assms by (auto simp: dict_inv_def)
  next
    case neq: False
    then have "i \<noteq> fst (dict_Add d v)" using new by auto
    with neq new False show ?thesis
      using assms by (auto simp: dict_inv_def nth_append less_Suc_eq)
  qed
  with new False assms show ?thesis by (simp add: dict_inv_def)
qed

interpretation di: interner dict_Add dict_values dict_inv "\<lambda>_ _. True"
proof unfold_locales
  fix d v
  assume inv: "dict_inv d"
  show "dict_inv (snd (dict_Add d v))" using inv by (rule dict_Add_inv)
  show "dict_values (snd (dict_Add d v)) =
        (if v \<in> set (dict_values d) then dict_values d else dict_values d @ [v])"
    using inv by (simp add: dict_Add_known dict_Add_new)
  show "unat (fst (dict_Add d v)) < length (dict_values (snd (dict_Add d v))) \<and>
        dict_values (snd (dict_Add d v)) ! unat (fst (dict_Add d v)) = v"
  proof (cases "v \<in> set (dict_values d)")
    case True
    with inv show ?thesis
      using dict_Add_known [OF inv True] by (auto simp: dict_inv_def)
  next
    case False
    with inv show ?thesis by (simp add: dict_Add_new nth_append)
  qed
qed

text \<open>\<open>DictionaryInt32::Add\<close> interns: the id it returns reads the value back, every id
  given out before still reads the same value, the id is found again by \<open>FindId\<close>, and
  the class invariant (distinct values, index and table agree) is kept.
\<close>
theorem dict_Add_correct:
  assumes "dict_inv d" and "dict_Add d v = (i, d')"
  shows "dict_inv d' \<and> dict_Value d' i = v \<and> dict_FindId d' v True = Some i \<and>
         (\<forall>j. unat j < length (dict_values d) \<longrightarrow> dict_Value d' j = dict_Value d j)"
proof -
  have "dict_inv d'" "unat i < length (dict_values d')" "dict_values d' ! unat i = v"
    using di.add_invar [OF assms(1), of v] di.add_id [OF assms(1), of v] assms(2) by auto
  moreover from this have "dict_index d' v = Some i" by (auto simp: dict_inv_def)
  ultimately show ?thesis
    using di.add_keeps [OF assms(1), where v = v] assms(2)
    by (auto simp: dict_Value_def dict_FindId_def)
qed

theorem dict_Add_correct_witness:
  "dict_Value (snd (dict_Add (snd (dict_Add dict_empty 7)) 9)) 1 = 9 \<and>
   dict_Value (snd (dict_Add (snd (dict_Add dict_empty 7)) 9)) 0 = 7"
proof -
  let ?d = "snd (dict_Add dict_empty 7)"
  have eq: "dict_Add ?d 9 = (1, snd (dict_Add ?d 9))"
    by (simp add: dict_Add_def dict_empty_def)
  have "dict_inv ?d" by (rule dict_Add_inv) simp
  from dict_Add_correct [OF this eq] show ?thesis
    by (simp add: dict_Value_def dict_Add_def dict_empty_def)
qed

end
