(* ===== verification/FieldVec.thy ===== *)
theory FieldVec
  imports Bits Dictionary Hash Float64
begin

text \<open>
  \<open>engine/src/field_vector.cpp\<close>: one column of a dataset.  The class keeps one vector
  per physical type and uses the one its \<open>type_\<close> selects; strings, byte strings, encoded
  arrays and float vectors share \<open>data_lengths_\<close> (a length per row) and \<open>data_bytes_\<close>
  (the rows' bytes, one after the other).  The validity bitmap is empty until the first
  null arrives.  A method returning \<open>bool\<close> becomes a function to the pair of its result
  and the new column; array arguments with a count are lists of at least that length, a
  null pointer is \<open>None\<close>.
\<close>

section \<open>State\<close>

record field_vector =
  fv_name :: "u8 list"
  fv_type :: field_type
  fv_size :: nat
  fv_validity :: bitmap
  fv_i32 :: "u32 list"
  fv_i64 :: "u64 list"
  fv_f64 :: "f64 list"
  fv_bool :: "u8 list"
  fv_dict_ids :: "u32 list"
  fv_dictionary :: dictionary
  fv_bytes :: "u8 list"
  fv_lengths :: "u32 list"
  fv_offsets :: "u32 list"
  fv_offsets_valid :: bool

definition fv_new :: "u8 list \<Rightarrow> field_type \<Rightarrow> field_vector" where
  "fv_new name type =
     \<lparr>fv_name = name, fv_type = type, fv_size = 0, fv_validity = bitmap_empty, fv_i32 = [],
      fv_i64 = [], fv_f64 = [], fv_bool = [], fv_dict_ids = [], fv_dictionary = dict_empty,
      fv_bytes = [], fv_lengths = [], fv_offsets = [], fv_offsets_valid = False\<rparr>"

section \<open>Accessors\<close>

definition fv_HasNulls :: "field_vector \<Rightarrow> bool" where
  "fv_HasNulls f \<longleftrightarrow> bitmap_Size (fv_validity f) \<noteq> 0"

definition fv_IsValid :: "field_vector \<Rightarrow> nat \<Rightarrow> bool" where
  "fv_IsValid f index =
     (if bitmap_Size (fv_validity f) = 0 then True else bitmap_Get (fv_validity f) index)"

definition fv_DataInt32 :: "field_vector \<Rightarrow> u32 list option" where
  "fv_DataInt32 f = (if fv_type f = kInt32 then Some (fv_i32 f) else None)"

definition fv_DataInt64 :: "field_vector \<Rightarrow> u64 list option" where
  "fv_DataInt64 f = (if fv_type f = kInt64 then Some (fv_i64 f) else None)"

definition fv_DataFloat64 :: "field_vector \<Rightarrow> f64 list option" where
  "fv_DataFloat64 f = (if fv_type f = kFloat64 then Some (fv_f64 f) else None)"

definition fv_DataBool :: "field_vector \<Rightarrow> u8 list option" where
  "fv_DataBool f = (if fv_type f = kBool then Some (fv_bool f) else None)"

definition fv_DataDictIds :: "field_vector \<Rightarrow> u32 list option" where
  "fv_DataDictIds f = (if fv_type f = kDictInt32 then Some (fv_dict_ids f) else None)"

definition fv_Dictionary :: "field_vector \<Rightarrow> dictionary option" where
  "fv_Dictionary f = (if fv_type f = kDictInt32 then Some (fv_dictionary f) else None)"

definition fv_DictionarySize :: "field_vector \<Rightarrow> u32" where
  "fv_DictionarySize f = (if fv_type f = kDictInt32 then dict_Size (fv_dictionary f) else 0)"

definition fv_DictionaryValue :: "field_vector \<Rightarrow> u32 \<Rightarrow> u32" where
  "fv_DictionaryValue f i = dict_Value (fv_dictionary f) i"

definition fv_DataBytes :: "field_vector \<Rightarrow> u8 list option" where
  "fv_DataBytes f = (if is_varlen (fv_type f) then Some (fv_bytes f) else None)"

definition fv_DataLengths :: "field_vector \<Rightarrow> u32 list option" where
  "fv_DataLengths f = (if is_varlen (fv_type f) then Some (fv_lengths f) else None)"

definition fv_BytesSize :: "field_vector \<Rightarrow> nat" where
  "fv_BytesSize f = (if is_varlen (fv_type f) then length (fv_bytes f) else 0)"

text \<open>The offset of each row, cached; \<open>uint32_t\<close> sums wrap.\<close>

fun offsets_from :: "u32 \<Rightarrow> u32 list \<Rightarrow> u32 list" where
  "offsets_from o' [] = [o']"
| "offsets_from o' (l # ls) = o' # offsets_from (o' + l) ls"

definition fv_DataOffsets :: "field_vector \<Rightarrow> u32 list option \<times> field_vector" where
  "fv_DataOffsets f =
     (if \<not> is_varlen (fv_type f) then (None, f)
      else if fv_offsets_valid f then
        (if fv_offsets f = [] then None else Some (fv_offsets f), f)
      else
        let f' = f\<lparr>fv_offsets := offsets_from 0 (fv_lengths f), fv_offsets_valid := True\<rparr>
        in (if fv_offsets f' = [] then None else Some (fv_offsets f'), f'))"

text \<open>
  \<open>VectorFloat32\<close>: the dimension (0 when there is no vector) and the position in
  \<open>data_bytes_\<close> the returned pointer has; an offset read out of range is \<open>None\<close>.
\<close>

definition fv_VectorFloat32 ::
  "field_vector \<Rightarrow> nat \<Rightarrow> ((nat \<times> nat option) \<times> field_vector) ub" where
  "fv_VectorFloat32 f index =
     (if fv_type f \<noteq> kVectorFloat32 \<or> index \<ge> fv_size f \<or> \<not> fv_IsValid f index
      then Some ((0, None), f)
      else case fv_DataOffsets f of
        (None, f') \<Rightarrow> Some ((0, None), f')
      | (Some offsets, f') \<Rightarrow>
          if index \<ge> length (fv_lengths f') then None
          else if unat (fv_lengths f' ! index) mod 4 \<noteq> 0 then Some ((0, None), f')
          else if index \<ge> length offsets then None
          else Some ((unat (fv_lengths f' ! index) div 4, Some (unat (offsets ! index))), f'))"

section \<open>Growing\<close>

definition fv_ResizeStorage :: "field_vector \<Rightarrow> nat \<Rightarrow> field_vector" where
  "fv_ResizeStorage f n =
     (case fv_type f of
        kInt32 \<Rightarrow> f\<lparr>fv_i32 := vec_resize n 0 (fv_i32 f)\<rparr>
      | kInt64 \<Rightarrow> f\<lparr>fv_i64 := vec_resize n 0 (fv_i64 f)\<rparr>
      | kFloat64 \<Rightarrow> f\<lparr>fv_f64 := vec_resize n 0 (fv_f64 f)\<rparr>
      | kBool \<Rightarrow> f\<lparr>fv_bool := vec_resize n 0 (fv_bool f)\<rparr>
      | kDictInt32 \<Rightarrow> f\<lparr>fv_dict_ids := vec_resize n 0 (fv_dict_ids f)\<rparr>
      | kObject \<Rightarrow> f
      | _ \<Rightarrow> f\<lparr>fv_lengths := vec_resize n 0 (fv_lengths f)\<rparr>)"

text \<open>\<open>validity_.Resize(n)\<close> and \<open>Set(i, true)\<close> for \<open>i\<close> below \<open>n\<close>, when it was empty.\<close>

definition fv_ensure_validity :: "field_vector \<Rightarrow> field_vector" where
  "fv_ensure_validity f =
     (if bitmap_Size (fv_validity f) = 0 then
        f\<lparr>fv_validity := for_loop 0 (fv_size f) (\<lambda>i b. bitmap_Set b i True)
                          (bitmap_Resize (fv_validity f) (fv_size f))\<rparr>
      else f)"

definition fv_Resize :: "field_vector \<Rightarrow> nat \<Rightarrow> field_vector" where
  "fv_Resize f n =
     (if n \<le> fv_size f then f
      else
        let f = fv_ResizeStorage f n;
            f = (if bitmap_Size (fv_validity f) \<noteq> 0 then
                   f\<lparr>fv_validity := for_loop (fv_size f) n (\<lambda>i b. bitmap_Set b i True)
                                     (bitmap_Resize (fv_validity f) n)\<rparr>
                 else f)
        in f\<lparr>fv_size := n\<rparr>)"

definition fv_SetValid :: "field_vector \<Rightarrow> nat \<Rightarrow> bool \<Rightarrow> field_vector" where
  "fv_SetValid f index valid =
     (let f = fv_ensure_validity f
      in f\<lparr>fv_validity := bitmap_Set (fv_validity f) index valid\<rparr>)"

text \<open>The common end of the single-row appends: mark the last row, take the new size.\<close>

definition fv_mark_last :: "field_vector \<Rightarrow> nat \<Rightarrow> field_vector" where
  "fv_mark_last f n =
     (let f = (if bitmap_Size (fv_validity f) \<noteq> 0 then
                 f\<lparr>fv_validity := bitmap_Set (bitmap_Resize (fv_validity f) n) (n - 1) True\<rparr>
               else f)
      in f\<lparr>fv_size := n\<rparr>)"

definition fv_AppendInt32 :: "field_vector \<Rightarrow> u32 \<Rightarrow> bool \<times> field_vector" where
  "fv_AppendInt32 f value =
     (if fv_type f \<noteq> kInt32 then (False, f)
      else let f = f\<lparr>fv_i32 := fv_i32 f @ [value]\<rparr> in (True, fv_mark_last f (length (fv_i32 f))))"

definition fv_AppendInt64 :: "field_vector \<Rightarrow> u64 \<Rightarrow> bool \<times> field_vector" where
  "fv_AppendInt64 f value =
     (if fv_type f \<noteq> kInt64 then (False, f)
      else let f = f\<lparr>fv_i64 := fv_i64 f @ [value]\<rparr> in (True, fv_mark_last f (length (fv_i64 f))))"

definition fv_AppendFloat64 :: "field_vector \<Rightarrow> f64 \<Rightarrow> bool \<times> field_vector" where
  "fv_AppendFloat64 f value =
     (if fv_type f \<noteq> kFloat64 then (False, f)
      else let f = f\<lparr>fv_f64 := fv_f64 f @ [value]\<rparr> in (True, fv_mark_last f (length (fv_f64 f))))"

definition fv_AppendBool :: "field_vector \<Rightarrow> bool \<Rightarrow> bool \<times> field_vector" where
  "fv_AppendBool f value =
     (if fv_type f \<noteq> kBool then (False, f)
      else let f = f\<lparr>fv_bool := fv_bool f @ [if value then 1 else 0]\<rparr>
           in (True, fv_mark_last f (length (fv_bool f))))"

definition fv_AppendDictInt32 :: "field_vector \<Rightarrow> u32 \<Rightarrow> bool \<times> field_vector" where
  "fv_AppendDictInt32 f value =
     (if fv_type f \<noteq> kDictInt32 then (False, f)
      else
        let (i, d) = dict_Add (fv_dictionary f) value;
            f = f\<lparr>fv_dictionary := d, fv_dict_ids := fv_dict_ids f @ [i]\<rparr>
        in (True, fv_mark_last f (length (fv_dict_ids f))))"

definition fv_push_bytes :: "field_vector \<Rightarrow> u8 list \<Rightarrow> field_vector" where
  "fv_push_bytes f value =
     (let f = f\<lparr>fv_lengths := fv_lengths f @ [of_nat (length value)],
                fv_bytes := fv_bytes f @ value, fv_offsets_valid := False\<rparr>
      in fv_mark_last f (length (fv_lengths f)))"

definition fv_AppendString :: "field_vector \<Rightarrow> u8 list \<Rightarrow> bool \<times> field_vector" where
  "fv_AppendString f value =
     (if fv_type f \<noteq> kString then (False, f) else (True, fv_push_bytes f value))"

definition fv_AppendBytes :: "field_vector \<Rightarrow> u8 list \<Rightarrow> bool \<times> field_vector" where
  "fv_AppendBytes f value =
     (if fv_type f \<noteq> kBytes \<and> fv_type f \<noteq> kArray \<and> fv_type f \<noteq> kVectorFloat32 then (False, f)
      else (True, fv_push_bytes f value))"

text \<open>Floats are their 32-bit patterns; a \<open>None\<close> is a null \<open>values\<close> pointer.\<close>

definition fv_AppendVectorFloat32 :: "field_vector \<Rightarrow> u32 list option \<Rightarrow> nat \<Rightarrow> bool \<times> field_vector" where
  "fv_AppendVectorFloat32 f values dimension =
     (if fv_type f \<noteq> kVectorFloat32 \<or> (values = None \<and> dimension \<noteq> 0) \<or>
         dimension > (2 ^ 32 - 1) div 4 then (False, f)
      else fv_AppendBytes f
             (case values of Some vs \<Rightarrow> le_array 4 (take dimension vs) | None \<Rightarrow> []))"

definition fv_AppendNull :: "field_vector \<Rightarrow> bool \<times> field_vector" where
  "fv_AppendNull f =
     (let f = fv_ResizeStorage f (fv_size f + 1);
          f = fv_ensure_validity f;
          f = f\<lparr>fv_validity := bitmap_Set (bitmap_Resize (fv_validity f) (fv_size f + 1))
                                (fv_size f) False\<rparr>;
          f = (if is_varlen (fv_type f) then
                 (if length (fv_lengths f) = fv_size f + 1
                  then f\<lparr>fv_lengths := (fv_lengths f)[fv_size f := 0], fv_offsets_valid := False\<rparr>
                  else f\<lparr>fv_lengths := fv_lengths f @ [0], fv_offsets_valid := False\<rparr>)
               else f)
      in (True, f\<lparr>fv_size := fv_size f + 1\<rparr>))"

section \<open>Batches\<close>

definition fv_AppendValidity :: "field_vector \<Rightarrow> u8 list \<Rightarrow> nat \<Rightarrow> field_vector" where
  "fv_AppendValidity f validity count =
     (let f = fv_ensure_validity f
      in f\<lparr>fv_validity := bitmap_AppendBits (fv_validity f) validity count\<rparr>)"

text \<open>The common end of the batch appends.\<close>

definition fv_mark_batch :: "field_vector \<Rightarrow> u8 list option \<Rightarrow> nat \<Rightarrow> nat \<Rightarrow> field_vector" where
  "fv_mark_batch f validity count n =
     (let f = (case validity of
                 Some v \<Rightarrow> fv_AppendValidity f v count
               | None \<Rightarrow>
                   if bitmap_Size (fv_validity f) \<noteq> 0
                   then f\<lparr>fv_validity := bitmap_AppendAllTrue (fv_validity f) count\<rparr> else f)
      in f\<lparr>fv_size := n\<rparr>)"

definition fv_AppendBatchInt32 ::
  "field_vector \<Rightarrow> u32 list \<Rightarrow> nat \<Rightarrow> u8 list option \<Rightarrow> bool \<times> field_vector" where
  "fv_AppendBatchInt32 f values count validity =
     (if fv_type f \<noteq> kInt32 then (False, f)
      else if count = 0 then (True, f)
      else let f = f\<lparr>fv_i32 := fv_i32 f @ take count values\<rparr>
           in (True, fv_mark_batch f validity count (length (fv_i32 f))))"

definition fv_AppendBatchInt64 ::
  "field_vector \<Rightarrow> u64 list \<Rightarrow> nat \<Rightarrow> u8 list option \<Rightarrow> bool \<times> field_vector" where
  "fv_AppendBatchInt64 f values count validity =
     (if fv_type f \<noteq> kInt64 then (False, f)
      else if count = 0 then (True, f)
      else let f = f\<lparr>fv_i64 := fv_i64 f @ take count values\<rparr>
           in (True, fv_mark_batch f validity count (length (fv_i64 f))))"

definition fv_AppendBatchFloat64 ::
  "field_vector \<Rightarrow> f64 list \<Rightarrow> nat \<Rightarrow> u8 list option \<Rightarrow> bool \<times> field_vector" where
  "fv_AppendBatchFloat64 f values count validity =
     (if fv_type f \<noteq> kFloat64 then (False, f)
      else if count = 0 then (True, f)
      else let f = f\<lparr>fv_f64 := fv_f64 f @ take count values\<rparr>
           in (True, fv_mark_batch f validity count (length (fv_f64 f))))"

definition fv_AppendBatchBool ::
  "field_vector \<Rightarrow> u8 list \<Rightarrow> nat \<Rightarrow> u8 list option \<Rightarrow> bool \<times> field_vector" where
  "fv_AppendBatchBool f values count validity =
     (if fv_type f \<noteq> kBool then (False, f)
      else if count = 0 then (True, f)
      else let f = f\<lparr>fv_bool := fv_bool f @ take count values\<rparr>
           in (True, fv_mark_batch f validity count (length (fv_bool f))))"

definition dict_batch_step :: "nat \<Rightarrow> u32 list \<Rightarrow> nat \<Rightarrow> field_vector \<Rightarrow> field_vector" where
  "dict_batch_step start values i f =
     (let (k, d) = dict_Add (fv_dictionary f) (values ! i)
      in f\<lparr>fv_dictionary := d, fv_dict_ids := (fv_dict_ids f)[start + i := k]\<rparr>)"

definition fv_AppendBatchDictInt32 ::
  "field_vector \<Rightarrow> u32 list \<Rightarrow> nat \<Rightarrow> u8 list option \<Rightarrow> bool \<times> field_vector" where
  "fv_AppendBatchDictInt32 f values count validity =
     (if fv_type f \<noteq> kDictInt32 then (False, f)
      else if count = 0 then (True, f)
      else
        let start = length (fv_dict_ids f);
            f = f\<lparr>fv_dict_ids := vec_resize (start + count) 0 (fv_dict_ids f)\<rparr>;
            f = for_loop 0 count (dict_batch_step start values) f
        in (True, fv_mark_batch f validity count (length (fv_dict_ids f))))"

definition varlen_batch_step :: "u32 list \<Rightarrow> u8 list \<Rightarrow> nat \<Rightarrow> nat \<times> u8 list \<Rightarrow> nat \<times> u8 list" where
  "varlen_batch_step lengths bytes i s =
     (case s of (offset, out) \<Rightarrow>
        let len = unat (lengths ! i)
        in if len = 0 then (offset, out)
           else (offset + len, out @ take len (drop offset bytes)))"

definition fv_push_batch_bytes ::
  "field_vector \<Rightarrow> u32 list \<Rightarrow> u8 list \<Rightarrow> nat \<Rightarrow> u8 list option \<Rightarrow> field_vector" where
  "fv_push_batch_bytes f lengths bytes count validity =
     (let f = f\<lparr>fv_lengths := fv_lengths f @ take count lengths, fv_offsets_valid := False\<rparr>;
          out = snd (for_loop 0 count (varlen_batch_step lengths bytes) (0, fv_bytes f));
          f = f\<lparr>fv_bytes := out\<rparr>
      in fv_mark_batch f validity count (length (fv_lengths f)))"

definition fv_AppendBatchString ::
  "field_vector \<Rightarrow> u32 list \<Rightarrow> u8 list \<Rightarrow> nat \<Rightarrow> u8 list option \<Rightarrow> bool \<times> field_vector" where
  "fv_AppendBatchString f lengths bytes count validity =
     (if fv_type f \<noteq> kString then (False, f)
      else if count = 0 then (True, f)
      else (True, fv_push_batch_bytes f lengths bytes count validity))"

definition fv_AppendBatchBytes ::
  "field_vector \<Rightarrow> u32 list \<Rightarrow> u8 list \<Rightarrow> nat \<Rightarrow> u8 list option \<Rightarrow> bool \<times> field_vector" where
  "fv_AppendBatchBytes f lengths bytes count validity =
     (if fv_type f \<noteq> kBytes \<and> fv_type f \<noteq> kArray \<and> fv_type f \<noteq> kVectorFloat32 then (False, f)
      else if count = 0 then (True, f)
      else (True, fv_push_batch_bytes f lengths bytes count validity))"

section \<open>Loading and releasing\<close>

definition fv_LoadValidityWords :: "field_vector \<Rightarrow> u64 list \<Rightarrow> nat \<Rightarrow> bool \<times> field_vector" where
  "fv_LoadValidityWords f words bit_count =
     (True, f\<lparr>fv_validity := bitmap_LoadWords (fv_validity f) words bit_count\<rparr>)"

definition fv_LoadVarlen :: "field_vector \<Rightarrow> u32 list \<Rightarrow> u8 list \<Rightarrow> bool \<times> field_vector" where
  "fv_LoadVarlen f lengths bytes =
     (if \<not> is_varlen (fv_type f) then (False, f)
      else (True, f\<lparr>fv_lengths := lengths, fv_bytes := bytes, fv_offsets_valid := False,
                    fv_size := length lengths\<rparr>))"

definition fv_ReleaseStorage :: "field_vector \<Rightarrow> field_vector" where
  "fv_ReleaseStorage f =
     f\<lparr>fv_i32 := [], fv_i64 := [], fv_f64 := [], fv_bool := [], fv_dict_ids := [],
       fv_bytes := [], fv_lengths := [], fv_offsets := [], fv_offsets_valid := False\<rparr>"

definition fv_ReleaseValuesStorage :: "field_vector \<Rightarrow> field_vector" where
  "fv_ReleaseValuesStorage f =
     (if is_varlen (fv_type f) then f\<lparr>fv_bytes := [], fv_offsets := [], fv_offsets_valid := False\<rparr>
      else f)"

definition sum_lengths :: "u32 list \<Rightarrow> nat" where
  "sum_lengths ls = sum_list (map unat ls)"

definition fv_ValuesResident :: "field_vector \<Rightarrow> bool" where
  "fv_ValuesResident f =
     (if \<not> is_varlen (fv_type f) then True else sum_lengths (fv_lengths f) = length (fv_bytes f))"

end
