(* ===== verification/Column.thy ===== *)
theory Column
  imports FieldVec
begin

text \<open>
  What a column stands for, and that its operations implement it.  The abstract value of
  a \<open>FieldVector\<close> is a list of cells, one per row; every append of
  \<open>engine/src/field_vector.cpp\<close> is a functional refinement of list append.  The
  invariant \<open>fv_inv\<close> ties the vectors, the validity bitmap, the dictionary and the offset
  cache together.
\<close>

section \<open>Abstraction\<close>

datatype cell =
    CNull
  | CInt32 u32
  | CInt64 u64
  | CFloat64 f64
  | CBool u8
  | CDict u32
  | CBytes "u8 list"
  | CObject

fun split_rows :: "u32 list \<Rightarrow> u8 list \<Rightarrow> u8 list list" where
  "split_rows [] bs = []"
| "split_rows (l # ls) bs = take (unat l) bs # split_rows ls (drop (unat l) bs)"

definition dict_cell :: "dictionary \<Rightarrow> u32 \<Rightarrow> cell" where
  "dict_cell d i = (if unat i < length (dict_values d) then CDict (dict_Value d i) else CNull)"

definition fv_values :: "field_vector \<Rightarrow> cell list" where
  "fv_values f =
     (case fv_type f of
        kInt32 \<Rightarrow> map CInt32 (fv_i32 f)
      | kInt64 \<Rightarrow> map CInt64 (fv_i64 f)
      | kFloat64 \<Rightarrow> map CFloat64 (fv_f64 f)
      | kBool \<Rightarrow> map CBool (fv_bool f)
      | kDictInt32 \<Rightarrow> map (dict_cell (fv_dictionary f)) (fv_dict_ids f)
      | kObject \<Rightarrow> replicate (fv_size f) CObject
      | _ \<Rightarrow> map CBytes (split_rows (fv_lengths f) (fv_bytes f)))"

definition fv_valids :: "field_vector \<Rightarrow> bool list" where
  "fv_valids f =
     (if bm_bit_count (fv_validity f) = 0 then replicate (fv_size f) True
      else bitmap_list (fv_validity f))"

definition mask_cell :: "bool \<Rightarrow> cell \<Rightarrow> cell" where
  "mask_cell v c = (if v then c else CNull)"

definition fv_cells :: "field_vector \<Rightarrow> cell list" where
  "fv_cells f = map2 mask_cell (fv_valids f) (fv_values f)"

section \<open>Invariant\<close>

definition fv_data_len :: "field_vector \<Rightarrow> nat" where
  "fv_data_len f =
     (case fv_type f of
        kInt32 \<Rightarrow> length (fv_i32 f)
      | kInt64 \<Rightarrow> length (fv_i64 f)
      | kFloat64 \<Rightarrow> length (fv_f64 f)
      | kBool \<Rightarrow> length (fv_bool f)
      | kDictInt32 \<Rightarrow> length (fv_dict_ids f)
      | kObject \<Rightarrow> fv_size f
      | _ \<Rightarrow> length (fv_lengths f))"

definition validity_ok :: "field_vector \<Rightarrow> bool" where
  "validity_ok f \<longleftrightarrow>
     bitmap_inv (fv_validity f) \<and>
     (bm_bit_count (fv_validity f) = 0 \<or> bm_bit_count (fv_validity f) = fv_size f)"

definition dict_ok :: "field_vector \<Rightarrow> bool" where
  "dict_ok f \<longleftrightarrow>
     dict_inv (fv_dictionary f) \<and>
     (fv_type f = kDictInt32 \<longrightarrow>
        list_all2 (\<lambda>v i. v \<longrightarrow> unat i < length (dict_values (fv_dictionary f)))
          (fv_valids f) (fv_dict_ids f))"

definition varlen_ok :: "field_vector \<Rightarrow> bool" where
  "varlen_ok f \<longleftrightarrow>
     (is_varlen (fv_type f) \<longrightarrow>
        sum_lengths (fv_lengths f) = length (fv_bytes f) \<and>
        (fv_offsets_valid f \<longrightarrow> fv_offsets f = offsets_from 0 (fv_lengths f)))"

definition fv_inv :: "field_vector \<Rightarrow> bool" where
  "fv_inv f \<longleftrightarrow> fv_data_len f = fv_size f \<and> validity_ok f \<and> dict_ok f \<and> varlen_ok f"

lemmas fv_inv_defs = fv_inv_def validity_ok_def dict_ok_def varlen_ok_def

section \<open>Rows and bytes\<close>

lemma sum_lengths_simps [simp]:
  "sum_lengths [] = 0" "sum_lengths (l # ls) = unat l + sum_lengths ls"
  "sum_lengths (ls @ ms) = sum_lengths ls + sum_lengths ms"
  "sum_lengths (replicate n 0) = 0"
  by (simp_all add: sum_lengths_def sum_list_replicate)

lemma length_split_rows [simp]: "length (split_rows ls bs) = length ls"
  by (induction ls bs rule: split_rows.induct) auto

lemma split_rows_append:
  "sum_lengths ls = length bs \<Longrightarrow> split_rows (ls @ ms) (bs @ cs) = split_rows ls bs @ split_rows ms cs"
  by (induction ls bs rule: split_rows.induct) auto

lemma split_rows_replicate_0 [simp]: "split_rows (replicate n 0) bs = replicate n []"
  by (induction n) auto

lemma split_rows_take: "sum_lengths ls \<le> n \<Longrightarrow> split_rows ls (take n bs) = split_rows ls bs"
proof (induction ls bs arbitrary: n rule: split_rows.induct)
  case (1 bs)
  then show ?case by simp
next
  case (2 l ls bs)
  then show ?case by (simp add: min_absorb1 drop_take)
qed

text \<open>Row \<open>i\<close> starts at the sum of the lengths before it.\<close>

lemma split_rows_nth:
  "i < length ls \<Longrightarrow>
   split_rows ls bs ! i = take (unat (ls ! i)) (drop (sum_lengths (take i ls)) bs)"
proof (induction ls bs arbitrary: i rule: split_rows.induct)
  case (1 bs)
  then show ?case by simp
next
  case (2 l ls bs)
  then show ?case by (cases i) (simp_all add: add.commute)
qed

lemma offsets_from_nth:
  "i \<le> length ls \<Longrightarrow> offsets_from o' ls ! i = o' + of_nat (sum_lengths (take i ls))"
proof (induction o' ls arbitrary: i rule: offsets_from.induct)
  case (1 o')
  then show ?case by simp
next
  case (2 o' l ls)
  then show ?case by (cases i) (simp_all add: add.assoc)
qed

lemma length_offsets_from [simp]: "length (offsets_from o' ls) = Suc (length ls)"
  by (induction o' ls rule: offsets_from.induct) auto

lemma offsets_from_neq_Nil [simp]: "offsets_from o' ls \<noteq> []"
  by (metis length_offsets_from list.size(3) nat.distinct(1))

section \<open>Validity\<close>

lemma fv_valids_len: "validity_ok f \<Longrightarrow> length (fv_valids f) = fv_size f"
  by (auto simp: fv_valids_def validity_ok_def)

lemma fv_IsValid_valids: "validity_ok f \<Longrightarrow> i < fv_size f \<Longrightarrow> fv_IsValid f i = fv_valids f ! i"
  by (auto simp: fv_IsValid_def fv_valids_def validity_ok_def bitmap_Size_def)

lemma fv_values_len: "fv_data_len f = fv_size f \<Longrightarrow> length (fv_values f) = fv_size f"
  by (cases "fv_type f") (auto simp: fv_values_def fv_data_len_def)

lemma fv_cells_len: "fv_inv f \<Longrightarrow> length (fv_cells f) = fv_size f"
  by (simp add: fv_cells_def fv_inv_def fv_valids_len fv_values_len)

lemma fv_cells_nth:
  "fv_inv f \<Longrightarrow> i < fv_size f \<Longrightarrow>
   fv_cells f ! i = (if fv_IsValid f i then fv_values f ! i else CNull)"
  by (simp add: fv_cells_def fv_inv_def fv_valids_len fv_values_len mask_cell_def fv_IsValid_valids)

lemma map2_append:
  "length xs = length ys \<Longrightarrow> map2 f (xs @ xs') (ys @ ys') = map2 f xs ys @ map2 f xs' ys'"
  by simp

text \<open>Each operation changes the validity list and the value list by an append.\<close>

lemma fv_mark_last_valids:
  assumes "validity_ok f" and "n = Suc (fv_size f)"
  shows "fv_valids (fv_mark_last f n) = fv_valids f @ [True]" and "validity_ok (fv_mark_last f n)"
proof -
  show "fv_valids (fv_mark_last f n) = fv_valids f @ [True]"
    using assms bitmap_list_push [of "fv_validity f" n True]
    by (auto simp: fv_valids_def fv_mark_last_def validity_ok_def bitmap_Size_def Let_def
        replicate_append_same)
  show "validity_ok (fv_mark_last f n)"
    using assms by (auto simp: fv_mark_last_def validity_ok_def bitmap_Size_def Let_def)
qed

lemma fv_ensure_validity_valids:
  assumes "validity_ok f"
  shows "bitmap_list (fv_validity (fv_ensure_validity f)) = fv_valids f"
    and "bitmap_inv (fv_validity (fv_ensure_validity f))"
    and "bm_bit_count (fv_validity (fv_ensure_validity f)) = fv_size f"
  using assms
  by (auto simp: fv_ensure_validity_def fv_valids_def validity_ok_def bitmap_Size_def
      bitmap_list_all_true)

definition batch_valids :: "u8 list option \<Rightarrow> nat \<Rightarrow> bool list" where
  "batch_valids validity count =
     (case validity of None \<Rightarrow> replicate count True | Some v \<Rightarrow> map (\<lambda>x. x \<noteq> 0) (take count v))"

definition batch_ok :: "u8 list option \<Rightarrow> nat \<Rightarrow> bool" where
  "batch_ok validity count \<longleftrightarrow> (case validity of None \<Rightarrow> True | Some v \<Rightarrow> count \<le> length v)"

lemma length_batch_valids [simp]: "batch_ok v n \<Longrightarrow> length (batch_valids v n) = n"
  by (auto simp: batch_valids_def batch_ok_def split: option.splits)

lemma bitmap_AppendBits_take:
  "n \<le> length v \<Longrightarrow> bitmap_AppendBits b v n = bitmap_AppendBits b (take n v) n"
  by (simp add: bitmap_AppendBits_def Let_def cong: for_loop_cong)

lemma fv_mark_batch_valids:
  assumes "validity_ok f" and "batch_ok v count" and "0 < count" and "n = fv_size f + count"
  shows "fv_valids (fv_mark_batch f v count n) = fv_valids f @ batch_valids v count"
    and "validity_ok (fv_mark_batch f v count n)"
proof (atomize (full), cases v)
  case None
  then show "fv_valids (fv_mark_batch f v count n) = fv_valids f @ batch_valids v count \<and>
      validity_ok (fv_mark_batch f v count n)"
    using assms
    by (auto simp: fv_mark_batch_def fv_valids_def validity_ok_def bitmap_Size_def Let_def
        batch_valids_def bitmap_list_AppendAllTrue replicate_add)
next
  case (Some w)
  note e = fv_ensure_validity_valids [OF assms(1)]
  have "count \<le> length w" using assms(2) Some by (simp add: batch_ok_def)
  then have "bitmap_list (bitmap_AppendBits (fv_validity (fv_ensure_validity f)) w count) =
      fv_valids f @ map (\<lambda>x. x \<noteq> 0) (take count w)"
    using e by (simp add: bitmap_AppendBits_take [of count w] bitmap_list_AppendBits)
  then show "fv_valids (fv_mark_batch f v count n) = fv_valids f @ batch_valids v count \<and>
      validity_ok (fv_mark_batch f v count n)"
    using assms Some e
    by (simp add: fv_mark_batch_def fv_valids_def validity_ok_def Let_def batch_valids_def
        fv_AppendValidity_def)
qed

text \<open>What the marking functions leave alone.\<close>

lemma fv_mark_frame [simp, column_simps]:
  "fv_size (fv_mark_last f n) = n" "fv_type (fv_mark_last f n) = fv_type f"
  "fv_i32 (fv_mark_last f n) = fv_i32 f" "fv_i64 (fv_mark_last f n) = fv_i64 f"
  "fv_f64 (fv_mark_last f n) = fv_f64 f" "fv_bool (fv_mark_last f n) = fv_bool f"
  "fv_dict_ids (fv_mark_last f n) = fv_dict_ids f"
  "fv_dictionary (fv_mark_last f n) = fv_dictionary f"
  "fv_bytes (fv_mark_last f n) = fv_bytes f" "fv_lengths (fv_mark_last f n) = fv_lengths f"
  "fv_offsets (fv_mark_last f n) = fv_offsets f"
  "fv_offsets_valid (fv_mark_last f n) = fv_offsets_valid f"
  "fv_name (fv_mark_last f n) = fv_name f"
  by (simp_all add: fv_mark_last_def Let_def)

lemma fv_ensure_frame [simp, column_simps]:
  "fv_size (fv_ensure_validity f) = fv_size f" "fv_type (fv_ensure_validity f) = fv_type f"
  "fv_i32 (fv_ensure_validity f) = fv_i32 f" "fv_i64 (fv_ensure_validity f) = fv_i64 f"
  "fv_f64 (fv_ensure_validity f) = fv_f64 f" "fv_bool (fv_ensure_validity f) = fv_bool f"
  "fv_dict_ids (fv_ensure_validity f) = fv_dict_ids f"
  "fv_dictionary (fv_ensure_validity f) = fv_dictionary f"
  "fv_bytes (fv_ensure_validity f) = fv_bytes f" "fv_lengths (fv_ensure_validity f) = fv_lengths f"
  "fv_offsets (fv_ensure_validity f) = fv_offsets f"
  "fv_offsets_valid (fv_ensure_validity f) = fv_offsets_valid f"
  "fv_name (fv_ensure_validity f) = fv_name f"
  by (simp_all add: fv_ensure_validity_def)

lemma fv_mark_batch_frame [simp, column_simps]:
  "fv_size (fv_mark_batch f v k n) = n" "fv_type (fv_mark_batch f v k n) = fv_type f"
  "fv_i32 (fv_mark_batch f v k n) = fv_i32 f" "fv_i64 (fv_mark_batch f v k n) = fv_i64 f"
  "fv_f64 (fv_mark_batch f v k n) = fv_f64 f" "fv_bool (fv_mark_batch f v k n) = fv_bool f"
  "fv_dict_ids (fv_mark_batch f v k n) = fv_dict_ids f"
  "fv_dictionary (fv_mark_batch f v k n) = fv_dictionary f"
  "fv_bytes (fv_mark_batch f v k n) = fv_bytes f" "fv_lengths (fv_mark_batch f v k n) = fv_lengths f"
  "fv_offsets (fv_mark_batch f v k n) = fv_offsets f"
  "fv_offsets_valid (fv_mark_batch f v k n) = fv_offsets_valid f"
  "fv_name (fv_mark_batch f v k n) = fv_name f"
  by (simp_all add: fv_mark_batch_def fv_AppendValidity_def Let_def split: option.splits)

section \<open>Appending refines list append\<close>

lemma fv_valids_data [simp]:
  "fv_valids (f\<lparr>fv_i32 := a\<rparr>) = fv_valids f" "fv_valids (f\<lparr>fv_i64 := b\<rparr>) = fv_valids f"
  "fv_valids (f\<lparr>fv_f64 := b\<rparr>) = fv_valids f" "fv_valids (f\<lparr>fv_bool := c\<rparr>) = fv_valids f"
  "fv_valids (f\<lparr>fv_dict_ids := a\<rparr>) = fv_valids f"
  "fv_valids (f\<lparr>fv_dictionary := d\<rparr>) = fv_valids f"
  "fv_valids (f\<lparr>fv_bytes := c\<rparr>) = fv_valids f" "fv_valids (f\<lparr>fv_lengths := a\<rparr>) = fv_valids f"
  "fv_valids (f\<lparr>fv_offsets_valid := e\<rparr>) = fv_valids f"
  "fv_valids (f\<lparr>fv_offsets := a\<rparr>) = fv_valids f"
  by (simp_all add: fv_valids_def)

lemma validity_ok_data [simp]:
  "validity_ok (f\<lparr>fv_i32 := a\<rparr>) = validity_ok f" "validity_ok (f\<lparr>fv_i64 := b\<rparr>) = validity_ok f"
  "validity_ok (f\<lparr>fv_f64 := b\<rparr>) = validity_ok f" "validity_ok (f\<lparr>fv_bool := c\<rparr>) = validity_ok f"
  "validity_ok (f\<lparr>fv_dict_ids := a\<rparr>) = validity_ok f"
  "validity_ok (f\<lparr>fv_dictionary := d\<rparr>) = validity_ok f"
  "validity_ok (f\<lparr>fv_bytes := c\<rparr>) = validity_ok f" "validity_ok (f\<lparr>fv_lengths := a\<rparr>) = validity_ok f"
  "validity_ok (f\<lparr>fv_offsets_valid := e\<rparr>) = validity_ok f"
  "validity_ok (f\<lparr>fv_offsets := a\<rparr>) = validity_ok f"
  by (simp_all add: validity_ok_def)

text \<open>
  What the new column must provide: more validity, more values, and the parts of the
  invariant; then it is the old column with cells appended.
\<close>

definition fv_extends :: "field_vector \<Rightarrow> cell list \<Rightarrow> field_vector \<Rightarrow> bool" where
  "fv_extends f cs f' \<longleftrightarrow>
     fv_inv f' \<and> fv_cells f' = fv_cells f @ cs \<and> fv_type f' = fv_type f \<and> fv_name f' = fv_name f \<and>
     fv_size f' = fv_size f + length cs"

lemma fv_inv_valids_len: "fv_inv f \<Longrightarrow> length (fv_valids f) = fv_size f"
  by (simp add: fv_inv_def fv_valids_len)

lemma fv_inv_values_len: "fv_inv f \<Longrightarrow> length (fv_values f) = fv_size f"
  by (simp add: fv_inv_def fv_values_len)

lemma fv_extendsI:
  assumes "fv_inv f" and "fv_valids f' = fv_valids f @ vs" and "fv_values f' = fv_values f @ cs"
    and "fv_inv f'" and "fv_type f' = fv_type f" and "fv_name f' = fv_name f"
    and "length vs = length cs"
  shows "fv_extends f (map2 mask_cell vs cs) f'"
proof -
  have "length (fv_valids f') = fv_size f'" "length (fv_valids f) = fv_size f"
    "length (fv_values f) = fv_size f"
    using fv_inv_valids_len [OF assms(4)] fv_inv_valids_len [OF assms(1)]
      fv_inv_values_len [OF assms(1)] by blast+
  with assms show ?thesis
    by (simp add: fv_extends_def fv_cells_def)
qed

lemma fv_extends_trans: "fv_extends f cs g \<Longrightarrow> fv_extends g ds h \<Longrightarrow> fv_extends f (cs @ ds) h"
  by (simp add: fv_extends_def)

text \<open>One more row: the data was pushed into \<open>g\<close>, then the row is marked valid.\<close>

lemma fv_pushI:
  assumes "fv_inv f" and "validity_ok g" and "fv_valids g = fv_valids f"
    and "fv_size g = fv_size f" and "fv_type g = fv_type f" and "fv_name g = fv_name f"
    and "fv_values (fv_mark_last g (Suc (fv_size f))) = fv_values f @ [c]"
    and "fv_data_len (fv_mark_last g (Suc (fv_size f))) = Suc (fv_size f)"
    and "dict_ok (fv_mark_last g (Suc (fv_size f)))"
    and "varlen_ok (fv_mark_last g (Suc (fv_size f)))"
  shows "fv_extends f [c] (fv_mark_last g (Suc (fv_size f)))"
proof -
  have m: "fv_valids (fv_mark_last g (Suc (fv_size f))) = fv_valids f @ [True]"
    "validity_ok (fv_mark_last g (Suc (fv_size f)))"
    using fv_mark_last_valids [OF assms(2), of "Suc (fv_size f)"] assms(3,4) by auto
  have "fv_extends f (map2 mask_cell [True] [c]) (fv_mark_last g (Suc (fv_size f)))"
    by (rule fv_extendsI [OF assms(1) m(1) assms(7)])
       (use assms m in \<open>simp_all add: fv_inv_def\<close>)
  then show ?thesis by (simp add: mask_cell_def)
qed

lemma fv_push_batchI:
  assumes "fv_inv f" and "batch_ok v n" and "0 < n" and "validity_ok g"
    and "fv_valids g = fv_valids f"
    and "fv_size g = fv_size f" and "fv_type g = fv_type f" and "fv_name g = fv_name f"
    and "fv_values (fv_mark_batch g v n (fv_size f + n)) = fv_values f @ cs" and "length cs = n"
    and "fv_data_len (fv_mark_batch g v n (fv_size f + n)) = fv_size f + n"
    and "dict_ok (fv_mark_batch g v n (fv_size f + n))"
    and "varlen_ok (fv_mark_batch g v n (fv_size f + n))"
  shows "fv_extends f (map2 mask_cell (batch_valids v n) cs) (fv_mark_batch g v n (fv_size f + n))"
proof -
  have m: "fv_valids (fv_mark_batch g v n (fv_size f + n)) = fv_valids f @ batch_valids v n"
    "validity_ok (fv_mark_batch g v n (fv_size f + n))"
    using fv_mark_batch_valids [OF assms(4,2,3), of "fv_size f + n"] assms(5,6) by auto
  show ?thesis
    by (rule fv_extendsI [OF assms(1) m(1) assms(9)])
       (use assms m in \<open>simp_all add: fv_inv_def\<close>)
qed

definition flag01 :: "bool \<Rightarrow> u8" where
  [simp]: "flag01 b = (if b then 1 else 0)"

text \<open>The parts of the invariant the data of one type is concerned with.\<close>

lemmas fv_data_simps = fv_inv_def fv_data_len_def dict_ok_def varlen_ok_def fv_values_def

lemma fv_AppendInt32_correct:
  "fv_inv f \<Longrightarrow> fv_type f = kInt32 \<Longrightarrow>
   fst (fv_AppendInt32 f x) \<and> fv_extends f [CInt32 x] (snd (fv_AppendInt32 f x))"
  using fv_pushI [of f "f\<lparr>fv_i32 := fv_i32 f @ [x]\<rparr>" "CInt32 x"]
  by (simp add: fv_AppendInt32_def fv_data_simps)

lemma fv_AppendInt64_correct:
  "fv_inv f \<Longrightarrow> fv_type f = kInt64 \<Longrightarrow>
   fst (fv_AppendInt64 f x) \<and> fv_extends f [CInt64 x] (snd (fv_AppendInt64 f x))"
  using fv_pushI [of f "f\<lparr>fv_i64 := fv_i64 f @ [x]\<rparr>" "CInt64 x"]
  by (simp add: fv_AppendInt64_def fv_data_simps)

lemma fv_AppendFloat64_correct:
  "fv_inv f \<Longrightarrow> fv_type f = kFloat64 \<Longrightarrow>
   fst (fv_AppendFloat64 f x) \<and> fv_extends f [CFloat64 x] (snd (fv_AppendFloat64 f x))"
  using fv_pushI [of f "f\<lparr>fv_f64 := fv_f64 f @ [x]\<rparr>" "CFloat64 x"]
  by (simp add: fv_AppendFloat64_def fv_data_simps)

lemma fv_AppendBool_correct:
  "fv_inv f \<Longrightarrow> fv_type f = kBool \<Longrightarrow>
   fst (fv_AppendBool f x) \<and> fv_extends f [CBool (flag01 x)] (snd (fv_AppendBool f x))"
  using fv_pushI [of f "f\<lparr>fv_bool := fv_bool f @ [flag01 x]\<rparr>" "CBool (flag01 x)"]
  by (simp add: fv_AppendBool_def fv_data_simps)

text \<open>
  A dictionary column: the id is new or known, and the ids of earlier valid rows still
  read the same values.
\<close>

lemma dict_cell_mono:
  "dict_inv d \<Longrightarrow> unat i < length (dict_values d) \<Longrightarrow>
   dict_cell (snd (dict_Add d v)) i = dict_cell d i"
  using di.add_keeps [of d "unat i" v] by (simp add: dict_cell_def dict_Value_def)


lemma dict_ok_extend:
  assumes "dict_ok f" and "fv_type f = kDictInt32" and "dict_inv d"
    and "length (dict_values (fv_dictionary f)) \<le> length (dict_values d)"
    and "fv_valids g = fv_valids f @ vs" and "fv_dict_ids g = fv_dict_ids f @ is"
    and "fv_dictionary g = d" and "length is = length vs"
    and "\<forall>i\<in>set is. unat i < length (dict_values d)"
  shows "dict_ok g"
proof -
  have "list_all2 (\<lambda>v i. v \<longrightarrow> unat i < length (dict_values d)) (fv_valids f) (fv_dict_ids f)"
    using assms(1,2,4) by (auto simp: dict_ok_def elim!: list_all2_mono)
  moreover have "list_all2 (\<lambda>v i. v \<longrightarrow> unat i < length (dict_values d)) vs is"
    using assms(8,9) by (auto simp: list_all2_conv_all_nth)
  ultimately show ?thesis
    using assms by (simp add: dict_ok_def list_all2_appendI)
qed

lemma map2_mask_dict:
  assumes "list_all2 (\<lambda>v i. v \<longrightarrow> unat i < length (dict_values d)) vs is"
    and "\<And>i. unat i < length (dict_values d) \<Longrightarrow> dict_cell d' i = dict_cell d i"
  shows "map2 mask_cell vs (map (dict_cell d') is) = map2 mask_cell vs (map (dict_cell d) is)"
  using assms by (induction vs "is" rule: list_all2_induct) (auto simp: mask_cell_def)

lemma fv_extends_dict:
  assumes "fv_inv f" and "fv_type f = kDictInt32" and "validity_ok g" and "fv_type g = fv_type f"
    and "fv_name g = fv_name f" and "fv_size g = fv_size f + length vs"
    and "dict_inv (fv_dictionary g)"
    and "length (dict_values (fv_dictionary f)) \<le> length (dict_values (fv_dictionary g))"
    and "\<And>i. unat i < length (dict_values (fv_dictionary f)) \<Longrightarrow>
          dict_cell (fv_dictionary g) i = dict_cell (fv_dictionary f) i"
    and "fv_valids g = fv_valids f @ vs" and "fv_dict_ids g = fv_dict_ids f @ is"
    and "length is = length vs"
    and "\<forall>i\<in>set is. unat i < length (dict_values (fv_dictionary g))"
  shows "fv_extends f (map2 mask_cell vs (map (dict_cell (fv_dictionary g)) is)) g"
proof -
  have d: "dict_ok f" "length (fv_dict_ids f) = fv_size f"
    using assms(1,2) by (simp_all add: fv_inv_def fv_data_len_def)
  have "dict_ok g"
    by (rule dict_ok_extend [OF d(1) assms(2) assms(7,8,10,11) refl assms(12,13)])
  then have "fv_inv g"
    using assms d(2) by (simp add: fv_inv_def fv_data_len_def varlen_ok_def)
  moreover have "map2 mask_cell (fv_valids f) (map (dict_cell (fv_dictionary g)) (fv_dict_ids f)) =
      map2 mask_cell (fv_valids f) (map (dict_cell (fv_dictionary f)) (fv_dict_ids f))"
    using d(1) assms(2) by (intro map2_mask_dict assms(9)) (simp add: dict_ok_def)
  ultimately show ?thesis
    using assms d(2) fv_inv_valids_len [OF assms(1)]
    by (simp add: fv_extends_def fv_cells_def fv_values_def)
qed

lemma fv_AppendDictInt32_correct:
  assumes "fv_inv f" and "fv_type f = kDictInt32"
  shows "fst (fv_AppendDictInt32 f x) \<and> fv_extends f [CDict x] (snd (fv_AppendDictInt32 f x))"
proof -
  let ?i = "fst (dict_Add (fv_dictionary f) x)" and ?d = "snd (dict_Add (fv_dictionary f) x)"
  let ?g = "f\<lparr>fv_dictionary := ?d, fv_dict_ids := fv_dict_ids f @ [?i]\<rparr>"
  let ?h = "fv_mark_last ?g (Suc (fv_size f))"
  have inv: "dict_inv (fv_dictionary f)" "length (fv_dict_ids f) = fv_size f" "validity_ok ?g"
    using assms by (simp_all add: fv_inv_def fv_data_len_def dict_ok_def)
  have step: "fv_AppendDictInt32 f x = (True, ?h)"
    using assms(2) inv(2) by (simp add: fv_AppendDictInt32_def case_prod_unfold Let_def)
  note m = fv_mark_last_valids [OF inv(3), of "Suc (fv_size f)"]
  have "fv_extends f (map2 mask_cell [True] (map (dict_cell (fv_dictionary ?h)) [?i])) ?h"
    using assms inv m di.add_id [OF inv(1), of x] di.add_keeps [OF inv(1), where v = x]
    by (intro fv_extends_dict)
       (auto simp: dict_Add_inv dict_cell_mono di.add_table)
  moreover have "dict_cell ?d ?i = CDict x"
    using di.add_id [OF inv(1), of x] by (simp add: dict_cell_def dict_Value_def)
  ultimately show ?thesis by (simp add: step mask_cell_def)
qed

text \<open>Byte columns.  A value of 4 GiB or more would lose bits in its 32-bit length.\<close>

lemma fv_values_varlen:
  "is_varlen (fv_type f) \<Longrightarrow> fv_values f = map CBytes (split_rows (fv_lengths f) (fv_bytes f))"
  and fv_data_len_varlen: "is_varlen (fv_type f) \<Longrightarrow> fv_data_len f = length (fv_lengths f)"
  by (cases "fv_type f"; simp add: fv_values_def fv_data_len_def)+

lemma not_dict_varlen: "is_varlen t \<Longrightarrow> t \<noteq> kDictInt32"
  by auto

lemma fv_push_bytes_correct:
  assumes "fv_inv f" and "is_varlen (fv_type f)" and "length x < 2 ^ 32"
  shows "fv_extends f [CBytes x] (fv_push_bytes f x)"
proof -
  let ?g = "f\<lparr>fv_lengths := fv_lengths f @ [of_nat (length x)], fv_bytes := fv_bytes f @ x,
              fv_offsets_valid := False\<rparr>"
  have len: "unat (of_nat (length x) :: u32) = length x"
    using assms(3) by (simp add: unat_of_nat take_bit_nat_eq_self)
  have size: "length (fv_lengths f) = fv_size f"
    using assms(1,2) by (simp add: fv_inv_def fv_data_len_varlen)
  then have "fv_push_bytes f x = fv_mark_last ?g (Suc (fv_size f))"
    by (simp add: fv_push_bytes_def Let_def)
  then show ?thesis
    using fv_pushI [of f ?g "CBytes x"] assms len size not_dict_varlen [OF assms(2)]
    by (simp add: fv_inv_def fv_data_len_varlen fv_values_varlen dict_ok_def varlen_ok_def
        split_rows_append)
qed

lemma fv_AppendString_correct:
  "fv_inv f \<Longrightarrow> fv_type f = kString \<Longrightarrow> length x < 2 ^ 32 \<Longrightarrow>
   fst (fv_AppendString f x) \<and> fv_extends f [CBytes x] (snd (fv_AppendString f x))"
  by (simp add: fv_AppendString_def fv_push_bytes_correct)

lemma fv_AppendBytes_correct:
  "fv_inv f \<Longrightarrow> fv_type f \<in> {kBytes, kArray, kVectorFloat32} \<Longrightarrow> length x < 2 ^ 32 \<Longrightarrow>
   fst (fv_AppendBytes f x) \<and> fv_extends f [CBytes x] (snd (fv_AppendBytes f x))"
  by (auto simp: fv_AppendBytes_def fv_push_bytes_correct)

lemma fv_AppendVectorFloat32_correct:
  assumes "fv_inv f" and "fv_type f = kVectorFloat32" and "length vs < 2 ^ 30"
  shows "fst (fv_AppendVectorFloat32 f (Some vs) (length vs)) \<and>
         fv_extends f [CBytes (le_array 4 vs)] (snd (fv_AppendVectorFloat32 f (Some vs) (length vs)))"
  using assms fv_AppendBytes_correct [of f "le_array 4 vs"]
  by (simp add: fv_AppendVectorFloat32_def)

text \<open>A null row: whatever the type, the column grows by one null cell.\<close>

lemma fv_ResizeStorage_frame [simp, column_simps]:
  "fv_size (fv_ResizeStorage f n) = fv_size f" "fv_type (fv_ResizeStorage f n) = fv_type f"
  "fv_name (fv_ResizeStorage f n) = fv_name f"
  "fv_validity (fv_ResizeStorage f n) = fv_validity f"
  "fv_dictionary (fv_ResizeStorage f n) = fv_dictionary f"
  "fv_bytes (fv_ResizeStorage f n) = fv_bytes f"
  "fv_valids (fv_ResizeStorage f n) = fv_valids f"
  "validity_ok (fv_ResizeStorage f n) = validity_ok f"
  "fv_offsets_valid (fv_ResizeStorage f n) = fv_offsets_valid f"
  by (simp_all add: fv_ResizeStorage_def split: field_type.splits)

definition null_value :: "field_vector \<Rightarrow> cell" where
  "null_value f =
     (case fv_type f of
        kInt32 \<Rightarrow> CInt32 0
      | kInt64 \<Rightarrow> CInt64 0
      | kFloat64 \<Rightarrow> CFloat64 0
      | kBool \<Rightarrow> CBool 0
      | kDictInt32 \<Rightarrow> dict_cell (fv_dictionary f) 0
      | kObject \<Rightarrow> CObject
      | _ \<Rightarrow> CBytes [])"

lemma fv_ResizeStorage_grown:
  assumes "fv_inv f" and "n = fv_size f + k" and "g = (fv_ResizeStorage f n)\<lparr>fv_size := n\<rparr>"
  shows "fv_values g = fv_values f @ replicate k (null_value f)" and "fv_data_len g = n"
    and "varlen_ok (g\<lparr>fv_offsets_valid := False\<rparr>)"
proof -
  have len: "fv_data_len f = fv_size f" and ok: "varlen_ok f"
    using assms(1) by (simp_all add: fv_inv_def)
  show "fv_data_len g = n"
    by (cases "fv_type f") (simp_all add: assms(3) fv_data_len_def fv_ResizeStorage_def)
  show "fv_values g = fv_values f @ replicate k (null_value f)"
    using len ok assms(2,3) split_rows_append [of "fv_lengths f" "fv_bytes f" "replicate k 0" "[]"]
    by (cases "fv_type f")
       (simp_all add: fv_values_def fv_data_len_def fv_ResizeStorage_def null_value_def varlen_ok_def
         vec_resize_grow replicate_add)
  show "varlen_ok (g\<lparr>fv_offsets_valid := False\<rparr>)"
    using len ok assms(2,3)
    by (cases "fv_type f")
       (simp_all add: fv_data_len_def fv_ResizeStorage_def varlen_ok_def vec_resize_grow)
qed

lemma dict_ok_false:
  assumes "dict_ok f" and "fv_type g = fv_type f" and "fv_dictionary g = fv_dictionary f"
    and "fv_valids g = fv_valids f @ replicate k False"
    and "fv_type f = kDictInt32 \<Longrightarrow> fv_dict_ids g = fv_dict_ids f @ replicate k 0"
  shows "dict_ok g"
  using assms
  by (auto simp: dict_ok_def intro!: list_all2_appendI)
     (auto simp: list_all2_conv_all_nth)

lemma fv_ensure_ResizeStorage:
  "fv_validity (fv_ensure_validity (fv_ResizeStorage f n)) = fv_validity (fv_ensure_validity f)"
  by (simp add: fv_ensure_validity_def)

text \<open>
  Fields by field: the storage is the resized storage, the bitmap has one more, unset bit.
\<close>

definition same_data :: "field_vector \<Rightarrow> field_vector \<Rightarrow> bool" where
  "same_data f g \<longleftrightarrow>
     fv_type f = fv_type g \<and> fv_name f = fv_name g \<and> fv_size f = fv_size g \<and>
     fv_i32 f = fv_i32 g \<and> fv_i64 f = fv_i64 g \<and> fv_f64 f = fv_f64 g \<and> fv_bool f = fv_bool g \<and>
     fv_dict_ids f = fv_dict_ids g \<and> fv_dictionary f = fv_dictionary g \<and>
     fv_bytes f = fv_bytes g \<and> fv_lengths f = fv_lengths g"

lemma same_data_values: "same_data f g \<Longrightarrow> fv_values f = fv_values g"
  and same_data_len: "same_data f g \<Longrightarrow> fv_data_len f = fv_data_len g"
  by (auto simp: same_data_def fv_values_def fv_data_len_def cong: field_type.case_cong)

lemma fv_lengths_ResizeStorage:
  "is_varlen (fv_type f) \<Longrightarrow> length (fv_lengths f) = fv_size f \<Longrightarrow>
   fv_lengths (fv_ResizeStorage f (Suc (fv_size f))) = fv_lengths f @ [0]"
  using vec_resize_Suc [of "fv_lengths f" 0]
  by (cases "fv_type f") (auto simp: fv_ResizeStorage_def)

lemma fv_AppendNull_fields:
  assumes "fv_inv f"
  defines "g \<equiv> (fv_ResizeStorage f (Suc (fv_size f)))\<lparr>fv_size := Suc (fv_size f)\<rparr>"
  shows "same_data (snd (fv_AppendNull f)) g" and "fst (fv_AppendNull f)"
    and "fv_validity (snd (fv_AppendNull f)) =
           bitmap_Set (bitmap_Resize (fv_validity (fv_ensure_validity f)) (Suc (fv_size f)))
             (fv_size f) False"
    and "is_varlen (fv_type f) \<Longrightarrow> \<not> fv_offsets_valid (snd (fv_AppendNull f))"
proof -
  have len: "is_varlen (fv_type f) \<Longrightarrow> length (fv_lengths f) = fv_size f"
    using assms(1) by (simp add: fv_inv_def fv_data_len_varlen)
  show "same_data (snd (fv_AppendNull f)) g"
    using len
    by (cases "is_varlen (fv_type f)")
       (simp_all add: same_data_def fv_AppendNull_def g_def Let_def fv_lengths_ResizeStorage
         list_update_append)
  show "fst (fv_AppendNull f)"
    by (simp add: fv_AppendNull_def Let_def)
  show "fv_validity (snd (fv_AppendNull f)) =
      bitmap_Set (bitmap_Resize (fv_validity (fv_ensure_validity f)) (Suc (fv_size f)))
        (fv_size f) False"
    by (simp add: fv_AppendNull_def Let_def fv_ensure_ResizeStorage)
  show "is_varlen (fv_type f) \<Longrightarrow> \<not> fv_offsets_valid (snd (fv_AppendNull f))"
    by (simp add: fv_AppendNull_def Let_def)
qed

lemma fv_dict_ids_ResizeStorage:
  "fv_type f = kDictInt32 \<Longrightarrow> length (fv_dict_ids f) = fv_size f \<Longrightarrow>
   fv_dict_ids (fv_ResizeStorage f (fv_size f + k)) = fv_dict_ids f @ replicate k 0"
  by (simp add: fv_ResizeStorage_def vec_resize_grow)

lemma fv_AppendNull_correct:
  assumes "fv_inv f"
  shows "fst (fv_AppendNull f) \<and> fv_extends f [CNull] (snd (fv_AppendNull f))"
proof -
  define h where "h = snd (fv_AppendNull f)"
  define g where "g = (fv_ResizeStorage f (Suc (fv_size f)))\<lparr>fv_size := Suc (fv_size f)\<rparr>"
  note u = fv_AppendNull_fields [OF assms, folded g_def h_def]
  have ok: "validity_ok f" using assms by (simp add: fv_inv_def)
  note e = fv_ensure_validity_valids [OF ok]
  note grown = fv_ResizeStorage_grown [OF assms, of "Suc (fv_size f)" 1 g]
  have size: "fv_size h = Suc (fv_size f)" and type: "fv_type h = fv_type f"
    and name: "fv_name h = fv_name f" and dict: "fv_dictionary h = fv_dictionary f"
    using u(1) by (simp_all add: same_data_def g_def)
  have valid: "fv_valids h = fv_valids f @ [False]" "validity_ok h"
    using e bitmap_list_push [OF e(2), of "Suc (fv_size f)" False]
    by (simp_all add: u(3) fv_valids_def validity_ok_def size)
  have vals: "fv_values h = fv_values f @ [null_value f]"
    using grown(1) same_data_values [OF u(1)] by (simp add: g_def)
  have "fv_type f = kDictInt32 \<Longrightarrow> fv_dict_ids h = fv_dict_ids f @ [0]"
    using assms u(1) fv_dict_ids_ResizeStorage [of f 1]
    by (simp add: same_data_def g_def fv_inv_def fv_data_len_def)
  then have "dict_ok h"
    using assms valid(1) type dict by (intro dict_ok_false [of f h 1]) (simp_all add: fv_inv_def)
  moreover have "fv_data_len h = Suc (fv_size f)"
    using grown(2) same_data_len [OF u(1)] by (simp add: g_def)
  moreover have "varlen_ok h"
    using grown(3) u(1,4) type by (auto simp: g_def varlen_ok_def same_data_def)
  ultimately have "fv_inv h"
    using valid(2) by (simp add: fv_inv_def size)
  then have "fv_extends f (map2 mask_cell [False] [null_value f]) h"
    using valid(1) vals type name by (intro fv_extendsI [OF assms]) simp_all
  then show ?thesis using u(2) by (simp add: mask_cell_def h_def)
qed

section \<open>Batch appends\<close>

definition batch_cells :: "u8 list option \<Rightarrow> nat \<Rightarrow> cell list \<Rightarrow> cell list" where
  "batch_cells validity count cs = map2 mask_cell (batch_valids validity count) (take count cs)"

lemma batch_cells_0 [simp]: "batch_cells v 0 cs = []"
  by (simp add: batch_cells_def)

lemma length_batch_cells [simp]:
  "batch_ok v n \<Longrightarrow> n \<le> length cs \<Longrightarrow> length (batch_cells v n cs) = n"
  by (simp add: batch_cells_def)

lemma fv_extends_refl: "fv_inv f \<Longrightarrow> fv_extends f [] f"
  by (simp add: fv_extends_def)

lemma fv_AppendBatchInt32_correct:
  assumes "fv_inv f" and "fv_type f = kInt32" and "count \<le> length vs" and "batch_ok v count"
  shows "fst (fv_AppendBatchInt32 f vs count v) \<and>
         fv_extends f (batch_cells v count (map CInt32 vs)) (snd (fv_AppendBatchInt32 f vs count v))"
  using assms fv_push_batchI [of f v count "f\<lparr>fv_i32 := fv_i32 f @ take count vs\<rparr>"
      "map CInt32 (take count vs)"]
  by (cases "count = 0")
     (simp_all add: fv_AppendBatchInt32_def fv_data_simps fv_extends_refl batch_cells_def take_map)

lemma fv_AppendBatchInt64_correct:
  assumes "fv_inv f" and "fv_type f = kInt64" and "count \<le> length vs" and "batch_ok v count"
  shows "fst (fv_AppendBatchInt64 f vs count v) \<and>
         fv_extends f (batch_cells v count (map CInt64 vs)) (snd (fv_AppendBatchInt64 f vs count v))"
  using assms fv_push_batchI [of f v count "f\<lparr>fv_i64 := fv_i64 f @ take count vs\<rparr>"
      "map CInt64 (take count vs)"]
  by (cases "count = 0")
     (simp_all add: fv_AppendBatchInt64_def fv_data_simps fv_extends_refl batch_cells_def take_map)

lemma fv_AppendBatchFloat64_correct:
  assumes "fv_inv f" and "fv_type f = kFloat64" and "count \<le> length vs" and "batch_ok v count"
  shows "fst (fv_AppendBatchFloat64 f vs count v) \<and>
         fv_extends f (batch_cells v count (map CFloat64 vs)) (snd (fv_AppendBatchFloat64 f vs count v))"
  using assms fv_push_batchI [of f v count "f\<lparr>fv_f64 := fv_f64 f @ take count vs\<rparr>"
      "map CFloat64 (take count vs)"]
  by (cases "count = 0")
     (simp_all add: fv_AppendBatchFloat64_def fv_data_simps fv_extends_refl batch_cells_def take_map)

lemma fv_AppendBatchBool_correct:
  assumes "fv_inv f" and "fv_type f = kBool" and "count \<le> length vs" and "batch_ok v count"
  shows "fst (fv_AppendBatchBool f vs count v) \<and>
         fv_extends f (batch_cells v count (map CBool vs)) (snd (fv_AppendBatchBool f vs count v))"
  using assms fv_push_batchI [of f v count "f\<lparr>fv_bool := fv_bool f @ take count vs\<rparr>"
      "map CBool (take count vs)"]
  by (cases "count = 0")
     (simp_all add: fv_AppendBatchBool_def fv_data_simps fv_extends_refl batch_cells_def take_map)

text \<open>The loop over a batch of dictionary values interns them one after the other.\<close>

lemma dict_add_all_length: "length (fst (di.add_all d vs)) = length vs"
  by (induction vs arbitrary: d) (simp_all add: di.add_all_Cons del: di.add_all.simps(2))

lemma dict_add_all_snoc:
  "di.add_all d (vs @ [v]) =
   (fst (di.add_all d vs) @ [fst (dict_Add (snd (di.add_all d vs)) v)],
    snd (dict_Add (snd (di.add_all d vs)) v))"
  by (induction vs arbitrary: d) (simp_all add: case_prod_unfold Let_def)

lemma room_all_dict: "di.room_all d vs"
  by (induction vs arbitrary: d) auto

lemma dict_batch_loop:
  assumes "n \<le> length vs" and "length (fv_dict_ids f) = start + count" and "n \<le> count"
  shows "for_loop 0 n (dict_batch_step start vs) f =
         f\<lparr>fv_dictionary := snd (di.add_all (fv_dictionary f) (take n vs)),
           fv_dict_ids := take start (fv_dict_ids f) @ fst (di.add_all (fv_dictionary f) (take n vs)) @
                          drop (start + n) (fv_dict_ids f)\<rparr>"
  using assms
proof (induction n)
  case 0
  then show ?case by simp
next
  case (Suc n)
  let ?q = "di.add_all (fv_dictionary f) (take n vs)"
  have add: "di.add_all (fv_dictionary f) (take (Suc n) vs) =
      (fst ?q @ [fst (dict_Add (snd ?q) (vs ! n))], snd (dict_Add (snd ?q) (vs ! n)))"
    using Suc.prems(1) by (simp add: take_Suc_conv_app_nth dict_add_all_snoc)
  have len: "length (fst ?q) = n"
    using Suc.prems(1) by (simp add: dict_add_all_length)
  have ids: "(take start (fv_dict_ids f) @ fst ?q @ drop (start + n) (fv_dict_ids f))[start + n := k]
      = take start (fv_dict_ids f) @ (fst ?q @ [k]) @ drop (start + Suc n) (fv_dict_ids f)" for k
    using Suc.prems(2,3) len
    by (simp add: list_update_append Cons_nth_drop_Suc [symmetric])
  show ?case
    using Suc.IH Suc.prems
    by (simp add: for_loop_Suc dict_batch_step_def case_prod_unfold Let_def add ids)
qed

lemma varlen_batch_loop:
  assumes "n \<le> length ls"
  shows "for_loop 0 n (varlen_batch_step ls bytes) (0, out) =
         (sum_lengths (take n ls), out @ take (sum_lengths (take n ls)) bytes)"
  using assms
proof (induction n)
  case 0
  then show ?case by simp
next
  case (Suc n)
  then show ?case
    by (auto simp: for_loop_Suc varlen_batch_step_def Let_def take_Suc_conv_app_nth take_add)
qed

lemma fv_push_batch_bytes_correct:
  assumes "fv_inv f" and "is_varlen (fv_type f)" and "count \<le> length ls" and "0 < count"
    and "sum_lengths (take count ls) \<le> length bytes" and "batch_ok v count"
  shows "fv_extends f (batch_cells v count (map CBytes (split_rows ls bytes)))
           (fv_push_batch_bytes f ls bytes count v)"
proof -
  let ?n = "sum_lengths (take count ls)"
  let ?g = "f\<lparr>fv_lengths := fv_lengths f @ take count ls, fv_offsets_valid := False,
              fv_bytes := fv_bytes f @ take ?n bytes\<rparr>"
  have size: "length (fv_lengths f) = fv_size f"
    using assms(1,2) by (simp add: fv_inv_def fv_data_len_varlen)
  have push: "fv_push_batch_bytes f ls bytes count v = fv_mark_batch ?g v count (fv_size f + count)"
    using assms(3) size by (simp add: fv_push_batch_bytes_def Let_def varlen_batch_loop)
  have rows: "take count (split_rows ls bytes) = split_rows (take count ls) (take ?n bytes)"
  proof -
    have "split_rows (take count ls) bytes = take count (split_rows ls bytes)"
      by (induction ls bytes arbitrary: count rule: split_rows.induct)
         (auto simp: take_Cons split: nat.splits)
    then show ?thesis by (simp add: split_rows_take)
  qed
  show ?thesis
    using fv_push_batchI [of f v count ?g "map CBytes (take count (split_rows ls bytes))"]
      assms size not_dict_varlen [OF assms(2)]
    by (simp add: push rows fv_inv_def fv_data_len_varlen fv_values_varlen dict_ok_def varlen_ok_def
        split_rows_append batch_cells_def take_map)
qed

lemma fv_AppendBatchString_correct:
  assumes "fv_inv f" and "fv_type f = kString" and "count \<le> length ls"
    and "sum_lengths (take count ls) \<le> length bytes" and "batch_ok v count"
  shows "fst (fv_AppendBatchString f ls bytes count v) \<and>
         fv_extends f (batch_cells v count (map CBytes (split_rows ls bytes)))
           (snd (fv_AppendBatchString f ls bytes count v))"
  using assms fv_push_batch_bytes_correct [of f count ls bytes v]
  by (cases "count = 0") (simp_all add: fv_AppendBatchString_def fv_extends_refl)

lemma fv_AppendBatchBytes_correct:
  assumes "fv_inv f" and "fv_type f \<in> {kBytes, kArray, kVectorFloat32}" and "count \<le> length ls"
    and "sum_lengths (take count ls) \<le> length bytes" and "batch_ok v count"
  shows "fst (fv_AppendBatchBytes f ls bytes count v) \<and>
         fv_extends f (batch_cells v count (map CBytes (split_rows ls bytes)))
           (snd (fv_AppendBatchBytes f ls bytes count v))"
  using assms fv_push_batch_bytes_correct [of f count ls bytes v]
  by (cases "count = 0") (auto simp: fv_AppendBatchBytes_def fv_extends_refl)

lemma map_dict_cell_add_all:
  assumes "dict_inv d" and "q = di.add_all d vs"
  shows "map (dict_cell (snd q)) (fst q) = map CDict vs"
    and "\<forall>i\<in>set (fst q). unat i < length (dict_values (snd q))"
proof -
  have ids: "length (fst q) = length vs \<and>
      (\<forall>i<length vs. unat (fst q ! i) < length (dict_values (snd q)) \<and>
         dict_values (snd q) ! unat (fst q ! i) = vs ! i)"
    using di.add_all_ids [OF assms(1) room_all_dict, of "fst q" vs "dict_values (snd q)"] assms(2)
    by simp
  then show "map (dict_cell (snd q)) (fst q) = map CDict vs"
    by (intro nth_equalityI) (simp_all add: dict_cell_def dict_Value_def)
  show "\<forall>i\<in>set (fst q). unat i < length (dict_values (snd q))"
    using ids by (auto simp: in_set_conv_nth)
qed

lemma dict_cell_add_all:
  "dict_inv d \<Longrightarrow> unat i < length (dict_values d) \<Longrightarrow>
   dict_cell (snd (di.add_all d vs)) i = dict_cell d i"
  using di.add_all_keeps [OF _ room_all_dict, of d "unat i" vs]
  by (simp add: dict_cell_def dict_Value_def)

lemma dict_add_all_grows:
  "dict_inv d \<Longrightarrow> length (dict_values d) \<le> length (dict_values (snd (di.add_all d vs)))"
  using di.add_all_keeps [OF _ room_all_dict, of d _ vs]
  by (metis linorder_not_le order_less_irrefl)

lemma fv_mark_batch_dictionary [simp]:
  "fv_dictionary (fv_mark_batch f v n m) = fv_dictionary f"
  "fv_dict_ids (fv_mark_batch f v n m) = fv_dict_ids f"
  by (simp_all add: column_simps)

lemma fv_AppendBatchDictInt32_correct:
  assumes "fv_inv f" and "fv_type f = kDictInt32" and "count \<le> length vs" and "batch_ok v count"
  shows "fst (fv_AppendBatchDictInt32 f vs count v) \<and>
         fv_extends f (batch_cells v count (map CDict vs)) (snd (fv_AppendBatchDictInt32 f vs count v))"
proof (cases "count = 0")
  case True
  with assms show ?thesis by (simp add: fv_AppendBatchDictInt32_def fv_extends_refl)
next
  case False
  let ?q = "di.add_all (fv_dictionary f) (take count vs)"
  let ?g = "f\<lparr>fv_dictionary := snd ?q, fv_dict_ids := fv_dict_ids f @ fst ?q\<rparr>"
  let ?h = "fv_mark_batch ?g v count (fv_size f + count)"
  have inv: "dict_inv (fv_dictionary f)" "length (fv_dict_ids f) = fv_size f" "validity_ok ?g"
    using assms by (simp_all add: fv_inv_def fv_data_len_def dict_ok_def)
  have len: "length (fst ?q) = count"
    using assms(3) by (simp add: dict_add_all_length)
  have step: "fv_AppendBatchDictInt32 f vs count v = (True, ?h)"
    using assms(2,3) inv(2) False len
      dict_batch_loop [OF assms(3), of "f\<lparr>fv_dict_ids := fv_dict_ids f @ replicate count 0\<rparr>" "fv_size f" count]
    by (simp add: fv_AppendBatchDictInt32_def Let_def vec_resize_grow)
  note m = fv_mark_batch_valids [OF inv(3) assms(4), of "fv_size f + count"]
  note q = map_dict_cell_add_all [OF inv(1), of ?q "take count vs"]
  have "fv_extends f (map2 mask_cell (batch_valids v count) (map (dict_cell (fv_dictionary ?h)) (fst ?q))) ?h"
  proof (rule fv_extends_dict [OF assms(1,2)])
    show "validity_ok ?h" "fv_valids ?h = fv_valids f @ batch_valids v count"
      using m False by simp_all
    show "dict_inv (fv_dictionary ?h)"
      using di.add_all_invar [OF inv(1) room_all_dict] by simp
    show "length (dict_values (fv_dictionary f)) \<le> length (dict_values (fv_dictionary ?h))"
      using dict_add_all_grows [OF inv(1)] by simp
    show "\<forall>i\<in>set (fst ?q). unat i < length (dict_values (fv_dictionary ?h))"
      using q(2) by simp
  qed (use assms inv len dict_cell_add_all in simp_all)
  then show ?thesis
    using step q(1) by (simp add: batch_cells_def take_map)
qed

end
