(* ===== verification/ColumnSteps.thy ===== *)
theory ColumnSteps
  imports Column
begin

text \<open>
  A column's life: the step relation whose labels are the cells an operation of
  \<open>FieldVector\<close> adds, the columns reachable from a constructor call, and what holds of
  all of them.  Reading through the offset cache (\<open>DataOffsets\<close>, \<open>VectorFloat32\<close>) is a
  step too, because it mutates the cache.  Then the operations that change a column in
  place or load it from a file.
\<close>

section \<open>Reading variable-length rows\<close>

lemma fv_DataOffsets_correct:
  assumes "fv_inv f"
  shows "fv_extends f [] (snd (fv_DataOffsets f)) \<and>
         fst (fv_DataOffsets f) =
           (if is_varlen (fv_type f) then Some (offsets_from 0 (fv_lengths f)) else None)"
proof -
  have "fv_values (f\<lparr>fv_offsets := a, fv_offsets_valid := b\<rparr>) = fv_values f" for a b
    by (simp add: fv_values_def split: field_type.splits)
  moreover have "fv_data_len (f\<lparr>fv_offsets := a, fv_offsets_valid := b\<rparr>) = fv_data_len f" for a b
    by (simp add: fv_data_len_def split: field_type.splits)
  ultimately show ?thesis
    using assms
    by (auto simp: fv_extends_def fv_DataOffsets_def Let_def fv_inv_def dict_ok_def varlen_ok_def
        fv_cells_def)
qed

lemma fv_lengths_DataOffsets [simp]: "fv_lengths (snd (fv_DataOffsets f)) = fv_lengths f"
  by (simp add: fv_DataOffsets_def Let_def)

lemma fv_bytes_DataOffsets [simp]: "fv_bytes (snd (fv_DataOffsets f)) = fv_bytes f"
  by (simp add: fv_DataOffsets_def Let_def)

text \<open>The offset of a row is exact as long as the column's bytes stay below 4 GiB.\<close>

lemma sum_lengths_take_le: "sum_lengths (take i ls) \<le> sum_lengths ls"
  by (metis append_take_drop_id le_add1 sum_lengths_simps(3))

lemma unat_offsets_from:
  assumes "i \<le> length ls" and "sum_lengths ls < 2 ^ 32"
  shows "unat (offsets_from 0 ls ! i) = sum_lengths (take i ls)"
proof -
  have "sum_lengths (take i ls) < 2 ^ 32"
    using sum_lengths_take_le [of i ls] assms(2) by simp
  then show ?thesis
    using assms(1) by (simp add: offsets_from_nth unat_of_nat take_bit_nat_eq_self)
qed

lemma fv_VectorFloat32_row:
  fixes vs :: "u32 list"
  assumes "fv_inv f" and "fv_type f = kVectorFloat32" and "i < fv_size f" and "fv_IsValid f i"
    and "length (fv_bytes f) < 2 ^ 32" and "fv_values f ! i = CBytes (le_array 4 vs)"
  shows "\<exists>off f'. fv_VectorFloat32 f i = Some ((length vs, Some off), f') \<and>
           fv_extends f [] f' \<and> take (4 * length vs) (drop off (fv_bytes f')) = le_array 4 vs"
proof -
  let ?row = "take (unat (fv_lengths f ! i)) (drop (sum_lengths (take i (fv_lengths f))) (fv_bytes f))"
  have size: "length (fv_lengths f) = fv_size f" and sum: "sum_lengths (fv_lengths f) = length (fv_bytes f)"
    using assms(1,2) by (simp_all add: fv_inv_def fv_data_len_varlen varlen_ok_def)
  note split_nth = split_rows_nth [of i "fv_lengths f" "fv_bytes f"]
  have row: "?row = le_array 4 vs"
    using assms(2,3,6) size split_nth by (simp add: fv_values_varlen)
  have "sum_lengths (take i (fv_lengths f)) + unat (fv_lengths f ! i) \<le> length (fv_bytes f)"
    using sum_lengths_take_le [of "Suc i" "fv_lengths f"] assms(3) size sum
    by (simp add: take_Suc_conv_app_nth)
  then have len: "unat (fv_lengths f ! i) = 4 * length vs"
    using arg_cong [OF row, of length] by simp
  have offs: "fv_DataOffsets f = (Some (offsets_from 0 (fv_lengths f)), snd (fv_DataOffsets f))"
    using fv_DataOffsets_correct [OF assms(1)] assms(2)
    by (metis is_varlen_simps(10) prod.collapse)
  have "unat (offsets_from 0 (fv_lengths f) ! i) = sum_lengths (take i (fv_lengths f))"
    using assms(3,5) size sum by (intro unat_offsets_from) simp_all
  then have "fv_VectorFloat32 f i =
      Some ((length vs, Some (sum_lengths (take i (fv_lengths f)))), snd (fv_DataOffsets f))"
    using assms(2,3,4) size len unfolding fv_VectorFloat32_def by (subst offs) simp
  then show ?thesis
    using len row fv_DataOffsets_correct [OF assms(1)] by auto
qed

section \<open>Steps\<close>

inductive fv_step :: "field_vector \<Rightarrow> cell list \<Rightarrow> field_vector \<Rightarrow> bool" where
  int32: "fv_AppendInt32 f x = (True, g) \<Longrightarrow> fv_step f [CInt32 x] g"
| int64: "fv_AppendInt64 f y = (True, g) \<Longrightarrow> fv_step f [CInt64 y] g"
| float64: "fv_AppendFloat64 f z = (True, g) \<Longrightarrow> fv_step f [CFloat64 z] g"
| bool: "fv_AppendBool f b = (True, g) \<Longrightarrow> fv_step f [CBool (flag01 b)] g"
| dict: "fv_AppendDictInt32 f x = (True, g) \<Longrightarrow> fv_step f [CDict x] g"
| string: "fv_AppendString f s = (True, g) \<Longrightarrow> length s < 2 ^ 32 \<Longrightarrow> fv_step f [CBytes s] g"
| bytes: "fv_AppendBytes f s = (True, g) \<Longrightarrow> length s < 2 ^ 32 \<Longrightarrow> fv_step f [CBytes s] g"
| vector: "fv_AppendVectorFloat32 f (Some vs) (length vs) = (True, g) \<Longrightarrow>
    fv_step f [CBytes (le_array 4 vs)] g"
| null: "fv_AppendNull f = (True, g) \<Longrightarrow> fv_step f [CNull] g"
| batch_int32: "fv_AppendBatchInt32 f xs count v = (True, g) \<Longrightarrow> count \<le> length xs \<Longrightarrow>
    batch_ok v count \<Longrightarrow> fv_step f (batch_cells v count (map CInt32 xs)) g"
| batch_int64: "fv_AppendBatchInt64 f ys count v = (True, g) \<Longrightarrow> count \<le> length ys \<Longrightarrow>
    batch_ok v count \<Longrightarrow> fv_step f (batch_cells v count (map CInt64 ys)) g"
| batch_float64: "fv_AppendBatchFloat64 f zs count v = (True, g) \<Longrightarrow> count \<le> length zs \<Longrightarrow>
    batch_ok v count \<Longrightarrow> fv_step f (batch_cells v count (map CFloat64 zs)) g"
| batch_bool: "fv_AppendBatchBool f bs count v = (True, g) \<Longrightarrow> count \<le> length bs \<Longrightarrow>
    batch_ok v count \<Longrightarrow> fv_step f (batch_cells v count (map CBool bs)) g"
| batch_dict: "fv_AppendBatchDictInt32 f xs count v = (True, g) \<Longrightarrow> count \<le> length xs \<Longrightarrow>
    batch_ok v count \<Longrightarrow> fv_step f (batch_cells v count (map CDict xs)) g"
| batch_string: "fv_AppendBatchString f ls bs count v = (True, g) \<Longrightarrow> count \<le> length ls \<Longrightarrow>
    sum_lengths (take count ls) \<le> length bs \<Longrightarrow> batch_ok v count \<Longrightarrow>
    fv_step f (batch_cells v count (map CBytes (split_rows ls bs))) g"
| batch_bytes: "fv_AppendBatchBytes f ls bs count v = (True, g) \<Longrightarrow> count \<le> length ls \<Longrightarrow>
    sum_lengths (take count ls) \<le> length bs \<Longrightarrow> batch_ok v count \<Longrightarrow>
    fv_step f (batch_cells v count (map CBytes (split_rows ls bs))) g"
| offsets: "g = snd (fv_DataOffsets f) \<Longrightarrow> fv_step f [] g"

inductive fv_reach :: "field_vector \<Rightarrow> cell list \<Rightarrow> field_vector \<Rightarrow> bool" where
  start: "fv_reach f [] f"
| more: "fv_reach f cs g \<Longrightarrow> fv_step g ds h \<Longrightarrow> fv_reach f (cs @ ds) h"

inductive_cases fv_reach_elim [elim]: "fv_reach f cs g"

text \<open>An append that returns true had a column of its type.\<close>

lemma fv_append_types:
  "fst (fv_AppendInt32 f x) \<longleftrightarrow> fv_type f = kInt32"
  "fst (fv_AppendInt64 f y) \<longleftrightarrow> fv_type f = kInt64"
  "fst (fv_AppendFloat64 f z) \<longleftrightarrow> fv_type f = kFloat64"
  "fst (fv_AppendBool f b) \<longleftrightarrow> fv_type f = kBool"
  "fst (fv_AppendDictInt32 f x) \<longleftrightarrow> fv_type f = kDictInt32"
  "fst (fv_AppendString f s) \<longleftrightarrow> fv_type f = kString"
  "fst (fv_AppendBytes f s) \<longleftrightarrow> fv_type f \<in> {kBytes, kArray, kVectorFloat32}"
  "fst (fv_AppendVectorFloat32 f (Some vs) (length vs)) \<longleftrightarrow>
     fv_type f = kVectorFloat32 \<and> length vs < 2 ^ 30"
  "fst (fv_AppendBatchInt32 f xs count v) \<longleftrightarrow> fv_type f = kInt32"
  "fst (fv_AppendBatchInt64 f ys count v) \<longleftrightarrow> fv_type f = kInt64"
  "fst (fv_AppendBatchFloat64 f zs count v) \<longleftrightarrow> fv_type f = kFloat64"
  "fst (fv_AppendBatchBool f bs count v) \<longleftrightarrow> fv_type f = kBool"
  "fst (fv_AppendBatchDictInt32 f xs count v) \<longleftrightarrow> fv_type f = kDictInt32"
  "fst (fv_AppendBatchString f ls bs count v) \<longleftrightarrow> fv_type f = kString"
  "fst (fv_AppendBatchBytes f ls bs count v) \<longleftrightarrow> fv_type f \<in> {kBytes, kArray, kVectorFloat32}"
  by (auto simp: fv_AppendInt32_def fv_AppendInt64_def fv_AppendFloat64_def fv_AppendBool_def
      fv_AppendDictInt32_def fv_AppendString_def fv_AppendBytes_def fv_AppendVectorFloat32_def
      fv_AppendBatchInt32_def fv_AppendBatchInt64_def fv_AppendBatchFloat64_def
      fv_AppendBatchBool_def fv_AppendBatchDictInt32_def fv_AppendBatchString_def
      fv_AppendBatchBytes_def Let_def case_prod_unfold)

lemma fv_step_extends:
  assumes "fv_step f cs g" and "fv_inv f"
  shows "fv_extends f cs g"
  using assms
proof (cases rule: fv_step.cases)
  case (int32 x)
  with assms(2) show ?thesis
    using fv_AppendInt32_correct [of f x] fv_append_types(1) [of f x] by simp
next
  case (int64 y)
  with assms(2) show ?thesis
    using fv_AppendInt64_correct [of f y] fv_append_types(2) [of f y] by simp
next
  case (float64 z)
  with assms(2) show ?thesis
    using fv_AppendFloat64_correct [of f z] fv_append_types(3) [of f z] by simp
next
  case (bool b)
  with assms(2) show ?thesis
    using fv_AppendBool_correct [of f b] fv_append_types(4) [of f b] by simp
next
  case (dict x)
  with assms(2) show ?thesis
    using fv_AppendDictInt32_correct [of f x] fv_append_types(5) [of f x] by simp
next
  case (string s)
  with assms(2) show ?thesis
    using fv_AppendString_correct [of f s] fv_append_types(6) [of f s] by simp
next
  case (bytes s)
  with assms(2) show ?thesis
    using fv_AppendBytes_correct [of f s] fv_append_types(7) [of f s] by simp
next
  case (vector vs)
  with assms(2) show ?thesis
    using fv_AppendVectorFloat32_correct [of f vs] fv_append_types(8) [of f vs] by simp
next
  case null
  with assms(2) show ?thesis
    using fv_AppendNull_correct [of f] by simp
next
  case (batch_int32 xs count v)
  with assms(2) show ?thesis
    using fv_AppendBatchInt32_correct [of f count xs v] fv_append_types(9) [of f xs count v] by simp
next
  case (batch_int64 ys count v)
  with assms(2) show ?thesis
    using fv_AppendBatchInt64_correct [of f count ys v] fv_append_types(10) [of f ys count v] by simp
next
  case (batch_float64 zs count v)
  with assms(2) show ?thesis
    using fv_AppendBatchFloat64_correct [of f count zs v] fv_append_types(11) [of f zs count v]
    by simp
next
  case (batch_bool bs count v)
  with assms(2) show ?thesis
    using fv_AppendBatchBool_correct [of f count bs v] fv_append_types(12) [of f bs count v] by simp
next
  case (batch_dict xs count v)
  with assms(2) show ?thesis
    using fv_AppendBatchDictInt32_correct [of f count xs v] fv_append_types(13) [of f xs count v]
    by simp
next
  case (batch_string ls bs count v)
  with assms(2) show ?thesis
    using fv_AppendBatchString_correct [of f count ls bs v] fv_append_types(14) [of f ls bs count v]
    by simp
next
  case (batch_bytes ls bs count v)
  with assms(2) show ?thesis
    using fv_AppendBatchBytes_correct [of f count ls bs v] fv_append_types(15) [of f ls bs count v]
    by simp
next
  case offsets
  with assms(2) show ?thesis
    using fv_DataOffsets_correct [of f] by simp
qed

lemma fv_reach_extends: "fv_reach f cs g \<Longrightarrow> fv_inv f \<Longrightarrow> fv_extends f cs g"
proof (induction rule: fv_reach.induct)
  case (start f)
  then show ?case by (simp add: fv_extends_refl)
next
  case (more f cs g ds h)
  then have "fv_extends f cs g" by simp
  moreover from this have "fv_extends g ds h"
    using fv_step_extends [OF more.hyps(2)] by (simp add: fv_extends_def)
  ultimately show ?case by (rule fv_extends_trans)
qed

lemma fv_new_inv: "fv_inv (fv_new name t)"
  by (cases t) (simp_all add: fv_new_def fv_inv_defs fv_data_len_def fv_valids_def)

lemma fv_new_cells [simp]: "fv_cells (fv_new name t) = []"
  by (simp add: fv_new_def fv_cells_def fv_valids_def)

text \<open>
  C10. A column built by any sequence of append calls that return true (single rows,
  batches with or without a validity array, nulls, in any order, with reads of the
  offset cache between them) holds exactly the cells that were appended, in order, under
  the name and type it was made with, and satisfies the class invariant: storage,
  validity bitmap, dictionary and offset cache agree.
\<close>
theorem fv_appends_are_a_list:
  assumes "fv_reach (fv_new name t) cs f"
  shows "fv_inv f \<and> fv_cells f = cs \<and> fv_size f = length cs \<and> fv_type f = t \<and> fv_name f = name"
  using fv_reach_extends [OF assms fv_new_inv]
  by (auto simp: fv_extends_def) (simp_all add: fv_new_def)

theorem fv_appends_are_a_list_witness:
  "fv_cells (snd (fv_AppendInt32 (snd (fv_AppendNull (fv_new [97] kInt32))) 5)) = [CNull, CInt32 5]"
proof -
  let ?f = "fv_new [97] kInt32"
  let ?g = "snd (fv_AppendNull ?f)"
  have s1: "fv_step ?f [CNull] ?g"
    by (rule fv_step.null) (simp add: fv_AppendNull_def Let_def)
  have "fv_type ?g = kInt32"
    using fv_step_extends [OF s1 fv_new_inv] by (simp add: fv_extends_def fv_new_def)
  then have s2: "fv_step ?g [CInt32 5] (snd (fv_AppendInt32 ?g 5))"
    by (intro fv_step.int32 prod_eqI) (simp_all add: fv_append_types)
  show ?thesis
    using fv_appends_are_a_list [OF fv_reach.more [OF fv_reach.more [OF fv_reach.start s1] s2]]
    by simp
qed

section \<open>Vectors read back\<close>

text \<open>
  A float vector that was appended is read back by \<open>VectorFloat32\<close>: in every column
  built by appends whose bytes stay below 4 GiB, the row's dimension is the vector's
  length and the bytes at the returned position are the vector's.  (The read fills the
  offset cache and changes nothing else.)
\<close>
theorem fv_VectorFloat32_roundtrip:
  fixes vs :: "u32 list"
  assumes "fv_reach (fv_new name kVectorFloat32) cs f" and "i < length cs"
    and "cs ! i = CBytes (le_array 4 vs)" and "length (fv_bytes f) < 2 ^ 32"
  shows "\<exists>off f'. fv_VectorFloat32 f i = Some ((length vs, Some off), f') \<and> fv_extends f [] f' \<and>
           le_words 4 (length vs) (drop off (fv_bytes f')) = vs"
proof -
  have ext: "fv_extends (fv_new name kVectorFloat32) cs f"
    using fv_reach_extends [OF assms(1) fv_new_inv] .
  then have f: "fv_inv f" "fv_cells f = cs" "fv_type f = kVectorFloat32" "fv_size f = length cs"
    by (auto simp: fv_extends_def) (simp_all add: fv_new_def)
  have "fv_IsValid f i" "fv_values f ! i = CBytes (le_array 4 vs)"
    using fv_cells_nth [OF f(1), of i] f assms(2,3) by (auto split: if_splits)
  with fv_VectorFloat32_row [OF f(1,3), of i vs] f(4) assms(2,4) obtain off f' where
    r: "fv_VectorFloat32 f i = Some ((length vs, Some off), f')" "fv_extends f [] f'"
       "take (4 * length vs) (drop off (fv_bytes f')) = le_array 4 vs"
    by auto
  then have "drop off (fv_bytes f') = le_array 4 vs @ drop (4 * length vs) (drop off (fv_bytes f'))"
    by (metis append_take_drop_id)
  moreover have "le_words 4 (length vs) (le_array 4 vs @ drop (4 * length vs) (drop off (fv_bytes f'))) = vs"
    by (rule le_words_le_array) simp
  ultimately have "le_words 4 (length vs) (drop off (fv_bytes f')) = vs"
    by (rule ssubst)
  with r show ?thesis by blast
qed

theorem fv_VectorFloat32_roundtrip_witness:
  "\<exists>off f'. fv_VectorFloat32
     (snd (fv_AppendVectorFloat32 (fv_new [] kVectorFloat32) (Some [1, 2]) (length [1, 2 :: u32]))) 0 =
     Some ((length [1, 2 :: u32], Some off), f')"
proof -
  let ?f = "fv_new [] kVectorFloat32" and ?cs = "[CBytes (le_array 4 [1, 2 :: u32])]"
  let ?g = "snd (fv_AppendVectorFloat32 ?f (Some [1, 2]) (length [1, 2 :: u32]))"
  have "fv_step ?f ?cs ?g"
    by (rule fv_step.vector, rule prod_eqI)
       (use fv_append_types(8) [of ?f "[1, 2]"] in \<open>simp_all add: fv_new_def\<close>)
  then have "fv_reach ?f ([] @ ?cs) ?g"
    by (rule fv_reach.more [OF fv_reach.start])
  moreover have "length (fv_bytes ?g) = 8"
    by (simp add: fv_AppendVectorFloat32_def fv_AppendBytes_def fv_push_bytes_def Let_def fv_new_def)
  ultimately show ?thesis
    using fv_VectorFloat32_roundtrip [of "[]" ?cs ?g 0 "[1, 2]"] by auto
qed

section \<open>Resizing and setting validity\<close>

text \<open>\<open>SetValid\<close> overwrites one entry of the validity list.\<close>

lemma fv_SetValid_valids:
  assumes "validity_ok f" and "i < fv_size f"
  shows "fv_valids (fv_SetValid f i v) = (fv_valids f)[i := v]" and "validity_ok (fv_SetValid f i v)"
proof -
  note e = fv_ensure_validity_valids [OF assms(1)]
  have "bitmap_list (bitmap_Set (fv_validity (fv_ensure_validity f)) i v) = (fv_valids f)[i := v]"
    using e assms(2) fv_valids_len [OF assms(1)]
    by (intro bitmap_list_eqI) (auto simp: bm.get_set nth_list_update e(1) [symmetric])
  then show "fv_valids (fv_SetValid f i v) = (fv_valids f)[i := v]" "validity_ok (fv_SetValid f i v)"
    using e assms(2)
    by (simp_all add: fv_SetValid_def Let_def fv_valids_def validity_ok_def bm.invar_set)
qed

lemma fv_values_SetValid [simp]: "fv_values (fv_SetValid f i v) = fv_values f"
  and fv_data_len_SetValid [simp]: "fv_data_len (fv_SetValid f i v) = fv_data_len f"
  by (simp_all add: fv_SetValid_def Let_def fv_values_def fv_data_len_def column_simps
      cong: field_type.case_cong)

text \<open>Marking a row null drops its value from the cells and keeps every other row.\<close>

lemma fv_SetValid_false:
  assumes "fv_inv f" and "i < fv_size f"
  shows "fv_inv (fv_SetValid f i False) \<and> fv_cells (fv_SetValid f i False) = (fv_cells f)[i := CNull]"
proof -
  have ok: "validity_ok f" using assms(1) by (simp add: fv_inv_def)
  note v = fv_SetValid_valids [OF ok assms(2), of False]
  have fr: "fv_dictionary (fv_SetValid f i False) = fv_dictionary f"
    "fv_dict_ids (fv_SetValid f i False) = fv_dict_ids f" "fv_type (fv_SetValid f i False) = fv_type f"
    "fv_lengths (fv_SetValid f i False) = fv_lengths f" "fv_bytes (fv_SetValid f i False) = fv_bytes f"
    "fv_offsets (fv_SetValid f i False) = fv_offsets f" "fv_size (fv_SetValid f i False) = fv_size f"
    "fv_offsets_valid (fv_SetValid f i False) = fv_offsets_valid f"
    by (simp_all add: fv_SetValid_def Let_def)
  have "dict_ok (fv_SetValid f i False)"
    using assms fv_inv_valids_len [OF assms(1)]
    by (auto simp: fv_inv_def dict_ok_def fr v list_all2_conv_all_nth nth_list_update split: if_splits)
  then have inv: "fv_inv (fv_SetValid f i False)"
    using assms v by (simp add: fv_inv_def fr varlen_ok_def)
  have "fv_cells (fv_SetValid f i False) = (fv_cells f)[i := CNull]"
    using fv_inv_valids_len [OF assms(1)] fv_inv_values_len [OF assms(1)] assms(2)
    by (auto simp: fv_cells_def v mask_cell_def nth_list_update intro!: nth_equalityI)
  with inv show ?thesis by simp
qed

text \<open>
  \<open>Resize\<close> appends valid rows of the type's default.  It does not touch the offset
  cache: on a variable-length column that has been read through its offsets, the cache
  stays marked valid but no longer covers the rows.
\<close>

lemma fv_grow_valids:
  assumes "validity_ok f" and "fv_size f < n"
  shows "fv_valids (fv_Resize f n) = fv_valids f @ replicate (n - fv_size f) True"
    and "validity_ok (fv_Resize f n)"
proof -
  obtain k where k: "n = fv_size f + k" using assms(2) less_imp_add_positive by blast
  let ?b = "fv_validity f"
  let ?l = "for_loop (fv_size f) n (\<lambda>i b. bitmap_Set b i True) (bitmap_Resize ?b n)"
  have "bitmap_list ?l = bitmap_list ?b @ replicate k True" if "bm_bit_count ?b = fv_size f"
    using that assms(1) k bitmap_Get_Resize [of ?b n]
    by (intro bitmap_list_eqI)
       (auto simp: bm.bits_loop [of _ _ "\<lambda>i. i"] bm.get_span_loop nth_append validity_ok_def)
  moreover have "bitmap_inv ?l" "bm_bit_count ?l = n"
    by (simp_all add: bm.bits_loop [of _ _ "\<lambda>i. i"] bm.invar_loop [of _ _ _ "\<lambda>i. i"])
  ultimately show "fv_valids (fv_Resize f n) = fv_valids f @ replicate (n - fv_size f) True"
    and "validity_ok (fv_Resize f n)"
    using assms k
    by (auto simp: fv_Resize_def Let_def fv_valids_def validity_ok_def bitmap_Size_def replicate_add)
qed

lemma fv_lengths_Resize:
  "is_varlen (fv_type f) \<Longrightarrow> length (fv_lengths f) = fv_size f \<Longrightarrow> fv_size f < n \<Longrightarrow>
   fv_lengths (fv_Resize f n) = fv_lengths f @ replicate (n - fv_size f) 0"
  by (cases "fv_type f")
     (auto simp: fv_Resize_def fv_ResizeStorage_def Let_def vec_resize_def)

lemma fv_Resize_frame:
  "fv_type (fv_Resize f n) = fv_type f" "fv_offsets (fv_Resize f n) = fv_offsets f"
  "fv_offsets_valid (fv_Resize f n) = fv_offsets_valid f"
  "fv_size f < n \<Longrightarrow> fv_size (fv_Resize f n) = n"
  by (auto simp: fv_Resize_def Let_def fv_ResizeStorage_def split: field_type.splits)

text \<open>
  Defect: a vector column that has been read through its offsets and is then grown by
  \<open>Resize\<close> keeps the old offset cache, so reading a row beyond the first new one reads
  the cache past its end (an out-of-bounds access, \<open>None\<close>), although that row is in
  range and valid.
\<close>
theorem fv_Resize_stale_offsets:
  assumes "fv_reach (fv_new name kVectorFloat32) cs f" and "fv_offsets_valid f"
    and "length cs < i" and "i < n"
  shows "i < fv_size (fv_Resize f n) \<and> fv_IsValid (fv_Resize f n) i \<and>
         fv_VectorFloat32 (fv_Resize f n) i = None"
proof -
  let ?g = "fv_Resize f n"
  have "fv_extends (fv_new name kVectorFloat32) cs f"
    using fv_reach_extends [OF assms(1) fv_new_inv] .
  then have f: "fv_inv f" "fv_type f = kVectorFloat32" "fv_size f = length cs"
    by (auto simp: fv_extends_def) (simp_all add: fv_new_def)
  have len: "length (fv_lengths f) = fv_size f" and off: "fv_offsets f = offsets_from 0 (fv_lengths f)"
    using f assms(2) by (simp_all add: fv_inv_def fv_data_len_varlen varlen_ok_def)
  have ok: "validity_ok f" using f(1) by (simp add: fv_inv_def)
  have small: "fv_size f < n" using assms(3,4) f(3) by simp
  note g = fv_grow_valids [OF ok small]
  have valid: "fv_IsValid ?g i"
    using fv_IsValid_valids [OF g(2)] g(1) fv_valids_len [OF ok] assms(3,4) f(3) small
    by (simp add: fv_Resize_frame nth_append)
  have "fv_lengths ?g ! i = 0"
    using fv_lengths_Resize [of f n] f(2,3) len small assms(3,4) by (simp add: nth_append)
  then show ?thesis
    using valid f(2,3) small assms(2,3,4) len off fv_lengths_Resize [of f n]
    by (simp add: fv_VectorFloat32_def fv_DataOffsets_def fv_Resize_frame)
qed

theorem fv_Resize_stale_offsets_witness:
  "fv_VectorFloat32 (fv_Resize (snd (fv_DataOffsets (fv_new [] kVectorFloat32))) 3) 2 = None"
proof -
  let ?f = "fv_new [] kVectorFloat32"
  have "fv_reach ?f ([] @ []) (snd (fv_DataOffsets ?f))"
    by (rule fv_reach.more [OF fv_reach.start]) (rule fv_step.offsets [OF refl])
  moreover have "fv_offsets_valid (snd (fv_DataOffsets ?f))"
    by (simp add: fv_DataOffsets_def fv_new_def Let_def)
  ultimately show ?thesis
    using fv_Resize_stale_offsets [of "[]" "[]" _ 2 3] by simp
qed

text \<open>A valid row of a dictionary column has an entry.\<close>

lemma dict_ids_ok:
  assumes "fv_inv f" and "fv_type f = kDictInt32" and "i < fv_size f" and "fv_IsValid f i"
  shows "unat (fv_dict_ids f ! i) < length (dict_values (fv_dictionary f))"
  using assms fv_IsValid_valids [of f i] list_all2_nthD [of _ "fv_valids f" "fv_dict_ids f" i] fv_valids_len [of f]
  by (auto simp: fv_inv_def dict_ok_def)

end
