(* ===== verification/Scan.thy ===== *)
theory Scan
  imports Masks
begin

text \<open>
  \<open>engine/src/scan.cpp\<close>, \<open>simd_output.cpp\<close>, \<open>output_compaction.cpp\<close> and \<open>metrics.cpp\<close>:
  the loops that evaluate a predicate row by row or through a mask, the three ways of
  turning a mask into row ids, and the counters.  Callbacks take and return their context,
  so a stateful predicate or consumer is part of the model: \<open>'p\<close> is what
  \<open>predicate_ctx\<close> points to and \<open>'c\<close> what \<open>consume_ctx\<close> points to; a null callback is
  \<open>None\<close>.
\<close>

section \<open>Metrics\<close>

record metrics =
  mt_rows :: u64
  mt_bytes :: u64
  mt_branch_misses :: u64
  mt_cache_misses :: u64
  mt_segments_total :: u64
  mt_segments_scanned :: u64
  mt_segments_pruned :: u64

definition metrics_new :: metrics where
  "metrics_new = \<lparr>mt_rows = 0, mt_bytes = 0, mt_branch_misses = 0, mt_cache_misses = 0,
     mt_segments_total = 0, mt_segments_scanned = 0, mt_segments_pruned = 0\<rparr>"

definition Metrics_Reset :: "metrics \<Rightarrow> metrics" where
  "Metrics_Reset m = m\<lparr>mt_rows := 0, mt_bytes := 0, mt_branch_misses := 0, mt_cache_misses := 0\<rparr>"

definition AddRows :: "u64 \<Rightarrow> metrics \<Rightarrow> metrics" where
  "AddRows count m = m\<lparr>mt_rows := mt_rows m + count\<rparr>"

definition AddBytes :: "u64 \<Rightarrow> metrics \<Rightarrow> metrics" where
  "AddBytes count m = m\<lparr>mt_bytes := mt_bytes m + count\<rparr>"

definition AddSegmentsTotal :: "u64 \<Rightarrow> metrics \<Rightarrow> metrics" where
  "AddSegmentsTotal count m = m\<lparr>mt_segments_total := mt_segments_total m + count\<rparr>"

definition AddSegmentsScanned :: "u64 \<Rightarrow> metrics \<Rightarrow> metrics" where
  "AddSegmentsScanned count m = m\<lparr>mt_segments_scanned := mt_segments_scanned m + count\<rparr>"

definition AddSegmentsPruned :: "u64 \<Rightarrow> metrics \<Rightarrow> metrics" where
  "AddSegmentsPruned count m = m\<lparr>mt_segments_pruned := mt_segments_pruned m + count\<rparr>"

section \<open>Scan loops\<close>

type_synonym 'p predicate_fn = "nat \<Rightarrow> 'p \<Rightarrow> bool \<times> 'p"
type_synonym 'c consume_fn = "nat \<Rightarrow> 'c \<Rightarrow> 'c"

definition ScanLoop ::
  "nat \<Rightarrow> 'p predicate_fn option \<Rightarrow> 'p \<Rightarrow> 'c consume_fn option \<Rightarrow> 'c \<Rightarrow> 'p \<times> 'c" where
  "ScanLoop count predicate predicate_ctx consume consume_ctx =
     (case (predicate, consume) of
        (Some p, Some f) \<Rightarrow>
          for_loop 0 count
            (\<lambda>i (pc, cc). let (hit, pc) = p i pc in (pc, if hit then f i cc else cc))
            (predicate_ctx, consume_ctx)
      | _ \<Rightarrow> (predicate_ctx, consume_ctx))"

definition ScanLoopMasked :: "nat \<Rightarrow> mask \<Rightarrow> 'c consume_fn option \<Rightarrow> 'c \<Rightarrow> 'c" where
  "ScanLoopMasked count m consume consume_ctx =
     (case consume of
        None \<Rightarrow> consume_ctx
      | Some f \<Rightarrow> for_loop 0 count (\<lambda>i cc. if mask_Get m i then f i cc else cc) consume_ctx)"

definition add_scan_metrics :: "nat \<Rightarrow> nat \<Rightarrow> metrics option \<Rightarrow> metrics option" where
  "add_scan_metrics count row_bytes =
     map_option (\<lambda>m. AddBytes (of_nat (count * row_bytes)) (AddRows (of_nat count) m))"

definition ScanLoopWithMetrics ::
  "nat \<Rightarrow> 'p predicate_fn option \<Rightarrow> 'p \<Rightarrow> 'c consume_fn option \<Rightarrow> 'c \<Rightarrow> metrics option \<Rightarrow> nat \<Rightarrow>
   ('p \<times> 'c) \<times> metrics option" where
  "ScanLoopWithMetrics count predicate predicate_ctx consume consume_ctx ms row_bytes =
     (ScanLoop count predicate predicate_ctx consume consume_ctx,
      add_scan_metrics count row_bytes ms)"

definition ScanLoopMaskedWithMetrics ::
  "nat \<Rightarrow> mask \<Rightarrow> 'c consume_fn option \<Rightarrow> 'c \<Rightarrow> metrics option \<Rightarrow> nat \<Rightarrow>
   'c \<times> metrics option" where
  "ScanLoopMaskedWithMetrics count m consume consume_ctx ms row_bytes =
     (ScanLoopMasked count m consume consume_ctx, add_scan_metrics count row_bytes ms)"

definition BuildMaskLoop ::
  "nat \<Rightarrow> 'p predicate_fn option \<Rightarrow> 'p \<Rightarrow> mask option \<Rightarrow> 'p \<times> mask option" where
  "BuildMaskLoop count predicate predicate_ctx out =
     (case (out, predicate) of
        (Some m, Some p) \<Rightarrow>
          (let (pc, m) = for_loop 0 count
                 (\<lambda>i (pc, m). let (hit, pc) = p i pc in (pc, mask_Set m i hit))
                 (predicate_ctx, mask_Resize m count)
           in (pc, Some m))
      | _ \<Rightarrow> (predicate_ctx, out))"

definition ScanLoopMaskFirst ::
  "nat \<Rightarrow> 'p predicate_fn option \<Rightarrow> 'p \<Rightarrow> 'c consume_fn option \<Rightarrow> 'c \<Rightarrow> 'p \<times> 'c" where
  "ScanLoopMaskFirst count predicate predicate_ctx consume consume_ctx =
     (if predicate = None \<or> consume = None then (predicate_ctx, consume_ctx)
      else
        case BuildMaskLoop count predicate predicate_ctx (Some (mask_make count)) of
          (pc, Some m) \<Rightarrow> (pc, ScanLoopMasked count m consume consume_ctx)
        | (pc, None) \<Rightarrow> (pc, consume_ctx))"

definition ScanLoopMaskFirstWithMetrics ::
  "nat \<Rightarrow> 'p predicate_fn option \<Rightarrow> 'p \<Rightarrow> 'c consume_fn option \<Rightarrow> 'c \<Rightarrow> metrics option \<Rightarrow> nat \<Rightarrow>
   ('p \<times> 'c) \<times> metrics option" where
  "ScanLoopMaskFirstWithMetrics count predicate predicate_ctx consume consume_ctx ms row_bytes =
     (ScanLoopMaskFirst count predicate predicate_ctx consume consume_ctx,
      add_scan_metrics count row_bytes ms)"

definition ScanLoopMaskedWithValidity ::
  "nat \<Rightarrow> mask \<Rightarrow> u8 list option \<Rightarrow> 'c consume_fn option \<Rightarrow> 'c \<Rightarrow> 'c" where
  "ScanLoopMaskedWithValidity count m validity consume consume_ctx =
     (case consume of
        None \<Rightarrow> consume_ctx
      | Some f \<Rightarrow>
          (case validity of
             None \<Rightarrow> ScanLoopMasked count m consume consume_ctx
           | Some v \<Rightarrow>
               for_loop 0 count (\<lambda>i cc. if mask_Get m i \<and> v ! i \<noteq> 0 then f i cc else cc)
                 consume_ctx))"

text \<open>
  The run of a stateful predicate over the rows: its final context and the rows it
  accepts, in order.
\<close>

fun pred_run :: "'p predicate_fn \<Rightarrow> nat \<Rightarrow> 'p \<Rightarrow> 'p \<times> nat list" where
  "pred_run p 0 pc = (pc, [])"
| "pred_run p (Suc n) pc =
     (let (pc, hits) = pred_run p n pc; (hit, pc) = p n pc
      in (pc, if hit then hits @ [n] else hits))"

lemma pred_run_bound: "\<forall>i\<in>set (snd (pred_run p n pc)). i < n"
  by (induction n) (auto simp: case_prod_unfold Let_def less_SucI)

lemma ScanLoop_run:
  "ScanLoop n (Some p) pc (Some f) cc =
   (fst (pred_run p n pc), fold f (snd (pred_run p n pc)) cc)"
  unfolding ScanLoop_def
  by (induction n) (simp_all add: for_loop_Suc case_prod_unfold Let_def)

lemma ScanLoopMasked_fold:
  "ScanLoopMasked n m (Some f) cc = fold f (filter (mask_Get m) [0..<n]) cc"
  unfolding ScanLoopMasked_def by (induction n) (simp_all add: for_loop_Suc)

definition mask_loop :: "'p predicate_fn \<Rightarrow> nat \<Rightarrow> 'p \<Rightarrow> mask \<Rightarrow> 'p \<times> mask" where
  "mask_loop p n pc m =
     for_loop 0 n (\<lambda>i (pc, m). let (hit, pc) = p i pc in (pc, mask_Set m i hit)) (pc, m)"

lemma BuildMaskLoop_run:
  "BuildMaskLoop n (Some p) pc (Some m) =
   (fst (mask_loop p n pc (mask_Resize m n)), Some (snd (mask_loop p n pc (mask_Resize m n))))"
  by (simp add: BuildMaskLoop_def mask_loop_def case_prod_unfold Let_def)

lemma mask_loop_run:
  assumes "mask_inv m" and "n \<le> mk_bit_count m"
  shows "fst (mask_loop p n pc m) = fst (pred_run p n pc) \<and>
         mask_inv (snd (mask_loop p n pc m)) \<and>
         mk_bit_count (snd (mask_loop p n pc m)) = mk_bit_count m \<and>
         (\<forall>i<n. mask_Get (snd (mask_loop p n pc m)) i \<longleftrightarrow> i \<in> set (snd (pred_run p n pc)))"
  using assms(2)
proof (induction n)
  case 0
  then show ?case using assms(1) by (simp add: mask_loop_def)
next
  case (Suc n)
  have step: "mask_loop p (Suc n) pc m =
      (snd (p n (fst (mask_loop p n pc m))),
       mask_Set (snd (mask_loop p n pc m)) n (fst (p n (fst (mask_loop p n pc m)))))"
    by (simp add: mask_loop_def for_loop_Suc case_prod_unfold Let_def)
  show ?case
    using Suc pred_run_bound [of p n pc]
    by (auto simp: step case_prod_unfold Let_def mk.invar_set mk.bits_set mk.get_set less_Suc_eq)
qed

lemma pred_run_filter: "filter (\<lambda>i. i \<in> set (snd (pred_run p n pc))) [0..<n] = snd (pred_run p n pc)"
proof (induction n)
  case 0
  then show ?case by simp
next
  case (Suc n)
  have "filter (\<lambda>i. i \<in> set (snd (pred_run p (Suc n) pc))) [0..<n] =
        filter (\<lambda>i. i \<in> set (snd (pred_run p n pc))) [0..<n]"
    by (rule filter_cong) (auto simp: case_prod_unfold Let_def)
  then show ?case
    using Suc pred_run_bound [of p n pc] by (auto simp: case_prod_unfold Let_def)
qed

text \<open>
  C30. Scanning with a mask built first is the same as scanning row by row, for every
  predicate and consumer with a context of their own: the same rows reach the consumer
  in the same order, and both contexts end the same.
\<close>
theorem ScanLoopMaskFirst_eq:
  "ScanLoopMaskFirst count predicate pc consume cc = ScanLoop count predicate pc consume cc"
proof (cases "predicate = None \<or> consume = None")
  case True
  then show ?thesis
    by (auto simp: ScanLoopMaskFirst_def ScanLoop_def split: option.splits)
next
  case False
  then obtain p f where pf: "predicate = Some p" "consume = Some f" by auto
  let ?m = "snd (mask_loop p count pc (mask_Resize (mask_make count) count))"
  have run: "fst (mask_loop p count pc (mask_Resize (mask_make count) count)) = fst (pred_run p count pc)"
    "\<forall>i<count. mask_Get ?m i \<longleftrightarrow> i \<in> set (snd (pred_run p count pc))"
    using mask_loop_run [of "mask_Resize (mask_make count) count" count p pc] by simp_all
  have "filter (mask_Get ?m) [0..<count] = snd (pred_run p count pc)"
    using run(2) pred_run_filter [of p count pc] by (metis (no_types, lifting) atLeastLessThan_upt
        atLeastLessThan_iff filter_cong)
  then show ?thesis
    by (simp add: pf ScanLoopMaskFirst_def BuildMaskLoop_run run(1) ScanLoop_run ScanLoopMasked_fold)
qed

end
