(* ===== verification/RowIds.thy ===== *)
theory RowIds
  imports Scan
begin

text \<open>
  Turning a mask into row ids: \<open>CollectRowIds\<close> (\<open>engine/src/scan.cpp\<close>),
  \<open>CompressStorePacked\<close> with its scalar and AVX2 kernels (\<open>engine/src/simd_output.cpp\<close>)
  and the prefix-sum compaction (\<open>engine/src/output_compaction.cpp\<close>).  All compute the
  rows the mask selects, in increasing order.  A null output pointer is \<open>None\<close>.
\<close>

section \<open>The loops\<close>

definition CollectRowIds :: "mask \<Rightarrow> nat \<Rightarrow> nat list option \<Rightarrow> nat list option" where
  "CollectRowIds m count out =
     map_option (\<lambda>_. for_loop 0 count (\<lambda>i out. if mask_Get m i then out @ [i] else out) []) out"

definition CompressStoreScalar :: "mask \<Rightarrow> nat \<Rightarrow> nat list option \<Rightarrow> nat list option" where
  "CompressStoreScalar m count out =
     map_option (\<lambda>_. for_loop 0 count (\<lambda>i out. if mask_Get m i then out @ [i] else out) []) out"

text \<open>\<open>__builtin_ctzll\<close> of a non-zero word.\<close>

definition ctz :: "u64 \<Rightarrow> nat" where
  "ctz w = length (takeWhile (\<lambda>i. \<not> bit w i) [0..<64])"

lemma ctz_props:
  assumes "w \<noteq> 0"
  shows "ctz w < 64" and "bit w (ctz w)" and "\<And>i. i < ctz w \<Longrightarrow> \<not> bit w i"
proof -
  let ?xs = "[0..<64]" and ?P = "\<lambda>i. \<not> bit w i"
  have "\<not> (\<forall>i<64. \<not> bit w i)"
  proof
    assume "\<forall>i<64. \<not> bit w i"
    then have "w = 0" by (intro bit_word_eqI) simp
    with assms show False by simp
  qed
  then have ex: "\<exists>i\<in>set ?xs. \<not> ?P i" by auto
  have "takeWhile ?P ?xs \<noteq> ?xs"
    using ex by (metis set_takeWhileD)
  then have "length (takeWhile ?P ?xs) < length ?xs"
    by (metis length_takeWhile_le linorder_not_less order_antisym_conv takeWhile_eq_take take_all_iff)
  then show less: "ctz w < 64" by (simp add: ctz_def)
  have "\<not> ?P (?xs ! length (takeWhile ?P ?xs))"
    using less by (intro nth_length_takeWhile) (simp add: ctz_def)
  then show "bit w (ctz w)" using less by (simp add: ctz_def)
  show "\<not> bit w i" if "i < ctz w" for i
  proof -
    have "takeWhile ?P ?xs ! i \<in> set (takeWhile ?P ?xs)"
      using that by (simp add: ctz_def)
    then have "?P (takeWhile ?P ?xs ! i)" by (auto dest: set_takeWhileD)
    then show ?thesis using that less by (simp add: takeWhile_nth ctz_def)
  qed
qed

text \<open>\<open>word &= word - 1\<close> clears the lowest set bit.\<close>

lemma bit_clear_lowest:
  assumes "w \<noteq> (0 :: u64)"
  shows "bit (w AND (w - 1)) i \<longleftrightarrow> bit w i \<and> i \<noteq> ctz w"
proof -
  note c = ctz_props [OF assms]
  let ?u = "w AND NOT (push_bit (ctz w) 1)"
  have low: "\<not> bit ?u i" if "i \<le> ctz w" for i
    using that c(3) [of i] by (cases "i = ctz w") (auto simp: bit_simps)
  have "?u AND push_bit (ctz w) 1 = 0"
    by (rule bit_word_eqI) (auto simp: bit_simps)
  then have "?u + push_bit (ctz w) 1 = ?u OR push_bit (ctz w) 1"
    by (rule disjunctive_add_eq_or)
  also have "\<dots> = w"
    using c(2) by (intro bit_word_eqI) (auto simp: bit_simps)
  finally have w: "w = ?u + push_bit (ctz w) 1" by simp
  have "?u AND mask (ctz w) = 0"
    using low by (intro bit_word_eqI) (auto simp: bit_simps)
  then have "?u + mask (ctz w) = ?u OR mask (ctz w)"
    by (rule disjunctive_add_eq_or)
  moreover have "w - 1 = ?u + mask (ctz w)"
    by (subst w) (simp add: mask_eq_exp_minus_1 push_bit_eq_mult del: push_bit_of_1)
  ultimately have pred: "w - 1 = ?u OR mask (ctz w)" by simp
  show ?thesis
    using c(3) [of i] by (auto simp: pred bit_simps dest: bit_imp_le_length)
qed

lemma clear_lowest_less:
  assumes "w \<noteq> (0 :: u64)"
  shows "unat (w AND (w - 1)) < unat w"
proof -
  have "w AND (w - 1) \<le> w - 1" by (rule word_and_le1)
  then have "unat (w AND (w - 1)) \<le> unat w - 1"
    using assms by (simp add: word_le_nat_alt unat_minus_one)
  moreover have "0 < unat w" using assms by (simp add: unat_gt_0)
  ultimately show ?thesis by simp
qed

function store_word :: "nat \<Rightarrow> nat \<Rightarrow> u64 \<Rightarrow> nat list \<Rightarrow> nat list" where
  "store_word count word_index word out =
     (if word = 0 then out
      else
        let index = word_index * 64 + ctz word
        in if index \<ge> count then out
           else store_word count word_index (word AND (word - 1)) (out @ [index]))"
  by auto
termination
  by (relation "measure (\<lambda>(_, _, w, _). unat w)") (auto simp: clear_lowest_less)

declare store_word.simps [simp del]

definition CompressStorePackedScalar :: "packed_mask \<Rightarrow> nat \<Rightarrow> nat list option \<Rightarrow> nat list option" where
  "CompressStorePackedScalar m count out =
     map_option (\<lambda>_. for_loop 0 (packed_WordCount m)
        (\<lambda>word_index out. store_word count word_index (packed_Words m ! word_index) out) []) out"

text \<open>
  The AVX2 kernel takes the words four at a time and skips four zero words with one test;
  then the words left over.
\<close>

definition avx2_group :: "u64 list \<Rightarrow> nat \<Rightarrow> nat \<Rightarrow> nat list \<Rightarrow> nat list" where
  "avx2_group words count word_index out =
     (if words ! word_index = 0 \<and> words ! (word_index + 1) = 0 \<and>
         words ! (word_index + 2) = 0 \<and> words ! (word_index + 3) = 0 then out
      else for_loop 0 4
             (\<lambda>lane out. store_word count (word_index + lane) (words ! (word_index + lane)) out) out)"

function avx2_groups :: "u64 list \<Rightarrow> nat \<Rightarrow> nat \<Rightarrow> nat list \<Rightarrow> nat \<times> nat list" where
  "avx2_groups words count word_index out =
     (if word_index + 4 \<le> length words then
        avx2_groups words count (word_index + 4) (avx2_group words count word_index out)
      else (word_index, out))"
  by auto
termination
  by (relation "measure (\<lambda>(ws, _, i, _). length ws - i)") auto

declare avx2_groups.simps [simp del]

definition CompressStorePackedAvx2 :: "packed_mask \<Rightarrow> nat \<Rightarrow> nat list option \<Rightarrow> nat list option" where
  "CompressStorePackedAvx2 m count out =
     map_option (\<lambda>_.
        let (word_index, out) = avx2_groups (packed_Words m) count 0 []
        in for_loop word_index (packed_WordCount m)
             (\<lambda>word_index out. store_word count word_index (packed_Words m ! word_index) out) out) out"

definition CompressStorePacked :: "bool \<Rightarrow> packed_mask \<Rightarrow> nat \<Rightarrow> nat list option \<Rightarrow> nat list option" where
  "CompressStorePacked cpu_has_avx2 m count out =
     (if cpu_has_avx2 then CompressStorePackedAvx2 m count out
      else CompressStorePackedScalar m count out)"

definition CollectRowIdsPacked :: "bool \<Rightarrow> packed_mask \<Rightarrow> nat \<Rightarrow> nat list option \<Rightarrow> nat list option" where
  "CollectRowIdsPacked cpu_has_avx2 m count out = CompressStorePacked cpu_has_avx2 m count out"

text \<open>The \<open>prefix\<close> array, and the scatter; \<open>at\<close> throws out of range (\<open>None\<close>).\<close>

definition mask_prefix :: "mask \<Rightarrow> nat \<Rightarrow> nat list" where
  "mask_prefix m count =
     for_loop 0 count
       (\<lambda>i prefix. prefix[i + 1 := prefix ! i + (if mask_Get m i then 1 else 0)])
       (replicate (count + 1) 0)"

definition CompactRowIdsPrefixSum :: "mask \<Rightarrow> nat \<Rightarrow> nat list option \<Rightarrow> nat list option option" where
  "CompactRowIdsPrefixSum m count out =
     (case out of
        None \<Rightarrow> Some None
      | Some _ \<Rightarrow>
          if count = 0 then Some (Some [])
          else
            let prefix = mask_prefix m count
            in map_option Some
                 (for_loop 0 count
                    (\<lambda>i out. case out of None \<Rightarrow> None
                       | Some o' \<Rightarrow>
                           if mask_Get m i then
                             (if prefix ! i < length o' then Some (o'[prefix ! i := i]) else None)
                           else Some o')
                    (Some (replicate (prefix ! count) 0))))"

section \<open>What they compute\<close>

lemma CollectRowIds_filter: "CollectRowIds m n (Some xs) = Some (filter (mask_Get m) [0..<n])"
  unfolding CollectRowIds_def by (induction n) (simp_all add: for_loop_Suc)

lemma CompressStoreScalar_eq: "CompressStoreScalar m n out = CollectRowIds m n out"
  by (simp add: CompressStoreScalar_def CollectRowIds_def)

definition word_rows :: "nat \<Rightarrow> nat \<Rightarrow> u64 \<Rightarrow> nat list" where
  "word_rows count k w = filter (\<lambda>i. i < count) (map ((+) (k * 64)) (filter (bit w) [0..<64]))"

lemma filter_bit_lowest:
  assumes "w \<noteq> (0 :: u64)"
  shows "filter (bit w) [0..<64] = ctz w # filter (bit (w AND (w - 1))) [0..<64]"
proof -
  note c = ctz_props [OF assms]
  have split: "[0..<64] = [0..<ctz w] @ ctz w # [Suc (ctz w)..<64]"
    using c(1) upt_add_eq_append [of 0 "ctz w" "64 - ctz w"] by (simp add: upt_conv_Cons)
  have "filter (bit w) [0..<ctz w] = []" "filter (bit (w AND (w - 1))) [0..<ctz w] = []"
    using c(3) by (auto simp: filter_empty_conv bit_clear_lowest [OF assms])
  moreover have "filter (bit (w AND (w - 1))) [Suc (ctz w)..<64] = filter (bit w) [Suc (ctz w)..<64]"
    by (rule filter_cong) (auto simp: bit_clear_lowest [OF assms])
  ultimately show ?thesis
    using c(2) bit_clear_lowest [OF assms, of "ctz w"] by (subst (1 2) split) simp
qed

lemma store_word_rows: "store_word count k w out = out @ word_rows count k w"
proof (induction count k w out rule: store_word.induct)
  case (1 count k w out)
  show ?case
  proof (cases "w = 0")
    case True
    then show ?thesis by (simp add: store_word.simps word_rows_def)
  next
    case False
    note bits = filter_bit_lowest [OF False]
    show ?thesis
    proof (cases "k * 64 + ctz w \<ge> count")
      case True
      have "\<forall>i\<in>set (filter (bit w) [0..<64]). ctz w \<le> i"
        using ctz_props(3) [OF False] not_le by auto
      then have "word_rows count k w = []"
        using True by (auto simp: word_rows_def filter_empty_conv)
      with True False show ?thesis by (subst store_word.simps) (simp add: Let_def)
    next
      case less: False
      with 1 False bits show ?thesis
        by (subst store_word.simps) (simp add: Let_def word_rows_def)
    qed
  qed
qed

text \<open>Two filters of initial ranges that accept the same rows.\<close>

lemma filter_upt_eq:
  assumes "\<And>i. i < a \<and> P i \<longleftrightarrow> i < b \<and> Q i"
  shows "filter P [0..<a] = filter Q [0..<b]"
  by (rule sorted_distinct_set_unique)
     (use assms in \<open>auto simp: sorted_wrt_filter\<close>)

lemma word_rows_span:
  assumes "k < length ws"
  shows "word_rows count k (ws ! k) =
         filter (\<lambda>i. i < count \<and> words_get ws i) [k * 64..<Suc k * 64]"
proof -
  have "[k * 64..<Suc k * 64] = map ((+) (k * 64)) [0..<64]"
    by (simp add: map_add_upt [of "k * 64" 64, symmetric] add.commute)
  then show ?thesis
    by (simp add: word_rows_def filter_map o_def words_get_bit conj_commute cong: filter_cong)
       (auto intro!: filter_cong)
qed

lemma store_words_loop:
  "k \<le> n \<Longrightarrow> n \<le> length ws \<Longrightarrow>
   for_loop k n (\<lambda>i out. store_word count i (ws ! i) out) out =
   out @ filter (\<lambda>i. i < count \<and> words_get ws i) [k * 64..<n * 64]"
proof (induction n rule: dec_induct)
  case base
  then show ?case by simp
next
  case (step n)
  have "[k * 64..<Suc n * 64] = [k * 64..<n * 64] @ [n * 64..<Suc n * 64]"
    using step.hyps upt_add_eq_append [of "k * 64" "n * 64" 64] by (simp add: add.commute)
  with step show ?case
    by (simp add: for_loop_Suc store_word_rows word_rows_span)
qed

lemma avx2_group_rows:
  assumes "k + 4 \<le> length ws"
  shows "avx2_group ws count k out =
         out @ filter (\<lambda>i. i < count \<and> words_get ws i) [k * 64..<(k + 4) * 64]"
proof -
  let ?lanes = "for_loop 0 4 (\<lambda>lane out. store_word count (k + lane) (ws ! (k + lane)) out) out"
  have "?lanes = for_loop k (k + 4) (\<lambda>i out. store_word count i (ws ! i) out) out"
    by (simp add: for_loop_def numeral_eq_Suc upt_conv_Cons)
  moreover have "?lanes = out" if "ws ! k = 0" "ws ! (k + 1) = 0" "ws ! (k + 2) = 0" "ws ! (k + 3) = 0"
    using that by (simp add: for_loop_def numeral_eq_Suc store_word.simps)
  ultimately show ?thesis
    using assms store_words_loop [of k "k + 4" ws count out] unfolding avx2_group_def by auto
qed

lemma avx2_groups_rows:
  "k \<le> length ws \<Longrightarrow> avx2_groups ws count k out = (n, out') \<Longrightarrow>
   k \<le> n \<and> n \<le> length ws \<and>
   out' = out @ filter (\<lambda>i. i < count \<and> words_get ws i) [k * 64..<n * 64]"
proof (induction ws count k out rule: avx2_groups.induct)
  case (1 ws count k out)
  show ?case
  proof (cases "k + 4 \<le> length ws")
    case False
    with 1 show ?thesis by (auto simp: avx2_groups.simps [of ws count k])
  next
    case True
    have "avx2_groups ws count (k + 4) (avx2_group ws count k out) = (n, out')"
      using 1(3) True by (simp add: avx2_groups.simps [of ws count k])
    from 1(1) [OF True True this] have IH: "k + 4 \<le> n" "n \<le> length ws"
      "out' = avx2_group ws count k out @
         filter (\<lambda>i. i < count \<and> words_get ws i) [(k + 4) * 64..<n * 64]"
      by auto
    have "[k * 64..<n * 64] = [k * 64..<(k + 4) * 64] @ [(k + 4) * 64..<n * 64]"
      using IH(1) upt_add_eq_append [of "k * 64" "(k + 4) * 64" "n * 64 - (k + 4) * 64"] by simp
    with IH show ?thesis by (simp add: avx2_group_rows [OF True] del: add_mult_distrib)
  qed
qed

lemma packed_rows:
  assumes "packed_inv m"
  shows "filter (\<lambda>i. i < count \<and> words_get (pm_words m) i) [0..<length (pm_words m) * 64] =
         filter (packed_Get m) [0..<count]"
proof (rule filter_upt_eq)
  fix i
  have "i < length (pm_words m) * 64 \<longleftrightarrow> i div 64 < length (pm_words m)"
    by (simp add: div_less_iff_less_mult)
  then show "i < length (pm_words m) * 64 \<and> i < count \<and> words_get (pm_words m) i \<longleftrightarrow>
      i < count \<and> packed_Get m i"
    using assms word_index_bound [of i "pm_bit_count m"]
    by (auto simp: packed_Get_def packed_inv_def words_clean_def)
qed

text \<open>
  Both kernels of \<open>CompressStorePacked\<close>, the scalar one that clears the lowest set
  bit of each word and the AVX2 one that takes four words at a time, give exactly the rows
  below \<open>count\<close> that the packed mask selects, in increasing order, whatever the output
  vector held and whichever is larger, the mask or \<open>count\<close>.
\<close>
theorem CompressStorePacked_rows:
  assumes "packed_inv m"
  shows "CompressStorePacked avx2 m count (Some out) = Some (filter (packed_Get m) [0..<count])"
proof -
  have scalar: "CompressStorePackedScalar m count (Some out) = Some (filter (packed_Get m) [0..<count])"
    using store_words_loop [of 0 "length (pm_words m)" "pm_words m" count "[]"] packed_rows [OF assms]
    by (simp add: CompressStorePackedScalar_def packed_WordCount_def packed_Words_def)
  obtain n out' where g: "avx2_groups (pm_words m) count 0 [] = (n, out')" by fastforce
  then have n: "n \<le> length (pm_words m)"
    and out': "out' = filter (\<lambda>i. i < count \<and> words_get (pm_words m) i) [0..<n * 64]"
    using avx2_groups_rows [OF _ g] by auto
  have "[0..<length (pm_words m) * 64] = [0..<n * 64] @ [n * 64..<length (pm_words m) * 64]"
    using n upt_add_eq_append [of 0 "n * 64" "length (pm_words m) * 64 - n * 64"] by simp
  then have "CompressStorePackedAvx2 m count (Some out) = Some (filter (packed_Get m) [0..<count])"
    using store_words_loop [OF n le_refl, of count out'] packed_rows [OF assms, of count] g out'
    by (simp add: CompressStorePackedAvx2_def packed_WordCount_def packed_Words_def)
  with scalar show ?thesis by (simp add: CompressStorePacked_def)
qed

theorem CompressStorePacked_rows_witness:
  "CompressStorePacked True (packed_Set (packed_make 100) 70 True) 100 (Some [5]) = Some [70]"
proof -
  have "filter (packed_Get (packed_Set (packed_make 100) 70 True)) [0..<100] =
        filter (\<lambda>i. i = 70) [0..<100]"
    by (rule filter_cong) (simp_all add: pm.get_set)
  also have "\<dots> = [70]" by (simp add: upt_rec)
  finally show ?thesis
    using CompressStorePacked_rows [of "packed_Set (packed_make 100) 70 True" True 100 "[5]"]
    by (simp add: pm.invar_set)
qed

section \<open>Prefix-sum compaction\<close>

definition hits_below :: "mask \<Rightarrow> nat \<Rightarrow> nat list" where
  "hits_below m i = filter (mask_Get m) [0..<i]"

lemma hits_below_Suc:
  "hits_below m (Suc i) = hits_below m i @ (if mask_Get m i then [i] else [])"
  by (simp add: hits_below_def)

lemma hits_below_mono: "i \<le> j \<Longrightarrow> length (hits_below m i) \<le> length (hits_below m j)"
  by (induction j rule: dec_induct) (auto simp: hits_below_Suc)

lemma mask_prefix_hits:
  assumes "i \<le> count"
  shows "mask_prefix m count ! i = length (hits_below m i)"
proof -
  have "for_loop 0 n (\<lambda>i prefix. prefix[i + 1 := prefix ! i + (if mask_Get m i then 1 else 0)])
          (replicate (count + 1) 0) =
        map (\<lambda>j. length (hits_below m j)) [0..<Suc n] @ replicate (count - n) 0" if "n \<le> count" for n
    using that
  proof (induction n)
    case 0
    then show ?case by (simp add: hits_below_def)
  next
    case (Suc n)
    let ?c = "\<lambda>j. length (hits_below m j)"
    have "(map ?c [0..<Suc n] @ replicate (count - n) 0) ! n = ?c n"
      by (simp add: nth_append del: upt_Suc)
    moreover have "(map ?c [0..<Suc n] @ replicate (count - n) 0)[Suc n := x] =
        map ?c [0..<Suc n] @ x # replicate (count - Suc n) 0" for x
      using Suc.prems by (simp add: list_update_append Suc_diff_Suc [symmetric] del: upt_Suc)
    ultimately show ?case
      using Suc by (simp add: for_loop_Suc hits_below_Suc del: upt_Suc) (simp add: hits_below_Suc)
  qed
  from this [of count] show ?thesis
    using assms by (simp add: mask_prefix_def nth_append del: upt_Suc)
qed

text \<open>
  The prefix-sum compaction never runs out of range (its \<open>at\<close> does not throw) and
  gives the same row ids as the row-by-row collection.
\<close>
theorem CompactRowIdsPrefixSum_eq:
  "CompactRowIdsPrefixSum m count (Some out) = Some (CollectRowIds m count (Some out'))"
proof (cases "count = 0")
  case True
  then show ?thesis by (simp add: CompactRowIdsPrefixSum_def CollectRowIds_def)
next
  case False
  let ?total = "length (hits_below m count)"
  have "for_loop 0 n
          (\<lambda>i out. case out of None \<Rightarrow> None
             | Some o' \<Rightarrow>
                 if mask_Get m i then
                   (if mask_prefix m count ! i < length o'
                    then Some (o'[mask_prefix m count ! i := i]) else None)
                 else Some o')
          (Some (replicate ?total 0)) =
        Some (hits_below m n @ replicate (?total - length (hits_below m n)) 0)" if "n \<le> count" for n
    using that
  proof (induction n)
    case 0
    then show ?case by (simp add: hits_below_def)
  next
    case (Suc n)
    have "Suc (length (hits_below m n)) \<le> ?total" if "mask_Get m n"
      using hits_below_mono [OF Suc.prems, of m] that by (simp add: hits_below_Suc)
    with Suc show ?case
      by (auto simp: for_loop_Suc mask_prefix_hits hits_below_Suc list_update_append
          Suc_diff_Suc [symmetric])
  qed
  from this [of count] show ?thesis
    using False
    by (simp add: CompactRowIdsPrefixSum_def Let_def mask_prefix_hits CollectRowIds_filter
        hits_below_def)
qed

end
