(* ===== verification/Memory.thy ===== *)
theory Memory
  imports Prelude
begin

text \<open>
  Reads and writes through raw pointers: a buffer is the list of its bytes, an access
  outside it is \<open>None\<close>.  Loops whose body makes such accesses run in the \<open>option\<close> monad.
\<close>

definition byte_at :: "u8 list \<Rightarrow> nat \<Rightarrow> u8 ub" where
  "byte_at bs i = (if i < length bs then Some (bs ! i) else None)"

definition read_mem :: "nat \<Rightarrow> nat \<Rightarrow> u8 list \<Rightarrow> u8 list ub" where
  "read_mem offset n bs = (if offset + n \<le> length bs then Some (take n (drop offset bs)) else None)"

definition write_mem :: "nat \<Rightarrow> u8 list \<Rightarrow> u8 list \<Rightarrow> u8 list ub" where
  "write_mem offset xs bs =
     (if offset + length xs \<le> length bs
      then Some (take offset bs @ xs @ drop (offset + length xs) bs) else None)"

text \<open>Element \<open>i\<close> of an array of \<open>n\<close>-byte integers.\<close>

definition wr :: "nat \<Rightarrow> nat \<Rightarrow> 'a::len word \<Rightarrow> u8 list \<Rightarrow> u8 list ub" where
  "wr n i w bs = write_mem (n * i) (le_bytes n w) bs"

lemma byte_at_simp [simp]: "i < length bs \<Longrightarrow> byte_at bs i = Some (bs ! i)"
  by (simp add: byte_at_def)

lemma take_le_array: "i \<le> length ws \<Longrightarrow> take (n * i) (le_array n ws) = le_array n (take i ws)"
proof (induction ws arbitrary: i)
  case Nil
  then show ?case by simp
next
  case (Cons w ws)
  then show ?case by (cases i) simp_all
qed

lemma drop_le_array: "i \<le> length ws \<Longrightarrow> drop (n * i) (le_array n ws) = le_array n (drop i ws)"
proof (induction ws arbitrary: i)
  case Nil
  then show ?case by simp
next
  case (Cons w ws)
  then show ?case by (cases i) (simp_all add: add.commute)
qed

lemma wr_le_array:
  assumes "i < length ws"
  shows "wr n i w (le_array n ws @ rest) = Some (le_array n (ws[i := w]) @ rest)"
proof -
  have "n * Suc i \<le> n * length ws" using assms by (intro mult_le_mono2) simp
  then have fits: "n * i + n \<le> n * length ws" by simp
  have "drop (n * i + n) (le_array n ws) = le_array n (drop (Suc i) ws)"
    using drop_le_array [of "Suc i" ws n] assms by (simp add: add.commute)
  then show ?thesis
    using assms fits
    by (simp add: wr_def write_mem_def take_le_array upd_conv_take_nth_drop le_array_append)
qed

lemma read_mem_app [simp]: "read_mem (length xs) (length ys) (xs @ ys @ zs) = Some ys"
  by (simp add: read_mem_def)

lemma write_mem_mid:
  "length ys = length us \<Longrightarrow> length xs = n \<Longrightarrow> write_mem n us (xs @ ys @ zs) = Some (xs @ us @ zs)"
  by (simp add: write_mem_def)

section \<open>Loops\<close>

text \<open>\<open>for (i = lo; i < hi; ++i)\<close> with a body that may go out of bounds.\<close>

definition for_ub :: "nat \<Rightarrow> nat \<Rightarrow> (nat \<Rightarrow> 's \<Rightarrow> 's ub) \<Rightarrow> 's \<Rightarrow> 's ub" where
  "for_ub lo hi f s = fold (\<lambda>i r. r \<bind> f i) [lo..<hi] (Some s)"

lemma for_ub_empty [simp]: "hi \<le> lo \<Longrightarrow> for_ub lo hi f s = Some s"
  by (simp add: for_ub_def)

lemma for_ub_Suc: "lo \<le> hi \<Longrightarrow> for_ub lo (Suc hi) f s = for_ub lo hi f s \<bind> f hi"
  by (simp add: for_ub_def)

lemma for_ub_cong:
  "(\<And>i t. lo \<le> i \<Longrightarrow> i < hi \<Longrightarrow> f i t = g i t) \<Longrightarrow> for_ub lo hi f s = for_ub lo hi g s"
  unfolding for_ub_def by (rule fold_cong) (auto simp: fun_eq_iff split: Option.bind_split)

text \<open>A loop whose iterations keep an invariant never goes out of bounds.\<close>

lemma for_ub_inv:
  assumes "P lo s" and "lo \<le> hi"
    and "\<And>i t. lo \<le> i \<Longrightarrow> i < hi \<Longrightarrow> P i t \<Longrightarrow> \<exists>t'. f i t = Some t' \<and> P (Suc i) t'"
  shows "\<exists>t. for_ub lo hi f s = Some t \<and> P hi t"
  using assms(2,3)
proof (induction hi rule: dec_induct)
  case base
  with assms(1) show ?case by simp
next
  case (step n)
  then obtain t where "for_ub lo n f s = Some t" "P n t" by fastforce
  with step show ?case by (fastforce simp: for_ub_Suc)
qed

text \<open>A loop that computes the pure loop of \<open>g\<close>.\<close>

lemma for_ub_pure:
  assumes "lo \<le> hi" and "\<And>i. lo \<le> i \<Longrightarrow> i < hi \<Longrightarrow>
     P i (for_loop lo i g s) \<Longrightarrow> f i (for_loop lo i g s) = Some (g i (for_loop lo i g s)) \<and>
     P (Suc i) (g i (for_loop lo i g s))" and "P lo s"
  shows "for_ub lo hi f s = Some (for_loop lo hi g s) \<and> P hi (for_loop lo hi g s)"
  using assms(1,2)
proof (induction hi rule: dec_induct)
  case base
  with assms(3) show ?case by simp
next
  case (step n)
  then show ?case by (simp add: for_ub_Suc for_loop_Suc)
qed

end
