(* ===== verification/Lz4.thy ===== *)
theory Lz4
  imports Memory
begin

text \<open>
  \<open>engine/src/compression.cpp\<close>: the literal-only LZ4 block codec.  Each block of at most
  64 KiB is a token whose high nibble is its length, or 15 and the rest in bytes of 255 and
  a last smaller one, then the bytes.  The decoder reads with explicit bounds tests; a read
  or write outside the buffers is \<open>None\<close>, a rejected input is \<open>False\<close>.
\<close>

definition kLz4BlockSize :: nat where
  "kLz4BlockSize = 64 * 1024"

function lz4_length_bytes :: "nat \<Rightarrow> u8 list" where
  "lz4_length_bytes remaining =
     (if remaining \<ge> 255 then 255 # lz4_length_bytes (remaining - 255) else [of_nat remaining])"
  by auto
termination by (relation "measure id") auto

declare lz4_length_bytes.simps [simp del]

definition lz4_block :: "u8 list \<Rightarrow> u8 list" where
  "lz4_block src =
     (let literal_len = length src;
          token = (if literal_len < 15 then push_bit 4 (of_nat literal_len) else push_bit 4 15) :: u8
      in token # (if literal_len \<ge> 15 then lz4_length_bytes (literal_len - 15) else []) @ src)"

function EncodeLz4LiteralBlock_from :: "u8 list \<Rightarrow> nat \<Rightarrow> u8 list \<Rightarrow> u8 list" where
  "EncodeLz4LiteralBlock_from src offset out =
     (if offset < length src then
        let block = (if length src - offset < kLz4BlockSize then length src - offset else kLz4BlockSize)
        in EncodeLz4LiteralBlock_from src (offset + block)
             (out @ lz4_block (take block (drop offset src)))
      else out)"
  by auto
termination
  by (relation "measure (\<lambda>(src, offset, _). length src - offset)") (auto simp: kLz4BlockSize_def Let_def)

declare EncodeLz4LiteralBlock_from.simps [simp del]

definition EncodeLz4LiteralBlock :: "u8 list \<Rightarrow> u8 list option \<Rightarrow> bool \<times> u8 list option" where
  "EncodeLz4LiteralBlock src out =
     (case out of None \<Rightarrow> (False, None)
      | Some out \<Rightarrow> (True, Some (EncodeLz4LiteralBlock_from src 0 out)))"

definition EncodeLz4Literal :: "u8 list \<Rightarrow> u8 list option \<Rightarrow> bool \<times> u8 list option" where
  "EncodeLz4Literal src out =
     (case out of
        None \<Rightarrow> (False, None)
      | Some _ \<Rightarrow> if src = [] then (True, Some []) else EncodeLz4LiteralBlock src (Some []))"

text \<open>The loop that adds up the length bytes: the new source offset and the length.\<close>

function lz4_read_length :: "u8 list \<Rightarrow> nat \<Rightarrow> nat \<Rightarrow> nat \<Rightarrow> (nat \<times> nat) ub" where
  "lz4_read_length src src_size src_offset literal_len =
     (if src_offset < src_size then
        do {
          byte \<leftarrow> byte_at src src_offset;
          if byte \<noteq> 255 then Some (src_offset + 1, literal_len + unat byte)
          else lz4_read_length src src_size (src_offset + 1) (literal_len + unat byte)
        }
      else Some (src_offset, literal_len))"
  by auto
termination
  by (relation "measure (\<lambda>(_, n, i, _). n - i)") auto

declare lz4_read_length.simps [simp del]

lemma lz4_read_length_mono:
  "lz4_read_length src n i l = Some (i', l') \<Longrightarrow> i \<le> i'"
proof (induction src n i l rule: lz4_read_length.induct)
  case (1 src n i l)
  from 1(2) show ?case
    by (subst (asm) lz4_read_length.simps)
       (auto split: if_splits bind_splits dest: 1(1))
qed

text \<open>The decoder's loop: the result and the destination buffer.\<close>

function lz4_decode_loop ::
  "u8 list \<Rightarrow> nat \<Rightarrow> nat \<Rightarrow> nat \<Rightarrow> nat \<Rightarrow> u8 list \<Rightarrow> (bool \<times> u8 list) ub" where
  "lz4_decode_loop src src_size dst_size src_offset dst_offset dst =
     (if src_offset < src_size \<and> dst_offset < dst_size then
        case byte_at src src_offset of
          None \<Rightarrow> None
        | Some token \<Rightarrow>
            let literal_len = unat (drop_bit 4 token) in
            case (if literal_len = 15 then lz4_read_length src src_size (src_offset + 1) literal_len
                  else Some (src_offset + 1, literal_len)) of
              None \<Rightarrow> None
            | Some (src_offset', literal_len) \<Rightarrow>
                if src_offset' + literal_len > src_size \<or> dst_offset + literal_len > dst_size
                then Some (False, dst)
                else
                  case read_mem src_offset' literal_len src \<bind> (\<lambda>bs. write_mem dst_offset bs dst) of
                    None \<Rightarrow> None
                  | Some dst' \<Rightarrow>
                      lz4_decode_loop src src_size dst_size (src_offset' + literal_len)
                        (dst_offset + literal_len) dst'
      else Some (dst_offset = dst_size, dst))"
  by auto
termination
  by (relation "measure (\<lambda>(_, n, _, i, _, _). n - i)")
     (auto simp: Let_def split: if_splits dest!: lz4_read_length_mono)

declare lz4_decode_loop.simps [simp del]

definition DecodeLz4LiteralBlock ::
  "u8 list \<Rightarrow> nat \<Rightarrow> u8 list option \<Rightarrow> nat \<Rightarrow> (bool \<times> u8 list option) ub" where
  "DecodeLz4LiteralBlock src src_size dst dst_size =
     (case dst of
        None \<Rightarrow> Some (if dst_size > 0 then False else True, None)
      | Some d \<Rightarrow>
          map_option (map_prod id Some) (lz4_decode_loop src src_size dst_size 0 0 d))"

definition DecodeLz4Literal ::
  "u8 list \<Rightarrow> nat \<Rightarrow> u8 list option \<Rightarrow> nat \<Rightarrow> (bool \<times> u8 list option) ub" where
  "DecodeLz4Literal src src_size dst dst_size =
     (if dst_size = 0 then Some (True, dst) else DecodeLz4LiteralBlock src src_size dst dst_size)"

section \<open>Memory safety\<close>

lemma lz4_read_length_safe:
  "n \<le> length src \<Longrightarrow> \<exists>i' l'. lz4_read_length src n i l = Some (i', l') \<and> i \<le> i' \<and> i' \<le> max i n"
proof (induction src n i l rule: lz4_read_length.induct)
  case (1 src n i l)
  show ?case
  proof (cases "i < n")
    case False
    then show ?thesis by (simp add: lz4_read_length.simps)
  next
    case True
    then have b: "byte_at src i = Some (src ! i)" using 1(2) by simp
    show ?thesis
      using 1(1) [OF True, of "src ! i"] 1(2) True b
      by (subst lz4_read_length.simps) fastforce
  qed
qed

lemma write_mem_length: "write_mem i xs bs = Some bs' \<Longrightarrow> length bs' = length bs"
  by (auto simp: write_mem_def split: if_splits)

lemma lz4_decode_loop_safe:
  "n \<le> length src \<Longrightarrow> ds \<le> length dst \<Longrightarrow>
   \<exists>b dst'. lz4_decode_loop src n ds i j dst = Some (b, dst') \<and> length dst' = length dst"
proof (induction src n ds i j dst rule: lz4_decode_loop.induct)
  case (1 src n ds i j dst)
  show ?case
  proof (cases "i < n \<and> j < ds")
    case False
    then show ?thesis by (subst lz4_decode_loop.simps) auto
  next
    case True
    then have b: "byte_at src i = Some (src ! i)" using 1(2) by simp
    let ?len = "unat (drop_bit 4 (src ! i))"
    let ?r = "if ?len = 15 then lz4_read_length src n (i + 1) ?len else Some (i + 1, ?len)"
    obtain i' l where r: "?r = Some (i', l)"
      using lz4_read_length_safe [OF 1(2), of "i + 1" ?len] by (cases "?len = 15") auto
    show ?thesis
    proof (cases "i' + l > n \<or> j + l > ds")
      case fail: True
      show ?thesis
        by (subst lz4_decode_loop.simps) (use True b r fail in \<open>simp add: Let_def ex_bool_eq del: not_less\<close>)
    next
      case False
      then have rd: "read_mem i' l src = Some (take l (drop i' src))"
        using 1(2) by (simp add: read_mem_def)
      have len: "length (take l (drop i' src)) = l" using False 1(2) by auto
      obtain dst' where wr: "write_mem j (take l (drop i' src)) dst = Some dst'"
        using False 1(3) len by (simp add: write_mem_def)
      have "\<exists>b dst''. lz4_decode_loop src n ds (i' + l) (j + l) dst' = Some (b, dst'') \<and>
             length dst'' = length dst'"
        using 1(1) [OF True b refl r refl False, of dst'] rd wr 1(2,3) write_mem_length [OF wr]
        by simp
      then show ?thesis
        using True b r False rd wr write_mem_length [OF wr]
        by (subst lz4_decode_loop.simps) (simp add: Let_def del: not_less)
    qed
  qed
qed

text \<open>
  C21. The LZ4 decoder is memory safe on every input: whatever bytes it is given, with a
  destination of at least the announced size it reads and writes only inside the two
  buffers, terminates, and leaves a destination of the same length.
\<close>
theorem DecodeLz4Literal_safe:
  assumes "src_size \<le> length src" and "dst_size \<le> length dst"
  shows "\<exists>ok dst'. DecodeLz4Literal src src_size (Some dst) dst_size = Some (ok, Some dst') \<and>
           length dst' = length dst"
proof (cases "dst_size = 0")
  case True
  then show ?thesis by (simp add: DecodeLz4Literal_def ex_bool_eq)
next
  case False
  then show ?thesis
    using lz4_decode_loop_safe [OF assms, of 0 0]
    by (auto simp: DecodeLz4Literal_def DecodeLz4LiteralBlock_def)
qed

theorem DecodeLz4Literal_safe_witness:
  "\<exists>ok dst'. DecodeLz4Literal [255, 255, 255] 3 (Some [0, 0]) 2 = Some (ok, Some dst')"
  using DecodeLz4Literal_safe [of 3 "[255, 255, 255]" 2 "[0, 0]"] by auto

section \<open>Round trip\<close>

function lz4_encoded :: "u8 list \<Rightarrow> u8 list" where
  "lz4_encoded xs =
     (if xs = [] then []
      else lz4_block (take kLz4BlockSize xs) @ lz4_encoded (drop kLz4BlockSize xs))"
  by auto
termination
  by (relation "measure length") (auto simp: kLz4BlockSize_def)

declare lz4_encoded.simps [simp del]

lemma EncodeLz4LiteralBlock_from_eq:
  "EncodeLz4LiteralBlock_from src offset out = out @ lz4_encoded (drop offset src)"
proof (induction src offset out rule: EncodeLz4LiteralBlock_from.induct)
  case (1 src offset out)
  show ?case
  proof (cases "offset < length src")
    case False
    then show ?thesis
      by (simp add: EncodeLz4LiteralBlock_from.simps [of src offset] lz4_encoded.simps [of "[]"])
  next
    case True
    let ?rest = "drop offset src"
    let ?block = "if length src - offset < kLz4BlockSize then length src - offset else kLz4BlockSize"
    have block: "take ?block ?rest = take kLz4BlockSize ?rest"
      "drop (offset + ?block) src = drop kLz4BlockSize ?rest"
      by (auto simp: add.commute)
    have "EncodeLz4LiteralBlock_from src offset out =
        EncodeLz4LiteralBlock_from src (offset + ?block) (out @ lz4_block (take ?block ?rest))"
      using True by (simp add: EncodeLz4LiteralBlock_from.simps [of src offset] Let_def)
    also have "\<dots> = (out @ lz4_block (take ?block ?rest)) @ lz4_encoded (drop (offset + ?block) src)"
      using 1(1) [OF True refl] .
    also have "\<dots> = out @ lz4_encoded ?rest"
      using True by (simp only: block lz4_encoded.simps [of ?rest]) simp
    finally show ?thesis .
  qed
qed

lemma lz4_read_length_bytes:
  "lz4_read_length (pre @ lz4_length_bytes r @ post) (length (pre @ lz4_length_bytes r @ post))
     (length pre) l = Some (length pre + length (lz4_length_bytes r), l + r)"
proof (induction r arbitrary: pre l rule: lz4_length_bytes.induct)
  case (1 r)
  show ?case
  proof (cases "r \<ge> 255")
    case True
    let ?rest = "lz4_length_bytes (r - 255)"
    have eq: "lz4_length_bytes r = 255 # ?rest" using True by (simp add: lz4_length_bytes.simps [of r])
    have "lz4_read_length (pre @ lz4_length_bytes r @ post) (length (pre @ lz4_length_bytes r @ post))
       (length pre) l =
      lz4_read_length ((pre @ [255]) @ ?rest @ post) (length ((pre @ [255]) @ ?rest @ post))
       (length (pre @ [255])) (l + 255)"
      by (subst lz4_read_length.simps) (simp add: eq byte_at_def nth_append)
    also have "\<dots> = Some (length (pre @ [255]) + length ?rest, l + 255 + (r - 255))"
      by (rule 1 [OF True])
    finally show ?thesis using True by (simp add: eq)
  next
    case False
    have "unat (of_nat r :: u8) = r"
      using False by (simp add: unat_of_nat take_bit_nat_eq_self)
    moreover from this have "(of_nat r :: u8) \<noteq> 255" using False by auto
    ultimately show ?thesis
      using False
      by (subst lz4_read_length.simps) (simp add: lz4_length_bytes.simps [of r] byte_at_def nth_append)
  qed
qed

lemma lz4_token:
  assumes "n < 16"
  shows "unat (drop_bit 4 (push_bit 4 (of_nat n) :: u8)) = n"
proof -
  have "push_bit 4 (of_nat n) = (of_nat (n * 16) :: u8)"
    by (simp add: push_bit_eq_mult)
  then have "unat (push_bit 4 (of_nat n) :: u8) = n * 16"
    using assms by (simp only: unat_of_nat) (simp add: take_bit_nat_eq_self)
  then show ?thesis
    using assms by (simp only: unsigned_drop_bit_eq) (simp add: drop_bit_eq_div take_bit_eq_mod)
qed

lemma lz4_decode_block:
  assumes "src = pre @ lz4_block c @ post" and "c \<noteq> []"
    and "dst = d1 @ d2 @ d3" and "length d2 = length c" and "length d1 + length c \<le> ds"
  shows "lz4_decode_loop src (length src) ds (length pre) (length d1) dst =
         lz4_decode_loop src (length src) ds (length (pre @ lz4_block c)) (length (d1 @ c))
           (d1 @ c @ d3)"
proof -
  let ?n = "length c"
  define token :: u8 where "token = (if ?n < 15 then push_bit 4 (of_nat ?n) else push_bit 4 15)"
  let ?ext = "if ?n \<ge> 15 then lz4_length_bytes (?n - 15) else []"
  have src: "src = pre @ token # ?ext @ c @ post"
    using assms(1) by (simp add: lz4_block_def Let_def token_def)
  have code: "unat (drop_bit 4 token) = (if ?n < 15 then ?n else 15)"
    using lz4_token [of ?n] lz4_token [of 15] by (simp add: token_def)
  have len: "(if unat (drop_bit 4 token) = 15
       then lz4_read_length src (length src) (length pre + 1) (unat (drop_bit 4 token))
       else Some (length pre + 1, unat (drop_bit 4 token))) =
      Some (length pre + 1 + length ?ext, ?n)"
  proof (cases "?n < 15")
    case True
    then show ?thesis by (simp add: code)
  next
    case False
    then show ?thesis
      using lz4_read_length_bytes [of "pre @ [token]" "?n - 15" "c @ post" 15]
      by (simp add: code src)
  qed
  have "read_mem (length pre + 1 + length ?ext) ?n src = Some c"
    using read_mem_app [of "pre @ token # ?ext" c post] by (simp add: src)
  moreover have "write_mem (length d1) c dst = Some (d1 @ c @ d3)"
    using write_mem_mid [of d2 c d1 "length d1" d3] assms(3,4) by simp
  moreover have c: "0 < length c" using assms(2) by simp
  moreover have "length d1 < ds" using c assms(5) by linarith
  moreover have "length pre < length src" "byte_at src (length pre) = Some token"
    "length pre + 1 + length ?ext + ?n \<le> length src"
    using assms(5) c by (simp_all add: src)
  ultimately show ?thesis
    using assms(5) len
    by (subst lz4_decode_loop.simps) (simp add: Let_def lz4_block_def token_def [symmetric] add.assoc del: not_less)
qed

lemma lz4_decode_encoded:
  assumes "src = pre @ lz4_encoded xs" and "dst = d1 @ d2" and "length d2 = length xs"
    and "ds = length dst"
  shows "lz4_decode_loop src (length src) ds (length pre) (length d1) dst = Some (True, d1 @ xs)"
  using assms
proof (induction xs arbitrary: pre d1 d2 dst rule: lz4_encoded.induct)
  case (1 xs)
  show ?case
  proof (cases "xs = []")
    case True
    with 1 show ?thesis by (simp add: lz4_decode_loop.simps lz4_encoded.simps [of "[]"])
  next
    case False
    let ?c = "take kLz4BlockSize xs" and ?rest = "drop kLz4BlockSize xs"
    let ?k = "length ?c"
    have src: "src = pre @ lz4_block ?c @ lz4_encoded ?rest"
      using 1(2) False by (simp add: lz4_encoded.simps [of xs])
    have c: "?c \<noteq> []" using False by (simp add: kLz4BlockSize_def)
    have k: "?k \<le> length d2" using 1(4) by simp
    have step: "lz4_decode_loop src (length src) ds (length pre) (length d1) dst =
        lz4_decode_loop src (length src) ds (length (pre @ lz4_block ?c)) (length (d1 @ ?c))
          (d1 @ ?c @ drop ?k d2)"
      by (rule lz4_decode_block [OF src c, of dst d1 "take ?k d2" "drop ?k d2"])
         (use 1(3-5) k in auto)
    have "lz4_decode_loop src (length src) ds (length (pre @ lz4_block ?c)) (length (d1 @ ?c))
          (d1 @ ?c @ drop ?k d2) = Some (True, (d1 @ ?c) @ ?rest)"
      by (rule 1(1) [OF False, of _ _ _ "drop ?k d2"]) (use 1(3-5) src k in auto)
    with step show ?thesis by simp
  qed
qed

text \<open>
  C20. Round trip: for every byte string, encoding succeeds and decoding the result into a
  destination of the original size succeeds and restores the bytes, whatever the
  destination held before.
\<close>
theorem Lz4_roundtrip:
  assumes "length dst = length src"
  shows "\<exists>enc. EncodeLz4Literal src (Some out) = (True, Some enc) \<and>
           DecodeLz4Literal enc (length enc) (Some dst) (length src) = Some (True, Some src)"
proof (cases "src = []")
  case True
  with assms show ?thesis by (simp add: EncodeLz4Literal_def DecodeLz4Literal_def)
next
  case False
  have dec: "lz4_decode_loop (lz4_encoded src) (length (lz4_encoded src)) (length src) 0 0 dst =
      Some (True, src)"
    using lz4_decode_encoded [of "lz4_encoded src" "[]" src dst "[]" dst "length src",
        OF _ _ assms assms [symmetric]] by simp
  have "EncodeLz4Literal src (Some out) = (True, Some (lz4_encoded src))"
    using False
    by (simp add: EncodeLz4Literal_def EncodeLz4LiteralBlock_def EncodeLz4LiteralBlock_from_eq)
  moreover have "DecodeLz4Literal (lz4_encoded src) (length (lz4_encoded src)) (Some dst) (length src) =
      Some (True, Some src)"
    using False unfolding DecodeLz4Literal_def DecodeLz4LiteralBlock_def by (simp add: dec)
  ultimately show ?thesis by blast
qed

theorem Lz4_roundtrip_witness:
  "\<exists>enc. EncodeLz4Literal [1, 2, 3] (Some []) = (True, Some enc) \<and>
     DecodeLz4Literal enc (length enc) (Some [0, 0, 0]) 3 = Some (True, Some [1, 2, 3])"
  using Lz4_roundtrip [of "[0, 0, 0]" "[1, 2, 3]" "[]"] by (simp add: numeral_3_eq_3)

end
