(* ===== verification/Codec.thy ===== *)
theory Codec
  imports Lz4 Masks FieldVec
begin

text \<open>
  \<open>engine/include/mimicdb/compression.h\<close> and the reading half of
  \<open>engine/src/compression.cpp\<close>: compressed column views, their headers, single-value
  reads and batch decoding for the dictionary, bit-packed, frame-of-reference and LZ4
  kinds.  A view's \<open>data\<close>, \<open>aux\<close> and \<open>validity_words\<close> pointers are the contents they
  point at (null is \<open>None\<close>); reads through them outside these bytes are \<open>None\<close> in \<open>ub\<close>.
  The static tables of function pointers are the datatype \<open>column_ops\<close>.  Signed sums wrap.
\<close>

section \<open>Views and configuration\<close>

datatype compression_kind = CkNone | CkBitPacked | CkDictionary | CkForDelta | CkRle | CkLz4

datatype column_ops = NoneOps | DictionaryOps | BitpackOps | ForDeltaOps | Lz4Ops

record compressed_view =
  cv_kind :: compression_kind
  cv_type :: field_type
  cv_data :: "u8 list option"
  cv_data_size :: nat
  cv_aux :: "u8 list option"
  cv_aux_size :: nat
  cv_raw_data_size :: nat
  cv_raw_aux_size :: nat
  cv_dict :: "dictionary option"
  cv_validity_words :: "u64 list option"
  cv_validity_word_count :: nat
  cv_validity_bit_count :: nat
  cv_row_count :: nat
  cv_ops :: "column_ops option"

definition view_empty :: compressed_view where
  "view_empty =
     \<lparr>cv_kind = CkNone, cv_type = kInt64, cv_data = None, cv_data_size = 0, cv_aux = None,
      cv_aux_size = 0, cv_raw_data_size = 0, cv_raw_aux_size = 0, cv_dict = None,
      cv_validity_words = None, cv_validity_word_count = 0, cv_validity_bit_count = 0,
      cv_row_count = 0, cv_ops = None\<rparr>"

record compression_config =
  cfg_enabled :: bool
  cfg_enable_dictionary :: bool
  cfg_enable_bitpack :: bool
  cfg_enable_fordelta :: bool
  cfg_enable_lz4 :: bool
  cfg_min_segment_rows :: nat
  cfg_min_ratio :: f64

definition kDefaultSegmentRows :: nat where "kDefaultSegmentRows = 4096"
definition kCompressionDictCardinalityThreshold :: u32 where
  "kCompressionDictCardinalityThreshold = 256"
definition kCompressionForDeltaMaxRange :: u64 where
  "kCompressionForDeltaMaxRange = push_bit 20 1"
definition kCompressionBitpackMaxBits :: nat where "kCompressionBitpackMaxBits = 16"

text \<open>The double nearest to 1.1.\<close>

definition kCompressionMinRatio :: f64 where "kCompressionMinRatio = 0x3FF199999999999A"

definition g_compression_config :: compression_config where
  "g_compression_config =
     \<lparr>cfg_enabled = True, cfg_enable_dictionary = True, cfg_enable_bitpack = True,
      cfg_enable_fordelta = True, cfg_enable_lz4 = True,
      cfg_min_segment_rows = kDefaultSegmentRows, cfg_min_ratio = kCompressionMinRatio\<rparr>"

definition view_IsValid :: "compressed_view \<Rightarrow> nat \<Rightarrow> bool" where
  "view_IsValid column index =
     (case cv_validity_words column of
        None \<Rightarrow> True
      | Some words \<Rightarrow>
          if cv_validity_word_count column = 0 then True
          else
            let word = index div 64; b = index mod 64
            in if word \<ge> cv_validity_word_count column then True
               else (drop_bit b (words ! word) AND 1) \<noteq> 0)"

section \<open>Headers\<close>

definition kBitpackHeaderSize :: nat where "kBitpackHeaderSize = 16"
definition kDictHeaderSize :: nat where "kDictHeaderSize = 8"
definition kForDeltaHeaderSize :: nat where "kForDeltaHeaderSize = 8"

text \<open>The count and the bytes the value pointer points at.\<close>

definition ReadDictHeader :: "compressed_view \<Rightarrow> (u32 \<times> u8 list) option" where
  "ReadDictHeader column =
     (case cv_aux column of
        None \<Rightarrow> None
      | Some aux \<Rightarrow>
          if cv_aux_size column < kDictHeaderSize then None
          else
            let count = (le_word (take 4 aux) :: u32);
                expected = kDictHeaderSize + unat count * 8
            in if cv_aux_size column < expected then None
               else Some (count, drop kDictHeaderSize aux))"

definition ReadBitpackHeader :: "compressed_view \<Rightarrow> (u64 \<times> u8) option" where
  "ReadBitpackHeader column =
     (case cv_aux column of
        None \<Rightarrow> None
      | Some aux \<Rightarrow>
          if cv_aux_size column < kBitpackHeaderSize then None
          else
            let base = (le_word (take 8 aux) :: u64); bits = aux ! 8
            in if bits > 0 \<and> bits \<le> 32 then Some (base, bits) else None)"

definition ReadForDeltaHeader :: "compressed_view \<Rightarrow> u64 option" where
  "ReadForDeltaHeader column =
     (case cv_aux column of
        None \<Rightarrow> None
      | Some aux \<Rightarrow>
          if cv_aux_size column < kForDeltaHeaderSize then None else Some (le_word (take 8 aux)))"

section \<open>Packed values\<close>

definition ReadBits :: "u8 list option \<Rightarrow> nat \<Rightarrow> u8 \<Rightarrow> u64 ub" where
  "ReadBits data bit_offset bits =
     (case data of
        None \<Rightarrow> Some 0
      | Some d \<Rightarrow>
          if bits = 0 then Some 0
          else for_ub 0 (unat bits)
                 (\<lambda>i value. do {
                    b \<leftarrow> byte_at d ((bit_offset + i) div 8);
                    Some (if b AND push_bit ((bit_offset + i) mod 8) 1 \<noteq> 0
                          then value OR push_bit i 1 else value) }) 0)"

text \<open>The inner \<open>None\<close> is the result \<open>false\<close>.\<close>

definition ReadBitpackValueFast :: "u8 list option \<Rightarrow> nat \<Rightarrow> u8 \<Rightarrow> u64 option ub" where
  "ReadBitpackValueFast data index bits =
     (case data of
        None \<Rightarrow> Some None
      | Some d \<Rightarrow>
          if bits = 4 then
            do { byte \<leftarrow> byte_at d (index div 2);
                 Some (Some (ucast (if odd index then drop_bit 4 byte else byte AND 0x0F))) }
          else if bits = 8 then do { byte \<leftarrow> byte_at d index; Some (Some (ucast byte)) }
          else if bits = 16 then do { v \<leftarrow> (rd 2 d index :: u16 ub); Some (Some (ucast v)) }
          else if bits = 32 then do { v \<leftarrow> (rd 4 d index :: u32 ub); Some (Some (ucast v)) }
          else Some None)"

definition read_packed :: "u8 list option \<Rightarrow> nat \<Rightarrow> u8 \<Rightarrow> u64 ub" where
  "read_packed data index bits =
     do { r \<leftarrow> ReadBitpackValueFast data index bits;
          case r of Some v \<Rightarrow> Some v | None \<Rightarrow> ReadBits data (index * unat bits) bits }"

section \<open>One value\<close>

definition dict_Value_ub :: "dictionary \<Rightarrow> u32 \<Rightarrow> u32 ub" where
  "dict_Value_ub d i = (if unat i < length (dict_values d) then Some (dict_Value d i) else None)"

definition rd_ptr :: "nat \<Rightarrow> u8 list option \<Rightarrow> nat \<Rightarrow> 'a::len word ub" where
  "rd_ptr n data index = (case data of None \<Rightarrow> None | Some d \<Rightarrow> rd n d index)"

definition read_plain_int64 :: "compressed_view \<Rightarrow> nat \<Rightarrow> u64 option ub" where
  "read_plain_int64 column index =
     (case cv_type column of
        kInt32 \<Rightarrow> do { v \<leftarrow> (rd_ptr 4 (cv_data column) index :: u32 ub); Some (Some (scast v)) }
      | kInt64 \<Rightarrow> do { v \<leftarrow> (rd_ptr 8 (cv_data column) index :: u64 ub); Some (Some v) }
      | kBool \<Rightarrow> do { v \<leftarrow> (rd_ptr 1 (cv_data column) index :: u8 ub);
                      Some (Some (if v \<noteq> 0 then 1 else 0)) }
      | kDictInt32 \<Rightarrow>
          do { i \<leftarrow> (rd_ptr 4 (cv_data column) index :: u32 ub);
               case cv_dict column of
                 Some d \<Rightarrow> do { v \<leftarrow> dict_Value_ub d i; Some (Some (scast v)) }
               | None \<Rightarrow> Some (Some (ucast i)) }
      | _ \<Rightarrow> Some None)"

definition ReadInt64ValueInternal :: "compressed_view \<Rightarrow> nat \<Rightarrow> u64 option ub" where
  "ReadInt64ValueInternal column index =
     (if \<not> view_IsValid column index then Some None
      else
        case cv_kind column of
          CkNone \<Rightarrow> read_plain_int64 column index
        | CkLz4 \<Rightarrow> read_plain_int64 column index
        | CkDictionary \<Rightarrow>
            (case ReadDictHeader column of
               None \<Rightarrow> Some None
             | Some (count, values) \<Rightarrow>
                 (case cv_data column of
                    None \<Rightarrow> Some None
                  | Some ids \<Rightarrow>
                      do { i \<leftarrow> (rd 4 ids index :: u32 ub);
                           if i \<ge> count then Some None
                           else do { v \<leftarrow> rd 8 values (unat i); Some (Some v) } }))
        | CkBitPacked \<Rightarrow>
            (case ReadBitpackHeader column of
               None \<Rightarrow> Some None
             | Some (base, bits) \<Rightarrow>
                 do { delta \<leftarrow> ReadBits (cv_data column) (index * unat bits) bits;
                      Some (Some (base + delta)) })
        | CkForDelta \<Rightarrow>
            (case ReadForDeltaHeader column of
               None \<Rightarrow> Some None
             | Some base \<Rightarrow>
                 (case cv_data column of
                    None \<Rightarrow> Some None
                  | Some deltas \<Rightarrow>
                      do { delta \<leftarrow> (rd 4 deltas index :: u32 ub);
                           Some (Some (base + ucast delta)) }))
        | CkRle \<Rightarrow> Some None)"

definition ReadInt64Value :: "compressed_view \<Rightarrow> nat \<Rightarrow> u64 option ub" where
  "ReadInt64Value column index = ReadInt64ValueInternal column index"

definition ReadNumericValue :: "compressed_view \<Rightarrow> nat \<Rightarrow> f64 option ub" where
  "ReadNumericValue column index =
     (if \<not> view_IsValid column index then Some None
      else if cv_kind column = CkDictionary \<or> cv_kind column = CkBitPacked \<or>
              cv_kind column = CkForDelta then
        do { v \<leftarrow> ReadInt64ValueInternal column index; Some (map_option f64_of_i64 v) }
      else
        case cv_type column of
          kInt32 \<Rightarrow> do { v \<leftarrow> (rd_ptr 4 (cv_data column) index :: u32 ub); Some (Some (f64_of_i32 v)) }
        | kInt64 \<Rightarrow> do { v \<leftarrow> (rd_ptr 8 (cv_data column) index :: u64 ub); Some (Some (f64_of_i64 v)) }
        | kFloat64 \<Rightarrow> do { v \<leftarrow> (rd_ptr 8 (cv_data column) index :: u64 ub); Some (Some v) }
        | kBool \<Rightarrow> do { v \<leftarrow> (rd_ptr 1 (cv_data column) index :: u8 ub);
                        Some (Some (f64_of_int (if v \<noteq> 0 then 1 else 0))) }
        | kDictInt32 \<Rightarrow>
            do { i \<leftarrow> (rd_ptr 4 (cv_data column) index :: u32 ub);
                 case cv_dict column of
                   Some d \<Rightarrow> do { v \<leftarrow> dict_Value_ub d i; Some (Some (f64_of_i32 v)) }
                 | None \<Rightarrow> Some (Some (f64_of_int (uint i))) }
        | _ \<Rightarrow> Some None)"

end
