(* ===== verification/CodecOps.thy ===== *)
theory CodecOps
  imports Codec
begin

text \<open>
  The operations of a compressed view (\<open>engine/src/compression.cpp\<close>): batch decoding into
  a buffer of \<open>int64_t\<close> (a byte list, 8 bytes per element), predicate scans that fill a
  mask, sizes, the choice of a compression kind, and the view of a column that is not
  compressed.  Out-of-bounds accesses are \<open>None\<close>.
\<close>

section \<open>Batch decoding\<close>

text \<open>\<open>out[i] = value\<close> for an \<open>int64_t\<close> output buffer.\<close>

abbreviation put_i64 :: "nat \<Rightarrow> u64 \<Rightarrow> u8 list \<Rightarrow> u8 list ub" where
  "put_i64 i value out \<equiv> wr 8 i value out"

definition DecodeNone :: "compressed_view \<Rightarrow> mask \<Rightarrow> u8 list option \<Rightarrow> u8 list option ub" where
  "DecodeNone column m out_buffer =
     (case (out_buffer, cv_data column) of
        (Some out, Some data) \<Rightarrow>
          if cv_data_size column = 0 then Some out_buffer
          else do { bs \<leftarrow> read_mem 0 (cv_data_size column) data;
                    out' \<leftarrow> write_mem 0 bs out; Some (Some out') }
      | _ \<Rightarrow> Some out_buffer)"

definition decode_dict_row ::
  "compressed_view \<Rightarrow> mask \<Rightarrow> u32 \<Rightarrow> u8 list \<Rightarrow> u8 list \<Rightarrow> nat \<Rightarrow> u8 list \<Rightarrow> u8 list ub" where
  "decode_dict_row column m count values ids i out =
     (let dense_ids = (count \<le> 256) in
      if mask_Size m > 0 \<and> \<not> mask_Get m i then Some out
      else if \<not> view_IsValid column i then put_i64 i 0 out
      else do {
        k \<leftarrow> (rd 4 ids i :: u32 ub);
        if \<not> dense_ids \<and> k \<ge> count then put_i64 i 0 out
        else do { v \<leftarrow> rd 8 values (unat k); put_i64 i v out } })"

definition DecodeDictionary :: "compressed_view \<Rightarrow> mask \<Rightarrow> u8 list option \<Rightarrow> u8 list option ub" where
  "DecodeDictionary column m out_buffer =
     (case (out_buffer, cv_data column) of
        (Some out, Some ids) \<Rightarrow>
          (case ReadDictHeader column of
             None \<Rightarrow> Some out_buffer
           | Some (count, values) \<Rightarrow>
               map_option Some
                 (for_ub 0 (cv_row_count column) (decode_dict_row column m count values ids) out))
      | _ \<Rightarrow> Some out_buffer)"

definition decode_bitpack_row ::
  "compressed_view \<Rightarrow> u64 \<Rightarrow> u8 \<Rightarrow> nat \<Rightarrow> u8 list \<Rightarrow> u8 list ub" where
  "decode_bitpack_row column base bits i out =
     do { delta \<leftarrow> read_packed (cv_data column) i bits; put_i64 i (base + delta) out }"

definition DecodeBitpack :: "compressed_view \<Rightarrow> mask \<Rightarrow> u8 list option \<Rightarrow> u8 list option ub" where
  "DecodeBitpack column m out_buffer =
     (case (out_buffer, cv_data column) of
        (Some out, Some data) \<Rightarrow>
          (case ReadBitpackHeader column of
             None \<Rightarrow> Some out_buffer
           | Some (base, bits) \<Rightarrow>
               let has_mask = (mask_Size m > 0) in
               if \<not> has_mask \<and> (bits = 4 \<or> bits = 8 \<or> bits = 16 \<or> bits = 32) then
                 map_option Some
                   (for_ub 0 (cv_row_count column) (decode_bitpack_row column base bits) out)
               else
                 map_option Some
                   (for_ub 0 (cv_row_count column)
                      (\<lambda>i out. if has_mask \<and> \<not> mask_Get m i then Some out
                               else decode_bitpack_row column base bits i out) out))
      | _ \<Rightarrow> Some out_buffer)"

definition decode_delta_row :: "u64 \<Rightarrow> u8 list \<Rightarrow> nat \<Rightarrow> u8 list \<Rightarrow> u8 list ub" where
  "decode_delta_row base deltas i out =
     do { delta \<leftarrow> (rd 4 deltas i :: u32 ub); put_i64 i (base + ucast delta) out }"

text \<open>Four rows at a time while \<open>i + 3\<close> is a row, then the rest.\<close>

definition unrolled4 :: "nat \<Rightarrow> (nat \<Rightarrow> 's \<Rightarrow> 's ub) \<Rightarrow> 's \<Rightarrow> 's ub" where
  "unrolled4 n row s =
     do { s \<leftarrow> for_ub 0 (n div 4)
              (\<lambda>g s. do { s \<leftarrow> row (4 * g) s; s \<leftarrow> row (4 * g + 1) s;
                          s \<leftarrow> row (4 * g + 2) s; row (4 * g + 3) s }) s;
          for_ub (4 * (n div 4)) n row s }"

definition DecodeForDelta :: "compressed_view \<Rightarrow> mask \<Rightarrow> u8 list option \<Rightarrow> u8 list option ub" where
  "DecodeForDelta column m out_buffer =
     (case (out_buffer, cv_data column) of
        (Some out, Some deltas) \<Rightarrow>
          (case ReadForDeltaHeader column of
             None \<Rightarrow> Some out_buffer
           | Some base \<Rightarrow>
               let has_mask = (mask_Size m > 0) in
               if \<not> has_mask then
                 map_option Some (unrolled4 (cv_row_count column) (decode_delta_row base deltas) out)
               else
                 map_option Some
                   (for_ub 0 (cv_row_count column)
                      (\<lambda>i out. if \<not> mask_Get m i then Some out
                               else decode_delta_row base deltas i out) out))
      | _ \<Rightarrow> Some out_buffer)"

definition DecodeLz4 :: "compressed_view \<Rightarrow> mask \<Rightarrow> u8 list option \<Rightarrow> u8 list option ub" where
  "DecodeLz4 column m out_buffer =
     (case (out_buffer, cv_data column) of
        (Some out, Some data) \<Rightarrow>
          map_option snd (DecodeLz4LiteralBlock data (cv_data_size column) (Some out)
                            (cv_raw_data_size column))
      | _ \<Rightarrow> Some out_buffer)"

section \<open>Predicate scans\<close>

record compression_predicate =
  cp_type :: field_type
  cp_op :: compare_op
  cp_is_null_check :: bool
  cp_is_not_null_check :: bool
  cp_null_is :: bool
  cp_i64 :: u64
  cp_f64 :: f64
  cp_bool_value :: u8
  cp_bytes :: "u8 list option"
  cp_bytes_size :: u32

text \<open>The null test every scan starts with.\<close>

definition null_keep :: "compression_predicate \<Rightarrow> bool \<Rightarrow> bool" where
  "null_keep predicate is_null =
     (if cp_is_not_null_check predicate then \<not> is_null
      else if cp_null_is predicate then is_null else \<not> is_null)"

definition scan_nulls :: "compressed_view \<Rightarrow> compression_predicate \<Rightarrow> mask \<Rightarrow> mask" where
  "scan_nulls column predicate m =
     for_loop 0 (cv_row_count column)
       (\<lambda>i m. mask_Set m i (null_keep predicate (\<not> view_IsValid column i))) m"

text \<open>A loop over the rows: null rows are rejected, the others by \<open>row\<close>.\<close>

definition scan_rows :: "compressed_view \<Rightarrow> (nat \<Rightarrow> bool ub) \<Rightarrow> nat \<Rightarrow> mask \<Rightarrow> mask ub" where
  "scan_rows column row i m =
     (if \<not> view_IsValid column i then Some (mask_Set m i False)
      else do { keep \<leftarrow> row i; Some (mask_Set m i keep) })"

text \<open>The common start: resize, leave on an empty column, answer a null test.\<close>

definition scan_with ::
  "compressed_view \<Rightarrow> compression_predicate \<Rightarrow> (u8 list \<Rightarrow> mask \<Rightarrow> mask ub) \<Rightarrow> mask option \<Rightarrow> mask option ub" where
  "scan_with column predicate body out_mask =
     (case out_mask of
        None \<Rightarrow> Some None
      | Some m \<Rightarrow>
          let m = mask_Resize m (cv_row_count column) in
          (case cv_data column of
             None \<Rightarrow> Some (Some m)
           | Some data \<Rightarrow>
               if cv_row_count column = 0 then Some (Some m)
               else if cp_is_null_check predicate \<or> cp_is_not_null_check predicate then
                 Some (Some (scan_nulls column predicate m))
               else map_option Some (body data m)))"

definition none_dict_row ::
  "compressed_view \<Rightarrow> compression_predicate \<Rightarrow> u8 list \<Rightarrow> nat \<Rightarrow> bool ub" where
  "none_dict_row column predicate data i =
     (case cv_dict column of
        Some d \<Rightarrow>
          if cp_op predicate = kEq \<or> cp_op predicate = kNe then
            (case dict_FindId d (ucast (cp_i64 predicate)) True of
               None \<Rightarrow> Some (cp_op predicate = kNe)
             | Some dict_id \<Rightarrow>
                 do { k \<leftarrow> (rd 4 data i :: u32 ub);
                      Some (if cp_op predicate = kEq then k = dict_id else k \<noteq> dict_id) })
          else
            do { k \<leftarrow> (rd 4 data i :: u32 ub);
                 v \<leftarrow> dict_Value_ub d k;
                 Some (CompareInt64Branchless (scast v) (cp_i64 predicate) (cp_op predicate) \<noteq> 0) }
      | None \<Rightarrow>
          do { k \<leftarrow> (rd 4 data i :: u32 ub);
               Some (CompareInt64Branchless (ucast k) (cp_i64 predicate) (cp_op predicate) \<noteq> 0) })"

definition none_row ::
  "compressed_view \<Rightarrow> compression_predicate \<Rightarrow> u8 list \<Rightarrow> nat \<Rightarrow> bool ub" where
  "none_row column predicate data i =
     (case cv_type column of
        kInt32 \<Rightarrow>
          do { v \<leftarrow> (rd 4 data i :: u32 ub);
               Some (CompareInt64Branchless (scast v) (cp_i64 predicate) (cp_op predicate) \<noteq> 0) }
      | kInt64 \<Rightarrow>
          do { v \<leftarrow> (rd 8 data i :: u64 ub);
               Some (CompareInt64Branchless v (cp_i64 predicate) (cp_op predicate) \<noteq> 0) }
      | kFloat64 \<Rightarrow>
          do { v \<leftarrow> (rd 8 data i :: u64 ub);
               Some (CompareFloat64Branchless v (cp_f64 predicate) (cp_op predicate) \<noteq> 0) }
      | kBool \<Rightarrow>
          do { v \<leftarrow> (rd 1 data i :: u8 ub);
               Some (CompareInt64Branchless (ucast v) (cp_i64 predicate) (cp_op predicate) \<noteq> 0) }
      | kDictInt32 \<Rightarrow> none_dict_row column predicate data i
      | _ \<Rightarrow> Some False)"

definition ScanPredicateNone ::
  "compressed_view \<Rightarrow> compression_predicate \<Rightarrow> mask option \<Rightarrow> mask option ub" where
  "ScanPredicateNone column predicate =
     scan_with column predicate
       (\<lambda>data m.
          if cv_type column \<in> {kString, kBytes, kArray, kObject} then
            Some (for_loop 0 (cv_row_count column) (\<lambda>i m. mask_Set m i False) m)
          else if cv_type column = kVectorFloat32 then Some m
          else for_ub 0 (cv_row_count column) (scan_rows column (none_row column predicate data)) m)"

text \<open>The first dictionary entry equal to the constant.\<close>

fun find_entry :: "u8 list \<Rightarrow> u64 \<Rightarrow> nat \<Rightarrow> nat \<Rightarrow> u32 option ub" where
  "find_entry values v i 0 = Some None"
| "find_entry values v i (Suc n) =
     do { x \<leftarrow> rd 8 values i;
          if x = v then Some (Some (of_nat i)) else find_entry values v (Suc i) n }"

definition dict_scan_row ::
  "compression_predicate \<Rightarrow> u32 \<Rightarrow> u8 list \<Rightarrow> u8 list \<Rightarrow> u32 option \<Rightarrow> nat \<Rightarrow> bool ub" where
  "dict_scan_row predicate count values ids match_id i =
     (let is_eq = (cp_op predicate = kEq \<or> cp_op predicate = kNe);
          dense_ids = (count \<le> 256) in
      if is_eq \<and> match_id = None then Some (cp_op predicate = kNe)
      else
        do { k \<leftarrow> (rd 4 ids i :: u32 ub);
             if is_eq then
               Some (if cp_op predicate = kEq then Some k = match_id else Some k \<noteq> match_id)
             else if \<not> dense_ids \<and> k \<ge> count then Some False
             else do { v \<leftarrow> rd 8 values (unat k);
                       Some (CompareInt64Branchless v (cp_i64 predicate) (cp_op predicate) \<noteq> 0) } })"

definition ScanPredicateDictionary ::
  "compressed_view \<Rightarrow> compression_predicate \<Rightarrow> mask option \<Rightarrow> mask option ub" where
  "ScanPredicateDictionary column predicate =
     scan_with column predicate
       (\<lambda>ids m.
          case ReadDictHeader column of
            None \<Rightarrow> Some m
          | Some (count, values) \<Rightarrow>
              do { match_id \<leftarrow>
                     (if cp_op predicate = kEq \<or> cp_op predicate = kNe
                      then find_entry values (cp_i64 predicate) 0 (unat count) else Some None);
                   for_ub 0 (cv_row_count column)
                     (scan_rows column (dict_scan_row predicate count values ids match_id)) m })"

definition bitpack_scan_row ::
  "compressed_view \<Rightarrow> compression_predicate \<Rightarrow> u64 \<Rightarrow> u8 \<Rightarrow> nat \<Rightarrow> bool ub" where
  "bitpack_scan_row column predicate base bits i =
     do { delta \<leftarrow> (if bits = 4 \<or> bits = 8 \<or> bits = 16 \<or> bits = 32
                     then read_packed (cv_data column) i bits
                     else ReadBits (cv_data column) (i * unat bits) bits);
          Some (CompareInt64Branchless (base + delta) (cp_i64 predicate) (cp_op predicate) \<noteq> 0) }"

definition ScanPredicateBitpack ::
  "compressed_view \<Rightarrow> compression_predicate \<Rightarrow> mask option \<Rightarrow> mask option ub" where
  "ScanPredicateBitpack column predicate =
     scan_with column predicate
       (\<lambda>data m.
          case ReadBitpackHeader column of
            None \<Rightarrow> Some m
          | Some (base, bits) \<Rightarrow>
              for_ub 0 (cv_row_count column)
                (scan_rows column (bitpack_scan_row column predicate base bits)) m)"

definition delta_scan_row ::
  "compression_predicate \<Rightarrow> u64 \<Rightarrow> u8 list \<Rightarrow> nat \<Rightarrow> bool ub" where
  "delta_scan_row predicate base deltas i =
     do { delta \<leftarrow> (rd 4 deltas i :: u32 ub);
          Some (CompareInt64Branchless (base + ucast delta) (cp_i64 predicate) (cp_op predicate) \<noteq> 0) }"

definition ScanPredicateForDelta ::
  "compressed_view \<Rightarrow> compression_predicate \<Rightarrow> mask option \<Rightarrow> mask option ub" where
  "ScanPredicateForDelta column predicate =
     scan_with column predicate
       (\<lambda>deltas m.
          case ReadForDeltaHeader column of
            None \<Rightarrow> Some m
          | Some base \<Rightarrow>
              unrolled4 (cv_row_count column)
                (scan_rows column (delta_scan_row predicate base deltas)) m)"

section \<open>Dispatch\<close>

definition MemoryBytesNone :: "compressed_view \<Rightarrow> nat" where
  "MemoryBytesNone column = cv_data_size column + cv_aux_size column"

definition MemoryBytesLz4 :: "compressed_view \<Rightarrow> nat" where
  "MemoryBytesLz4 column = cv_data_size column + cv_aux_size column"

definition ops_decode ::
  "column_ops \<Rightarrow> compressed_view \<Rightarrow> mask \<Rightarrow> u8 list option \<Rightarrow> u8 list option ub" where
  "ops_decode ops =
     (case ops of
        NoneOps \<Rightarrow> DecodeNone | DictionaryOps \<Rightarrow> DecodeDictionary | BitpackOps \<Rightarrow> DecodeBitpack
      | ForDeltaOps \<Rightarrow> DecodeForDelta | Lz4Ops \<Rightarrow> DecodeLz4)"

definition ops_scan_predicate ::
  "column_ops \<Rightarrow> (compressed_view \<Rightarrow> compression_predicate \<Rightarrow> mask option \<Rightarrow> mask option ub) option" where
  "ops_scan_predicate ops =
     (case ops of
        NoneOps \<Rightarrow> Some ScanPredicateNone | DictionaryOps \<Rightarrow> Some ScanPredicateDictionary
      | BitpackOps \<Rightarrow> Some ScanPredicateBitpack | ForDeltaOps \<Rightarrow> Some ScanPredicateForDelta
      | Lz4Ops \<Rightarrow> None)"

definition ops_memory_bytes :: "column_ops \<Rightarrow> compressed_view \<Rightarrow> nat" where
  "ops_memory_bytes ops = (if ops = Lz4Ops then MemoryBytesLz4 else MemoryBytesNone)"

definition CompressionOpsFor :: "compression_kind \<Rightarrow> column_ops" where
  "CompressionOpsFor kind =
     (case kind of
        CkNone \<Rightarrow> NoneOps | CkDictionary \<Rightarrow> DictionaryOps | CkBitPacked \<Rightarrow> BitpackOps
      | CkForDelta \<Rightarrow> ForDeltaOps | CkLz4 \<Rightarrow> Lz4Ops | CkRle \<Rightarrow> NoneOps)"

definition DecodeBatch :: "compressed_view \<Rightarrow> mask \<Rightarrow> u8 list option \<Rightarrow> u8 list option ub" where
  "DecodeBatch column m out_buffer =
     (case cv_ops column of
        None \<Rightarrow> Some out_buffer
      | Some ops \<Rightarrow> ops_decode ops column m out_buffer)"

definition ScanPredicate ::
  "compressed_view \<Rightarrow> compression_predicate \<Rightarrow> mask option \<Rightarrow> mask option ub" where
  "ScanPredicate column predicate out_mask =
     (case (cv_ops column, out_mask) of
        (Some ops, Some m) \<Rightarrow>
          (case ops_scan_predicate ops of
             None \<Rightarrow> Some out_mask | Some scan \<Rightarrow> scan column predicate out_mask)
      | _ \<Rightarrow> Some out_mask)"

definition MemoryBytes :: "compressed_view \<Rightarrow> nat" where
  "MemoryBytes column =
     (case cv_ops column of
        Some ops \<Rightarrow> ops_memory_bytes ops column
      | None \<Rightarrow> cv_data_size column + cv_aux_size column + cv_validity_word_count column * 8)"

text \<open>\<open>BuildMaskCompressed\<close> of \<open>engine/src/scan.cpp\<close>.\<close>

definition BuildMaskCompressed ::
  "compressed_view \<Rightarrow> compression_predicate \<Rightarrow> mask option \<Rightarrow> (bool \<times> mask option) ub" where
  "BuildMaskCompressed column predicate out =
     (case out of
        None \<Rightarrow> Some (False, None)
      | Some m \<Rightarrow>
          (case cv_ops column of
             None \<Rightarrow> Some (False, Some (mask_Resize m 0))
           | Some ops \<Rightarrow>
               (case ops_scan_predicate ops of
                  None \<Rightarrow> Some (False, Some (mask_Resize m 0))
                | Some scan \<Rightarrow> map_option (Pair True) (scan column predicate out))))"

end
