(* ===== verification/Encoders.thy ===== *)
theory Encoders
  imports CodecOps Column
begin

text \<open>
  The encoders of \<open>engine/src/segment.cpp\<close>: an integer column is turned into a
  dictionary with ids, into bit-packed or into 32-bit differences from its minimum.  The
  encoders read the column through its typed accessors; \<open>field_i64\<close> is the switch they
  share.  Each takes the column and gives the \<open>data\<close> and \<open>aux\<close> bytes, or \<open>None\<close> where the
  code returns false.  Signed differences wrap.
\<close>

section \<open>Bit packing\<close>

text \<open>The widths 1, 2, 4, 8, 16 in turn; a range above all of them gets the last.\<close>

definition bit_limit :: "nat \<Rightarrow> u64" where
  "bit_limit bits = (if bits = 1 then 1 else push_bit bits 1 - 1)"

definition ChooseBitWidth :: "u64 \<Rightarrow> u8" where
  "ChooseBitWidth range' =
     (case find (\<lambda>bits. range' \<le> bit_limit bits) [1, 2, 4, 8, kCompressionBitpackMaxBits] of
        Some bits \<Rightarrow> of_nat bits
      | None \<Rightarrow> of_nat kCompressionBitpackMaxBits)"

definition write_bit :: "nat \<Rightarrow> bool \<Rightarrow> u8 list \<Rightarrow> u8 list ub" where
  "write_bit k v data =
     (let byte = k div 8; m = push_bit (k mod 8) 1 in
      if byte \<ge> length data then None
      else Some (data[byte := (if v then data ! byte OR m else data ! byte AND NOT m)]))"

definition WriteBits :: "u8 list option \<Rightarrow> nat \<Rightarrow> u64 \<Rightarrow> u8 \<Rightarrow> u8 list option ub" where
  "WriteBits data bit_offset value bits =
     (case data of
        None \<Rightarrow> Some None
      | Some d \<Rightarrow>
          if bits = 0 then Some data
          else map_option Some
                 (for_ub 0 (unat bits)
                    (\<lambda>i d. write_bit (bit_offset + i) (value AND push_bit i 1 \<noteq> 0) d) d))"

section \<open>The three encoders\<close>

definition is_encodable :: "field_type \<Rightarrow> bool" where
  "is_encodable t \<longleftrightarrow> t = kInt32 \<or> t = kInt64 \<or> t = kBool"

definition field_i64 :: "field_vector \<Rightarrow> nat \<Rightarrow> u64" where
  "field_i64 f i =
     (case fv_type f of
        kInt32 \<Rightarrow> scast (fv_i32 f ! i)
      | kInt64 \<Rightarrow> fv_i64 f ! i
      | kBool \<Rightarrow> if fv_bool f ! i \<noteq> 0 then 1 else 0
      | _ \<Rightarrow> 0)"

text \<open>The encoder's dictionary: the map \<open>ids\<close> and the vector \<open>dict_values\<close>.\<close>

record enc_dict =
  ed_ids :: "u64 \<Rightarrow> u32 option"
  ed_values :: "u64 list"

definition enc_dict_add :: "enc_dict \<Rightarrow> u64 \<Rightarrow> u32 \<times> enc_dict" where
  "enc_dict_add d value =
     (case ed_ids d value of
        Some i \<Rightarrow> (i, d)
      | None \<Rightarrow>
          let i = (of_nat (length (ed_values d)) :: u32)
          in (i, d\<lparr>ed_ids := (ed_ids d)(value \<mapsto> i), ed_values := ed_values d @ [value]\<rparr>))"

definition enc_dict_step :: "field_vector \<Rightarrow> nat \<Rightarrow> u32 list \<times> enc_dict \<Rightarrow> u32 list \<times> enc_dict" where
  "enc_dict_step f i s =
     (case s of (out_ids, d) \<Rightarrow>
        if \<not> fv_IsValid f i then (out_ids[i := 0], d)
        else let (k, d) = enc_dict_add d (field_i64 f i) in (out_ids[i := k], d))"

definition EncodeDictionary :: "field_vector \<Rightarrow> (u8 list \<times> u8 list) option" where
  "EncodeDictionary f =
     (if \<not> is_encodable (fv_type f) then None
      else
        let count = fv_size f;
            (out_ids, d) = for_loop 0 count (enc_dict_step f)
                             (replicate count 0, \<lparr>ed_ids = (\<lambda>_. None), ed_values = []\<rparr>);
            header = le_bytes 4 (of_nat (length (ed_values d)) :: u32) @ le_bytes 4 (0 :: u32)
        in Some (le_array 4 out_ids, header @ le_array 8 (ed_values d)))"

definition range_step :: "field_vector \<Rightarrow> nat \<Rightarrow> (u64 \<times> u64) option \<Rightarrow> (u64 \<times> u64) option" where
  "range_step f i s =
     (if \<not> fv_IsValid f i then s
      else
        let value = field_i64 f i in
        case s of
          None \<Rightarrow> Some (value, value)
        | Some (mn, mx) \<Rightarrow>
            Some (if sint value < sint mn then value else mn,
                  if sint mx < sint value then value else mx))"

definition packed_step :: "field_vector \<Rightarrow> u64 \<Rightarrow> u8 \<Rightarrow> nat \<Rightarrow> u8 list \<Rightarrow> u8 list ub" where
  "packed_step f min_value bits i data =
     (let value = (if fv_IsValid f i then field_i64 f i else 0)
      in do { r \<leftarrow> WriteBits (Some data) (i * unat bits) (value - min_value) bits; r })"

definition EncodeBitpack :: "field_vector \<Rightarrow> (u8 list \<times> u8 list) option ub" where
  "EncodeBitpack f =
     (if \<not> is_encodable (fv_type f) then Some None
      else
        let count = fv_size f;
            r = for_loop 0 count (range_step f) None;
            min_value = (case r of None \<Rightarrow> 0 | Some (mn, _) \<Rightarrow> mn);
            range' = (case r of None \<Rightarrow> 0 | Some (mn, mx) \<Rightarrow> mx - mn);
            bits = ChooseBitWidth range';
            total_bits = count * unat bits
        in do { data \<leftarrow> for_ub 0 count (packed_step f min_value bits)
                          (replicate ((total_bits + 7) div 8) 0);
                Some (Some (data, le_bytes 8 min_value @ bits # replicate 7 0)) })"

definition min_step :: "field_vector \<Rightarrow> nat \<Rightarrow> u64 option \<Rightarrow> u64 option" where
  "min_step f i s =
     (if \<not> fv_IsValid f i then s
      else
        let value = field_i64 f i in
        case s of
          None \<Rightarrow> Some value
        | Some mn \<Rightarrow> if sint value < sint mn then Some value else Some mn)"

definition EncodeForDelta :: "field_vector \<Rightarrow> (u8 list \<times> u8 list) option" where
  "EncodeForDelta f =
     (if \<not> is_encodable (fv_type f) then None
      else
        let count = fv_size f;
            min_value = (case for_loop 0 count (min_step f) None of None \<Rightarrow> 0 | Some mn \<Rightarrow> mn);
            out = for_loop 0 count
                    (\<lambda>i out. out[i := ucast ((if fv_IsValid f i then field_i64 f i else 0) - min_value)])
                    (replicate count (0 :: u32))
        in Some (le_array 4 out, le_bytes 8 min_value))"

section \<open>Views\<close>

text \<open>
  \<open>MakeUncompressedView\<close> points into the column: the bytes of its storage.  (The pointer to
  an empty vector is taken as non-null; every user tests the row count as well.)
\<close>

definition view_validity :: "field_vector \<Rightarrow> compressed_view \<Rightarrow> compressed_view" where
  "view_validity f v =
     (if fv_HasNulls f then
        v\<lparr>cv_validity_words := Some (bm_words (fv_validity f)),
          cv_validity_word_count := length (bm_words (fv_validity f)),
          cv_validity_bit_count := bitmap_Size (fv_validity f)\<rparr>
      else v)"

definition MakeUncompressedView :: "field_vector \<Rightarrow> compressed_view" where
  "MakeUncompressedView f =
     (let v = view_validity f
                (view_empty\<lparr>cv_kind := CkNone, cv_type := fv_type f, cv_row_count := fv_size f,
                   cv_ops := Some NoneOps\<rparr>)
      in case fv_type f of
           kInt32 \<Rightarrow> v\<lparr>cv_data := Some (le_array 4 (fv_i32 f)), cv_data_size := fv_size f * 4,
                        cv_raw_data_size := fv_size f * 4\<rparr>
         | kInt64 \<Rightarrow> v\<lparr>cv_data := Some (le_array 8 (fv_i64 f)), cv_data_size := fv_size f * 8,
                        cv_raw_data_size := fv_size f * 8\<rparr>
         | kFloat64 \<Rightarrow> v\<lparr>cv_data := Some (le_array 8 (fv_f64 f)), cv_data_size := fv_size f * 8,
                        cv_raw_data_size := fv_size f * 8\<rparr>
         | kBool \<Rightarrow> v\<lparr>cv_data := Some (fv_bool f), cv_data_size := fv_size f,
                        cv_raw_data_size := fv_size f\<rparr>
         | kDictInt32 \<Rightarrow> v\<lparr>cv_data := Some (le_array 4 (fv_dict_ids f)), cv_data_size := fv_size f * 4,
                        cv_raw_data_size := fv_size f * 4, cv_dict := fv_Dictionary f\<rparr>
         | kObject \<Rightarrow> v\<lparr>cv_data := None, cv_data_size := 0\<rparr>
         | _ \<Rightarrow> v\<lparr>cv_aux := Some (le_array 4 (fv_lengths f)), cv_aux_size := fv_size f * 4,
                 cv_data := Some (fv_bytes f), cv_data_size := fv_BytesSize f,
                 cv_raw_data_size := fv_BytesSize f, cv_raw_aux_size := fv_size f * 4\<rparr>)"

definition raw_data_bytes :: "field_vector \<Rightarrow> nat" where
  "raw_data_bytes f =
     (case fv_type f of
        kInt32 \<Rightarrow> fv_size f * 4
      | kInt64 \<Rightarrow> fv_size f * 8
      | kFloat64 \<Rightarrow> fv_size f * 8
      | kBool \<Rightarrow> fv_size f
      | kDictInt32 \<Rightarrow> fv_size f * 4
      | kObject \<Rightarrow> 0
      | _ \<Rightarrow> fv_BytesSize f)"

definition raw_aux_bytes :: "field_vector \<Rightarrow> nat" where
  "raw_aux_bytes f = (if is_varlen (fv_type f) then fv_size f * 4 else 0)"

definition validity_copy :: "field_vector \<Rightarrow> u64 list" where
  "validity_copy f = (if fv_HasNulls f then bm_words (fv_validity f) else [])"

definition ptr_of :: "'a list \<Rightarrow> 'a list option" where
  "ptr_of xs = (if xs = [] then None else Some xs)"

definition encoded_view ::
  "field_vector \<Rightarrow> compression_kind \<Rightarrow> u8 list \<Rightarrow> u8 list \<Rightarrow> u64 list \<Rightarrow> compressed_view" where
  "encoded_view f kind data aux validity =
     \<lparr>cv_kind = kind, cv_type = fv_type f, cv_data = ptr_of data, cv_data_size = length data,
      cv_aux = ptr_of aux, cv_aux_size = length aux, cv_raw_data_size = raw_data_bytes f,
      cv_raw_aux_size = raw_aux_bytes f,
      cv_dict = (if fv_type f = kDictInt32 then fv_Dictionary f else None),
      cv_validity_words = ptr_of validity, cv_validity_word_count = length validity,
      cv_validity_bit_count = bitmap_Size (fv_validity f), cv_row_count = fv_size f,
      cv_ops = Some (CompressionOpsFor kind)\<rparr>"

end
