(* ===== verification/BitStream.thy ===== *)
theory BitStream
  imports Encoders Bits
begin

text \<open>
  The bit string inside a byte buffer: \<open>WriteBits\<close> of \<open>engine/src/segment.cpp\<close> and
  \<open>ReadBits\<close> with its fast variants of \<open>engine/src/compression.cpp\<close> as accesses to one
  \<open>bit_store\<close>.  Bit \<open>k\<close> is bit \<open>k mod 8\<close> of byte \<open>k div 8\<close>.
\<close>

section \<open>A byte buffer is a bit store\<close>

definition stream_get :: "u8 list \<Rightarrow> nat \<Rightarrow> bool" where
  "stream_get d k \<longleftrightarrow> k < 8 * length d \<and> bit (d ! (k div 8)) (k mod 8)"

definition stream_set :: "u8 list \<Rightarrow> nat \<Rightarrow> bool \<Rightarrow> u8 list" where
  "stream_set d k v =
     (if k < 8 * length d then
        (let m = push_bit (k mod 8) 1
         in d[k div 8 := (if v then d ! (k div 8) OR m else d ! (k div 8) AND NOT m)])
      else d)"

lemma div8_less: "k div 8 < n \<longleftrightarrow> k < 8 * (n :: nat)"
  by (simp add: div_less_iff_less_mult mult.commute)

lemma length_stream_set [simp]: "length (stream_set d k v) = length d"
  by (simp add: stream_set_def Let_def)

lemma stream_get_set:
  assumes "k < 8 * length d"
  shows "stream_get (stream_set d k v) j = (if j = k then v else stream_get d j)"
proof (cases "j div 8 = k div 8")
  case True
  have "j = k \<longleftrightarrow> j mod 8 = k mod 8"
    using True by (metis div_mod_decomp)
  moreover have "k mod 8 < 8" "j mod 8 < 8" by simp_all
  moreover have "k div 8 < length d" "j < 8 * length d"
    using assms True div8_less by metis+
  ultimately show ?thesis
    using True assms by (auto simp: stream_get_def stream_set_def Let_def bit_simps)
next
  case False
  then show ?thesis using assms by (auto simp: stream_get_def stream_set_def Let_def)
qed

interpretation bs: bit_store stream_get stream_set "\<lambda>d. 8 * length d" "\<lambda>_. True"
  by unfold_locales (auto simp: stream_get_set, auto simp: stream_get_def stream_set_def)

lemma write_bit_stream:
  "k < 8 * length d \<Longrightarrow> write_bit k v d = Some (stream_set d k v)"
  by (simp add: write_bit_def stream_set_def Let_def div8_less not_less [symmetric])

section \<open>Writing and reading fields\<close>

lemma WriteBits_stream:
  assumes "bits \<noteq> 0" and "off + unat bits \<le> 8 * length d" and "unat bits \<le> 64"
  shows "WriteBits (Some d) off value bits =
         Some (Some (for_loop 0 (unat bits) (\<lambda>i d. stream_set d (off + i) (bit value i)) d))"
proof -
  let ?g = "\<lambda>i d. stream_set d (off + i) (bit value i)"
  let ?f = "\<lambda>i d. write_bit (off + i) (value AND push_bit i 1 \<noteq> 0) d"
  have "for_ub 0 (unat bits) ?f d = Some (for_loop 0 (unat bits) ?g d) \<and>
        length (for_loop 0 (unat bits) ?g d) = length d"
    by (rule for_ub_pure [where P = "\<lambda>_ x. length x = length d"])
       (use assms in \<open>auto simp: write_bit_stream and_exp_eq_0_iff_not_bit\<close>)
  then show ?thesis using assms(1) by (simp add: WriteBits_def)
qed

lemma bit_field_loop:
  "bit (for_loop 0 n (\<lambda>i value. if f i then value OR push_bit i 1 else value) (0 :: u64)) j \<longleftrightarrow>
   j < n \<and> j < 64 \<and> f j"
proof (induction n)
  case 0
  then show ?case by simp
next
  case (Suc n)
  then show ?case by (auto simp: for_loop_Suc bit_simps less_Suc_eq)
qed

lemma ReadBits_stream:
  assumes "off + unat bits \<le> 8 * length d"
  shows "\<exists>v. ReadBits (Some d) off bits = Some v \<and>
           (\<forall>j. bit v j \<longleftrightarrow> j < unat bits \<and> j < 64 \<and> stream_get d (off + j))"
proof (cases "bits = 0")
  case True
  then show ?thesis by (simp add: ReadBits_def)
next
  case False
  let ?g = "\<lambda>i value. if stream_get d (off + i) then value OR push_bit i 1 else (value :: u64)"
  let ?f = "\<lambda>i value. do { b \<leftarrow> byte_at d ((off + i) div 8);
      Some (if b AND push_bit ((off + i) mod 8) 1 \<noteq> 0 then value OR push_bit i 1 else value) }"
  have "?f i t = Some (?g i t)" if "i < unat bits" for i t
  proof -
    have "off + i < 8 * length d" using that assms by simp
    then show ?thesis by (simp add: and_exp_eq_0_iff_not_bit stream_get_def byte_at_def div8_less)
  qed
  then have "for_ub 0 (unat bits) ?f 0 = Some (for_loop 0 (unat bits) ?g 0) \<and> True"
    by (intro for_ub_pure) auto
  then show ?thesis
    using False bit_field_loop [of "unat bits" "\<lambda>i. stream_get d (off + i)"]
    by (simp add: ReadBits_def)
qed

lemma bit_le_word:
  "bit (le_word bs :: 'a::len word) k \<longleftrightarrow>
   k < LENGTH('a) \<and> k div 8 < length bs \<and> bit (bs ! (k div 8)) (k mod 8)"
proof (induction bs arbitrary: k)
  case Nil
  then show ?case by simp
next
  case (Cons b bs)
  show ?case
  proof (cases "k < 8")
    case True
    then show ?thesis by (auto simp: bit_simps)
  next
    case False
    then have "k div 8 = Suc ((k - 8) div 8)" "k mod 8 = (k - 8) mod 8"
      by (auto simp: le_div_geq mod_if)
    then show ?thesis
      using False Cons [of "k - 8"] by (auto simp: bit_simps dest: bit_imp_le_length)
  qed
qed

text \<open>The field of \<open>bits\<close> bits at index \<open>i\<close>, as a number.\<close>

definition field_bits :: "u8 list \<Rightarrow> nat \<Rightarrow> nat \<Rightarrow> u64 \<Rightarrow> bool" where
  "field_bits d i b v \<longleftrightarrow> (\<forall>j. bit v j \<longleftrightarrow> j < b \<and> j < 64 \<and> stream_get d (i * b + j))"

lemma field_bits_unique: "field_bits d i b v \<Longrightarrow> field_bits d i b w \<Longrightarrow> v = w"
  by (intro bit_word_eqI) (simp add: field_bits_def)

lemma ReadBits_field:
  assumes "(i + 1) * unat bits \<le> 8 * length d" and "field_bits d i (unat bits) v"
  shows "ReadBits (Some d) (i * unat bits) bits = Some v"
proof -
  have "i * unat bits + unat bits \<le> 8 * length d" using assms(1) by simp
  from ReadBits_stream [OF this] obtain w where
    w: "ReadBits (Some d) (i * unat bits) bits = Some w" "field_bits d i (unat bits) w"
    by (auto simp: field_bits_def)
  with field_bits_unique [OF assms(2)] show ?thesis by simp
qed

lemma field_bits_ex: "\<exists>v. field_bits d i b v"
  using bit_field_loop [of b "\<lambda>j. stream_get d (i * b + j)"] by (auto simp: field_bits_def)

section \<open>The fast reads\<close>

lemma u8_bit_beyond: "8 \<le> k \<Longrightarrow> \<not> bit (w :: u8) k"
  by (auto dest: bit_imp_le_length)

lemma half_byte_index:
  assumes "j < 4"
  shows "(i * 4 + j) div 8 = i div 2 \<and> (i * 4 + j) mod 8 = 4 * (i mod 2) + (j :: nat)"
proof -
  have "i * 4 + j = (2 * (i div 2) + i mod 2) * 4 + j" by simp
  also have "\<dots> = 8 * (i div 2) + (4 * (i mod 2) + j)" by (simp only: add_mult_distrib)
  finally have "i * 4 + j = 8 * (i div 2) + (4 * (i mod 2) + j)" .
  moreover have "i mod 2 = 0 \<or> i mod 2 = 1" by auto
  then have "4 * (i mod 2) + j < 8" using assms by auto
  moreover have "x < 8 \<Longrightarrow> (8 * q + x) div 8 = q \<and> (8 * q + x) mod 8 = x" for q x :: nat
    by simp
  ultimately show ?thesis by metis
qed

lemma fast_4:
  assumes "(i + 1) * 4 \<le> 8 * length d"
  shows "ReadBitpackValueFast (Some d) i 4 = Some (Some v) \<longleftrightarrow> field_bits d i 4 v"
proof -
  have in_d: "i div 2 < length d" using assms by auto
  let ?n = "ucast (if odd i then drop_bit 4 (d ! (i div 2)) else d ! (i div 2) AND 0x0F) :: u64"
  have mask4: "(0x0F :: u8) = mask 4" by (simp add: mask_eq_exp_minus_1)
  have get: "stream_get d (i * 4 + j) \<longleftrightarrow> bit (d ! (i div 2)) (4 * (i mod 2) + j)" if "j < 4" for j
    using that in_d half_byte_index [OF that, of i] by (auto simp: stream_get_def div8_less [symmetric])
  have "bit ?n j \<longleftrightarrow> j < 4 \<and> j < 64 \<and> stream_get d (i * 4 + j)" for j
  proof (cases "j < 4")
    case True
    then show ?thesis
      using get [OF True] by (cases "odd i") (auto simp: mask4 bit_simps odd_iff_mod_2_eq_one)
  next
    case False
    then show ?thesis by (auto simp: mask4 bit_simps u8_bit_beyond)
  qed
  then have "field_bits d i 4 ?n" by (simp add: field_bits_def)
  then show ?thesis
    using in_d field_bits_unique by (auto simp: ReadBitpackValueFast_def)
qed

lemma byte_index: "j < 8 \<Longrightarrow> (i * 8 + j) div 8 = i \<and> (i * 8 + j) mod 8 = (j :: nat)"
  by simp

lemma fast_8:
  assumes "(i + 1) * 8 \<le> 8 * length d"
  shows "ReadBitpackValueFast (Some d) i 8 = Some (Some v) \<longleftrightarrow> field_bits d i 8 v"
proof -
  have "bit (ucast (d ! i) :: u64) j \<longleftrightarrow> j < 8 \<and> j < 64 \<and> stream_get d (i * 8 + j)" for j
    using assms by (cases "j < 8") (auto simp: stream_get_def bit_simps u8_bit_beyond)
  then have "field_bits d i 8 (ucast (d ! i))" by (simp add: field_bits_def)
  then show ?thesis
    using assms field_bits_unique by (auto simp: ReadBitpackValueFast_def)
qed

text \<open>Little-endian integers of \<open>n\<close> bytes hold the bits of the stream in order.\<close>

lemma bit_rd_stream:
  assumes "n * i + n \<le> length d" and "8 * n = LENGTH('a::len)"
  shows "bit (le_word (take n (drop (n * i) d)) :: 'a word) j \<longleftrightarrow>
         j < LENGTH('a) \<and> stream_get d (i * LENGTH('a) + j)"
proof -
  have idx: "(i * LENGTH('a) + j) div 8 = n * i + j div 8" "(i * LENGTH('a) + j) mod 8 = j mod 8"
    using assms(2) by (simp_all flip: assms(2) add: mult.assoc mult.left_commute [of i])
  show ?thesis
  proof (cases "j < LENGTH('a)")
    case True
    then have "j div 8 < n" using assms(2) by (simp add: div8_less)
    then show ?thesis
      using True assms(1) idx by (auto simp: bit_le_word stream_get_def div8_less [symmetric])
  next
    case False
    then show ?thesis by (simp add: bit_le_word)
  qed
qed

lemma fast_16:
  assumes "(i + 1) * 16 \<le> 8 * length d"
  shows "ReadBitpackValueFast (Some d) i 16 = Some (Some v) \<longleftrightarrow> field_bits d i 16 v"
proof -
  have fits: "2 * i + 2 \<le> length d" using assms by simp
  have "field_bits d i 16 (ucast (le_word (take 2 (drop (2 * i) d)) :: u16))"
    using bit_rd_stream [OF fits, where 'a = 16] by (auto simp: field_bits_def bit_simps)
  then show ?thesis
    using fits field_bits_unique by (auto simp: ReadBitpackValueFast_def rd_def)
qed

lemma fast_32:
  assumes "(i + 1) * 32 \<le> 8 * length d"
  shows "ReadBitpackValueFast (Some d) i 32 = Some (Some v) \<longleftrightarrow> field_bits d i 32 v"
proof -
  have fits: "4 * i + 4 \<le> length d" using assms by simp
  have "field_bits d i 32 (ucast (le_word (take 4 (drop (4 * i) d)) :: u32))"
    using bit_rd_stream [OF fits, where 'a = 32] by (auto simp: field_bits_def bit_simps)
  then show ?thesis
    using fits field_bits_unique by (auto simp: ReadBitpackValueFast_def rd_def)
qed

lemma read_packed_field:
  assumes "(i + 1) * unat bits \<le> 8 * length d" and "field_bits d i (unat bits) v"
  shows "read_packed (Some d) i bits = Some v"
proof -
  consider "bits = 4" | "bits = 8" | "bits = 16" | "bits = 32"
    | "bits \<noteq> 4" "bits \<noteq> 8" "bits \<noteq> 16" "bits \<noteq> 32" by blast
  then show ?thesis
  proof cases
    case 1
    with assms fast_4 [of i d v] show ?thesis by (simp add: read_packed_def)
  next
    case 2
    with assms fast_8 [of i d v] show ?thesis by (simp add: read_packed_def)
  next
    case 3
    with assms fast_16 [of i d v] show ?thesis by (simp add: read_packed_def)
  next
    case 4
    with assms fast_32 [of i d v] show ?thesis by (simp add: read_packed_def)
  next
    case 5
    with ReadBits_field [OF assms] show ?thesis
      by (simp add: read_packed_def ReadBitpackValueFast_def)
  qed
qed

text \<open>
  Where the buffer holds element \<open>i\<close>, the byte-wise reads the decoder uses for widths
  4, 8, 16 and 32 give the same number as the bit-by-bit \<open>ReadBits\<close>, for every buffer,
  index and width.
\<close>
theorem ReadBitpackValueFast_eq_ReadBits:
  assumes "(i + 1) * unat bits \<le> 8 * length d"
  shows "read_packed (Some d) i bits = ReadBits (Some d) (i * unat bits) bits \<and>
         read_packed (Some d) i bits \<noteq> None"
proof -
  obtain v where "field_bits d i (unat bits) v" using field_bits_ex by blast
  with read_packed_field [OF assms] ReadBits_field [OF assms] show ?thesis by simp
qed

theorem ReadBitpackValueFast_eq_ReadBits_witness:
  "read_packed (Some [0x21, 0x43]) 3 4 = ReadBits (Some [0x21, 0x43]) 12 4"
  using ReadBitpackValueFast_eq_ReadBits [of 3 4 "[0x21, 0x43]"] by simp

end
