(* ===== verification/CodecReps.thy ===== *)
theory CodecReps
  imports BitStream
begin

text \<open>
  The contract of \<open>CompressedColumnOps\<close>: a view that stands for a list of 64-bit values
  answers single reads, batch decodes and predicate scans as those values do.  The
  contract is the locale \<open>value_codec\<close>; what it means for a view of each kind to stand
  for values is \<open>plain_rep\<close>, \<open>dict_rep\<close>, \<open>bitpack_rep\<close> and \<open>delta_rep\<close>, and each kind is an
  interpretation.  Whether the encoders produce such views is the theory \<open>EncodeCorrect\<close>.
\<close>

section \<open>The contract\<close>

definition no_null_check :: "compression_predicate \<Rightarrow> bool" where
  "no_null_check p \<longleftrightarrow> \<not> cp_is_null_check p \<and> \<not> cp_is_not_null_check p"

text \<open>The mask a scan produces: exactly the valid rows below the row count with \<open>keep\<close>.\<close>

definition scans_to :: "mask option ub \<Rightarrow> nat \<Rightarrow> (nat \<Rightarrow> bool) \<Rightarrow> bool" where
  "scans_to r n keep \<longleftrightarrow>
     (\<exists>m'. r = Some (Some m') \<and> mask_inv m' \<and> mk_bit_count m' = n \<and>
           (\<forall>i. mask_Get m' i \<longleftrightarrow> i < n \<and> keep i))"

definition decodes_to ::
  "u8 list option ub \<Rightarrow> nat \<Rightarrow> u64 list \<Rightarrow> (nat \<Rightarrow> bool) \<Rightarrow> (nat \<Rightarrow> bool) \<Rightarrow> (nat \<Rightarrow> u64) \<Rightarrow> bool" where
  "decodes_to r n ws sel valid vals \<longleftrightarrow>
     (\<exists>ws'. r = Some (Some (le_array 8 ws')) \<and> length ws' = n \<and>
            (\<forall>i<n. (sel i \<and> valid i \<longrightarrow> ws' ! i = vals i) \<and> (\<not> sel i \<longrightarrow> ws' ! i = ws ! i)))"

definition selects :: "mask \<Rightarrow> nat \<Rightarrow> bool" where
  "selects m i \<longleftrightarrow> mask_Size m = 0 \<or> mask_Get m i"

locale value_codec =
  fixes rep :: "compressed_view \<Rightarrow> (nat \<Rightarrow> u64) \<Rightarrow> bool"
    and scan :: "compressed_view \<Rightarrow> compression_predicate \<Rightarrow> mask option \<Rightarrow> mask option ub"
  assumes read_value: "rep c vals \<Longrightarrow> i < cv_row_count c \<Longrightarrow>
      ReadInt64Value c i = Some (if view_IsValid c i then Some (vals i) else None)"
    and scan_values: "rep c vals \<Longrightarrow> no_null_check p \<Longrightarrow>
      scans_to (scan c p (Some m)) (cv_row_count c)
        (\<lambda>i. view_IsValid c i \<and> CompareInt64 (vals i) (cp_i64 p) (cp_op p))"
    and scan_ops: "rep c vals \<Longrightarrow> \<exists>ops. cv_ops c = Some ops \<and> ops_scan_predicate ops = Some scan"
begin

text \<open>A compressed scan and a scan over single reads select the same rows.\<close>

lemma scan_reads:
  assumes "rep c vals" and "no_null_check p"
  shows "\<exists>m'. BuildMaskCompressed c p (Some m) = Some (True, Some m') \<and> mask_inv m' \<and>
           (\<forall>i. mask_Get m' i \<longleftrightarrow>
              i < cv_row_count c \<and>
              (\<exists>v. ReadInt64Value c i = Some (Some v) \<and> CompareInt64 v (cp_i64 p) (cp_op p)))"
proof -
  obtain ops where ops: "cv_ops c = Some ops" "ops_scan_predicate ops = Some scan"
    using scan_ops [OF assms(1)] by blast
  obtain m' where m': "scan c p (Some m) = Some (Some m')" "mask_inv m'"
    "\<And>i. mask_Get m' i \<longleftrightarrow> i < cv_row_count c \<and> view_IsValid c i \<and>
       CompareInt64 (vals i) (cp_i64 p) (cp_op p)"
    using scan_values [OF assms, of m] by (auto simp: scans_to_def)
  have "mask_Get m' i \<longleftrightarrow> i < cv_row_count c \<and>
      (\<exists>v. ReadInt64Value c i = Some (Some v) \<and> CompareInt64 v (cp_i64 p) (cp_op p))" for i
    using m'(3) [of i] read_value [OF assms(1), of i] by (cases "view_IsValid c i") auto
  then show ?thesis using m'(1,2) ops by (simp add: BuildMaskCompressed_def)
qed

text \<open>Two views of the same values and validity are scanned to the same rows.\<close>

lemma scan_agree:
  assumes "rep c vals" and "rep d vals" and "no_null_check p"
    and "cv_row_count c = cv_row_count d" and "\<And>i. view_IsValid c i = view_IsValid d i"
    and "scan c p (Some m) = Some (Some a)" and "scan d p (Some m') = Some (Some b)"
  shows "mask_Get a i = mask_Get b i"
proof -
  have "mask_Get a i \<longleftrightarrow> i < cv_row_count c \<and> view_IsValid c i \<and> CompareInt64 (vals i) (cp_i64 p) (cp_op p)"
    using scan_values [OF assms(1,3), of m] by (simp add: scans_to_def assms(6))
  moreover have "mask_Get b i \<longleftrightarrow>
      i < cv_row_count d \<and> view_IsValid d i \<and> CompareInt64 (vals i) (cp_i64 p) (cp_op p)"
    using scan_values [OF assms(2,3), of m'] by (simp add: scans_to_def assms(7))
  ultimately show ?thesis by (simp add: assms(4,5))
qed

end

section \<open>Loops over rows\<close>

lemma scan_rows_loop:
  assumes "mask_inv m" and "mk_bit_count m = n"
    and "\<And>i. i < n \<Longrightarrow> view_IsValid c i \<Longrightarrow> row i = Some (keep i)"
  shows "\<exists>m'. for_ub 0 n (scan_rows c row) m = Some m' \<and> mask_inv m' \<and> mk_bit_count m' = n \<and>
           (\<forall>i. mask_Get m' i \<longleftrightarrow> i < n \<and> view_IsValid c i \<and> keep i)"
proof -
  let ?g = "\<lambda>i m. mask_Set m i (view_IsValid c i \<and> keep i)"
  have "for_ub 0 n (scan_rows c row) m = Some (for_loop 0 n ?g m) \<and> True"
    using assms(3) by (intro for_ub_pure) (auto simp: scan_rows_def)
  moreover have "mask_inv (for_loop 0 n ?g m)" "mk_bit_count (for_loop 0 n ?g m) = n"
    "mask_Get (for_loop 0 n ?g m) i \<longleftrightarrow> i < n \<and> view_IsValid c i \<and> keep i" for i
    using assms(1,2) mk.get_fill_loop [OF assms(1,2), of "\<lambda>i. view_IsValid c i \<and> keep i" i]
    by (simp_all add: mk.bits_loop [of _ _ "\<lambda>i. i"] mk.invar_loop [of _ _ _ "\<lambda>i. i"])
  ultimately show ?thesis by blast
qed

lemma for_ub_split:
  assumes "lo \<le> mid" and "mid \<le> hi"
  shows "for_ub lo hi f s = for_ub lo mid f s \<bind> for_ub mid hi f"
  using assms(2)
proof (induction hi rule: dec_induct)
  case base
  then show ?case by (cases "for_ub lo mid f s") auto
next
  case (step n)
  with assms(1) show ?case
    by (cases "for_ub lo mid f s") (simp_all add: for_ub_Suc)
qed

text \<open>The four-way unrolled loop is the plain loop.\<close>

lemma unrolled4_eq: "unrolled4 n row s = for_ub 0 n row s"
proof -
  have "for_ub 0 k (\<lambda>g s. do { s \<leftarrow> row (4 * g) s; s \<leftarrow> row (4 * g + 1) s;
                               s \<leftarrow> row (4 * g + 2) s; row (4 * g + 3) s }) s =
        for_ub 0 (4 * k) row s" for k
  proof (induction k)
    case 0
    then show ?case by simp
  next
    case (Suc k)
    have "4 * Suc k = Suc (Suc (Suc (Suc (4 * k))))" by simp
    then show ?case
      using Suc by (simp only: for_ub_Suc le0) (simp add: Option.bind_assoc numeral_3_eq_3)
  qed
  then show ?thesis
    using for_ub_split [of 0 "4 * (n div 4)" n row s] by (simp add: unrolled4_def)
qed

lemma mask_Resize_fill: "mask_inv (mask_Resize m n)" "mk_bit_count (mask_Resize m n) = n"
  by simp_all

text \<open>From a loop of the right rows to the result of a scan.\<close>

lemma scan_withI:
  assumes "no_null_check p"
    and "cv_data c = None \<Longrightarrow> cv_row_count c = 0"
    and "\<And>data m. cv_data c = Some data \<Longrightarrow> 0 < cv_row_count c \<Longrightarrow>
           mask_inv m \<Longrightarrow> mk_bit_count m = cv_row_count c \<Longrightarrow>
           \<exists>m'. body data m = Some m' \<and> mask_inv m' \<and> mk_bit_count m' = cv_row_count c \<and>
                (\<forall>i. mask_Get m' i \<longleftrightarrow> i < cv_row_count c \<and> keep i)"
  shows "scans_to (scan_with c p body (Some m)) (cv_row_count c) keep"
proof (cases "cv_row_count c = 0")
  case True
  then show ?thesis
    by (cases "cv_data c") (simp_all add: scan_with_def scans_to_def Let_def)
next
  case False
  then obtain data where data: "cv_data c = Some data" using assms(2) by fastforce
  obtain m' where "body data (mask_Resize m (cv_row_count c)) = Some m'" "mask_inv m'"
    "mk_bit_count m' = cv_row_count c"
    "\<forall>i. mask_Get m' i \<longleftrightarrow> i < cv_row_count c \<and> keep i"
    using assms(3) [OF data, of "mask_Resize m (cv_row_count c)"] False by auto
  then show ?thesis
    using False data assms(1) by (simp add: scan_with_def scans_to_def Let_def no_null_check_def)
qed

text \<open>The null tests need no values.\<close>

lemma scan_with_nulls:
  assumes "\<not> no_null_check p" and "cv_data c \<noteq> None"
  shows "scans_to (scan_with c p body (Some m)) (cv_row_count c)
           (\<lambda>i. null_keep p (\<not> view_IsValid c i))"
proof -
  obtain data where data: "cv_data c = Some data" using assms(2) by blast
  let ?g = "\<lambda>i m. mask_Set m i (null_keep p (\<not> view_IsValid c i))"
  have "mask_inv (scan_nulls c p (mask_Resize m n))" "mk_bit_count (scan_nulls c p (mask_Resize m n)) = n"
    for n
    by (simp_all add: scan_nulls_def mk.bits_loop [of _ _ "\<lambda>i. i"] mk.invar_loop [of _ _ _ "\<lambda>i. i"])
  moreover have "mask_Get (scan_nulls c p (mask_Resize m (cv_row_count c))) i \<longleftrightarrow>
      i < cv_row_count c \<and> null_keep p (\<not> view_IsValid c i)" for i
    by (simp add: scan_nulls_def mk.get_fill_loop)
  ultimately show ?thesis
    using assms(1) data
    by (cases "cv_row_count c = 0")
       (auto simp: scan_with_def scans_to_def Let_def no_null_check_def)
qed

section \<open>Columns that are not compressed\<close>

lemma le_word_single: "le_word [b] = (b :: u8)"
  by (rule bit_word_eqI) (simp add: bit_simps)

lemma rd_1: "i < length bs \<Longrightarrow> (rd 1 bs i :: u8 ub) = Some (bs ! i)"
  using take_drop_nth [of i bs] by (simp add: rd_def le_word_single del: le_word.simps)

lemma rd_le_array_eq:
  fixes ws :: "'a::len word list"
  shows "i < length ws \<Longrightarrow> 8 * n \<ge> LENGTH('a) \<Longrightarrow> rd n (le_array n ws) i = Some (ws ! i)"
  using rd_le_array [of i ws n "[]"] by simp

definition plain_rep :: "compressed_view \<Rightarrow> (nat \<Rightarrow> u64) \<Rightarrow> bool" where
  "plain_rep c vals \<longleftrightarrow>
     cv_kind c = CkNone \<and> cv_ops c = Some NoneOps \<and>
     (\<exists>ws bs. length ws = cv_row_count c \<and> length bs = cv_row_count c \<and>
        (cv_type c = kInt32 \<and> cv_data c = Some (le_array 4 ws) \<and>
           (\<forall>i<cv_row_count c. view_IsValid c i \<longrightarrow> scast (ws ! i :: u32) = vals i) \<or>
         cv_type c = kBool \<and> cv_data c = Some bs \<and>
           (\<forall>i<cv_row_count c. view_IsValid c i \<longrightarrow> bs ! i \<le> 1 \<and> ucast (bs ! i) = vals i)) \<or>
      (\<exists>vs. length vs = cv_row_count c \<and> cv_type c = kInt64 \<and> cv_data c = Some (le_array 8 vs) \<and>
           (\<forall>i<cv_row_count c. view_IsValid c i \<longrightarrow> vs ! i = vals i)))"

lemma u8_le_1: "b \<le> 1 \<Longrightarrow> (if b \<noteq> 0 then 1 else 0) = (ucast (b :: u8) :: u64)"
proof -
  assume "b \<le> 1"
  then have "unat b \<le> 1" by (simp add: word_le_nat_alt)
  then have "unat b = 0 \<or> unat b = 1" by linarith
  then have "b = 0 \<or> b = 1" by (metis unat_0 unat_1 word_unat_eq_iff)
  then show ?thesis by auto
qed

text \<open>A valid row of such a view: what a single read and a scan step read.\<close>

lemma plain_row:
  assumes "plain_rep c vals" and "i < cv_row_count c" and "view_IsValid c i"
  shows "read_plain_int64 c i = Some (Some (vals i)) \<and>
         (\<exists>data. cv_data c = Some data \<and>
            none_row c p data i = Some (CompareInt64 (vals i) (cp_i64 p) (cp_op p)))"
  using assms unfolding plain_rep_def
  by (auto simp: read_plain_int64_def none_row_def rd_ptr_def rd_le_array_eq rd_1 [simplified]
      CompareInt64_flag u8_le_1)

lemma plain_frame:
  "plain_rep c vals \<Longrightarrow> cv_type c \<in> {kInt32, kInt64, kBool} \<and> cv_data c \<noteq> None \<and>
     cv_kind c = CkNone \<and> cv_ops c = Some NoneOps"
  by (auto simp: plain_rep_def)

interpretation plain: value_codec plain_rep ScanPredicateNone
proof unfold_locales
  fix c vals i
  assume rep: "plain_rep c vals"
  show "i < cv_row_count c \<Longrightarrow>
      ReadInt64Value c i = Some (if view_IsValid c i then Some (vals i) else None)"
    using plain_row [OF rep] plain_frame [OF rep]
    by (simp add: ReadInt64Value_def ReadInt64ValueInternal_def)
  show "\<exists>ops. cv_ops c = Some ops \<and> ops_scan_predicate ops = Some ScanPredicateNone"
    using plain_frame [OF rep] by (simp add: ops_scan_predicate_def)
next
  fix c vals p m
  assume rep: "plain_rep c vals" and p: "no_null_check p"
  note fr = plain_frame [OF rep]
  show "scans_to (ScanPredicateNone c p (Some m)) (cv_row_count c)
          (\<lambda>i. view_IsValid c i \<and> CompareInt64 (vals i) (cp_i64 p) (cp_op p))"
    unfolding ScanPredicateNone_def
  proof (rule scan_withI [OF p])
    fix data m
    assume d: "cv_data c = Some data" "mask_inv m" "mk_bit_count m = cv_row_count c"
    have rows: "none_row c p data i = Some (CompareInt64 (vals i) (cp_i64 p) (cp_op p))"
      if "i < cv_row_count c" "view_IsValid c i" for i
      using plain_row [OF rep that, of p] d(1) by auto
    have t: "cv_type c \<notin> {kString, kBytes, kArray, kObject}" "cv_type c \<noteq> kVectorFloat32"
      using fr by auto
    show "\<exists>m'. (if cv_type c \<in> {kString, kBytes, kArray, kObject} then
          Some (for_loop 0 (cv_row_count c) (\<lambda>i m. mask_Set m i False) m)
        else if cv_type c = kVectorFloat32 then Some m
        else for_ub 0 (cv_row_count c) (scan_rows c (none_row c p data)) m) = Some m' \<and>
        mask_inv m' \<and> mk_bit_count m' = cv_row_count c \<and>
        (\<forall>i. mask_Get m' i \<longleftrightarrow> i < cv_row_count c \<and> view_IsValid c i \<and>
           CompareInt64 (vals i) (cp_i64 p) (cp_op p))"
      unfolding if_not_P [OF t(1)] if_not_P [OF t(2)] by (rule scan_rows_loop [OF d(2,3) rows])
  qed (use fr in simp)
qed

section \<open>Frame of reference\<close>

definition delta_rep :: "compressed_view \<Rightarrow> (nat \<Rightarrow> u64) \<Rightarrow> bool" where
  "delta_rep c vals \<longleftrightarrow>
     cv_kind c = CkForDelta \<and> cv_ops c = Some ForDeltaOps \<and>
     (\<exists>base ds. ReadForDeltaHeader c = Some base \<and> length ds = cv_row_count c \<and>
        cv_data c = (if ds = [] then None else Some (le_array 4 ds)) \<and>
        (\<forall>i<cv_row_count c. view_IsValid c i \<longrightarrow> base + ucast (ds ! i :: u32) = vals i))"

interpretation delta: value_codec delta_rep ScanPredicateForDelta
proof unfold_locales
  fix c vals i
  assume rep: "delta_rep c vals"
  show "i < cv_row_count c \<Longrightarrow>
      ReadInt64Value c i = Some (if view_IsValid c i then Some (vals i) else None)"
    using rep
    by (auto simp: delta_rep_def ReadInt64Value_def ReadInt64ValueInternal_def rd_le_array_eq)
  show "\<exists>ops. cv_ops c = Some ops \<and> ops_scan_predicate ops = Some ScanPredicateForDelta"
    using rep by (simp add: delta_rep_def ops_scan_predicate_def)
next
  fix c vals p m
  assume rep: "delta_rep c vals" and p: "no_null_check p"
  then obtain base ds where r: "ReadForDeltaHeader c = Some base" "length ds = cv_row_count c"
    "cv_data c = (if ds = [] then None else Some (le_array 4 ds))"
    "\<And>i. i < cv_row_count c \<Longrightarrow> view_IsValid c i \<Longrightarrow> base + ucast (ds ! i :: u32) = vals i"
    by (auto simp: delta_rep_def)
  show "scans_to (ScanPredicateForDelta c p (Some m)) (cv_row_count c)
          (\<lambda>i. view_IsValid c i \<and> CompareInt64 (vals i) (cp_i64 p) (cp_op p))"
    unfolding ScanPredicateForDelta_def
  proof (rule scan_withI [OF p])
    fix data m
    assume d: "cv_data c = Some data" "mask_inv m" "mk_bit_count m = cv_row_count c"
    then have "data = le_array 4 ds" using r(3) by (auto split: if_splits)
    then have "delta_scan_row p base data i = Some (CompareInt64 (vals i) (cp_i64 p) (cp_op p))"
      if "i < cv_row_count c" "view_IsValid c i" for i
      using that r(2,4) by (simp add: delta_scan_row_def rd_le_array_eq CompareInt64_flag)
    then show "\<exists>m'. (case ReadForDeltaHeader c of None \<Rightarrow> Some m
          | Some base \<Rightarrow> unrolled4 (cv_row_count c) (scan_rows c (delta_scan_row p base data)) m) =
          Some m' \<and> mask_inv m' \<and> mk_bit_count m' = cv_row_count c \<and>
        (\<forall>i. mask_Get m' i \<longleftrightarrow> i < cv_row_count c \<and> view_IsValid c i \<and>
           CompareInt64 (vals i) (cp_i64 p) (cp_op p))"
      using d(2,3) r(1) scan_rows_loop [of m "cv_row_count c" c "delta_scan_row p base data"
          "\<lambda>i. CompareInt64 (vals i) (cp_i64 p) (cp_op p)"]
      by (simp add: unrolled4_eq)
  qed (use r(2,3) in \<open>auto split: if_splits\<close>)
qed

section \<open>Bit packing\<close>

definition bitpack_rep :: "compressed_view \<Rightarrow> (nat \<Rightarrow> u64) \<Rightarrow> bool" where
  "bitpack_rep c vals \<longleftrightarrow>
     cv_kind c = CkBitPacked \<and> cv_ops c = Some BitpackOps \<and>
     (\<exists>base bits d. ReadBitpackHeader c = Some (base, bits) \<and>
        cv_row_count c * unat bits \<le> 8 * length d \<and>
        cv_data c = (if d = [] then None else Some d) \<and>
        (\<forall>i<cv_row_count c. view_IsValid c i \<longrightarrow> field_bits d i (unat bits) (vals i - base)))"

lemma ReadBitpackHeader_bits:
  "ReadBitpackHeader c = Some (base, bits) \<Longrightarrow> 0 < unat bits"
  by (auto simp: ReadBitpackHeader_def Let_def unat_gt_0 word_gt_0 split: option.splits if_splits)

lemma row_fits: "(i :: nat) < n \<Longrightarrow> n * b \<le> k \<Longrightarrow> (i + 1) * b \<le> k"
  by (metis Suc_eq_plus1 Suc_leI le_trans mult_le_mono1)

interpretation bitpack: value_codec bitpack_rep ScanPredicateBitpack
proof unfold_locales
  fix c vals i
  assume rep: "bitpack_rep c vals"
  then obtain base bits d where r: "ReadBitpackHeader c = Some (base, bits)"
    "cv_row_count c * unat bits \<le> 8 * length d" "cv_data c = (if d = [] then None else Some d)"
    "\<And>i. i < cv_row_count c \<Longrightarrow> view_IsValid c i \<Longrightarrow> field_bits d i (unat bits) (vals i - base)"
    by (auto simp: bitpack_rep_def)
  assume i: "i < cv_row_count c"
  have "d \<noteq> []" using i r(2) ReadBitpackHeader_bits [OF r(1)] by auto
  then show "ReadInt64Value c i = Some (if view_IsValid c i then Some (vals i) else None)"
    using rep r(1,3) ReadBits_field [OF row_fits [OF i r(2)] r(4) [OF i]]
    by (simp add: bitpack_rep_def ReadInt64Value_def ReadInt64ValueInternal_def)
next
  fix c vals
  assume "bitpack_rep c vals"
  then show "\<exists>ops. cv_ops c = Some ops \<and> ops_scan_predicate ops = Some ScanPredicateBitpack"
    by (simp add: bitpack_rep_def ops_scan_predicate_def)
next
  fix c vals p m
  assume rep: "bitpack_rep c vals" and p: "no_null_check p"
  then obtain base bits d where r: "ReadBitpackHeader c = Some (base, bits)"
    "cv_row_count c * unat bits \<le> 8 * length d" "cv_data c = (if d = [] then None else Some d)"
    "\<And>i. i < cv_row_count c \<Longrightarrow> view_IsValid c i \<Longrightarrow> field_bits d i (unat bits) (vals i - base)"
    by (auto simp: bitpack_rep_def)
  show "scans_to (ScanPredicateBitpack c p (Some m)) (cv_row_count c)
          (\<lambda>i. view_IsValid c i \<and> CompareInt64 (vals i) (cp_i64 p) (cp_op p))"
    unfolding ScanPredicateBitpack_def
  proof (rule scan_withI [OF p])
    fix data m
    assume d: "cv_data c = Some data" "mask_inv m" "mk_bit_count m = cv_row_count c"
    then have "cv_data c = Some d" using r(3) by (auto split: if_splits)
    then have "bitpack_scan_row c p base bits i = Some (CompareInt64 (vals i) (cp_i64 p) (cp_op p))"
      if "i < cv_row_count c" "view_IsValid c i" for i
      using read_packed_field [OF row_fits [OF that(1) r(2)] r(4) [OF that]]
        ReadBits_field [OF row_fits [OF that(1) r(2)] r(4) [OF that]]
      by (simp add: bitpack_scan_row_def CompareInt64_flag)
    then show "\<exists>m'. (case ReadBitpackHeader c of None \<Rightarrow> Some m
          | Some (base, bits) \<Rightarrow>
              for_ub 0 (cv_row_count c) (scan_rows c (bitpack_scan_row c p base bits)) m) =
          Some m' \<and> mask_inv m' \<and> mk_bit_count m' = cv_row_count c \<and>
        (\<forall>i. mask_Get m' i \<longleftrightarrow> i < cv_row_count c \<and> view_IsValid c i \<and>
           CompareInt64 (vals i) (cp_i64 p) (cp_op p))"
      using d(2,3) r(1) scan_rows_loop [of m "cv_row_count c" c "bitpack_scan_row c p base bits"
          "\<lambda>i. CompareInt64 (vals i) (cp_i64 p) (cp_op p)"]
      by simp
  next
    assume "cv_data c = None"
    then have "d = []" using r(3) by (simp split: if_splits)
    then show "cv_row_count c = 0" using r(2) ReadBitpackHeader_bits [OF r(1)] by simp
  qed
qed

section \<open>Dictionary\<close>

definition dict_rep :: "compressed_view \<Rightarrow> (nat \<Rightarrow> u64) \<Rightarrow> bool" where
  "dict_rep c vals \<longleftrightarrow>
     cv_kind c = CkDictionary \<and> cv_ops c = Some DictionaryOps \<and>
     (\<exists>count vs ids. ReadDictHeader c = Some (count, le_array 8 vs) \<and> length vs = unat count \<and>
        distinct vs \<and> length ids = cv_row_count c \<and>
        cv_data c = (if ids = [] then None else Some (le_array 4 ids)) \<and>
        (\<forall>i<cv_row_count c. view_IsValid c i \<longrightarrow>
           unat (ids ! i :: u32) < length vs \<and> vs ! unat (ids ! i) = vals i))"

lemma find_entry_correct:
  "i + n = length vs \<Longrightarrow>
   (find_entry (le_array 8 vs) v i n = Some None \<and> (\<forall>j. i \<le> j \<and> j < length vs \<longrightarrow> vs ! j \<noteq> v)) \<or>
   (\<exists>j. find_entry (le_array 8 vs) v i n = Some (Some (of_nat j)) \<and> j < length vs \<and> vs ! j = v)"
proof (induction n arbitrary: i)
  case 0
  then show ?case by auto
next
  case (Suc n)
  then have i: "i < length vs" and step: "rd 8 (le_array 8 vs) i = Some (vs ! i)"
    by (simp_all add: rd_le_array_eq)
  show ?case
  proof (cases "vs ! i = v")
    case True
    then show ?thesis using i step by auto
  next
    case False
    have "Suc i + n = length vs" using Suc.prems by simp
    moreover have "i \<le> j \<longleftrightarrow> i = j \<or> Suc i \<le> j" for j by auto
    ultimately show ?thesis using Suc.IH [of "Suc i"] False step by auto
  qed
qed

lemma find_entry_match:
  assumes "length vs = unat (count :: u32)" and "distinct vs"
  shows "\<exists>r. find_entry (le_array 8 vs) v 0 (unat count) = Some r \<and>
           (r = None \<longrightarrow> v \<notin> set vs) \<and>
           (\<forall>k. unat k < length vs \<longrightarrow> Some k = r \<longleftrightarrow> vs ! unat k = v)"
proof -
  have "0 + unat count = length vs" using assms(1) by simp
  from find_entry_correct [OF this, of v] show ?thesis
  proof (elim disjE exE conjE)
    assume "find_entry (le_array 8 vs) v 0 (unat count) = Some None"
      and "\<forall>j. 0 \<le> j \<and> j < length vs \<longrightarrow> vs ! j \<noteq> v"
    then show ?thesis by (auto simp: in_set_conv_nth)
  next
    fix j
    assume j: "find_entry (le_array 8 vs) v 0 (unat count) = Some (Some (of_nat j))"
      "j < length vs" "vs ! j = v"
    then have small: "unat (of_nat j :: u32) = j"
      using assms(1) unsigned_less [of count, where ?'a = nat] by (simp add: unat_of_nat take_bit_nat_eq_self)
    have "Some k = Some (of_nat j) \<longleftrightarrow> vs ! unat k = v" if "unat k < length vs" for k :: u32
      using j that small nth_eq_iff_index_eq [OF assms(2) that, of j]
        word_unat_eq_iff [of k "of_nat j"]
      by auto
    then show ?thesis using j by auto
  qed
qed

interpretation dict: value_codec dict_rep ScanPredicateDictionary
proof unfold_locales
  fix c vals i
  assume rep: "dict_rep c vals" and i: "i < cv_row_count c"
  then obtain count vs ids where r: "ReadDictHeader c = Some (count, le_array 8 vs)"
    "length vs = unat count" "length ids = cv_row_count c"
    "cv_data c = (if ids = [] then None else Some (le_array 4 ids))"
    "view_IsValid c i \<Longrightarrow> unat (ids ! i :: u32) < length vs \<and> vs ! unat (ids ! i) = vals i"
    by (auto simp: dict_rep_def)
  have "ids \<noteq> []" using i r(3) by auto
  then show "ReadInt64Value c i = Some (if view_IsValid c i then Some (vals i) else None)"
    using rep r i
    by (auto simp: dict_rep_def ReadInt64Value_def ReadInt64ValueInternal_def rd_le_array_eq
        word_le_nat_alt)
next
  fix c vals
  assume "dict_rep c vals"
  then show "\<exists>ops. cv_ops c = Some ops \<and> ops_scan_predicate ops = Some ScanPredicateDictionary"
    by (simp add: dict_rep_def ops_scan_predicate_def)
next
  fix c vals p m
  assume rep: "dict_rep c vals" and p: "no_null_check p"
  then obtain count vs ids where r: "ReadDictHeader c = Some (count, le_array 8 vs)"
    "length vs = unat count" "distinct vs" "length ids = cv_row_count c"
    "cv_data c = (if ids = [] then None else Some (le_array 4 ids))"
    "\<And>i. i < cv_row_count c \<Longrightarrow> view_IsValid c i \<Longrightarrow>
       unat (ids ! i :: u32) < length vs \<and> vs ! unat (ids ! i) = vals i"
    by (auto simp: dict_rep_def)
  show "scans_to (ScanPredicateDictionary c p (Some m)) (cv_row_count c)
          (\<lambda>i. view_IsValid c i \<and> CompareInt64 (vals i) (cp_i64 p) (cp_op p))"
    unfolding ScanPredicateDictionary_def
  proof (rule scan_withI [OF p])
    fix data m
    assume d: "cv_data c = Some data" "mask_inv m" "mk_bit_count m = cv_row_count c"
    then have data: "data = le_array 4 ids" using r(5) by (auto split: if_splits)
    let ?eq = "cp_op p = kEq \<or> cp_op p = kNe"
    obtain mt where mt: "find_entry (le_array 8 vs) (cp_i64 p) 0 (unat count) = Some mt"
      "mt = None \<longrightarrow> cp_i64 p \<notin> set vs"
      "\<And>k. unat k < length vs \<Longrightarrow> Some k = mt \<longleftrightarrow> vs ! unat k = cp_i64 p"
      using find_entry_match [OF r(2,3)] by blast
    define match where "match = (if ?eq then mt else None)"
    have row: "dict_scan_row p count (le_array 8 vs) data match i =
        Some (CompareInt64 (vals i) (cp_i64 p) (cp_op p))"
      if "i < cv_row_count c" "view_IsValid c i" for i
    proof (cases ?eq)
      case True
      have id: "unat (ids ! i) < length vs" "vs ! unat (ids ! i) = vals i" using r(6) [OF that] by auto
      then have "vals i \<in> set vs" by (metis nth_mem)
      then show ?thesis
        using True that(1) r(4) mt(2) mt(3) [OF id(1)] id(2)
        by (auto simp: dict_scan_row_def data match_def rd_le_array_eq CompareInt64_def)
    next
      case False
      then show ?thesis
        using that(1) r(2,4) r(6) [OF that]
        by (auto simp: dict_scan_row_def data match_def rd_le_array_eq CompareInt64_flag
            word_le_nat_alt Let_def)
    qed
    have "(if ?eq then find_entry (le_array 8 vs) (cp_i64 p) 0 (unat count) else Some None) = Some match"
      using mt(1) by (simp add: match_def)
    then show "\<exists>m'. (case ReadDictHeader c of None \<Rightarrow> Some m
          | Some (count, values) \<Rightarrow>
              do { match_id \<leftarrow> (if ?eq then find_entry values (cp_i64 p) 0 (unat count) else Some None);
                   for_ub 0 (cv_row_count c)
                     (scan_rows c (dict_scan_row p count values data match_id)) m }) =
          Some m' \<and> mask_inv m' \<and> mk_bit_count m' = cv_row_count c \<and>
        (\<forall>i. mask_Get m' i \<longleftrightarrow> i < cv_row_count c \<and> view_IsValid c i \<and>
           CompareInt64 (vals i) (cp_i64 p) (cp_op p))"
      using scan_rows_loop [OF d(2,3) row] by (simp add: r(1))
  qed (use r(4,5) in \<open>auto split: if_splits\<close>)
qed

end
