(* ===== verification/EncodeCorrect.thy ===== *)
theory EncodeCorrect
  imports CodecReps
begin

text \<open>
  The encoders of \<open>engine/src/segment.cpp\<close> produce views that stand for the column's
  values: each encoder against its decoder and predicate scan, with the exact condition
  under which no value is lost.
\<close>

section \<open>Validity\<close>

lemma validity_words_bit:
  assumes "validity_ok f" and "fv_HasNulls f" and "i < fv_size f"
  shows "i div 64 < length (bm_words (fv_validity f)) \<and>
         ((drop_bit (i mod 64) (bm_words (fv_validity f) ! (i div 64)) AND 1) \<noteq> 0) = fv_IsValid f i"
proof -
  have inv: "bitmap_inv (fv_validity f)" and count: "bm_bit_count (fv_validity f) = fv_size f"
    using assms(1,2) by (auto simp: validity_ok_def fv_HasNulls_def bitmap_Size_def)
  have "i div 64 < length (bm_words (fv_validity f))"
    using inv count assms(3) word_index_bound [of i "fv_size f"] by (simp add: bitmap_inv_def)
  then show ?thesis
    using assms(3) count
    by (auto simp: fv_IsValid_def bitmap_Size_def bitmap_Get_def words_get_bit bit_iff_odd_drop_bit
        and_one_eq odd_iff_mod_2_eq_one)
qed

lemma encoded_view_valid:
  assumes "validity_ok f" and "i < fv_size f"
  shows "view_IsValid (encoded_view f kind data aux (validity_copy f)) i = fv_IsValid f i"
proof (cases "fv_HasNulls f")
  case True
  from validity_words_bit [OF assms(1) this assms(2)] True show ?thesis
    by (auto simp: view_IsValid_def encoded_view_def validity_copy_def ptr_of_def Let_def)
next
  case False
  then show ?thesis
    by (simp add: view_IsValid_def encoded_view_def validity_copy_def ptr_of_def fv_IsValid_def
        fv_HasNulls_def)
qed

lemma encoded_view_frame:
  "cv_kind (encoded_view f kind data aux v) = kind"
  "cv_row_count (encoded_view f kind data aux v) = fv_size f"
  "cv_ops (encoded_view f kind data aux v) = Some (CompressionOpsFor kind)"
  by (simp_all add: encoded_view_def)

lemma uncompressed_frame [simp]:
  "cv_validity_words (MakeUncompressedView f) =
     (if fv_HasNulls f then Some (bm_words (fv_validity f)) else None)"
  "cv_validity_word_count (MakeUncompressedView f) =
     (if fv_HasNulls f then length (bm_words (fv_validity f)) else 0)"
  "cv_row_count (MakeUncompressedView f) = fv_size f" "cv_kind (MakeUncompressedView f) = CkNone"
  "cv_ops (MakeUncompressedView f) = Some NoneOps" "cv_type (MakeUncompressedView f) = fv_type f"
  by (cases "fv_type f"; simp add: MakeUncompressedView_def view_validity_def view_empty_def Let_def)+

lemma uncompressed_view_valid:
  assumes "validity_ok f" and "i < fv_size f"
  shows "view_IsValid (MakeUncompressedView f) i = fv_IsValid f i"
proof (cases "fv_HasNulls f")
  case True
  from validity_words_bit [OF assms(1) this assms(2)] True show ?thesis
    by (auto simp: view_IsValid_def Let_def)
next
  case False
  then show ?thesis
    by (simp add: view_IsValid_def fv_IsValid_def fv_HasNulls_def)
qed

section \<open>No compression\<close>

lemma plain_rep_int32:
  assumes "cv_kind c = CkNone" and "cv_ops c = Some NoneOps" and "cv_type c = kInt32"
    and "cv_data c = Some (le_array 4 ws)" and "length ws = cv_row_count c"
    and "\<And>i. i < cv_row_count c \<Longrightarrow> view_IsValid c i \<Longrightarrow> scast (ws ! i :: u32) = vals i"
  shows "plain_rep c vals"
  unfolding plain_rep_def
  using assms length_replicate [of "cv_row_count c" "0 :: u8"] by blast

lemma plain_rep_bool:
  assumes "cv_kind c = CkNone" and "cv_ops c = Some NoneOps" and "cv_type c = kBool"
    and "cv_data c = Some bs" and "length bs = cv_row_count c"
    and "\<And>i. i < cv_row_count c \<Longrightarrow> view_IsValid c i \<Longrightarrow> bs ! i \<le> 1 \<and> ucast (bs ! i) = vals i"
  shows "plain_rep c vals"
  unfolding plain_rep_def
  using assms length_replicate [of "cv_row_count c" "0 :: u32"] by blast

lemma plain_rep_int64:
  assumes "cv_kind c = CkNone" and "cv_ops c = Some NoneOps" and "cv_type c = kInt64"
    and "cv_data c = Some (le_array 8 vs)" and "length vs = cv_row_count c"
    and "\<And>i. i < cv_row_count c \<Longrightarrow> view_IsValid c i \<Longrightarrow> vs ! i = vals i"
  shows "plain_rep c vals"
  unfolding plain_rep_def using assms by blast

lemma uncompressed_rep:
  assumes "fv_inv f" and "is_encodable (fv_type f)"
    and "fv_type f = kBool \<Longrightarrow> \<forall>i<fv_size f. fv_IsValid f i \<longrightarrow> fv_bool f ! i \<le> 1"
  shows "plain_rep (MakeUncompressedView f) (field_i64 f)"
proof -
  have ok: "validity_ok f" and len: "fv_data_len f = fv_size f" using assms(1) by (simp_all add: fv_inv_def)
  note valid = uncompressed_view_valid [OF ok]
  consider "fv_type f = kInt32" | "fv_type f = kInt64" | "fv_type f = kBool"
    using assms(2) by (auto simp: is_encodable_def)
  then show ?thesis
  proof cases
    case 1
    then have "cv_data (MakeUncompressedView f) = Some (le_array 4 (fv_i32 f))"
      by (simp add: MakeUncompressedView_def Let_def)
    then show ?thesis
      by (rule plain_rep_int32 [rotated 3]) (use 1 len in \<open>simp_all add: fv_data_len_def field_i64_def\<close>)
  next
    case 2
    then have "cv_data (MakeUncompressedView f) = Some (le_array 8 (fv_i64 f))"
      by (simp add: MakeUncompressedView_def Let_def)
    then show ?thesis
      by (rule plain_rep_int64 [rotated 3]) (use 2 len in \<open>simp_all add: fv_data_len_def field_i64_def\<close>)
  next
    case 3
    then have "cv_data (MakeUncompressedView f) = Some (fv_bool f)"
      by (simp add: MakeUncompressedView_def Let_def)
    then show ?thesis
      by (rule plain_rep_bool [rotated 3])
         (use 3 len assms(3) valid in \<open>simp_all add: fv_data_len_def field_i64_def u8_le_1\<close>)
  qed
qed

section \<open>Dictionary\<close>

definition enc_dict_inv :: "enc_dict \<Rightarrow> bool" where
  "enc_dict_inv d \<longleftrightarrow>
     distinct (ed_values d) \<and> length (ed_values d) \<le> 2 ^ 32 \<and>
     (\<forall>v i. ed_ids d v = Some i \<longleftrightarrow> unat i < length (ed_values d) \<and> ed_values d ! unat i = v)"

definition enc_dict_room :: "enc_dict \<Rightarrow> u64 \<Rightarrow> bool" where
  "enc_dict_room d v \<longleftrightarrow> length (ed_values d) < 2 ^ 32"

lemma enc_dict_None:
  assumes "enc_dict_inv d"
  shows "ed_ids d v = None \<longleftrightarrow> v \<notin> set (ed_values d)"
proof -
  have "v \<in> set (ed_values d) \<longleftrightarrow> (\<exists>i. ed_ids d v = Some i)"
  proof
    assume "v \<in> set (ed_values d)"
    then obtain i where i: "i < length (ed_values d)" "ed_values d ! i = v"
      by (auto simp: in_set_conv_nth)
    then have "unat (of_nat i :: u32) = i"
      using assms by (simp add: enc_dict_inv_def unat_of_nat take_bit_nat_eq_self)
    then have "ed_ids d v = Some (of_nat i)"
      using assms i unfolding enc_dict_inv_def by metis
    then show "\<exists>i. ed_ids d v = Some i" by blast
  next
    assume "\<exists>i. ed_ids d v = Some i"
    then show "v \<in> set (ed_values d)"
      using assms unfolding enc_dict_inv_def by (metis nth_mem)
  qed
  then show ?thesis by auto
qed

lemma enc_dict_add_cases:
  assumes "enc_dict_inv d" and "enc_dict_room d v"
  shows "v \<in> set (ed_values d) \<Longrightarrow>
      snd (enc_dict_add d v) = d \<and> ed_ids d v = Some (fst (enc_dict_add d v))"
    and "v \<notin> set (ed_values d) \<Longrightarrow>
      ed_values (snd (enc_dict_add d v)) = ed_values d @ [v] \<and>
      ed_ids (snd (enc_dict_add d v)) = (ed_ids d)(v \<mapsto> fst (enc_dict_add d v)) \<and>
      unat (fst (enc_dict_add d v)) = length (ed_values d)"
  using enc_dict_None [OF assms(1), of v] assms(2)
  by (auto simp: enc_dict_add_def Let_def enc_dict_room_def unat_of_nat take_bit_nat_eq_self)

interpretation ed: interner enc_dict_add ed_values enc_dict_inv enc_dict_room
proof unfold_locales
  fix d v
  assume d: "enc_dict_inv d" and room: "enc_dict_room d v"
  note add = enc_dict_add_cases [OF d room]
  show "ed_values (snd (enc_dict_add d v)) =
      (if v \<in> set (ed_values d) then ed_values d else ed_values d @ [v])"
    using add by (cases "v \<in> set (ed_values d)") auto
  show "unat (fst (enc_dict_add d v)) < length (ed_values (snd (enc_dict_add d v))) \<and>
      ed_values (snd (enc_dict_add d v)) ! unat (fst (enc_dict_add d v)) = v"
  proof (cases "v \<in> set (ed_values d)")
    case True
    then show ?thesis using add(1) [OF True] d by (auto simp: enc_dict_inv_def)
  next
    case False
    then show ?thesis using add(2) [OF False] by (simp add: nth_append)
  qed
  show "enc_dict_inv (snd (enc_dict_add d v))"
  proof (cases "v \<in> set (ed_values d)")
    case True
    then show ?thesis using add(1) [OF True] d by simp
  next
    case False
    note new = add(2) [OF False]
    have "ed_ids (snd (enc_dict_add d v)) w = Some i \<longleftrightarrow>
        unat i < Suc (length (ed_values d)) \<and> (ed_values d @ [v]) ! unat i = w" for w i
    proof (cases "unat i = length (ed_values d)")
      case True
      then have "i = fst (enc_dict_add d v)" using new by (metis word_unat_eq_iff)
      with True new show ?thesis using d by (auto simp: enc_dict_inv_def)
    next
      case neq: False
      then have "i \<noteq> fst (enc_dict_add d v)" using new by auto
      with neq new False show ?thesis
        using d by (auto simp: enc_dict_inv_def nth_append less_Suc_eq)
    qed
    with new False d room show ?thesis by (auto simp: enc_dict_inv_def enc_dict_room_def)
  qed
qed

text \<open>What holds after the first \<open>n\<close> rows were encoded.\<close>

definition enc_rows_ok :: "field_vector \<Rightarrow> nat \<Rightarrow> u32 list \<times> enc_dict \<Rightarrow> bool" where
  "enc_rows_ok f n s \<longleftrightarrow>
     length (fst s) = fv_size f \<and> enc_dict_inv (snd s) \<and> length (ed_values (snd s)) \<le> n \<and>
     (\<forall>i<n. fv_IsValid f i \<longrightarrow>
        unat (fst s ! i) < length (ed_values (snd s)) \<and> ed_values (snd s) ! unat (fst s ! i) = field_i64 f i)"

lemma enc_dict_step_ok:
  assumes "enc_rows_ok f n s" and "n < fv_size f" and "fv_size f < 2 ^ 32"
  shows "enc_rows_ok f (Suc n) (enc_dict_step f n s)"
proof -
  obtain out d where s: "s = (out, d)" by (cases s)
  have d: "enc_dict_inv d" and len: "length out = fv_size f" and few: "length (ed_values d) \<le> n"
    and old: "\<And>i. i < n \<Longrightarrow> fv_IsValid f i \<Longrightarrow>
      unat (out ! i) < length (ed_values d) \<and> ed_values d ! unat (out ! i) = field_i64 f i"
    using assms(1) by (simp_all add: enc_rows_ok_def s)
  show ?thesis
  proof (cases "fv_IsValid f n")
    case False
    then show ?thesis
      using d len few old assms(2)
      by (auto simp: enc_rows_ok_def enc_dict_step_def s less_Suc_eq nth_list_update)
  next
    case True
    let ?v = "field_i64 f n"
    let ?i = "fst (enc_dict_add d ?v)" and ?d = "snd (enc_dict_add d ?v)"
    have room: "enc_dict_room d ?v" using few assms(2,3) by (simp add: enc_dict_room_def)
    have "length (ed_values ?d) \<le> Suc n"
      using few by (simp add: ed.add_table [OF d room])
    moreover have "unat (out ! i) < length (ed_values ?d) \<and> ed_values ?d ! unat (out ! i) = field_i64 f i"
      if "i < n" "fv_IsValid f i" for i
      using ed.add_keeps [OF d room, of "unat (out ! i)"] old [OF that] by simp
    ultimately show ?thesis
      using True len assms(2) ed.add_invar [OF d room] ed.add_id [OF d room]
      by (auto simp: enc_rows_ok_def enc_dict_step_def s case_prod_unfold Let_def less_Suc_eq nth_list_update)
  qed
qed

lemma EncodeDictionary_rows:
  assumes "is_encodable (fv_type f)" and "fv_size f < 2 ^ 32"
  shows "\<exists>ids d. enc_rows_ok f (fv_size f) (ids, d) \<and>
           EncodeDictionary f = Some (le_array 4 ids,
             le_bytes 4 (of_nat (length (ed_values d)) :: u32) @ le_bytes 4 (0 :: u32) @
             le_array 8 (ed_values d))"
proof -
  define s where "s = for_loop 0 (fv_size f) (enc_dict_step f)
    (replicate (fv_size f) 0, \<lparr>ed_ids = (\<lambda>_. None), ed_values = []\<rparr>)"
  have "enc_rows_ok f (fv_size f) s"
    unfolding s_def
  proof (rule for_loop_inv [where P = "enc_rows_ok f"])
    show "enc_rows_ok f 0 (replicate (fv_size f) 0, \<lparr>ed_ids = (\<lambda>_. None), ed_values = []\<rparr>)"
      by (simp add: enc_rows_ok_def enc_dict_inv_def)
  qed (use enc_dict_step_ok assms(2) in simp_all)
  then show ?thesis
    using assms(1)
    by (intro exI [of _ "fst s"] exI [of _ "snd s"])
       (simp add: EncodeDictionary_def s_def case_prod_unfold Let_def)
qed

lemma EncodeDictionary_rep:
  assumes "fv_inv f" and "is_encodable (fv_type f)" and "fv_size f < 2 ^ 32"
  shows "\<exists>data aux. EncodeDictionary f = Some (data, aux) \<and>
           dict_rep (encoded_view f CkDictionary data aux (validity_copy f)) (field_i64 f)"
proof -
  obtain ids d where rows: "enc_rows_ok f (fv_size f) (ids, d)" and
    enc: "EncodeDictionary f = Some (le_array 4 ids,
      le_bytes 4 (of_nat (length (ed_values d)) :: u32) @ le_bytes 4 (0 :: u32) @ le_array 8 (ed_values d))"
    using EncodeDictionary_rows [OF assms(2,3)] by blast
  let ?n = "length (ed_values d)"
  let ?aux = "le_bytes 4 (of_nat ?n :: u32) @ le_bytes 4 (0 :: u32) @ le_array 8 (ed_values d)"
  let ?v = "encoded_view f CkDictionary (le_array 4 ids) ?aux (validity_copy f)"
  have n: "unat (of_nat ?n :: u32) = ?n"
    using rows assms(3) by (simp add: enc_rows_ok_def unat_of_nat take_bit_nat_eq_self)
  have aux: "?aux \<noteq> []"
    by (metis append_is_Nil_conv length_0_conv length_le_bytes zero_neq_numeral)
  have head: "take 4 ?aux = le_bytes 4 (of_nat ?n :: u32)" and
    tail: "drop kDictHeaderSize ?aux = le_array 8 (ed_values d)"
    by (simp_all add: kDictHeaderSize_def)
  have "ReadDictHeader ?v = Some (of_nat ?n, le_array 8 (ed_values d))"
    using aux n
    by (simp add: ReadDictHeader_def encoded_view_def ptr_of_def head tail le_word_le_bytes_full
        Let_def del: append_is_Nil_conv le_bytes.simps) (simp add: kDictHeaderSize_def)
  moreover have "le_array 4 ids = [] \<longleftrightarrow> ids = []"
    by (metis le_array_Nil length_0_conv length_le_array mult_is_0 zero_neq_numeral)
  then have data: "cv_data ?v = (if ids = [] then None else Some (le_array 4 ids))"
    by (simp add: encoded_view_def ptr_of_def)
  have ok: "validity_ok f" using assms(1) by (simp add: fv_inv_def)
  have "dict_rep ?v (field_i64 f)"
    unfolding dict_rep_def
  proof (intro conjI exI)
    show "length (ed_values d) = unat (of_nat ?n :: u32)" by (rule n [symmetric])
    show "\<forall>i<cv_row_count ?v. view_IsValid ?v i \<longrightarrow>
        unat (ids ! i) < length (ed_values d) \<and> ed_values d ! unat (ids ! i) = field_i64 f i"
      using rows encoded_view_valid [OF ok] by (simp add: encoded_view_frame enc_rows_ok_def)
  qed (use rows n data calculation in
        \<open>simp_all add: encoded_view_frame CompressionOpsFor_def enc_rows_ok_def enc_dict_inv_def\<close>)
  then show ?thesis using enc by blast
qed

section \<open>Frame of reference\<close>

text \<open>The smallest valid value, as the loop computes it.\<close>

lemma min_step_simps:
  "min_step f i None = (if fv_IsValid f i then Some (field_i64 f i) else None)"
  "min_step f i (Some mn) =
     (if fv_IsValid f i \<and> sint (field_i64 f i) < sint mn then Some (field_i64 f i) else Some mn)"
  by (simp_all add: min_step_def Let_def)

lemma min_loop:
  "(case for_loop 0 n (min_step f) None of
      None \<Rightarrow> \<forall>i<n. \<not> fv_IsValid f i
    | Some mn \<Rightarrow> \<forall>i<n. fv_IsValid f i \<longrightarrow> sint mn \<le> sint (field_i64 f i))"
proof (induction n)
  case 0
  then show ?case by simp
next
  case (Suc n)
  let ?r = "for_loop 0 n (min_step f) None"
  have step: "for_loop 0 (Suc n) (min_step f) None = min_step f n ?r"
    by (simp add: for_loop_Suc)
  show ?case
  proof (cases ?r)
    case None
    with Suc show ?thesis by (simp add: step min_step_simps less_Suc_eq)
  next
    case (Some mn)
    with Suc show ?thesis
      by (auto simp: step min_step_simps less_Suc_eq)
  qed
qed

definition delta_base :: "field_vector \<Rightarrow> u64" where
  "delta_base f = (case for_loop 0 (fv_size f) (min_step f) None of None \<Rightarrow> 0 | Some mn \<Rightarrow> mn)"

text \<open>
  The encoder keeps 32 bits of each difference from the smallest value: it loses nothing
  exactly when the differences of the valid rows fit.
\<close>

definition deltas_fit :: "field_vector \<Rightarrow> nat \<Rightarrow> bool" where
  "deltas_fit f b \<longleftrightarrow>
     (\<forall>i<fv_size f. fv_IsValid f i \<longrightarrow> unat (field_i64 f i - delta_base f) < 2 ^ b)"

lemma for_loop_fill:
  "length xs = n \<Longrightarrow> for_loop 0 n (\<lambda>i out. out[i := g i]) xs = map g [0..<n]"
proof -
  have "for_loop 0 k (\<lambda>i out. out[i := g i]) xs = map g [0..<k] @ drop k xs"
    if "k \<le> length xs" for k
    using that
  proof (induction k)
    case 0
    then show ?case by simp
  next
    case (Suc k)
    then show ?case
      by (simp add: for_loop_Suc list_update_append Cons_nth_drop_Suc [symmetric] del: upt_Suc)
        (simp add: upt_conv_Cons)
  qed
  from this [of n] show "length xs = n \<Longrightarrow> ?thesis" by simp
qed

lemma ucast_small:
  assumes "unat (w :: u64) < 2 ^ 32"
  shows "ucast (ucast w :: u32) = w"
  using assms by (intro word_unat_eq_iff [THEN iffD2]) (simp add: unsigned_ucast_eq unsigned_take_bit_eq take_bit_nat_eq_self)

lemma ReadForDeltaHeader_enc:
  "ReadForDeltaHeader (encoded_view f CkForDelta data (le_bytes 8 base) v) = Some base"
proof -
  have "le_bytes 8 base \<noteq> []" by (metis length_0_conv length_le_bytes zero_neq_numeral)
  then show ?thesis
    by (simp add: ReadForDeltaHeader_def encoded_view_def ptr_of_def kForDeltaHeaderSize_def
        le_word_le_bytes_full del: le_bytes.simps)
qed

lemma EncodeForDelta_rep:
  assumes "fv_inv f" and "is_encodable (fv_type f)" and "deltas_fit f 32"
  shows "\<exists>data aux. EncodeForDelta f = Some (data, aux) \<and>
           delta_rep (encoded_view f CkForDelta data aux (validity_copy f)) (field_i64 f)"
proof -
  let ?ds = "map (\<lambda>i. ucast ((if fv_IsValid f i then field_i64 f i else 0) - delta_base f) :: u32)
               [0..<fv_size f]"
  have enc: "EncodeForDelta f = Some (le_array 4 ?ds, le_bytes 8 (delta_base f))"
    using assms(2) by (simp add: EncodeForDelta_def Let_def for_loop_fill delta_base_def)
  let ?v = "encoded_view f CkForDelta (le_array 4 ?ds) (le_bytes 8 (delta_base f)) (validity_copy f)"
  have ok: "validity_ok f" using assms(1) by (simp add: fv_inv_def)
  define ds where "ds = ?ds"
  have len: "length ds = fv_size f" by (simp add: ds_def)
  have "le_array 4 ds = [] \<longleftrightarrow> ds = []"
    by (metis le_array_Nil length_0_conv length_le_array mult_is_0 zero_neq_numeral)
  then have data: "cv_data ?v = (if ds = [] then None else Some (le_array 4 ds))"
    by (simp add: encoded_view_def ptr_of_def ds_def)
  have vals: "delta_base f + ucast (ds ! i) = field_i64 f i"
    if "i < fv_size f" "fv_IsValid f i" for i
    using that assms(3) by (simp add: deltas_fit_def ucast_small ds_def)
  have "delta_rep ?v (field_i64 f)"
    unfolding delta_rep_def
  proof (intro conjI exI)
    show "ReadForDeltaHeader ?v = Some (delta_base f)" by (rule ReadForDeltaHeader_enc)
    show "\<forall>i<cv_row_count ?v. view_IsValid ?v i \<longrightarrow> delta_base f + ucast (ds ! i) = field_i64 f i"
      using vals encoded_view_valid [OF ok] by (simp add: encoded_view_frame)
  qed (use len data in \<open>simp_all add: encoded_view_frame CompressionOpsFor_def\<close>)
  then show ?thesis using enc by blast
qed

section \<open>Bit packing\<close>

lemma range_step_simps:
  "range_step f i None = (if fv_IsValid f i then Some (field_i64 f i, field_i64 f i) else None)"
  "range_step f i (Some (mn, mx)) =
     (if fv_IsValid f i then
        Some (if sint (field_i64 f i) < sint mn then field_i64 f i else mn,
              if sint mx < sint (field_i64 f i) then field_i64 f i else mx)
      else Some (mn, mx))"
  by (simp_all add: range_step_def Let_def)

text \<open>The range loop finds the smallest value of the frame-of-reference loop and the largest.\<close>

lemma range_loop:
  "(case for_loop 0 n (range_step f) None of
      None \<Rightarrow> for_loop 0 n (min_step f) None = None
    | Some (mn, mx) \<Rightarrow>
        for_loop 0 n (min_step f) None = Some mn \<and>
        (\<exists>i<n. fv_IsValid f i \<and> field_i64 f i = mx) \<and>
        (\<forall>i<n. fv_IsValid f i \<longrightarrow> sint (field_i64 f i) \<le> sint mx))"
proof (induction n)
  case 0
  then show ?case by simp
next
  case (Suc n)
  let ?r = "for_loop 0 n (range_step f) None" and ?m = "for_loop 0 n (min_step f) None"
  have step: "for_loop 0 (Suc n) (range_step f) None = range_step f n ?r"
    "for_loop 0 (Suc n) (min_step f) None = min_step f n ?m"
    by (simp_all add: for_loop_Suc)
  show ?case
  proof (cases ?r)
    case None
    with Suc min_loop [of n f] show ?thesis
      by (auto simp: step range_step_simps min_step_simps less_Suc_eq)
  next
    case (Some p)
    obtain mn mx where p: "p = (mn, mx)" by (cases p)
    have IH: "?m = Some mn" "\<exists>i<n. fv_IsValid f i \<and> field_i64 f i = mx"
      "\<forall>i<n. fv_IsValid f i \<longrightarrow> sint (field_i64 f i) \<le> sint mx"
      using Suc Some p by auto
    show ?thesis
    proof (cases "fv_IsValid f n \<and> sint mx < sint (field_i64 f n)")
      case True
      then show ?thesis
        using IH by (auto simp: step Some p range_step_simps min_step_simps less_Suc_eq)
    next
      case False
      then show ?thesis
        using IH by (auto simp: step Some p range_step_simps min_step_simps less_Suc_eq)
    qed
  qed
qed

lemma unat_diff_signed:
  assumes "sint a \<le> sint (b :: u64)"
  shows "int (unat (b - a)) = sint b - sint a"
proof -
  have "(word_of_int (sint b - sint a) :: u64) = b - a" by simp
  moreover have "uint (word_of_int (sint b - sint a) :: u64) = (sint b - sint a) mod 2 ^ 64"
    by (simp only: uint_word_of_int) simp
  moreover have "sint b < 2 ^ 63" "- (2 ^ 63) \<le> sint a"
    using sint_lt [of b] sint_ge [of a] by simp_all
  ultimately show ?thesis using assms by simp
qed

lemma ChooseBitWidth_cases:
  "unat (ChooseBitWidth r) \<in> {1, 2, 4, 8, 16} \<and>
   (unat r < 2 ^ 16 \<longrightarrow> unat r < 2 ^ unat (ChooseBitWidth r))"
proof -
  have r: "r \<le> 1 \<longleftrightarrow> unat r < 2" "r \<le> 3 \<longleftrightarrow> unat r < 4" "r \<le> 15 \<longleftrightarrow> unat r < 16"
    "r \<le> 255 \<longleftrightarrow> unat r < 256" "r \<le> 65535 \<longleftrightarrow> unat r < 65536"
    by (auto simp: word_le_nat_alt)
  show ?thesis
    by (simp add: ChooseBitWidth_def bit_limit_def kCompressionBitpackMaxBits_def r)
qed

lemma bit_below:
  assumes "unat (w :: u64) < 2 ^ b" and "bit w j"
  shows "j < b"
proof -
  have "bit (unat w) j" using assms(2) by (simp add: bit_unsigned_iff)
  then have "unat w div 2 ^ j \<noteq> 0" using odd_pos by (auto simp: bit_iff_odd)
  then have "2 ^ j \<le> unat w" using div_less not_less by metis
  then have "(2 :: nat) ^ j < 2 ^ b" using assms(1) by (rule le_less_trans)
  then show ?thesis by simp
qed

text \<open>What the packing loop has written after \<open>n\<close> rows.\<close>

definition packed_ok :: "nat \<Rightarrow> (nat \<Rightarrow> u64) \<Rightarrow> nat \<Rightarrow> nat \<Rightarrow> u8 list \<Rightarrow> bool" where
  "packed_ok len delta b n d \<longleftrightarrow>
     length d = len \<and> (\<forall>i<n. \<forall>j<b. stream_get d (i * b + j) = bit (delta i) j)"

lemma packed_step_ok:
  fixes f mn
  defines "delta \<equiv> \<lambda>i. (if fv_IsValid f i then field_i64 f i else 0) - mn"
  assumes "packed_ok len delta (unat bits) i d" and "bits \<noteq> 0" and "unat bits \<le> 64"
    and "(i + 1) * unat bits \<le> 8 * len"
  shows "\<exists>d'. packed_step f mn bits i d = Some d' \<and> packed_ok len delta (unat bits) (Suc i) d'"
proof -
  let ?b = "unat bits"
  let ?d = "for_loop 0 ?b (\<lambda>j d. stream_set d (i * ?b + j) (bit (delta i) j)) d"
  have len: "length d = len" using assms(2) by (simp add: packed_ok_def)
  have fits: "i * ?b + ?b \<le> 8 * length d" using assms(5) len by simp
  have "packed_step f mn bits i d = Some ?d"
    using WriteBits_stream [OF assms(3) fits assms(4), of "delta i"]
    by (simp add: packed_step_def delta_def)
  moreover have "8 * length ?d = 8 * len"
    using len bs.bits_loop [of 0 ?b "\<lambda>j. i * ?b + j" "bit (delta i)" d] by simp
  moreover have "stream_get ?d (i' * ?b + j) = bit (delta i') j" if "i' < Suc i" "j < ?b" for i' j
  proof (cases "i' = i")
    case True
    then show ?thesis using that bs.get_range_loop [OF TrueI fits, of "bit (delta i)"] by simp
  next
    case False
    then have "i' < i" using that(1) by simp
    then have "(i' + 1) * ?b \<le> i * ?b" by (intro mult_le_mono1) simp
    then have "i' * ?b + j < i * ?b" using that(2) by simp
    then show ?thesis
      using \<open>i' < i\<close> that(2) assms(2) bs.get_range_loop [OF TrueI fits, of "bit (delta i)" "i' * ?b + j"]
      by (simp add: packed_ok_def)
  qed
  ultimately show ?thesis by (auto simp: packed_ok_def)
qed

lemma EncodeBitpack_rows:
  assumes "is_encodable (fv_type f)" and "deltas_fit f 16"
  shows "\<exists>data bits. EncodeBitpack f = Some (Some (data, le_bytes 8 (delta_base f) @ bits # replicate 7 0)) \<and>
           unat bits \<in> {1, 2, 4, 8, 16} \<and> fv_size f * unat bits \<le> 8 * length data \<and>
           (\<forall>i<fv_size f. fv_IsValid f i \<longrightarrow>
              field_bits data i (unat bits) (field_i64 f i - delta_base f))"
proof -
  let ?r = "for_loop 0 (fv_size f) (range_step f) None"
  define mn where "mn = (case ?r of None \<Rightarrow> 0 | Some (mn, _) \<Rightarrow> mn)"
  define rg where "rg = (case ?r of None \<Rightarrow> 0 | Some (mn, mx) \<Rightarrow> mx - mn)"
  have base: "mn = delta_base f"
    using range_loop [of "fv_size f" f] by (auto simp: mn_def delta_base_def split: option.splits)
  define bits where "bits = ChooseBitWidth rg"
  let ?b = "unat bits"
  have b: "?b \<in> {1, 2, 4, 8, 16}" and rg: "unat rg < 2 ^ 16 \<longrightarrow> unat rg < 2 ^ ?b"
    using ChooseBitWidth_cases [of rg] by (simp_all add: bits_def)
  have bound: "unat (field_i64 f i - mn) < 2 ^ ?b" if i: "i < fv_size f" "fv_IsValid f i" for i
  proof (cases ?r)
    case None
    then have False
      using range_loop [of "fv_size f" f] min_loop [of "fv_size f" f] i by simp
    then show ?thesis ..
  next
    case (Some p)
    obtain lo mx where p: "p = (lo, mx)" by (cases p)
    have m: "mn = lo" "rg = mx - lo" by (simp_all add: mn_def rg_def Some p)
    have top: "sint (field_i64 f i) \<le> sint mx" and "\<exists>k<fv_size f. fv_IsValid f k \<and> field_i64 f k = mx"
      and "for_loop 0 (fv_size f) (min_step f) None = Some lo"
      using range_loop [of "fv_size f" f] i by (auto simp: Some p)
    then obtain k where k: "k < fv_size f" "fv_IsValid f k" "field_i64 f k = mx" by blast
    have low: "sint lo \<le> sint (field_i64 f j)" if "j < fv_size f" "fv_IsValid f j" for j
      using min_loop [of "fv_size f" f] \<open>for_loop 0 (fv_size f) (min_step f) None = Some lo\<close> that by simp
    have "unat rg < 2 ^ 16"
      using assms(2) k base m by (auto simp: deltas_fit_def)
    moreover have "int (unat (field_i64 f i - lo)) \<le> int (unat (mx - lo))"
      using unat_diff_signed [OF low [OF i]] unat_diff_signed [OF low [OF k(1,2)]] top
      unfolding k(3) by linarith
    then have "unat (field_i64 f i - lo) \<le> unat (mx - lo)" by (simp only: of_nat_le_iff)
    ultimately show ?thesis using rg m by simp
  qed
  define delta where "delta = (\<lambda>i. (if fv_IsValid f i then field_i64 f i else 0) - mn)"
  let ?len = "(fv_size f * ?b + 7) div 8"
  have len: "fv_size f * ?b \<le> 8 * ?len" by simp
  have bits0: "bits \<noteq> 0" and b64: "?b \<le> 64" using b by auto
  have "\<exists>d. for_ub 0 (fv_size f) (packed_step f mn bits) (replicate ?len 0) = Some d \<and>
          packed_ok ?len delta ?b (fv_size f) d"
  proof (rule for_ub_inv [where P = "packed_ok ?len delta ?b"])
    show "packed_ok ?len delta ?b 0 (replicate ?len 0)" by (simp add: packed_ok_def)
    show "\<exists>t'. packed_step f mn bits i t = Some t' \<and> packed_ok ?len delta ?b (Suc i) t'"
      if "i < fv_size f" "packed_ok ?len delta ?b i t" for i t
      using packed_step_ok [of ?len f mn bits i t] that(2) bits0 b64 row_fits [OF that(1) len]
      by (simp add: delta_def)
  qed simp
  then obtain d where d: "for_ub 0 (fv_size f) (packed_step f mn bits) (replicate ?len 0) = Some d"
    "packed_ok ?len delta ?b (fv_size f) d" by blast
  have "field_bits d i ?b (field_i64 f i - mn)" if "i < fv_size f" "fv_IsValid f i" for i
    using d(2) that bit_below [OF bound [OF that]] b64
    by (auto simp: packed_ok_def field_bits_def delta_def dest: less_le_trans)
  moreover have "EncodeBitpack f = Some (Some (d, le_bytes 8 mn @ bits # replicate 7 0))"
    using assms(1) d(1)
    by (simp add: EncodeBitpack_def Let_def mn_def [symmetric] rg_def [symmetric] bits_def [symmetric])
  ultimately show ?thesis
    using b len d(2) by (intro exI [of _ d] exI [of _ bits]) (auto simp: base packed_ok_def)
qed

lemma ReadBitpackHeader_enc:
  assumes "unat bits \<in> {1, 2, 4, 8, 16}"
  shows "ReadBitpackHeader (encoded_view f CkBitPacked data (le_bytes 8 base @ bits # replicate 7 0) v) =
         Some (base, bits)"
proof -
  have "0 < bits" "bits \<le> 32"
    using assms by (auto simp: word_gt_0_no word_le_nat_alt word_less_nat_alt)
  then show ?thesis
    by (simp add: ReadBitpackHeader_def encoded_view_def ptr_of_def kBitpackHeaderSize_def
        le_word_le_bytes_full nth_append Let_def del: le_bytes.simps)
qed

lemma EncodeBitpack_rep:
  assumes "fv_inv f" and "is_encodable (fv_type f)" and "deltas_fit f 16"
  shows "\<exists>data aux. EncodeBitpack f = Some (Some (data, aux)) \<and>
           bitpack_rep (encoded_view f CkBitPacked data aux (validity_copy f)) (field_i64 f)"
proof -
  obtain data bits where e:
    "EncodeBitpack f = Some (Some (data, le_bytes 8 (delta_base f) @ bits # replicate 7 0))"
    "unat bits \<in> {1, 2, 4, 8, 16}" "fv_size f * unat bits \<le> 8 * length data"
    "\<forall>i<fv_size f. fv_IsValid f i \<longrightarrow> field_bits data i (unat bits) (field_i64 f i - delta_base f)"
    using EncodeBitpack_rows [OF assms(2,3)] by blast
  have ok: "validity_ok f" using assms(1) by (simp add: fv_inv_def)
  let ?v = "encoded_view f CkBitPacked data (le_bytes 8 (delta_base f) @ bits # replicate 7 0)
    (validity_copy f)"
  have "bitpack_rep ?v (field_i64 f)"
    unfolding bitpack_rep_def
  proof (intro conjI exI)
    show "ReadBitpackHeader ?v = Some (delta_base f, bits)" by (rule ReadBitpackHeader_enc [OF e(2)])
    show "cv_data ?v = (if data = [] then None else Some data)"
      by (simp add: encoded_view_def ptr_of_def)
    show "\<forall>i<cv_row_count ?v. view_IsValid ?v i \<longrightarrow>
        field_bits data i (unat bits) (field_i64 f i - delta_base f)"
      using e(4) encoded_view_valid [OF ok] by (simp add: encoded_view_frame)
  qed (use e(3) in \<open>simp_all add: encoded_view_frame CompressionOpsFor_def\<close>)
  with e(1) show ?thesis by blast
qed

end
