(* ===== verification/CodecProps.thy ===== *)
theory CodecProps
  imports EncodeCorrect ColumnSteps
begin

text \<open>
  Batch decoding meets the contract too (the locale \<open>value_decoder\<close> extends
  \<open>value_codec\<close>), and what follows for columns that were really encoded: single reads,
  batch decodes and predicate scans of every encoding give back the column's values.
\<close>

section \<open>Batch decoding\<close>

locale value_decoder = value_codec +
  fixes decode :: "compressed_view \<Rightarrow> mask \<Rightarrow> u8 list option \<Rightarrow> u8 list option ub"
  assumes decode_values: "rep c vals \<Longrightarrow> length ws = cv_row_count c \<Longrightarrow>
      decodes_to (decode c m (Some (le_array 8 ws))) (cv_row_count c) ws (selects m)
        (view_IsValid c) vals"
begin

text \<open>A batch decode without a mask agrees with the single reads on every valid row.\<close>

lemma decode_reads:
  fixes ws :: "u64 list"
  assumes "rep c vals" and "length ws = cv_row_count c" and "mask_Size m = 0"
  shows "\<exists>ws'. decode c m (Some (le_array 8 ws)) = Some (Some (le_array 8 ws')) \<and>
           length ws' = cv_row_count c \<and>
           (\<forall>i v. i < cv_row_count c \<longrightarrow> ReadInt64Value c i = Some (Some v) \<longrightarrow> ws' ! i = v)"
proof -
  obtain ws' where ws': "decode c m (Some (le_array 8 ws)) = Some (Some (le_array 8 ws'))"
    "length ws' = cv_row_count c"
    "\<And>i. i < cv_row_count c \<Longrightarrow> view_IsValid c i \<Longrightarrow> ws' ! i = vals i"
    using decode_values [OF assms(1,2), of m] assms(3) by (auto simp: decodes_to_def selects_def)
  have "ws' ! i = v" if "i < cv_row_count c" "ReadInt64Value c i = Some (Some v)" for i v
    using read_value [OF assms(1) that(1)] that ws'(3) [OF that(1)] by (auto split: if_splits)
  with ws' show ?thesis by blast
qed

end

lemma decode_loop:
  assumes "length ws = n"
    and "\<And>i xs. i < n \<Longrightarrow> length xs = n \<Longrightarrow>
           row i (le_array 8 xs) = Some (le_array 8 (if sel i then xs[i := g i] else xs))"
  shows "for_ub 0 n row (le_array 8 ws) =
         Some (le_array 8 (map (\<lambda>i. if sel i then g i else ws ! i) [0..<n]))"
proof -
  let ?m = "\<lambda>k. map (\<lambda>i. if sel i then g i else ws ! i) [0..<k] @ drop k ws"
  have "for_ub 0 k row (le_array 8 ws) = Some (le_array 8 (?m k))" if "k \<le> n" for k
    using that
  proof (induction k)
    case 0
    then show ?case by simp
  next
    case (Suc k)
    then have k: "k < n" and IH: "for_ub 0 k row (le_array 8 ws) = Some (le_array 8 (?m k))" by auto
    have len: "length (?m k) = n" using k assms(1) by simp
    have "drop k ws = ws ! k # drop (Suc k) ws"
      using k assms(1) by (simp add: Cons_nth_drop_Suc)
    then have "(if sel k then (?m k)[k := g k] else ?m k) = ?m (Suc k)"
      by (simp add: list_update_append)
    then have "row k (le_array 8 (?m k)) = Some (le_array 8 (?m (Suc k)))"
      using assms(2) [OF k len] by (simp only:)
    then show ?case
      by (simp only: for_ub_Suc le0 IH) simp
  qed
  from this [of n] show ?thesis using assms(1) by simp
qed

lemma put_i64_le_array:
  "i < length xs \<Longrightarrow> put_i64 i v (le_array 8 xs) = Some (le_array 8 (xs[i := v]))"
  using wr_le_array [of i xs 8 v "[]"] by simp

text \<open>From the rows of a decoder to its result.\<close>

lemma decodes_toI:
  assumes "length ws = n" and "r = map_option Some (for_ub 0 n row (le_array 8 ws))"
    and "\<And>i xs. i < n \<Longrightarrow> length xs = n \<Longrightarrow>
           row i (le_array 8 xs) = Some (le_array 8 (if sel i then xs[i := g i] else xs))"
    and "\<And>i. i < n \<Longrightarrow> valid i \<Longrightarrow> g i = vals i"
  shows "decodes_to r n ws sel valid vals"
  using assms(4) unfolding decodes_to_def assms(2)
  by (intro exI [of _ "map (\<lambda>i. if sel i then g i else ws ! i) [0..<n]"])
     (simp add: decode_loop [where sel = sel and g = g, OF assms(1,3)])

text \<open>A view without data has no rows.\<close>

lemma decodes_to_empty:
  "n = 0 \<Longrightarrow> length ws = n \<Longrightarrow> r = Some (Some (le_array 8 ws)) \<Longrightarrow> decodes_to r n ws sel valid vals"
  by (simp add: decodes_to_def)

interpretation dict: value_decoder dict_rep ScanPredicateDictionary DecodeDictionary
proof unfold_locales
  fix c vals and ws :: "u64 list" and m
  assume rep: "dict_rep c vals" and ws: "length ws = cv_row_count c"
  then obtain count vs ids where r: "ReadDictHeader c = Some (count, le_array 8 vs)"
    "length vs = unat count" "length ids = cv_row_count c"
    "cv_data c = (if ids = [] then None else Some (le_array 4 ids))"
    "\<And>i. i < cv_row_count c \<Longrightarrow> view_IsValid c i \<Longrightarrow>
       unat (ids ! i :: u32) < length vs \<and> vs ! unat (ids ! i) = vals i"
    by (auto simp: dict_rep_def)
  show "decodes_to (DecodeDictionary c m (Some (le_array 8 ws))) (cv_row_count c) ws (selects m)
          (view_IsValid c) vals"
  proof (cases "ids = []")
    case True
    with r ws show ?thesis by (intro decodes_to_empty) (simp_all add: DecodeDictionary_def)
  next
    case False
    have row: "decode_dict_row c m count (le_array 8 vs) (le_array 4 ids) i (le_array 8 xs) =
        Some (le_array 8 (if selects m i then xs[i := (if view_IsValid c i then vals i else 0)] else xs))"
      if "i < cv_row_count c" "length xs = cv_row_count c" for i xs
      using that r(2,3) r(5) [OF that(1)]
      by (auto simp: decode_dict_row_def selects_def Let_def rd_le_array_eq put_i64_le_array
          word_le_nat_alt)
    show ?thesis
      by (rule decodes_toI [OF ws _ row]) (use False r in \<open>simp_all add: DecodeDictionary_def\<close>)
  qed
qed

interpretation delta: value_decoder delta_rep ScanPredicateForDelta DecodeForDelta
proof unfold_locales
  fix c vals and ws :: "u64 list" and m
  assume rep: "delta_rep c vals" and ws: "length ws = cv_row_count c"
  then obtain base ds where r: "ReadForDeltaHeader c = Some base" "length ds = cv_row_count c"
    "cv_data c = (if ds = [] then None else Some (le_array 4 ds))"
    "\<And>i. i < cv_row_count c \<Longrightarrow> view_IsValid c i \<Longrightarrow> base + ucast (ds ! i :: u32) = vals i"
    by (auto simp: delta_rep_def)
  show "decodes_to (DecodeForDelta c m (Some (le_array 8 ws))) (cv_row_count c) ws (selects m)
          (view_IsValid c) vals"
  proof (cases "ds = []")
    case True
    with r ws show ?thesis by (intro decodes_to_empty) (simp_all add: DecodeForDelta_def)
  next
    case False
    let ?row = "\<lambda>i out. if mask_Size m > 0 \<and> \<not> mask_Get m i then Some out
      else decode_delta_row base (le_array 4 ds) i out"
    have row: "?row i (le_array 8 xs) =
        Some (le_array 8 (if selects m i then xs[i := base + ucast (ds ! i)] else xs))"
      if "i < cv_row_count c" "length xs = cv_row_count c" for i xs
      using that r(2)
      by (auto simp: decode_delta_row_def selects_def rd_le_array_eq put_i64_le_array)
    have "DecodeForDelta c m (Some (le_array 8 ws)) =
        map_option Some (for_ub 0 (cv_row_count c) ?row (le_array 8 ws))"
      using False r by (cases "mask_Size m > 0") (simp_all add: DecodeForDelta_def unrolled4_eq)
    then show ?thesis by (rule decodes_toI [OF ws _ row]) (use r in simp_all)
  qed
qed

interpretation bitpack: value_decoder bitpack_rep ScanPredicateBitpack DecodeBitpack
proof unfold_locales
  fix c vals and ws :: "u64 list" and m
  assume rep: "bitpack_rep c vals" and ws: "length ws = cv_row_count c"
  then obtain base bits d where r: "ReadBitpackHeader c = Some (base, bits)"
    "cv_row_count c * unat bits \<le> 8 * length d" "cv_data c = (if d = [] then None else Some d)"
    "\<And>i. i < cv_row_count c \<Longrightarrow> view_IsValid c i \<Longrightarrow> field_bits d i (unat bits) (vals i - base)"
    by (auto simp: bitpack_rep_def)
  show "decodes_to (DecodeBitpack c m (Some (le_array 8 ws))) (cv_row_count c) ws (selects m)
          (view_IsValid c) vals"
  proof (cases "d = []")
    case True
    moreover have "cv_row_count c = 0" using True r(2) ReadBitpackHeader_bits [OF r(1)] by simp
    ultimately show ?thesis
      using r ws by (intro decodes_to_empty) (simp_all add: DecodeBitpack_def)
  next
    case False
    have "\<forall>i. \<exists>v. field_bits d i (unat bits) v" using field_bits_ex by blast
    then obtain w where w: "\<And>i. field_bits d i (unat bits) (w i)" by (auto dest!: choice)
    let ?row = "\<lambda>i out. if mask_Size m > 0 \<and> \<not> mask_Get m i then Some out
      else decode_bitpack_row c base bits i out"
    have row: "?row i (le_array 8 xs) =
        Some (le_array 8 (if selects m i then xs[i := base + w i] else xs))"
      if "i < cv_row_count c" "length xs = cv_row_count c" for i xs
      using that False r(3) read_packed_field [OF row_fits [OF that(1) r(2)] w]
      by (auto simp: decode_bitpack_row_def selects_def put_i64_le_array)
    have "DecodeBitpack c m (Some (le_array 8 ws)) =
        map_option Some (for_ub 0 (cv_row_count c) ?row (le_array 8 ws))"
      using False r by (cases "mask_Size m > 0") (simp_all add: DecodeBitpack_def)
    then show ?thesis
    proof (rule decodes_toI [OF ws _ row])
      fix i assume "i < cv_row_count c" "view_IsValid c i"
      from field_bits_unique [OF r(4) [OF this] w, symmetric] show "base + w i = vals i" by simp
    qed
  qed
qed

section \<open>Encoded columns\<close>

text \<open>A small column with a null, to apply the theorems to.\<close>

definition example_column :: field_vector where
  "example_column =
     snd (fv_AppendInt32 (snd (fv_AppendNull (snd (fv_AppendInt32 (fv_new [97] kInt32) 7)))) 300)"

lemma example_column_cells:
  "fv_size example_column = 3" "fv_type example_column = kInt32"
  "fv_IsValid example_column 0" "\<not> fv_IsValid example_column (Suc 0)" "fv_IsValid example_column 2"
  "field_i64 example_column 0 = 7" "field_i64 example_column 2 = 300"
  "delta_base example_column = 7"
  by code_simp+

lemma less_3: "i < 3 \<longleftrightarrow> i = 0 \<or> i = 1 \<or> i = (2 :: nat)"
  by auto

lemma example_column_fit: "deltas_fit example_column 16" "deltas_fit example_column 32"
proof -
  have "unat (field_i64 example_column i - delta_base example_column) < 2 ^ 16"
    if "i < fv_size example_column" "fv_IsValid example_column i" for i
  proof -
    have "i = 0 \<or> i = 2" using that by (auto simp: example_column_cells less_3)
    then show ?thesis by (auto simp: example_column_cells)
  qed
  then show "deltas_fit example_column 16" "deltas_fit example_column 32"
    by (fastforce simp: deltas_fit_def)+
qed

lemma example_column_inv: "fv_inv example_column" "is_encodable (fv_type example_column)"
proof -
  let ?a = "snd (fv_AppendInt32 (fv_new [97] kInt32) 7)" and ?x = "fv_new [97] kInt32"
  have a: "fv_extends ?x [CInt32 7] ?a"
    by (rule fv_AppendInt32_correct [THEN conjunct2]) (simp_all add: fv_new_inv, simp add: fv_new_def)
  then have b: "fv_extends ?a [CNull] (snd (fv_AppendNull ?a))"
    using fv_AppendNull_correct [of ?a] by (simp add: fv_extends_def)
  have "fv_type (snd (fv_AppendNull ?a)) = kInt32"
    using a b by (simp add: fv_extends_def fv_new_def)
  then show "fv_inv example_column"
    using fv_AppendInt32_correct [of "snd (fv_AppendNull ?a)" 300] b
    by (simp add: fv_extends_def example_column_def)
  show "is_encodable (fv_type example_column)"
    by (simp add: example_column_cells is_encodable_def)
qed

text \<open>What a view promises: reads, scans and batch decodes of the column's values.\<close>

definition view_faithful :: "compressed_view \<Rightarrow> field_vector \<Rightarrow> bool" where
  "view_faithful v f \<longleftrightarrow>
     cv_row_count v = fv_size f \<and>
     (\<forall>i<fv_size f. ReadInt64Value v i = Some (if fv_IsValid f i then Some (field_i64 f i) else None)) \<and>
     (\<forall>p m. no_null_check p \<longrightarrow>
        (\<exists>m'. BuildMaskCompressed v p (Some m) = Some (True, Some m') \<and>
           (\<forall>i. mask_Get m' i \<longleftrightarrow>
              i < fv_size f \<and> fv_IsValid f i \<and> CompareInt64 (field_i64 f i) (cp_i64 p) (cp_op p))))"

definition view_decodes :: "compressed_view \<Rightarrow> field_vector \<Rightarrow> bool" where
  "view_decodes v f \<longleftrightarrow>
     (\<forall>ws m. length ws = fv_size f \<longrightarrow>
        (\<exists>ws'. DecodeBatch v m (Some (le_array 8 ws)) = Some (Some (le_array 8 ws')) \<and>
           length ws' = fv_size f \<and>
           (\<forall>i<fv_size f. (selects m i \<and> fv_IsValid f i \<longrightarrow> ws' ! i = field_i64 f i) \<and>
              (\<not> selects m i \<longrightarrow> ws' ! i = (ws ! i :: u64)))))"

context value_codec
begin

lemma rep_faithful:
  assumes "rep v (field_i64 f)" and "cv_row_count v = fv_size f"
    and "\<And>i. i < fv_size f \<Longrightarrow> view_IsValid v i = fv_IsValid f i"
  shows "view_faithful v f"
proof -
  have read: "ReadInt64Value v i = Some (if fv_IsValid f i then Some (field_i64 f i) else None)"
    if "i < fv_size f" for i
    using read_value [OF assms(1), of i] that assms(2,3) by simp
  have "\<exists>m'. BuildMaskCompressed v p (Some m) = Some (True, Some m') \<and>
      (\<forall>i. mask_Get m' i \<longleftrightarrow>
         i < fv_size f \<and> fv_IsValid f i \<and> CompareInt64 (field_i64 f i) (cp_i64 p) (cp_op p))"
    if p: "no_null_check p" for p m
  proof -
    obtain m' where m': "BuildMaskCompressed v p (Some m) = Some (True, Some m')"
      "\<And>i. mask_Get m' i \<longleftrightarrow> i < fv_size f \<and>
         (\<exists>x. ReadInt64Value v i = Some (Some x) \<and> CompareInt64 x (cp_i64 p) (cp_op p))"
      using scan_reads [OF assms(1) p, of m] assms(2) by auto
    have "mask_Get m' i \<longleftrightarrow>
        i < fv_size f \<and> fv_IsValid f i \<and> CompareInt64 (field_i64 f i) (cp_i64 p) (cp_op p)" for i
      using m'(2) [of i] read [of i] by (cases "fv_IsValid f i") auto
    with m'(1) show ?thesis by blast
  qed
  with read assms(2) show ?thesis by (simp add: view_faithful_def)
qed

end

context value_decoder
begin

lemma rep_decodes:
  assumes "rep v (field_i64 f)" and "cv_row_count v = fv_size f"
    and "\<And>i. i < fv_size f \<Longrightarrow> view_IsValid v i = fv_IsValid f i"
    and "cv_ops v = Some ops" and "ops_decode ops = decode"
  shows "view_decodes v f"
  using decode_values [OF assms(1)] assms(2-5)
  by (fastforce simp: view_decodes_def decodes_to_def DecodeBatch_def)

end

lemma encoded_frame_valid:
  assumes "fv_inv f"
  shows "cv_row_count (encoded_view f k d a (validity_copy f)) = fv_size f"
    and "i < fv_size f \<Longrightarrow> view_IsValid (encoded_view f k d a (validity_copy f)) i = fv_IsValid f i"
  using assms encoded_view_valid [of f i] by (simp_all add: encoded_view_frame fv_inv_def)

lemma dictionary_view_correct:
  assumes "fv_inv f" and "is_encodable (fv_type f)" and "fv_size f < 2 ^ 32"
  shows "\<exists>data aux. EncodeDictionary f = Some (data, aux) \<and>
           view_faithful (encoded_view f CkDictionary data aux (validity_copy f)) f \<and>
           view_decodes (encoded_view f CkDictionary data aux (validity_copy f)) f"
proof -
  obtain data aux where e: "EncodeDictionary f = Some (data, aux)"
    "dict_rep (encoded_view f CkDictionary data aux (validity_copy f)) (field_i64 f)"
    using EncodeDictionary_rep [OF assms] by blast
  note v = encoded_frame_valid [OF assms(1)]
  have "view_decodes (encoded_view f CkDictionary data aux (validity_copy f)) f"
    by (rule dict.rep_decodes [OF e(2) v, where ops = DictionaryOps])
       (simp_all add: encoded_view_frame CompressionOpsFor_def ops_decode_def)
  with e dict.rep_faithful [OF e(2) v] show ?thesis by blast
qed

text \<open>
  C17. Dictionary encoding is faithful: for every integer or boolean column below
  \<open>2 ^ 32\<close> rows that satisfies the class invariant, \<open>EncodeDictionary\<close> succeeds, every single
  read of the resulting view gives the column's value (or reports the null), every
  predicate scan selects exactly the valid rows that satisfy the comparison, and every
  batch decode restores the selected values and leaves the others alone.
\<close>
theorem EncodeDictionary_faithful:
  assumes "fv_inv f" and "is_encodable (fv_type f)" and "fv_size f < 2 ^ 32"
  shows "\<exists>data aux. EncodeDictionary f = Some (data, aux) \<and>
           view_faithful (encoded_view f CkDictionary data aux (validity_copy f)) f \<and>
           view_decodes (encoded_view f CkDictionary data aux (validity_copy f)) f"
  using assms by (rule dictionary_view_correct)

theorem EncodeDictionary_faithful_witness:
  "\<exists>data aux. EncodeDictionary example_column = Some (data, aux) \<and>
     ReadInt64Value (encoded_view example_column CkDictionary data aux (validity_copy example_column)) 2 =
       Some (Some 300)"
  using EncodeDictionary_faithful [OF example_column_inv]
  by (auto simp: view_faithful_def example_column_cells)

lemma bitpack_view_correct:
  assumes "fv_inv f" and "is_encodable (fv_type f)" and "deltas_fit f 16"
  shows "\<exists>data aux. EncodeBitpack f = Some (Some (data, aux)) \<and>
           view_faithful (encoded_view f CkBitPacked data aux (validity_copy f)) f \<and>
           view_decodes (encoded_view f CkBitPacked data aux (validity_copy f)) f"
proof -
  obtain data aux where e: "EncodeBitpack f = Some (Some (data, aux))"
    "bitpack_rep (encoded_view f CkBitPacked data aux (validity_copy f)) (field_i64 f)"
    using EncodeBitpack_rep [OF assms] by blast
  note v = encoded_frame_valid [OF assms(1)]
  have "view_decodes (encoded_view f CkBitPacked data aux (validity_copy f)) f"
    by (rule bitpack.rep_decodes [OF e(2) v, where ops = BitpackOps])
       (simp_all add: encoded_view_frame CompressionOpsFor_def ops_decode_def)
  with e bitpack.rep_faithful [OF e(2) v] show ?thesis by blast
qed

text \<open>
  C18. Bit packing is faithful whenever the valid values of the column lie within
  \<open>2 ^ 16\<close> of the smallest one (the widest width the encoder uses): the same reads, scans and
  decodes as the column itself, whichever of the five widths it chooses.
\<close>
theorem EncodeBitpack_faithful:
  assumes "fv_inv f" and "is_encodable (fv_type f)" and "deltas_fit f 16"
  shows "\<exists>data aux. EncodeBitpack f = Some (Some (data, aux)) \<and>
           view_faithful (encoded_view f CkBitPacked data aux (validity_copy f)) f \<and>
           view_decodes (encoded_view f CkBitPacked data aux (validity_copy f)) f"
  using assms by (rule bitpack_view_correct)

theorem EncodeBitpack_faithful_witness:
  "\<exists>data aux. EncodeBitpack example_column = Some (Some (data, aux)) \<and>
     ReadInt64Value (encoded_view example_column CkBitPacked data aux (validity_copy example_column)) 2 =
       Some (Some 300)"
  using EncodeBitpack_faithful [OF example_column_inv example_column_fit(1)]
  by (auto simp: view_faithful_def example_column_cells)

lemma fordelta_view_correct:
  assumes "fv_inv f" and "is_encodable (fv_type f)" and "deltas_fit f 32"
  shows "\<exists>data aux. EncodeForDelta f = Some (data, aux) \<and>
           view_faithful (encoded_view f CkForDelta data aux (validity_copy f)) f \<and>
           view_decodes (encoded_view f CkForDelta data aux (validity_copy f)) f"
proof -
  obtain data aux where e: "EncodeForDelta f = Some (data, aux)"
    "delta_rep (encoded_view f CkForDelta data aux (validity_copy f)) (field_i64 f)"
    using EncodeForDelta_rep [OF assms] by blast
  note v = encoded_frame_valid [OF assms(1)]
  have "view_decodes (encoded_view f CkForDelta data aux (validity_copy f)) f"
    by (rule delta.rep_decodes [OF e(2) v, where ops = ForDeltaOps])
       (simp_all add: encoded_view_frame CompressionOpsFor_def ops_decode_def)
  with e delta.rep_faithful [OF e(2) v] show ?thesis by blast
qed

text \<open>
  C19. Frame-of-reference encoding is faithful whenever the valid values lie within
  \<open>2 ^ 32\<close> of the smallest one: the same reads, scans (through the four-way unrolled loop) and
  decodes as the column itself.
\<close>
theorem EncodeForDelta_faithful:
  assumes "fv_inv f" and "is_encodable (fv_type f)" and "deltas_fit f 32"
  shows "\<exists>data aux. EncodeForDelta f = Some (data, aux) \<and>
           view_faithful (encoded_view f CkForDelta data aux (validity_copy f)) f \<and>
           view_decodes (encoded_view f CkForDelta data aux (validity_copy f)) f"
  using assms by (rule fordelta_view_correct)

theorem EncodeForDelta_faithful_witness:
  "\<exists>data aux. EncodeForDelta example_column = Some (data, aux) \<and>
     ReadInt64Value (encoded_view example_column CkForDelta data aux (validity_copy example_column)) 2 =
       Some (Some 300)"
  using EncodeForDelta_faithful [OF example_column_inv example_column_fit(2)]
  by (auto simp: view_faithful_def example_column_cells)

lemma uncompressed_view_correct:
  assumes "fv_inv f" and "is_encodable (fv_type f)"
    and "fv_type f = kBool \<Longrightarrow> \<forall>i<fv_size f. fv_IsValid f i \<longrightarrow> fv_bool f ! i \<le> 1"
  shows "view_faithful (MakeUncompressedView f) f"
proof (rule plain.rep_faithful [OF uncompressed_rep [OF assms]])
  show "cv_row_count (MakeUncompressedView f) = fv_size f" by simp
  show "view_IsValid (MakeUncompressedView f) i = fv_IsValid f i" if "i < fv_size f" for i
    using uncompressed_view_valid [OF _ that] assms(1) by (simp add: fv_inv_def)
qed

text \<open>
  The view of a column that is not compressed is faithful too: single reads and
  predicate scans see the column's values (boolean cells must hold 0 or 1).
\<close>
theorem MakeUncompressedView_faithful:
  assumes "fv_inv f" and "is_encodable (fv_type f)"
    and "fv_type f = kBool \<Longrightarrow> \<forall>i<fv_size f. fv_IsValid f i \<longrightarrow> fv_bool f ! i \<le> 1"
  shows "view_faithful (MakeUncompressedView f) f"
  using assms by (rule uncompressed_view_correct)

theorem MakeUncompressedView_faithful_witness:
  "ReadInt64Value (MakeUncompressedView example_column) 2 = Some (Some 300) \<and>
   ReadInt64Value (MakeUncompressedView example_column) 1 = Some None"
  using MakeUncompressedView_faithful [OF example_column_inv]
  by (simp add: view_faithful_def example_column_cells)

end
