(* ===== verification/Stats.thy ===== *)
theory Stats
  imports Encoders
begin

text \<open>
  Column statistics: \<open>Segment::ComputeStats\<close> of \<open>engine/src/segment.cpp\<close> for one column,
  and what uses them: the choice of a compression kind (\<open>engine/src/compression.cpp\<close>) and
  zone-map pruning (\<open>engine/src/scan.cpp\<close>).  Minimum and maximum are doubles, so 64-bit
  integers are rounded; the set of sampled hashes is a list without duplicates.
\<close>

section \<open>State\<close>

record column_stats =
  st_min :: f64
  st_max :: f64
  st_value_count :: u64
  st_null_count :: u64
  st_estimated_cardinality :: u32
  st_monotonic_hint :: u8
  st_has_value :: bool

definition stats_new :: "nat \<Rightarrow> column_stats" where
  "stats_new count =
     \<lparr>st_min = 0, st_max = 0, st_value_count = of_nat count, st_null_count = 0,
      st_estimated_cardinality = 0, st_monotonic_hint = 0, st_has_value = False\<rparr>"

text \<open>The local variables of the loop over one column.\<close>

record stats_loop =
  sl_stats :: column_stats
  sl_non_decreasing :: bool
  sl_non_increasing :: bool
  sl_has_prev :: bool
  sl_prev_value :: f64
  sl_sample_hashes :: "u64 list"

definition sample_target :: nat where
  "sample_target = 2048"

definition stats_stride :: "nat \<Rightarrow> nat" where
  "stats_stride count = (if count > sample_target then count div sample_target else 1)"

section \<open>One row\<close>

definition update_monotonic :: "f64 \<Rightarrow> stats_loop \<Rightarrow> stats_loop" where
  "update_monotonic value s =
     (if \<not> sl_has_prev s then s\<lparr>sl_prev_value := value, sl_has_prev := True\<rparr>
      else s\<lparr>sl_non_decreasing := sl_non_decreasing s \<and> \<not> f64_lt value (sl_prev_value s),
             sl_non_increasing := sl_non_increasing s \<and> \<not> f64_gt value (sl_prev_value s),
             sl_prev_value := value\<rparr>)"

definition add_sample :: "nat \<Rightarrow> u64 \<Rightarrow> stats_loop \<Rightarrow> stats_loop" where
  "add_sample stride hash_value s =
     (if stride = 1 \<or> length (sl_sample_hashes s) < sample_target
      then s\<lparr>sl_sample_hashes := List.insert hash_value (sl_sample_hashes s)\<rparr> else s)"

definition update_range :: "f64 \<Rightarrow> column_stats \<Rightarrow> column_stats" where
  "update_range value st =
     (if \<not> st_has_value st then st\<lparr>st_min := value, st_max := value, st_has_value := True\<rparr>
      else st\<lparr>st_min := (if f64_lt value (st_min st) then value else st_min st),
              st_max := (if f64_gt value (st_max st) then value else st_max st)\<rparr>)"

text \<open>The value of a row as a double, and the bytes its hash reads.\<close>

definition field_f64 :: "field_vector \<Rightarrow> nat \<Rightarrow> f64" where
  "field_f64 f i =
     (case fv_type f of
        kInt32 \<Rightarrow> f64_of_i32 (fv_i32 f ! i)
      | kInt64 \<Rightarrow> f64_of_i64 (fv_i64 f ! i)
      | kFloat64 \<Rightarrow> fv_f64 f ! i
      | kBool \<Rightarrow> f64_of_int (if fv_bool f ! i \<noteq> 0 then 1 else 0)
      | kDictInt32 \<Rightarrow> f64_of_i32 (fv_DictionaryValue f (fv_dict_ids f ! i))
      | _ \<Rightarrow> 0)"

definition field_hash_bytes :: "field_vector \<Rightarrow> nat \<Rightarrow> u8 list" where
  "field_hash_bytes f i =
     (case fv_type f of
        kInt32 \<Rightarrow> le_bytes 4 (fv_i32 f ! i)
      | kInt64 \<Rightarrow> le_bytes 8 (fv_i64 f ! i)
      | kFloat64 \<Rightarrow> le_bytes 8 (fv_f64 f ! i)
      | kBool \<Rightarrow> [fv_bool f ! i]
      | kDictInt32 \<Rightarrow> le_bytes 4 (fv_dict_ids f ! i)
      | _ \<Rightarrow> [])"

definition has_numeric_stats :: "field_type \<Rightarrow> bool" where
  "has_numeric_stats t \<longleftrightarrow> t \<in> {kInt32, kInt64, kFloat64, kBool, kDictInt32}"

definition count_null :: "stats_loop \<Rightarrow> stats_loop" where
  "count_null s = s\<lparr>sl_stats := (sl_stats s)\<lparr>st_null_count := st_null_count (sl_stats s) + 1\<rparr>\<rparr>"

definition stats_row :: "field_vector \<Rightarrow> nat \<Rightarrow> nat \<Rightarrow> stats_loop \<Rightarrow> stats_loop" where
  "stats_row f stride i s =
     (if \<not> fv_IsValid f i then count_null s
      else if \<not> has_numeric_stats (fv_type f) then s
      else
        let value = field_f64 f i;
            s = update_monotonic value s;
            s = (if i mod stride = 0
                 then add_sample stride (HashValue HashInit (field_hash_bytes f i)) s else s)
        in s\<lparr>sl_stats := update_range value (sl_stats s)\<rparr>)"

section \<open>One column\<close>

definition finish_hint :: "stats_loop \<Rightarrow> column_stats" where
  "finish_hint s =
     (let st = sl_stats s in
      if st_has_value st then
        st\<lparr>st_monotonic_hint :=
             (if sl_non_decreasing s \<and> \<not> sl_non_increasing s then 1
              else if sl_non_increasing s \<and> \<not> sl_non_decreasing s then 2
              else if sl_non_decreasing s \<and> sl_non_increasing s then 1 else 3)\<rparr>
      else st)"

definition estimate_cardinality :: "nat \<Rightarrow> nat \<Rightarrow> nat \<Rightarrow> u32" where
  "estimate_cardinality count stride hashes =
     (let sample_count = (count + stride - 1) div stride;
          scale = (if sample_count > 0
                   then f64_div (f64_of_int (int count)) (f64_of_int (int sample_count))
                   else f64_of_int 1);
          estimate = f64_mul (f64_of_int (int hashes)) scale;
          top = f64_of_int (2 ^ 32 - 1)
      in of_nat (f64_trunc (if f64_gt estimate top then top else estimate)))"

definition stats_loop_new :: "nat \<Rightarrow> stats_loop" where
  "stats_loop_new count =
     \<lparr>sl_stats = stats_new count, sl_non_decreasing = True, sl_non_increasing = True,
      sl_has_prev = False, sl_prev_value = 0, sl_sample_hashes = []\<rparr>"

definition column_ComputeStats :: "field_vector \<Rightarrow> column_stats" where
  "column_ComputeStats f =
     (let count = fv_size f;
          stride = stats_stride count;
          s = for_loop 0 count (stats_row f stride) (stats_loop_new count);
          st = finish_hint s
      in if sl_sample_hashes s \<noteq> []
         then st\<lparr>st_estimated_cardinality :=
                   estimate_cardinality count stride (length (sl_sample_hashes s))\<rparr>
         else st)"

section \<open>Choosing a compression kind\<close>

definition ChooseCompression :: "compression_config \<Rightarrow> column_stats \<Rightarrow> field_type \<Rightarrow> compression_kind" where
  "ChooseCompression cfg st type =
     (if \<not> cfg_enabled cfg then CkNone
      else if unat (st_value_count st) < cfg_min_segment_rows cfg then CkNone
      else if \<not> st_has_value st \<or> st_value_count st = 0 then CkNone
      else if type = kString \<or> type = kBytes \<or> type = kArray then CkLz4
      else if type = kObject \<or> type = kVectorFloat32 then CkNone
      else if type \<noteq> kFloat64 \<and> cfg_enable_dictionary cfg \<and> st_estimated_cardinality st > 0 \<and>
              st_estimated_cardinality st \<le> kCompressionDictCardinalityThreshold then CkDictionary
      else
        let range' = f64_sub (st_max st) (st_min st);
            safe_range = (if f64_lt range' 0 then 0 else range');
            max_range = (if f64_gt safe_range (f64_of_int (2 ^ 64 - 1)) then - 1
                         else of_nat (f64_trunc safe_range)) :: u64
        in if type \<noteq> kFloat64 \<and> cfg_enable_bitpack cfg \<and>
              (\<exists>bits\<in>set [1, 2, 4, 8, kCompressionBitpackMaxBits]. max_range \<le> bit_limit bits)
           then CkBitPacked
           else if cfg_enable_fordelta cfg \<and>
                   f64_le safe_range (f64_of_int (uint kCompressionForDeltaMaxRange)) then CkForDelta
           else if cfg_enable_lz4 cfg then CkLz4 else CkNone)"

section \<open>Zone maps\<close>

definition SegmentMatchesPredicate :: "column_stats \<Rightarrow> compare_op \<Rightarrow> f64 \<Rightarrow> bool" where
  "SegmentMatchesPredicate st op v =
     (if \<not> st_has_value st then True else PredicateCanMatchRange (st_min st) (st_max st) op v)"

end
