(* ===== verification/FloatExact.thy ===== *)
theory FloatExact
  imports Float64
begin

text \<open>
  Conversions of integers to doubles: never NaN, and below \<open>2 ^ 53\<close> exact, so that order,
  differences and truncation are those of the integers.
\<close>

section \<open>Packing\<close>

lemma f64_pack_fields [simp]:
  assumes "m < 2 ^ 63"
  shows "f64_mag (f64_pack s m) = m" and "f64_neg (f64_pack s m) = s"
proof -
  have lt: "m + (if s then 2 ^ 63 else 0) < 2 ^ 64" using assms by simp
  then have u: "unat (f64_pack s m) = m + (if s then 2 ^ 63 else 0)"
    unfolding f64_pack_def by (simp only: unsigned_of_nat take_bit_nat_eq_self_iff) (simp add: take_bit_nat_eq_self)
  with assms show "f64_mag (f64_pack s m) = m" by (simp add: f64_mag_def)
  have "bit (f64_pack s m) 63 = bit (unat (f64_pack s m)) 63"
    by (simp add: bit_unsigned_iff)
  also have "\<dots> = odd ((m + (if s then 2 ^ 63 else 0)) div 2 ^ 63)"
    by (simp only: u bit_iff_odd)
  also have "\<dots> = s" using assms by (cases s) (simp_all add: div_add1_eq)
  finally show "f64_neg (f64_pack s m) = s" by (simp only: f64_neg_def)
qed

lemma f64_inf_mag_lt: "f64_inf_mag < 2 ^ 63"
  by (simp add: f64_inf_mag_def)

lemma f64_round_mag_le: "f64_round_mag n d \<le> f64_inf_mag"
  by (simp add: f64_round_mag_def Let_def)

lemma f64_round_mag_lt: "f64_round_mag n d < 2 ^ 63"
  using f64_round_mag_le [of n d] f64_inf_mag_lt by (rule order_le_less_trans)

lemma f64_of_int_fields [simp]:
  "f64_mag (f64_of_int i) = f64_round_mag (nat \<bar>i\<bar>) 1" "f64_neg (f64_of_int i) \<longleftrightarrow> i < 0"
  unfolding f64_of_int_def f64_of_ratio_def by (simp_all only: f64_pack_fields [OF f64_round_mag_lt])

lemma f64_of_int_not_nan [simp]: "\<not> f64_nan (f64_of_int i)"
  using f64_round_mag_le [of "nat \<bar>i\<bar>" 1] by (simp add: f64_nan_def)

section \<open>Rounding integers\<close>

lemma bit_len_unique:
  assumes "2 ^ k \<le> n" and "n < 2 ^ Suc k"
  shows "bit_len n = Suc k"
proof -
  have n: "0 < n" using assms(1) by (meson less_le_trans zero_less_numeral zero_less_power)
  have "(2::nat) ^ (bit_len n - 1) < 2 ^ Suc k"
    using bit_len_lower [OF n] assms(2) by (rule order_le_less_trans)
  then have "bit_len n - 1 < Suc k" by (rule power_less_imp_less_exp [rotated]) simp
  moreover have "(2::nat) ^ k < 2 ^ bit_len n"
    using assms(1) bit_len_upper by (rule order_le_less_trans)
  then have "k < bit_len n" by (rule power_less_imp_less_exp [rotated]) simp
  ultimately show ?thesis by simp
qed

lemma bit_len_scale: "0 < n \<Longrightarrow> bit_len (n * 2 ^ k) = bit_len n + k"
proof -
  assume n: "0 < n"
  then have L: "bit_len n = Suc (bit_len n - 1)" by (simp add: bit_len_pos)
  show ?thesis
  proof (subst bit_len_unique [of "bit_len n - 1 + k"])
    show "2 ^ (bit_len n - 1 + k) \<le> n * 2 ^ k" using bit_len_lower [OF n] by (simp add: power_add)
    have "n < 2 ^ Suc (bit_len n - 1)" using bit_len_upper [of n] L by simp
    then show "n * 2 ^ k < 2 ^ Suc (bit_len n - 1 + k)" by (simp add: power_add)
    show "Suc (bit_len n - 1 + k) = bit_len n + k" using L by simp
  qed
qed

lemma bit_len_1 [simp]: "bit_len (Suc 0) = 1"
  using bit_len_unique [of 0 1] by simp

lemma bit_len_pow: "bit_len (2 ^ k) = Suc k"
  using bit_len_unique [of k "2 ^ k"] by simp

lemma rne_div_scale: "0 < c \<Longrightarrow> rne_div (a * c) (b * c) = rne_div a b"
proof -
  assume c: "0 < c"
  then have "a * c mod (b * c) = a mod b * c" by simp
  moreover have "2 * (a mod b * c) > b * c \<longleftrightarrow> 2 * (a mod b) > b"
    using c by (metis mult.assoc mult_less_cancel2)
  moreover have "2 * (a mod b * c) = b * c \<longleftrightarrow> 2 * (a mod b) = b"
    using c by (metis mult.assoc mult_cancel2 less_numeral_extra(3))
  ultimately show ?thesis using c by (simp only: rne_div_def Let_def) simp
qed

lemma rne_div_1 [simp]: "rne_div a 1 = a" "rne_div a (Suc 0) = a"
  by (simp_all add: rne_div_def Let_def)

lemma ratio_exponent_pow:
  assumes "0 < n"
  shows "ratio_exponent (n * 2 ^ k) (2 ^ k) = int (bit_len n) - 1"
proof -
  have L: "0 < bit_len n" using assms by (simp add: bit_len_pos)
  have "2 ^ k * 2 ^ (bit_len n - 1) \<le> n * 2 ^ k" using bit_len_lower [OF assms] by simp
  moreover have "nat (int (bit_len n) - 1) = bit_len n - 1" using L by simp
  ultimately show ?thesis
    using L assms by (simp add: ratio_exponent_def Let_def bit_len_scale bit_len_pow pow_scale_def)
qed

lemma f64_round_mag_scale: "f64_round_mag (n * 2 ^ k) (2 ^ k) = f64_round_mag n 1"
proof (cases "n = 0")
  case True
  then show ?thesis by (simp add: f64_round_mag_def)
next
  case False
  have e: "ratio_exponent n 1 = ratio_exponent (n * 2 ^ k) (2 ^ k)"
    using ratio_exponent_pow [of n k] ratio_exponent_pow [of n 0] False by simp
  have "rne_div (pow_scale (n * 2 ^ k) i) (pow_scale (2 ^ k) j) = rne_div (pow_scale n i) (pow_scale 1 j)" for i j
    using rne_div_scale [of "2 ^ k" "pow_scale n i" "pow_scale 1 j"] by (simp add: pow_scale_def ac_simps)
  with False e show ?thesis by (simp only: f64_round_mag_def) simp
qed

section \<open>Integers below \<open>2 ^ 53\<close>\<close>

abbreviation small_int :: "int \<Rightarrow> bool" where
  "small_int i \<equiv> \<bar>i\<bar> < 2 ^ 53"

lemma bit_len_le: "n < 2 ^ k \<Longrightarrow> bit_len n \<le> k"
proof (rule ccontr)
  assume n: "n < 2 ^ k" "\<not> bit_len n \<le> k"
  then have "(2::nat) ^ k \<le> 2 ^ (bit_len n - 1)" by (intro power_increasing) auto
  also have "\<dots> \<le> n" using n by (intro bit_len_lower) (auto intro: Suc_leI gr0I)
  finally show False using n by simp
qed

text \<open>The 53-bit mantissa of a positive integer and its exponent field.\<close>

lemma exact_mant:
  assumes "0 < n" and "n < 2 ^ 53"
  shows "2 ^ 52 \<le> n * 2 ^ (53 - bit_len n)" and "n * 2 ^ (53 - bit_len n) < 2 ^ 53"
proof -
  have L: "bit_len n \<le> 53" "0 < bit_len n" using bit_len_le [OF assms(2)] assms(1) by (simp_all add: bit_len_pos)
  have "(2::nat) ^ 52 = 2 ^ (bit_len n - 1) * 2 ^ (53 - bit_len n)"
    using L by (simp only: power_add [symmetric]) simp
  then show "2 ^ 52 \<le> n * 2 ^ (53 - bit_len n)" using bit_len_lower [OF assms(1)] by (simp only: mult_le_mono1)
  have "(2::nat) ^ 53 = 2 ^ bit_len n * 2 ^ (53 - bit_len n)"
    using L by (simp only: power_add [symmetric]) simp
  then show "n * 2 ^ (53 - bit_len n) < 2 ^ 53" using bit_len_upper [of n] by (simp only: mult_less_mono1 zero_less_power zero_less_numeral)
qed

lemma f64_round_mag_exact:
  assumes "0 < n" and "n < 2 ^ 53"
  shows "f64_round_mag n 1 = (bit_len n + 1021) * 2 ^ 52 + n * 2 ^ (53 - bit_len n)"
proof -
  have L: "bit_len n \<le> 53" "0 < bit_len n" using bit_len_le [OF assms(2)] assms(1) by (simp_all add: bit_len_pos)
  have e: "ratio_exponent n 1 = int (bit_len n) - 1" using ratio_exponent_pow [OF assms(1), of 0] by simp
  define sh where "sh = max (ratio_exponent n 1 - 52) (- 1074)"
  have sh: "sh = int (bit_len n) - 53" using e L by (simp add: sh_def)
  have n1: "nat (sh + 1074) = bit_len n + 1021" "nat (- sh) = 53 - bit_len n" "nat sh = 0"
    using sh L by auto
  have "(bit_len n + 1021) * 2 ^ 52 + n * 2 ^ (53 - bit_len n) < f64_inf_mag"
  proof -
    have "(bit_len n + 1021) * 2 ^ 52 \<le> 1074 * (2::nat) ^ 52" using L by (intro mult_le_mono1) simp
    then show ?thesis using exact_mant(2) [OF assms] unfolding f64_inf_mag_def by simp
  qed
  with assms(1) show ?thesis
    unfolding f64_round_mag_def sh_def [symmetric] Let_def n1(1)
    by (simp add: pow_scale_def n1)
qed

lemma f64_round_mag_0 [simp]: "f64_round_mag 0 d = 0"
  by (simp add: f64_round_mag_def)

text \<open>Order.\<close>

lemma f64_round_mag_mono:
  assumes "m < n" and "n < 2 ^ 53"
  shows "f64_round_mag m 1 < f64_round_mag n 1"
proof (cases "m = 0")
  case True
  then show ?thesis using assms by (simp only: f64_round_mag_exact f64_round_mag_0) simp
next
  case False
  then have m: "0 < m" "m < 2 ^ 53" and n: "0 < n" using assms by auto
  note [simp] = f64_round_mag_exact [OF m, unfolded One_nat_def]
    f64_round_mag_exact [OF n assms(2), unfolded One_nat_def]
  have le: "bit_len m \<le> bit_len n"
  proof (rule ccontr)
    assume "\<not> bit_len m \<le> bit_len n"
    then have "(2::nat) ^ bit_len n \<le> 2 ^ (bit_len m - 1)" by (intro power_increasing) auto
    with bit_len_lower [OF m(1)] bit_len_upper [of n] assms(1) show False by linarith
  qed
  show ?thesis
  proof (cases "bit_len m = bit_len n")
    case True
    then show ?thesis using assms(1) by simp
  next
    case False
    with le have "Suc (bit_len m) \<le> bit_len n" by simp
    then have "(Suc (bit_len m) + 1021) * 2 ^ 52 \<le> (bit_len n + 1021) * (2::nat) ^ 52"
      by (intro mult_le_mono1) simp
    then show ?thesis
      using exact_mant(2) [OF m] exact_mant(1) [OF n assms(2)] by simp
  qed
qed

lemma f64_key_of_int: "f64_key (f64_of_int i) = (if i < 0 then - 1 else 1) * int (f64_round_mag (nat \<bar>i\<bar>) 1)"
  by (simp add: f64_key_def)

lemma f64_key_mono:
  assumes "small_int a" and "small_int b" and "a < b"
  shows "f64_key (f64_of_int a) < f64_key (f64_of_int b)"
proof -
  have pos: "0 < f64_round_mag (nat \<bar>i\<bar>) 1" if "small_int i" "i \<noteq> 0" for i
    using f64_round_mag_mono [of 0 "nat \<bar>i\<bar>"] that by simp
  consider "0 \<le> a" | "a < 0" "b \<ge> 0" | "b < 0" using assms(3) by linarith
  then show ?thesis
  proof cases
    case 1
    then have "nat \<bar>a\<bar> < nat \<bar>b\<bar>" "nat \<bar>b\<bar> < 2 ^ 53" using assms by auto
    from f64_round_mag_mono [OF this] 1 assms(3) show ?thesis by (simp add: f64_key_of_int)
  next
    case 2
    then show ?thesis using pos [OF assms(1)] by (simp add: f64_key_of_int)
  next
    case 3
    then have "nat \<bar>b\<bar> < nat \<bar>a\<bar>" "nat \<bar>a\<bar> < 2 ^ 53" using assms by auto
    from f64_round_mag_mono [OF this] 3 assms(3) show ?thesis by (simp add: f64_key_of_int)
  qed
qed

lemma f64_of_int_cmp:
  assumes "small_int a" and "small_int b"
  shows "f64_lt (f64_of_int a) (f64_of_int b) \<longleftrightarrow> a < b"
    and "f64_le (f64_of_int a) (f64_of_int b) \<longleftrightarrow> a \<le> b"
    and "f64_eq (f64_of_int a) (f64_of_int b) \<longleftrightarrow> a = b"
  using f64_key_mono [OF assms] f64_key_mono [OF assms(2,1)]
  by (cases a b rule: linorder_cases; simp add: f64_cmp_defs)+

text \<open>Mantissa and exponent of a converted integer, and its truncation.\<close>

lemma f64_mant_expo_of_int:
  assumes "small_int i" and "i \<noteq> 0"
  shows "f64_expo (f64_of_int i) = int (bit_len (nat \<bar>i\<bar>)) - 53"
    and "f64_mant (f64_of_int i) = nat \<bar>i\<bar> * 2 ^ (53 - bit_len (nat \<bar>i\<bar>))"
proof -
  define n where "n = nat \<bar>i\<bar>"
  have n: "0 < n" "n < 2 ^ 53" using assms by (auto simp: n_def)
  define q where "q = n * 2 ^ (53 - bit_len n) - 2 ^ 52"
  have q: "q < 2 ^ 52" "n * 2 ^ (53 - bit_len n) = 2 ^ 52 + q"
    using exact_mant [OF n] by (simp_all add: q_def)
  have mag: "f64_mag (f64_of_int i) = (bit_len n + 1022) * 2 ^ 52 + q"
    using f64_round_mag_exact [OF n] q(2) by (simp add: n_def)
  have d: "f64_mag (f64_of_int i) div 2 ^ 52 = bit_len n + 1022" "f64_mag (f64_of_int i) mod 2 ^ 52 = q"
    unfolding mag mod_mult_self3 using q(1) by simp_all
  show "f64_expo (f64_of_int i) = int (bit_len (nat \<bar>i\<bar>)) - 53"
    unfolding f64_expo_def d by (simp add: n_def)
  show "f64_mant (f64_of_int i) = nat \<bar>i\<bar> * 2 ^ (53 - bit_len (nat \<bar>i\<bar>))"
    unfolding f64_mant_def d using q(2) by (simp add: n_def)
qed

lemma f64_trunc_of_int:
  assumes "n < 2 ^ 53"
  shows "f64_trunc (f64_of_int (int n)) = n"
proof (cases "n = 0")
  case True
  have "f64_mant (f64_of_int 0) = 0" by (simp add: f64_mant_def)
  with True show ?thesis by (simp add: f64_trunc_def pow_scale_def)
next
  case False
  have i: "small_int (int n)" "int n \<noteq> 0" using assms False by auto
  have L: "bit_len n \<le> 53" by (rule bit_len_le [OF assms])
  then have e: "nat (int (bit_len n) - 53) = 0" "nat (53 - int (bit_len n)) = 53 - bit_len n" by auto
  show ?thesis
    unfolding f64_trunc_def f64_mant_expo_of_int [OF i] by (simp add: pow_scale_def e)
qed

section \<open>Differences\<close>

lemma f64_expo_of_int_le: "small_int i \<Longrightarrow> f64_expo (f64_of_int i) \<le> 0"
proof -
  assume i: "small_int i"
  show ?thesis
  proof (cases "i = 0")
    case True
    then show ?thesis by (simp add: f64_expo_def)
  next
    case False
    then show ?thesis using f64_mant_expo_of_int(1) [OF i] bit_len_le [of "nat \<bar>i\<bar>" 53] i by auto
  qed
qed

lemma f64_scaled_of_int:
  assumes "small_int i" and "s \<le> f64_expo (f64_of_int i)"
  shows "f64_smant (f64_of_int i) * 2 ^ nat (f64_expo (f64_of_int i) - s) = i * 2 ^ nat (- s)"
proof (cases "i = 0")
  case True
  have "f64_smant (f64_of_int 0) = 0" by (simp add: f64_smant_def f64_mant_def)
  with True show ?thesis by simp
next
  case False
  define n where "n = nat \<bar>i\<bar>"
  have e: "f64_expo (f64_of_int i) = int (bit_len n) - 53"
    and m: "f64_mant (f64_of_int i) = n * 2 ^ (53 - bit_len n)"
    using f64_mant_expo_of_int [OF assms(1) False] by (simp_all add: n_def)
  have L: "bit_len n \<le> 53" using assms(1) by (intro bit_len_le) (simp add: n_def)
  have "f64_smant (f64_of_int i) = i * 2 ^ (53 - bit_len n)"
    by (simp add: f64_smant_def m) (simp add: n_def)
  moreover have "(2::int) ^ (53 - bit_len n) * 2 ^ nat (int (bit_len n) - 53 - s) = 2 ^ nat (- s)"
    using L assms(2) e by (simp only: power_add [symmetric]) (auto intro: arg_cong [where f = "(^) 2"])
  ultimately show ?thesis unfolding e by (simp add: mult.assoc)
qed

lemma f64_negate_fields [simp]:
  "f64_mag (f64_negate x) = f64_mag x" "f64_neg (f64_negate x) \<longleftrightarrow> \<not> f64_neg x"
proof -
  show "f64_neg (f64_negate x) \<longleftrightarrow> \<not> f64_neg x"
    by (simp add: f64_neg_def f64_negate_def bit_simps)
  have "take_bit 63 (f64_negate x) = take_bit 63 x"
    by (rule bit_eqI) (auto simp: f64_negate_def bit_simps)
  then have "unat (take_bit 63 (f64_negate x)) = unat (take_bit 63 x)" by simp
  then show "f64_mag (f64_negate x) = f64_mag x"
    by (simp only: f64_mag_def unsigned_take_bit_eq flip: take_bit_eq_mod)
qed

lemma f64_negate_simps [simp]:
  "f64_nan (f64_negate x) = f64_nan x" "f64_inf (f64_negate x) = f64_inf x"
  "f64_expo (f64_negate x) = f64_expo x" "f64_smant (f64_negate x) = - f64_smant x"
  by (simp_all add: f64_nan_def f64_inf_def f64_expo_def f64_mant_def f64_smant_def)

lemma f64_of_int_not_inf: "small_int i \<Longrightarrow> \<not> f64_inf (f64_of_int i)"
proof (cases "i = 0")
  case True
  then show ?thesis by (simp add: f64_inf_def f64_inf_mag_def)
next
  case False
  assume "small_int i"
  then have n: "0 < nat \<bar>i\<bar>" "nat \<bar>i\<bar> < 2 ^ 53" using False by auto
  have "(bit_len (nat \<bar>i\<bar>) + 1021) * 2 ^ 52 \<le> 1074 * (2::nat) ^ 52"
    using bit_len_le [OF n(2)] by (intro mult_le_mono1) simp
  then show ?thesis
    using exact_mant(2) [OF n] f64_round_mag_exact [OF n]
    by (simp add: f64_inf_def f64_inf_mag_def)
qed

text \<open>The difference of two integers is rounded once, as the conversion rounds.\<close>

lemma f64_sub_of_int:
  assumes "small_int a" and "small_int b"
  shows "f64_sub (f64_of_int a) (f64_of_int b) = f64_of_int (a - b)"
proof -
  let ?x = "f64_of_int a" and ?y = "f64_of_int b"
  define s where "s = min (f64_expo ?x) (f64_expo ?y)"
  have s: "s \<le> f64_expo ?x" "s \<le> f64_expo ?y" "s \<le> 0"
    using f64_expo_of_int_le [OF assms(1)] by (auto simp: s_def)
  let ?k = "nat (- s)"
  have m: "f64_smant ?x * 2 ^ nat (f64_expo ?x - s) + f64_smant (f64_negate ?y) * 2 ^ nat (f64_expo (f64_negate ?y) - s)
           = (a - b) * 2 ^ ?k"
    using f64_scaled_of_int [OF assms(1) s(1)] f64_scaled_of_int [OF assms(2) s(2)]
    by (simp add: algebra_simps)
  have fin: "\<not> f64_nan ?x" "\<not> f64_nan (f64_negate ?y)" "\<not> f64_inf ?x" "\<not> f64_inf (f64_negate ?y)"
    using f64_of_int_not_inf assms by simp_all
  have abs: "nat \<bar>(a - b) * 2 ^ ?k\<bar> = nat \<bar>a - b\<bar> * 2 ^ ?k"
    by (simp add: abs_mult nat_mult_distrib nat_power_eq)
  have scale: "pow_scale (nat \<bar>a - b\<bar> * 2 ^ ?k) s = nat \<bar>a - b\<bar> * 2 ^ ?k" "pow_scale 1 (- s) = 2 ^ ?k"
    using s(3) by (simp_all add: pow_scale_def)
  show ?thesis
  proof (cases "a = b")
    case True
    then have "\<not> (f64_neg ?x \<and> f64_neg (f64_negate ?y))" by simp
    with True fin m show ?thesis
      unfolding f64_sub_def f64_add_def Let_def s_def [symmetric]
      by (simp add: s_def f64_of_int_def f64_of_ratio_def f64_pack_def)
  next
    case False
    then have nz: "(a - b) * 2 ^ ?k \<noteq> 0" by simp
    have sign: "(a - b) * 2 ^ ?k < 0 \<longleftrightarrow> a - b < 0" by (simp add: mult_less_0_iff)
    have mm: "f64_expo (f64_negate ?y) = f64_expo ?y" by simp
    show ?thesis
      unfolding f64_sub_def f64_add_def Let_def mm s_def [symmetric] m [unfolded mm] abs scale sign
      using fin nz by (simp add: f64_of_int_def f64_of_ratio_def f64_round_mag_scale)
  qed
qed

section \<open>Differences that need 54 bits\<close>

lemma f64_round_mag_54:
  assumes "2 ^ 53 \<le> n" and "n < 2 ^ 54"
  shows "f64_round_mag n 1 = 1075 * 2 ^ 52 + rne_div n 2" and "2 ^ 52 \<le> rne_div n 2" and "rne_div n 2 \<le> 2 ^ 53"
proof -
  have L: "bit_len n = 54" using bit_len_unique [of 53 n] assms by simp
  have n: "0 < n" using assms(1) by simp
  have e: "ratio_exponent n 1 = 53" using ratio_exponent_pow [OF n, of 0] L by simp
  show m: "2 ^ 52 \<le> rne_div n 2" "rne_div n 2 \<le> 2 ^ 53"
    using assms by (auto simp: rne_div_def Let_def)
  have "1075 * 2 ^ 52 + rne_div n 2 < f64_inf_mag"
    using m(2) by (simp add: f64_inf_mag_def)
  then show "f64_round_mag n 1 = 1075 * 2 ^ 52 + rne_div n 2"
    using n unfolding f64_round_mag_def e Let_def by (simp add: pow_scale_def)
qed

lemma f64_round_mag_bounds:
  assumes "n < 2 ^ 54"
  shows "f64_round_mag n 1 \<le> 1077 * 2 ^ 52"
    and "2 ^ 53 \<le> n \<Longrightarrow> 1076 * 2 ^ 52 \<le> f64_round_mag n 1"
    and "n < 2 ^ 53 \<Longrightarrow> f64_round_mag n 1 < 1076 * 2 ^ 52"
proof -
  show lt: "f64_round_mag n 1 < 1076 * 2 ^ 52" if n: "n < 2 ^ 53"
  proof (cases "n = 0")
    case True
    then show ?thesis by (simp only: f64_round_mag_0) simp
  next
    case False
    then have "(bit_len n + 1021) * 2 ^ 52 \<le> 1074 * (2::nat) ^ 52"
      using bit_len_le [OF n] by (intro mult_le_mono1) simp
    then show ?thesis
      using exact_mant(2) [OF _ n] f64_round_mag_exact [OF _ n] False by simp
  qed
  show "f64_round_mag n 1 \<le> 1077 * 2 ^ 52"
    using lt f64_round_mag_54 [OF _ assms] by (cases "n < 2 ^ 53") simp_all
  show "2 ^ 53 \<le> n \<Longrightarrow> 1076 * 2 ^ 52 \<le> f64_round_mag n 1"
    using f64_round_mag_54 [OF _ assms] by simp
qed

lemma f64_le_of_int_54:
  assumes "n < 2 ^ 54" and "k < 2 ^ 53"
  shows "f64_le (f64_of_int (int n)) (f64_of_int (int k)) \<longleftrightarrow> n \<le> k"
proof (cases "n < 2 ^ 53")
  case True
  then show ?thesis using f64_of_int_cmp(2) [of "int n" "int k"] assms(2) by simp
next
  case False
  have "f64_round_mag k 1 < f64_round_mag n 1"
    using f64_round_mag_bounds(3) [of k] f64_round_mag_bounds(2) [OF assms(1)] assms(2) False by simp
  then show ?thesis using False assms(2) by (simp add: f64_le_def f64_key_def)
qed

lemma f64_trunc_54:
  assumes "n < 2 ^ 54"
  shows "f64_trunc (f64_of_int (int n)) < 2 ^ 64"
    and "k < 2 ^ 52 \<Longrightarrow> f64_trunc (f64_of_int (int n)) \<le> k \<longleftrightarrow> n \<le> k"
proof -
  have "f64_trunc (f64_of_int (int n)) = n \<or>
        2 ^ 53 \<le> n \<and> 2 ^ 52 \<le> f64_trunc (f64_of_int (int n)) \<and> f64_trunc (f64_of_int (int n)) < 2 ^ 64"
  proof (cases "n < 2 ^ 53")
    case True
    then show ?thesis using f64_trunc_of_int by blast
  next
    case False
    let ?m = "rne_div n 2"
    have m: "2 ^ 52 \<le> ?m" "?m \<le> 2 ^ 53" "f64_mag (f64_of_int (int n)) = 1075 * 2 ^ 52 + ?m"
      using f64_round_mag_54 [OF _ assms] False by simp_all
    define e f where "e = f64_mag (f64_of_int (int n)) div 2 ^ 52" and "f = f64_mag (f64_of_int (int n)) mod 2 ^ 52"
    have "e = 1076 \<or> e = 1077" using m unfolding e_def by auto
    moreover have "f < 2 ^ 52" by (simp add: f_def)
    moreover have "f64_expo (f64_of_int (int n)) = int e - 1075" "f64_mant (f64_of_int (int n)) = f + 2 ^ 52"
      using \<open>e = 1076 \<or> e = 1077\<close>
      unfolding f64_expo_def f64_mant_def e_def [symmetric] f_def [symmetric] Let_def by auto
    ultimately have "f64_trunc (f64_of_int (int n)) = (f + 2 ^ 52) * 2 ^ nat (int e - 1075)"
      by (auto simp: f64_trunc_def pow_scale_def)
    with \<open>e = 1076 \<or> e = 1077\<close> \<open>f < 2 ^ 52\<close> False show ?thesis by auto
  qed
  then show "f64_trunc (f64_of_int (int n)) < 2 ^ 64"
    and "k < 2 ^ 52 \<Longrightarrow> f64_trunc (f64_of_int (int n)) \<le> k \<longleftrightarrow> n \<le> k"
    using assms by auto
qed

section \<open>The quotient of a number by itself\<close>

lemma f64_round_mag_self: "0 < n \<Longrightarrow> f64_round_mag n n = f64_round_mag 1 1"
proof -
  assume n: "0 < n"
  have "ratio_exponent m m = 0" for m by (simp add: ratio_exponent_def pow_scale_def)
  moreover have "rne_div (n * c) n = c" for c using n rne_div_scale [of n c 1] by (simp add: mult.commute)
  ultimately show ?thesis using n by (simp add: f64_round_mag_def pow_scale_def)
qed

lemma f64_div_same:
  assumes "\<not> f64_nan x" and "\<not> f64_inf x" and "f64_mag x \<noteq> 0" and "0 < f64_mant x"
  shows "f64_div x x = f64_of_int 1"
  using assms f64_round_mag_self [OF assms(4)] by (simp add: f64_div_def pow_scale_def f64_of_ratio_def f64_of_int_def)

lemma f64_div_self:
  assumes "small_int i" and "0 < i"
  shows "f64_div (f64_of_int i) (f64_of_int i) = f64_of_int 1"
proof (rule f64_div_same)
  show "f64_mag (f64_of_int i) \<noteq> 0"
  proof
    assume "f64_mag (f64_of_int i) = 0"
    then have "f64_eq (f64_of_int i) (f64_of_int 0)" using assms(2) by (simp add: f64_eq_def f64_key_def)
    then show False using f64_of_int_cmp [OF assms(1), of 0] assms(2) by simp
  qed
  show "0 < f64_mant (f64_of_int i)"
    using f64_mant_expo_of_int(2) [OF assms(1)] assms(2) by simp
qed (use f64_of_int_not_inf [OF assms(1)] in simp_all)

end
