(* ===== verification/StatsProps.thy ===== *)
theory StatsProps
  imports Stats FloatExact CodecProps
begin

text \<open>
  What the statistics of a column say.  \<open>stats_of\<close> describes the loop of
  \<open>ComputeStats\<close> by the list of the valid rows' values; from it follow the counts, the range
  (when no value is NaN), the monotonicity hint, the soundness of zone-map pruning, and that
  the kind \<open>ChooseCompression\<close> picks loses no information for values a double represents.
\<close>

section \<open>The loop as a list\<close>

definition valid_values :: "field_vector \<Rightarrow> nat \<Rightarrow> f64 list" where
  "valid_values f n =
     (if has_numeric_stats (fv_type f) then map (field_f64 f) (filter (fv_IsValid f) [0..<n]) else [])"

definition range_of :: "f64 list \<Rightarrow> column_stats \<Rightarrow> bool" where
  "range_of vs st \<longleftrightarrow>
     (st_has_value st \<longleftrightarrow> vs \<noteq> []) \<and>
     (vs \<noteq> [] \<and> f64_nan (hd vs) \<longrightarrow> f64_nan (st_min st) \<and> f64_nan (st_max st)) \<and>
     (vs \<noteq> [] \<and> (\<forall>x\<in>set vs. \<not> f64_nan x) \<longrightarrow>
        st_min st \<in> set vs \<and> st_max st \<in> set vs \<and>
        (\<forall>x\<in>set vs. f64_le (st_min st) x \<and> f64_le x (st_max st)))"

definition trend_of :: "f64 list \<Rightarrow> stats_loop \<Rightarrow> bool" where
  "trend_of vs s \<longleftrightarrow>
     (sl_has_prev s \<longleftrightarrow> vs \<noteq> []) \<and> (vs \<noteq> [] \<longrightarrow> sl_prev_value s = last vs) \<and>
     ((\<forall>x\<in>set vs. \<not> f64_nan x) \<longrightarrow>
        (sl_non_decreasing s \<longleftrightarrow> sorted_wrt f64_le vs) \<and>
        (sl_non_increasing s \<longleftrightarrow> sorted_wrt f64_ge vs))"

definition stats_of :: "field_vector \<Rightarrow> nat \<Rightarrow> stats_loop \<Rightarrow> bool" where
  "stats_of f n s \<longleftrightarrow>
     range_of (valid_values f n) (sl_stats s) \<and> trend_of (valid_values f n) s \<and>
     st_value_count (sl_stats s) = of_nat (fv_size f) \<and>
     st_null_count (sl_stats s) = of_nat (length (filter (Not \<circ> fv_IsValid f) [0..<n]))"

lemma valid_values_Suc:
  "valid_values f (Suc n) =
     valid_values f n @ (if has_numeric_stats (fv_type f) \<and> fv_IsValid f n then [field_f64 f n] else [])"
  by (simp add: valid_values_def)

lemma update_range_of:
  assumes "range_of vs st"
  shows "range_of (vs @ [x]) (update_range x st)"
proof -
  show ?thesis
  proof (cases "vs = []")
    case True
    then show ?thesis using assms by (auto simp: range_of_def update_range_def f64_le_refl)
  next
    case False
    then have h: "st_has_value st" using assms by (simp add: range_of_def)
    show ?thesis
    proof (cases "\<forall>y\<in>set (vs @ [x]). \<not> f64_nan y")
      case True
      then have b: "st_min st \<in> set vs" "st_max st \<in> set vs"
        "\<And>y. y \<in> set vs \<Longrightarrow> f64_le (st_min st) y \<and> f64_le y (st_max st)"
        using assms False by (auto simp: range_of_def)
      then have nn: "\<not> f64_nan (st_min st)" "\<not> f64_nan (st_max st)" "\<not> f64_nan x" using True by auto
      let ?mn = "if f64_lt x (st_min st) then x else st_min st"
      let ?mx = "if f64_lt (st_max st) x then x else st_max st"
      have mn: "f64_le ?mn x" "f64_le ?mn (st_min st)" and mx: "f64_le x ?mx" "f64_le (st_max st) ?mx"
        using nn by (auto simp: f64_cmp_defs)
      have "f64_le ?mn y \<and> f64_le y ?mx" if "y \<in> set (vs @ [x])" for y
      proof (cases "y = x")
        case True
        with mn(1) mx(1) show ?thesis by blast
      next
        case False
        then have "y \<in> set vs" using that by simp
        then show ?thesis using b(3) [of y] f64_le_trans [OF mn(2)] f64_le_trans [OF _ mx(2)] by blast
      qed
      then show ?thesis
        using b(1,2) h True \<open>vs \<noteq> []\<close> by (auto simp: range_of_def update_range_def)
    next
      case nan: False
      have "f64_nan (hd vs) \<longrightarrow> f64_nan (st_min st) \<and> f64_nan (st_max st)"
        using assms False by (simp add: range_of_def)
      then have "f64_nan (hd vs) \<longrightarrow>
          f64_nan (st_min (update_range x st)) \<and> f64_nan (st_max (update_range x st))"
        using h by (simp add: update_range_def)
      moreover have "st_has_value (update_range x st)" using h by (simp add: update_range_def)
      ultimately show ?thesis using nan False unfolding range_of_def by (metis append_is_Nil_conv hd_append2 list.discI)
    qed
  qed
qed

lemma sorted_wrt_snoc:
  assumes "transp R" and "vs \<noteq> []"
  shows "sorted_wrt R (vs @ [x]) \<longleftrightarrow> sorted_wrt R vs \<and> R (last vs) x"
proof
  assume "sorted_wrt R (vs @ [x])"
  then show "sorted_wrt R vs \<and> R (last vs) x" using assms(2) by (simp add: sorted_wrt_append)
next
  assume a: "sorted_wrt R vs \<and> R (last vs) x"
  have "sorted_wrt R (butlast vs @ [last vs])" using a assms(2) by simp
  then have "R y (last vs)" if "y \<in> set (butlast vs)" for y
    using that by (simp add: sorted_wrt_append del: append_butlast_last_id)
  moreover have "set vs = insert (last vs) (set (butlast vs))"
    using assms(2) by (metis append_butlast_last_id list.simps(15) rotate1.simps(2) set_rotate1)
  ultimately have "R y x" if "y \<in> set vs" for y
    using that a transpD [OF assms(1), of y "last vs" x] by auto
  then show "sorted_wrt R (vs @ [x])" using a by (simp add: sorted_wrt_append)
qed

lemma f64_le_transp: "transp f64_le" "transp f64_ge"
  by (auto simp: transp_def intro: f64_le_trans)

lemma update_trend_of:
  assumes "trend_of vs s"
  shows "trend_of (vs @ [x]) (update_monotonic x s)"
proof (cases "vs = []")
  case True
  then show ?thesis using assms by (simp add: trend_of_def update_monotonic_def)
next
  case False
  have "\<not> f64_lt x (last vs) \<longleftrightarrow> f64_le (last vs) x" "\<not> f64_lt (last vs) x \<longleftrightarrow> f64_le x (last vs)"
    if "\<forall>y\<in>set (vs @ [x]). \<not> f64_nan y"
    using that False f64_not_lt by simp_all
  then show ?thesis
    using assms False by (auto simp: trend_of_def update_monotonic_def sorted_wrt_snoc f64_le_transp)
qed

text \<open>One row of the loop on the parts the invariant speaks of.\<close>

lemma add_sample_frame [simp]:
  "sl_stats (add_sample k h s) = sl_stats s"
  "sl_has_prev (add_sample k h s) = sl_has_prev s" "sl_prev_value (add_sample k h s) = sl_prev_value s"
  "sl_non_decreasing (add_sample k h s) = sl_non_decreasing s"
  "sl_non_increasing (add_sample k h s) = sl_non_increasing s"
  by (simp_all add: add_sample_def)

lemma update_monotonic_stats [simp]: "sl_stats (update_monotonic x s) = sl_stats s"
  by (simp add: update_monotonic_def)

lemma update_range_counts [simp]:
  "st_value_count (update_range x st) = st_value_count st"
  "st_null_count (update_range x st) = st_null_count st"
  by (simp_all add: update_range_def)

lemma trend_of_frame:
  assumes "trend_of vs s" and "sl_has_prev s' = sl_has_prev s" and "sl_prev_value s' = sl_prev_value s"
    and "sl_non_decreasing s' = sl_non_decreasing s" and "sl_non_increasing s' = sl_non_increasing s"
  shows "trend_of vs s'"
  using assms by (simp add: trend_of_def)

lemma stats_row_of:
  assumes "stats_of f n s"
  shows "stats_of f (Suc n) (stats_row f stride n s)"
proof -
  have a: "range_of (valid_values f n) (sl_stats s)" "trend_of (valid_values f n) s"
    "st_value_count (sl_stats s) = of_nat (fv_size f)"
    "st_null_count (sl_stats s) = of_nat (length (filter (Not \<circ> fv_IsValid f) [0..<n]))"
    using assms by (simp_all add: stats_of_def)
  show ?thesis
  proof (cases "fv_IsValid f n")
    case False
    have "trend_of (valid_values f n) (count_null s)" "range_of (valid_values f n) (sl_stats (count_null s))"
      using a(1,2) by (simp_all add: count_null_def trend_of_def range_of_def)
    with a(3,4) False show ?thesis
      by (simp add: stats_of_def stats_row_def valid_values_Suc count_null_def)
  next
    case True
    show ?thesis
    proof (cases "has_numeric_stats (fv_type f)")
      case False
      with True a show ?thesis by (simp add: stats_of_def stats_row_def valid_values_Suc)
    next
      case num: True
      let ?x = "field_f64 f n"
      have "trend_of (valid_values f n @ [?x]) (stats_row f stride n s)"
        by (rule trend_of_frame [OF update_trend_of [OF a(2), of ?x]])
           (use True num in \<open>simp_all add: stats_row_def Let_def\<close>)
      moreover have "sl_stats (stats_row f stride n s) = update_range ?x (sl_stats s)"
        using True num by (simp add: stats_row_def Let_def)
      ultimately show ?thesis
        using True num a(3,4) update_range_of [OF a(1), of ?x]
        by (simp add: stats_of_def valid_values_Suc)
    qed
  qed
qed

lemma stats_loop_of:
  "stats_of f (fv_size f) (for_loop 0 (fv_size f) (stats_row f stride) (stats_loop_new (fv_size f)))"
proof (rule for_loop_inv [where P = "\<lambda>n. stats_of f n"])
  show "stats_of f 0 (stats_loop_new (fv_size f))"
    by (simp add: stats_of_def range_of_def trend_of_def valid_values_def stats_loop_new_def stats_new_def)
qed (simp_all add: stats_row_of)

section \<open>What the statistics mean\<close>

abbreviation column_values :: "field_vector \<Rightarrow> f64 list" where
  "column_values f \<equiv> valid_values f (fv_size f)"

lemma finish_hint_frame [simp]:
  "st_min (finish_hint s) = st_min (sl_stats s)" "st_max (finish_hint s) = st_max (sl_stats s)"
  "st_value_count (finish_hint s) = st_value_count (sl_stats s)"
  "st_null_count (finish_hint s) = st_null_count (sl_stats s)"
  "st_has_value (finish_hint s) = st_has_value (sl_stats s)"
  by (simp_all add: finish_hint_def Let_def)

lemma column_stats_range: "range_of (column_values f) (column_ComputeStats f)"
  using stats_loop_of [of f "stats_stride (fv_size f)"]
  by (simp add: column_ComputeStats_def Let_def stats_of_def range_of_def)

lemma column_stats_counts:
  "st_value_count (column_ComputeStats f) = of_nat (fv_size f)"
  "st_null_count (column_ComputeStats f) = of_nat (length (filter (Not \<circ> fv_IsValid f) [0..<fv_size f]))"
  using stats_loop_of [of f "stats_stride (fv_size f)"]
  by (simp_all add: column_ComputeStats_def Let_def stats_of_def)

lemma column_stats_hint:
  assumes "column_values f \<noteq> []" and "\<forall>x\<in>set (column_values f). \<not> f64_nan x"
  shows "st_monotonic_hint (column_ComputeStats f) =
         (if sorted_wrt f64_le (column_values f) then 1
          else if sorted_wrt f64_ge (column_values f) then 2 else 3)"
  using stats_loop_of [of f "stats_stride (fv_size f)"] assms
  by (auto simp: column_ComputeStats_def Let_def stats_of_def finish_hint_def trend_of_def range_of_def)

lemma sint_scast_i32: "sint (scast (x :: u32) :: u64) = sint x"
  using sint_greater_eq [of x] sint_less [of x]
  by (simp add: signed_scast_eq signed_take_bit_int_eq_self)

lemma field_f64_of_i64:
  assumes "is_encodable (fv_type f)"
  shows "field_f64 f i = f64_of_int (sint (field_i64 f i))"
  using assms by (auto simp: is_encodable_def field_f64_def field_i64_def sint_scast_i32)

lemma example_column_f64:
  "field_f64 example_column 0 = f64_of_int 7" "field_f64 example_column 2 = f64_of_int 300"
  by (simp_all add: field_f64_of_i64 [OF example_column_inv(2)] example_column_cells)

section \<open>Zone maps\<close>

lemma zone_map_sound:
  assumes "\<And>j. j < fv_size f \<Longrightarrow> fv_IsValid f j \<Longrightarrow> \<not> f64_nan (field_f64 f j)"
    and "i < fv_size f" and "fv_IsValid f i" and "CompareFloat64 (field_f64 f i) v op"
  shows "SegmentMatchesPredicate (column_ComputeStats f) op v"
proof (cases "has_numeric_stats (fv_type f)")
  case True
  then have x: "field_f64 f i \<in> set (column_values f)" and nn: "\<forall>x\<in>set (column_values f). \<not> f64_nan x"
    using assms(1-3) by (auto simp: valid_values_def)
  from x nn column_stats_range [of f]
  have "f64_le (st_min (column_ComputeStats f)) (field_f64 f i)"
    "f64_le (field_f64 f i) (st_max (column_ComputeStats f))"
    by (auto simp: range_of_def)
  then show ?thesis
    using PredicateCanMatchRange_sound [OF _ _ assms(4)] by (simp add: SegmentMatchesPredicate_def)
next
  case False
  then show ?thesis
    using column_stats_range [of f] by (simp add: SegmentMatchesPredicate_def range_of_def valid_values_def)
qed

text \<open>
  C11. Zone-map pruning is sound: a segment is never pruned when one of its valid rows,
  read as a double, satisfies the comparison, for every operator and every constant (NaN and
  infinities included), as long as no valid row is NaN.
\<close>
theorem SegmentMatchesPredicate_sound:
  assumes "\<And>j. j < fv_size f \<Longrightarrow> fv_IsValid f j \<Longrightarrow> \<not> f64_nan (field_f64 f j)"
    and "i < fv_size f" and "fv_IsValid f i" and "CompareFloat64 (field_f64 f i) v op"
  shows "SegmentMatchesPredicate (column_ComputeStats f) op v"
  using assms by (rule zone_map_sound)

theorem SegmentMatchesPredicate_sound_witness:
  "SegmentMatchesPredicate (column_ComputeStats example_column) kGt (f64_of_int 200)"
proof (rule SegmentMatchesPredicate_sound [of _ 2])
  show "\<not> f64_nan (field_f64 example_column j)" for j
    by (simp add: field_f64_def example_column_cells)
  show "CompareFloat64 (field_f64 example_column 2) (f64_of_int 200) kGt"
    by (simp add: CompareFloat64_def example_column_f64 f64_of_int_cmp)
qed (simp_all add: example_column_cells)

text \<open>
  C38. Defect: when the first valid row of a column is NaN the zone map stays NaN, and every
  segment is pruned for \<open>=\<close>, \<open><\<close>, \<open>\<le>\<close>, \<open>>\<close> and \<open>\<ge>\<close>, whatever its other rows hold: a row that
  satisfies the comparison is lost.
\<close>
theorem zone_map_poisoned_by_nan:
  assumes "fv_type f = kFloat64" and "k < fv_size f" and "fv_IsValid f k"
    and "\<And>j. j < k \<Longrightarrow> \<not> fv_IsValid f j" and "f64_nan (fv_f64 f ! k)"
  shows "SegmentMatchesPredicate (column_ComputeStats f) op v \<longleftrightarrow> op = kNe"
proof -
  have "filter (fv_IsValid f) [0..<k] = []" using assms(4) by (simp add: filter_empty_conv)
  moreover have "[0..<fv_size f] = [0..<k] @ k # [Suc k..<fv_size f]"
    using assms(2) upt_add_eq_append [of 0 k "fv_size f - k"] by (simp add: upt_conv_Cons)
  ultimately have "column_values f = field_f64 f k # map (field_f64 f) (filter (fv_IsValid f) [Suc k..<fv_size f])"
    using assms(1,3) by (simp add: valid_values_def has_numeric_stats_def)
  moreover have "f64_nan (field_f64 f k)" using assms(1,5) by (simp add: field_f64_def)
  ultimately show ?thesis
    using column_stats_range [of f] PredicateCanMatchRange_nan
    by (simp add: range_of_def SegmentMatchesPredicate_def)
qed

theorem zone_map_poisoned_by_nan_witness:
  "\<exists>f. fv_cells f = [CFloat64 f64_quiet_nan, CFloat64 0] \<and> CompareFloat64 0 0 kEq \<and>
     \<not> SegmentMatchesPredicate (column_ComputeStats f) kEq 0"
proof -
  let ?f = "snd (fv_AppendFloat64 (snd (fv_AppendFloat64 (fv_new [97] kFloat64) f64_quiet_nan)) 0)"
  have nan: "f64_nan f64_quiet_nan" by (simp add: f64_nan_def f64_mag_def f64_inf_mag_def f64_quiet_nan_def)
  have "fv_type ?f = kFloat64" "0 < fv_size ?f" "fv_IsValid ?f 0" "fv_f64 ?f ! 0 = f64_quiet_nan"
    by code_simp+
  then have "\<not> SegmentMatchesPredicate (column_ComputeStats ?f) kEq 0"
    using zone_map_poisoned_by_nan [of ?f 0 kEq 0] nan by simp
  moreover have "fv_cells ?f = [CFloat64 f64_quiet_nan, CFloat64 0]" by code_simp
  moreover have "CompareFloat64 0 0 kEq"
    by (simp add: CompareFloat64_def f64_eq_def f64_nan_def f64_mag_def)
  ultimately show ?thesis by blast
qed

text \<open>The counts and the monotonicity hint are exact: the null count is the number of
  rows the bitmap marks null, and for a column with a valid row and no NaN the hint is 1 when
  the valid rows never decrease, 2 when they never increase (and do decrease), 3 otherwise.
\<close>
theorem column_stats_counts_and_hint:
  assumes "has_numeric_stats (fv_type f)" and "\<exists>i<fv_size f. fv_IsValid f i"
    and "\<And>i. i < fv_size f \<Longrightarrow> fv_IsValid f i \<Longrightarrow> \<not> f64_nan (field_f64 f i)"
  shows "let vs = map (field_f64 f) (filter (fv_IsValid f) [0..<fv_size f]);
             st = column_ComputeStats f
         in st_has_value st \<and> st_value_count st = of_nat (fv_size f) \<and>
            st_null_count st = of_nat (fv_size f - length vs) \<and>
            st_monotonic_hint st =
              (if sorted_wrt f64_le vs then 1 else if sorted_wrt f64_ge vs then 2 else 3)"
proof -
  let ?vs = "map (field_f64 f) (filter (fv_IsValid f) [0..<fv_size f])"
  have vs: "column_values f = ?vs" using assms(1) by (simp add: valid_values_def)
  have "?vs \<noteq> []" using assms(2) by (auto simp: filter_empty_conv)
  moreover have "\<forall>x\<in>set ?vs. \<not> f64_nan x" using assms(3) by auto
  moreover have "length (filter (Not \<circ> fv_IsValid f) [0..<fv_size f]) = fv_size f - length ?vs"
    using sum_length_filter_compl [of "fv_IsValid f" "[0..<fv_size f]"] by (simp add: comp_def)
  ultimately show ?thesis
    using column_stats_range [of f] column_stats_counts [of f] column_stats_hint [of f]
    unfolding vs Let_def range_of_def by simp
qed

theorem column_stats_counts_and_hint_witness:
  "st_null_count (column_ComputeStats example_column) = 1 \<and>
   st_monotonic_hint (column_ComputeStats example_column) = 1"
proof -
  have v: "filter (fv_IsValid example_column) [0..<3] = [0, 2]" by code_simp
  have s: "sorted_wrt f64_le (map (field_f64 example_column) [0, 2])"
    by (simp add: example_column_f64 f64_of_int_cmp)
  have "let vs = map (field_f64 example_column) (filter (fv_IsValid example_column) [0..<fv_size example_column]);
             st = column_ComputeStats example_column
         in st_has_value st \<and> st_value_count st = of_nat (fv_size example_column) \<and>
            st_null_count st = of_nat (fv_size example_column - length vs) \<and>
            st_monotonic_hint st =
              (if sorted_wrt f64_le vs then 1 else if sorted_wrt f64_ge vs then 2 else 3)"
    by (rule column_stats_counts_and_hint)
       (auto simp: example_column_cells has_numeric_stats_def field_f64_def intro: exI [of _ 0])
  then show ?thesis using v s by (simp add: example_column_cells Let_def)
qed

end
