(* ===== verification/ChooseProps.thy ===== *)
theory ChooseProps
  imports StatsProps
begin

text \<open>
  The kind \<open>ChooseCompression\<close> picks from the statistics of an integer column: lossless
  as long as the values are integers a double represents, and not beyond.
\<close>

lemma min_loop_in:
  "for_loop 0 n (min_step f) None = Some mn \<Longrightarrow> \<exists>i<n. fv_IsValid f i \<and> mn = field_i64 f i"
proof (induction n arbitrary: mn)
  case 0
  then show ?case by simp
next
  case (Suc n)
  then show ?case
    by (cases "for_loop 0 n (min_step f) None")
       (auto simp: for_loop_Suc min_step_simps less_Suc_eq split: if_splits)
qed

lemma deltas_fit_range:
  assumes "\<And>i. i < fv_size f \<Longrightarrow> fv_IsValid f i \<Longrightarrow> a \<le> sint (field_i64 f i) \<and> sint (field_i64 f i) \<le> b"
    and "b - a < 2 ^ k"
  shows "deltas_fit f k"
proof -
  have "unat (field_i64 f i - delta_base f) < 2 ^ k" if i: "i < fv_size f" "fv_IsValid f i" for i
  proof -
    obtain mn where mn: "for_loop 0 (fv_size f) (min_step f) None = Some mn"
      using min_loop [of "fv_size f" f] i by (auto split: option.splits)
    then have base: "delta_base f = mn" by (simp add: delta_base_def)
    have "sint mn \<le> sint (field_i64 f i)" using min_loop [of "fv_size f" f] mn i by simp
    from unat_diff_signed [OF this] have "int (unat (field_i64 f i - mn)) = sint (field_i64 f i) - sint mn" .
    also have "\<dots> \<le> b - a" using min_loop_in [OF mn] assms(1) [OF i] assms(1) by fastforce
    finally have "int (unat (field_i64 f i - mn)) < int (2 ^ k)" using assms(2) by simp
    then show ?thesis unfolding base by (simp only: of_nat_less_iff)
  qed
  then show ?thesis by (simp add: deltas_fit_def)
qed

text \<open>The range of an integer column as the statistics hold it.\<close>

lemma encodable_numeric: "is_encodable t \<Longrightarrow> has_numeric_stats t"
  by (auto simp: is_encodable_def has_numeric_stats_def)

lemma int_column_range:
  assumes "is_encodable (fv_type f)" and "st_has_value (column_ComputeStats f)"
    and small: "\<And>i. i < fv_size f \<Longrightarrow> fv_IsValid f i \<Longrightarrow> small_int (sint (field_i64 f i))"
  obtains a b where "st_min (column_ComputeStats f) = f64_of_int a" and "st_max (column_ComputeStats f) = f64_of_int b"
    and "small_int a" and "small_int b" and "a \<le> b"
    and "\<And>i. i < fv_size f \<Longrightarrow> fv_IsValid f i \<Longrightarrow> a \<le> sint (field_i64 f i) \<and> sint (field_i64 f i) \<le> b"
proof -
  have set: "set (column_values f) = (\<lambda>i. f64_of_int (sint (field_i64 f i))) ` {i. i < fv_size f \<and> fv_IsValid f i}"
    using assms(1) by (auto simp: valid_values_def encodable_numeric field_f64_of_i64)
  let ?st = "column_ComputeStats f"
  have r: "st_min ?st \<in> set (column_values f)" "st_max ?st \<in> set (column_values f)"
    "\<And>x. x \<in> set (column_values f) \<Longrightarrow> f64_le (st_min ?st) x \<and> f64_le x (st_max ?st)"
    using column_stats_range [of f] assms(2) set by (auto simp: range_of_def)
  from r(1,2) obtain i j where i: "i < fv_size f" "fv_IsValid f i" "st_min ?st = f64_of_int (sint (field_i64 f i))"
    and j: "j < fv_size f" "fv_IsValid f j" "st_max ?st = f64_of_int (sint (field_i64 f j))"
    by (auto simp: set)
  have le: "sint (field_i64 f i) \<le> sint (field_i64 f k) \<and> sint (field_i64 f k) \<le> sint (field_i64 f j)"
    if "k < fv_size f" "fv_IsValid f k" for k
  proof -
    have "f64_of_int (sint (field_i64 f k)) \<in> set (column_values f)" using that by (auto simp: set)
    from r(3) [OF this] show ?thesis
      unfolding i(3) j(3) using f64_of_int_cmp(2) small that i(1,2) j(1,2) by blast
  qed
  show ?thesis
    using that [OF i(3) j(3) small [OF i(1,2)] small [OF j(1,2)] _ le] le [OF i(1,2)] by blast
qed

text \<open>What the choice tests, in terms of the range.\<close>

lemma ChooseCompression_cases:
  fixes st defines "r \<equiv> f64_sub (st_max st) (st_min st)"
  assumes "\<not> f64_lt r 0"
  shows "ChooseCompression cfg st t = CkForDelta \<Longrightarrow>
           st_has_value st \<and> f64_le r (f64_of_int (uint kCompressionForDeltaMaxRange))"
    and "ChooseCompression cfg st t = CkBitPacked \<Longrightarrow>
           st_has_value st \<and> (of_nat (f64_trunc r) :: u64) \<le> 0xFFFF"
proof -
  have lim: "bit_limit bits \<le> 0xFFFF" if "bits \<in> set [1, 2, 4, 8, kCompressionBitpackMaxBits]" for bits
    using that by (auto simp: bit_limit_def kCompressionBitpackMaxBits_def)
  show "ChooseCompression cfg st t = CkForDelta \<Longrightarrow>
      st_has_value st \<and> f64_le r (f64_of_int (uint kCompressionForDeltaMaxRange))"
    using assms by (simp add: ChooseCompression_def Let_def split: if_splits)
  assume "ChooseCompression cfg st t = CkBitPacked"
  then have h: "st_has_value st" and
    "\<exists>bits\<in>set [1, 2, 4, 8, kCompressionBitpackMaxBits].
       (if f64_gt r (f64_of_int (2 ^ 64 - 1)) then - 1 else of_nat (f64_trunc r)) \<le> bit_limit bits"
    using assms by (simp_all add: ChooseCompression_def Let_def split: if_splits)
  with lim have "(if f64_gt r (f64_of_int (2 ^ 64 - 1)) then - 1 else of_nat (f64_trunc r) :: u64) \<le> 0xFFFF"
    by (meson order_trans)
  moreover have "\<not> (- 1 :: u64) \<le> 0xFFFF"
    by (simp add: word_le_nat_alt unsigned_minus_1_eq_mask mask_eq_exp_minus_1)
  ultimately show "st_has_value st \<and> (of_nat (f64_trunc r) :: u64) \<le> 0xFFFF"
    using h by (cases "f64_gt r (f64_of_int (2 ^ 64 - 1))") (simp_all only: if_True if_False simp_thms)
qed

lemma ChooseCompression_int_fits:
  assumes enc: "is_encodable (fv_type f)"
    and small: "\<And>i. i < fv_size f \<Longrightarrow> fv_IsValid f i \<Longrightarrow> small_int (sint (field_i64 f i))"
  shows "ChooseCompression cfg (column_ComputeStats f) (fv_type f) = CkBitPacked \<Longrightarrow> deltas_fit f 16"
    and "ChooseCompression cfg (column_ComputeStats f) (fv_type f) = CkForDelta \<Longrightarrow> deltas_fit f 32"
proof -
  let ?st = "column_ComputeStats f"
  have *: "deltas_fit f 16 \<or> \<not> (of_nat (f64_trunc (f64_sub (st_max ?st) (st_min ?st))) :: u64) \<le> 0xFFFF"
    "deltas_fit f 32 \<or> \<not> f64_le (f64_sub (st_max ?st) (st_min ?st)) (f64_of_int (uint kCompressionForDeltaMaxRange))"
    "\<not> f64_lt (f64_sub (st_max ?st) (st_min ?st)) 0"
    if "st_has_value ?st"
  proof -
    from int_column_range [OF enc that small] obtain a b where
      ab: "st_min ?st = f64_of_int a" "st_max ?st = f64_of_int b" "small_int a" "small_int b" "a \<le> b"
      and le: "\<And>i. i < fv_size f \<Longrightarrow> fv_IsValid f i \<Longrightarrow> a \<le> sint (field_i64 f i) \<and> sint (field_i64 f i) \<le> b"
      by blast
    define n where "n = nat (b - a)"
    have n: "b - a = int n" "n < 2 ^ 54" using ab by (auto simp: n_def)
    have r: "f64_sub (st_max ?st) (st_min ?st) = f64_of_int (int n)"
      using f64_sub_of_int [OF ab(4,3)] n(1) ab(1,2) by simp
    show "\<not> f64_lt (f64_sub (st_max ?st) (st_min ?st)) 0"
      unfolding r by (simp add: f64_lt_def f64_key_def f64_mag_def)
    have t: "unat (of_nat (f64_trunc (f64_of_int (int n))) :: u64) = f64_trunc (f64_of_int (int n))"
      using f64_trunc_54(1) [OF n(2)] by (simp add: unat_of_nat take_bit_nat_eq_self)
    show "deltas_fit f 16 \<or> \<not> (of_nat (f64_trunc (f64_sub (st_max ?st) (st_min ?st))) :: u64) \<le> 0xFFFF"
      using deltas_fit_range [OF le, of 16] f64_trunc_54(2) [OF n(2), of "0xFFFF"] n(1)
      unfolding r by (auto simp: word_le_nat_alt t)
    have "uint kCompressionForDeltaMaxRange = int (2 ^ 20)" by (simp add: kCompressionForDeltaMaxRange_def)
    then show "deltas_fit f 32 \<or>
        \<not> f64_le (f64_sub (st_max ?st) (st_min ?st)) (f64_of_int (uint kCompressionForDeltaMaxRange))"
      using deltas_fit_range [OF le, of 32] f64_le_of_int_54 [OF n(2), of "2 ^ 20"] n(1)
      unfolding r by auto
  qed
  have none: "ChooseCompression cfg ?st (fv_type f) = CkNone" if "\<not> st_has_value ?st"
    using that by (simp add: ChooseCompression_def)
  show "ChooseCompression cfg ?st (fv_type f) = CkBitPacked \<Longrightarrow> deltas_fit f 16"
    using * ChooseCompression_cases(2) [of ?st cfg "fv_type f"] none by (cases "st_has_value ?st") auto
  show "ChooseCompression cfg ?st (fv_type f) = CkForDelta \<Longrightarrow> deltas_fit f 32"
    using * ChooseCompression_cases(1) [of ?st cfg "fv_type f"] none by (cases "st_has_value ?st") auto
qed

end
