(* ===== verification/Segment.thy ===== *)
theory Segment
  imports Stats
begin

text \<open>
  \<open>engine/src/segment.cpp\<close>: a segment owns the columns of a run of rows, their
  statistics and, once it is full (sealed), a compressed view of each column.  A column whose
  encoding is kept loses its own storage; one whose encoding is not worth it keeps it and
  gets a view of it.  Copies out of a column's storage and encodings of it are \<open>None\<close> when
  the storage is shorter than the column's row count says.

  A view's pointers are modelled by the bytes they point at when the view is made.  The
  global \<open>g_compression_config\<close> is the parameter \<open>cfg\<close>.
\<close>

section \<open>State\<close>

record segment =
  sg_row_capacity :: nat
  sg_row_count :: nat
  sg_fields :: "field_vector list"
  sg_format :: nat
  sg_sealed :: bool
  sg_stats :: "column_stats list"
  sg_compression_kinds :: "compression_kind list"
  sg_compressed_columns :: "compressed_view list"
  sg_compressed_data :: "u8 list list"
  sg_compressed_aux :: "u8 list list"
  sg_compressed_validity :: "u64 list list"
  sg_compression_ready :: bool

definition ResolveRowCount :: "field_vector list \<Rightarrow> nat \<Rightarrow> nat" where
  "ResolveRowCount flds explicit_count =
     (if explicit_count \<noteq> 0 then explicit_count
      else case flds of [] \<Rightarrow> 0 | f # _ \<Rightarrow> fv_size f)"

section \<open>Encoding one column\<close>

text \<open>The bytes behind the data pointer of a column of each type.\<close>

definition field_storage :: "field_vector \<Rightarrow> u8 list" where
  "field_storage f =
     (case fv_type f of
        kInt32 \<Rightarrow> le_array 4 (fv_i32 f)
      | kInt64 \<Rightarrow> le_array 8 (fv_i64 f)
      | kFloat64 \<Rightarrow> le_array 8 (fv_f64 f)
      | kBool \<Rightarrow> fv_bool f
      | kDictInt32 \<Rightarrow> le_array 4 (fv_dict_ids f)
      | kObject \<Rightarrow> []
      | _ \<Rightarrow> fv_bytes f)"

text \<open>
  The encoders and the statistics read the storage at every valid row, and the statistics of
  a dictionary column the dictionary at its id.
\<close>

definition reads_ok :: "field_vector \<Rightarrow> bool" where
  "reads_ok f =
     list_all (\<lambda>i. fv_IsValid f i \<longrightarrow> i < fv_data_len f \<and>
                 (fv_type f = kDictInt32 \<longrightarrow> unat (fv_dict_ids f ! i) < length (dict_values (fv_dictionary f))))
       [0..<fv_size f]"

text \<open>\<open>EncodeLz4Literal\<close> or \<open>memcpy\<close> of \<open>n\<close> bytes.\<close>

definition copy_out :: "compression_kind \<Rightarrow> nat \<Rightarrow> u8 list \<Rightarrow> u8 list ub" where
  "copy_out kind n storage =
     do { src \<leftarrow> read_mem 0 n storage;
          if kind = CkLz4 then snd (EncodeLz4Literal src (Some [])) else Some src }"

definition encode_integers ::
  "compression_kind \<Rightarrow> field_vector \<Rightarrow> (compression_kind \<times> u8 list \<times> u8 list) ub" where
  "encode_integers kind f =
     (case kind of
        CkDictionary \<Rightarrow>
          if \<not> reads_ok f then None
          else (case EncodeDictionary f of
                  Some (data, aux) \<Rightarrow> Some (kind, data, aux) | None \<Rightarrow> Some (CkNone, [], []))
      | CkBitPacked \<Rightarrow>
          if \<not> reads_ok f then None
          else do { r \<leftarrow> EncodeBitpack f;
                    Some (case r of Some (data, aux) \<Rightarrow> (kind, data, aux) | None \<Rightarrow> (CkNone, [], [])) }
      | CkForDelta \<Rightarrow>
          if \<not> reads_ok f then None
          else (case EncodeForDelta f of
                  Some (data, aux) \<Rightarrow> Some (kind, data, aux) | None \<Rightarrow> Some (CkNone, [], []))
      | _ \<Rightarrow> do { data \<leftarrow> copy_out kind (raw_data_bytes f) (field_storage f); Some (kind, data, []) })"

definition encode_column ::
  "compression_kind \<Rightarrow> field_vector \<Rightarrow> (compression_kind \<times> u8 list \<times> u8 list) ub" where
  "encode_column kind f =
     (case fv_type f of
        kInt32 \<Rightarrow> encode_integers kind f
      | kInt64 \<Rightarrow> encode_integers kind f
      | kBool \<Rightarrow> encode_integers kind f
      | kFloat64 \<Rightarrow>
          do { data \<leftarrow> copy_out kind (raw_data_bytes f) (field_storage f); Some (kind, data, []) }
      | kDictInt32 \<Rightarrow>
          (let kind = (if kind \<in> {CkDictionary, CkBitPacked, CkForDelta} then CkNone else kind)
           in do { data \<leftarrow> copy_out kind (raw_data_bytes f) (field_storage f); Some (kind, data, []) })
      | kObject \<Rightarrow> Some (kind, [], [])
      | _ \<Rightarrow>
          do { aux \<leftarrow> copy_out kind (fv_size f * 4) (le_array 4 (fv_lengths f));
               data \<leftarrow> copy_out kind (fv_BytesSize f) (field_storage f);
               Some (kind, data, aux) })"

definition keep_kind ::
  "compression_config \<Rightarrow> field_vector \<Rightarrow> compression_kind \<Rightarrow> nat \<Rightarrow> compression_kind" where
  "keep_kind cfg f kind compressed_bytes =
     (if kind \<noteq> CkNone then
        let raw = raw_data_bytes f + raw_aux_bytes f;
            ratio = (if compressed_bytes = 0 then 0
                     else f64_div (f64_of_int (int raw)) (f64_of_int (int compressed_bytes)))
        in if compressed_bytes > raw \<or> f64_lt ratio (cfg_min_ratio cfg) then CkNone else kind
      else kind)"

record built_column =
  bc_kind :: compression_kind
  bc_data :: "u8 list"
  bc_aux :: "u8 list"
  bc_validity :: "u64 list"
  bc_view :: compressed_view
  bc_field :: field_vector

definition build_column :: "compression_config \<Rightarrow> compression_kind \<Rightarrow> field_vector \<Rightarrow> built_column ub" where
  "build_column cfg kind f =
     do { (kind, data, aux) \<leftarrow> encode_column kind f;
          let validity = validity_copy f;
          let kind = keep_kind cfg f kind (length data + length aux + length validity * 8);
          if kind = CkNone then
            Some \<lparr>bc_kind = kind, bc_data = [], bc_aux = [], bc_validity = [],
                  bc_view = MakeUncompressedView f, bc_field = f\<rparr>
          else
            Some \<lparr>bc_kind = kind, bc_data = data, bc_aux = aux, bc_validity = validity,
                  bc_view = encoded_view f kind data aux validity, bc_field = fv_ReleaseStorage f\<rparr> }"

section \<open>The segment\<close>

definition ResetCompression :: "segment \<Rightarrow> segment" where
  "ResetCompression sg =
     sg\<lparr>sg_compressed_columns := [], sg_compressed_data := [], sg_compressed_aux := [],
        sg_compressed_validity := [], sg_compression_ready := False\<rparr>"

definition build_step :: "compression_config \<Rightarrow> nat \<Rightarrow> segment \<Rightarrow> segment ub" where
  "build_step cfg i sg =
     do { b \<leftarrow> build_column cfg (sg_compression_kinds sg ! i) (sg_fields sg ! i);
          Some (sg\<lparr>sg_fields := (sg_fields sg)[i := bc_field b],
                   sg_compression_kinds := (sg_compression_kinds sg)[i := bc_kind b],
                   sg_compressed_columns := sg_compressed_columns sg @ [bc_view b],
                   sg_compressed_data := sg_compressed_data sg @ [bc_data b],
                   sg_compressed_aux := sg_compressed_aux sg @ [bc_aux b],
                   sg_compressed_validity := sg_compressed_validity sg @ [bc_validity b]\<rparr>) }"

definition BuildCompressionViews :: "compression_config \<Rightarrow> segment \<Rightarrow> segment ub" where
  "BuildCompressionViews cfg sg =
     (if \<not> sg_sealed sg \<or> sg_compression_ready sg then Some sg
      else
        do { sg \<leftarrow> for_ub 0 (length (sg_fields sg)) (build_step cfg)
                     (sg\<lparr>sg_compressed_columns := [], sg_compressed_data := [],
                         sg_compressed_aux := [], sg_compressed_validity := []\<rparr>);
             Some (sg\<lparr>sg_compression_ready := True\<rparr>) })"

definition ComputeStats :: "compression_config \<Rightarrow> bool \<Rightarrow> segment \<Rightarrow> segment ub" where
  "ComputeStats cfg build_compression sg =
     (if list_ex (\<lambda>f. has_numeric_stats (fv_type f) \<and> \<not> reads_ok f) (sg_fields sg) then None
      else
      let stats = map column_ComputeStats (sg_fields sg);
          kinds = (if build_compression
                   then map2 (\<lambda>st f. ChooseCompression cfg st (fv_type f)) stats (sg_fields sg)
                   else replicate (length (sg_fields sg)) CkNone);
          sg = sg\<lparr>sg_stats := stats, sg_compression_kinds := kinds\<rparr>
      in if build_compression then BuildCompressionViews cfg sg else Some sg)"

definition segment_blank :: "nat \<Rightarrow> segment" where
  "segment_blank row_capacity =
     \<lparr>sg_row_capacity = row_capacity, sg_row_count = 0, sg_fields = [], sg_format = row_capacity,
      sg_sealed = False, sg_stats = [], sg_compression_kinds = [], sg_compressed_columns = [],
      sg_compressed_data = [], sg_compressed_aux = [], sg_compressed_validity = [],
      sg_compression_ready = False\<rparr>"

text \<open>The three constructors.\<close>

definition segment_empty :: "compression_config \<Rightarrow> nat \<Rightarrow> field_vector list \<Rightarrow> segment ub" where
  "segment_empty cfg row_capacity flds =
     ComputeStats cfg True
       ((segment_blank row_capacity)\<lparr>sg_fields := map (\<lambda>f. fv_new (fv_name f) (fv_type f)) flds\<rparr>)"

definition segment_load ::
  "compression_config \<Rightarrow> nat \<Rightarrow> nat \<Rightarrow> field_vector list \<Rightarrow> bool \<Rightarrow> segment ub" where
  "segment_load cfg row_capacity row_count flds build_compression =
     (let row_count = ResolveRowCount flds row_count;
          row_count = (if row_count > row_capacity then row_capacity else row_count)
      in ComputeStats cfg build_compression
           ((segment_blank row_capacity)
              \<lparr>sg_row_count := row_count, sg_fields := flds, sg_sealed := (row_count \<ge> row_capacity)\<rparr>))"

definition segment_new ::
  "compression_config \<Rightarrow> nat \<Rightarrow> nat \<Rightarrow> field_vector list \<Rightarrow> segment ub" where
  "segment_new cfg row_capacity row_count flds = segment_load cfg row_capacity row_count flds True"

definition segment_Append :: "compression_config \<Rightarrow> nat \<Rightarrow> segment \<Rightarrow> (bool \<times> segment) ub" where
  "segment_Append cfg rows sg =
     (if rows = 0 \<or> sg_sealed sg \<or> sg_row_count sg + rows > sg_row_capacity sg then Some (False, sg)
      else
        let n = sg_row_count sg + rows;
            sg = sg\<lparr>sg_row_count := n, sg_fields := map (\<lambda>f. fv_Resize f n) (sg_fields sg)\<rparr>;
            sg = (if n = sg_row_capacity sg then sg\<lparr>sg_sealed := True\<rparr> else sg)
        in map_option (Pair True) (ComputeStats cfg True sg))"

definition segment_SchemaFingerprint :: "segment \<Rightarrow> u64" where
  "segment_SchemaFingerprint sg =
     (let hash = HashValue HashInit (le_bytes 8 (of_nat (length (sg_fields sg)) :: u64))
      in fold (\<lambda>f hash. HashValue (HashString hash (fv_name f)) [type_byte (fv_type f)])
           (sg_fields sg) hash)"

definition ReleaseFieldValues :: "nat \<Rightarrow> segment \<Rightarrow> segment" where
  "ReleaseFieldValues field_index sg =
     (if field_index < length (sg_fields sg)
      then sg\<lparr>sg_fields := (sg_fields sg)[field_index := fv_ReleaseValuesStorage (sg_fields sg ! field_index)]\<rparr>
      else sg)"

definition FieldValuesResident :: "nat \<Rightarrow> segment \<Rightarrow> bool" where
  "FieldValuesResident field_index sg \<longleftrightarrow>
     field_index < length (sg_fields sg) \<and> fv_ValuesResident (sg_fields sg ! field_index)"

definition SetCompressionKinds ::
  "compression_config \<Rightarrow> compression_kind list \<Rightarrow> segment \<Rightarrow> segment ub" where
  "SetCompressionKinds cfg kinds sg =
     (if length kinds \<noteq> length (sg_fields sg) then Some sg
      else BuildCompressionViews cfg (ResetCompression (sg\<lparr>sg_compression_kinds := kinds\<rparr>)))"

end
