(* ===== verification/SegmentProps.thy ===== *)
theory SegmentProps
  imports Segment ChooseProps
begin

text \<open>
  A sealed segment shows the values its columns were built from: building never leaves the
  columns' storage, every integer column is read, scanned and decoded through its view as the
  column was, and a column whose encoding is not kept stays as it is.
\<close>

section \<open>Building never goes out of bounds\<close>

lemma reads_ok_len: "fv_data_len f = fv_size f \<Longrightarrow> fv_type f \<noteq> kDictInt32 \<Longrightarrow> reads_ok f"
  by (simp add: reads_ok_def list_all_iff)

lemma reads_ok_inv: "fv_inv f \<Longrightarrow> reads_ok f"
  using dict_ids_ok [of f] by (auto simp: reads_ok_def list_all_iff fv_inv_def)

lemma length_field_storage:
  "fv_data_len f = fv_size f \<Longrightarrow> length (field_storage f) = raw_data_bytes f"
  by (cases "fv_type f") (auto simp: fv_data_len_def field_storage_def raw_data_bytes_def fv_BytesSize_def)

lemma EncodeLz4Literal_snd: "snd (EncodeLz4Literal src (Some out)) = Some (lz4_encoded src)"
  by (simp add: EncodeLz4Literal_def EncodeLz4LiteralBlock_def EncodeLz4LiteralBlock_from_eq
      lz4_encoded.simps [of "[]"])

lemma copy_out_eq:
  "length storage = n \<Longrightarrow> copy_out kind n storage = Some (if kind = CkLz4 then lz4_encoded storage else storage)"
  by (simp add: copy_out_def read_mem_def EncodeLz4Literal_snd)

lemma EncodeBitpack_total: "\<exists>r. EncodeBitpack f = Some r"
proof (cases "is_encodable (fv_type f)")
  case False
  then show ?thesis by (simp add: EncodeBitpack_def)
next
  case True
  let ?r = "for_loop 0 (fv_size f) (range_step f) None"
  define mn where "mn = (case ?r of None \<Rightarrow> 0 | Some (mn, _) \<Rightarrow> mn)"
  define rg where "rg = (case ?r of None \<Rightarrow> 0 | Some (mn, mx) \<Rightarrow> mx - mn)"
  define bits where "bits = ChooseBitWidth rg"
  define delta where "delta = (\<lambda>i. (if fv_IsValid f i then field_i64 f i else 0) - mn)"
  let ?b = "unat bits" and ?len = "(fv_size f * unat bits + 7) div 8"
  have "?b \<in> {1, 2, 4, 8, 16}" using ChooseBitWidth_cases [of rg] by (simp add: bits_def)
  then have b: "bits \<noteq> 0" "?b \<le> 64" by auto
  have len: "fv_size f * ?b \<le> 8 * ?len" by simp
  have "\<exists>d. for_ub 0 (fv_size f) (packed_step f mn bits) (replicate ?len 0) = Some d \<and>
          packed_ok ?len delta ?b (fv_size f) d"
  proof (rule for_ub_inv [where P = "packed_ok ?len delta ?b"])
    show "packed_ok ?len delta ?b 0 (replicate ?len 0)" by (simp add: packed_ok_def)
    show "\<exists>t'. packed_step f mn bits i t = Some t' \<and> packed_ok ?len delta ?b (Suc i) t'"
      if "i < fv_size f" "packed_ok ?len delta ?b i t" for i t
      using packed_step_ok [of ?len f mn bits i t] that(2) b row_fits [OF that(1) len]
      by (simp add: delta_def)
  qed simp
  then show ?thesis
    using True by (auto simp: EncodeBitpack_def Let_def mn_def [symmetric] rg_def [symmetric] bits_def [symmetric])
qed

lemma encode_integers_total:
  assumes len: "fv_data_len f = fv_size f" and "is_encodable (fv_type f)"
  shows "\<exists>r. encode_integers kind f = Some r"
proof -
  have "fv_type f \<noteq> kDictInt32" using assms(2) by (auto simp: is_encodable_def)
  note facts = reads_ok_len [OF len this] copy_out_eq [OF length_field_storage [OF len]]
  obtain r where "EncodeBitpack f = Some r" using EncodeBitpack_total by blast
  then show ?thesis
    by (cases kind; simp add: encode_integers_def facts split: option.split)
qed

lemma encode_column_total:
  assumes len: "fv_data_len f = fv_size f"
  shows "\<exists>r. encode_column kind f = Some r"
proof (cases "is_encodable (fv_type f)")
  case True
  then have "encode_column kind f = encode_integers kind f"
    by (auto simp: is_encodable_def encode_column_def)
  with encode_integers_total [OF assms True] show ?thesis by simp
next
  case False
  note copy = copy_out_eq [OF length_field_storage [OF len]]
  show ?thesis
  proof (cases "is_varlen (fv_type f)")
    case True
    then have "length (le_array 4 (fv_lengths f)) = fv_size f * 4" "fv_BytesSize f = raw_data_bytes f"
      using len by (auto simp: is_varlen_def fv_data_len_def raw_data_bytes_def)
    with True show ?thesis
      by (auto simp: is_varlen_def encode_column_def copy copy_out_eq)
  next
    case False
    with \<open>\<not> is_encodable (fv_type f)\<close> show ?thesis
      by (cases "fv_type f") (simp_all add: is_varlen_def is_encodable_def encode_column_def copy Let_def)
  qed
qed

lemma build_column_total:
  assumes "fv_data_len f = fv_size f"
  shows "\<exists>b. build_column cfg kind f = Some b"
proof -
  obtain k d a where "encode_column kind f = Some (k, d, a)"
    using encode_column_total [OF assms, of kind] by (metis prod_cases3)
  then show ?thesis by (simp add: build_column_def Let_def)
qed

section \<open>LZ4 encodings are never kept\<close>

lemma lz4_block_longer: "length (lz4_block xs) > length xs"
  by (simp add: lz4_block_def Let_def)

lemma lz4_encoded_longer: "xs \<noteq> [] \<Longrightarrow> length (lz4_encoded xs) > length xs"
proof (induction xs rule: lz4_encoded.induct)
  case (1 xs)
  let ?c = "take kLz4BlockSize xs" and ?rest = "drop kLz4BlockSize xs"
  have eq: "length (lz4_encoded xs) = length (lz4_block ?c) + length (lz4_encoded ?rest)"
    using 1(2) by (simp add: lz4_encoded.simps [of xs])
  have "length ?rest \<le> length (lz4_encoded ?rest)"
    using 1(1) [OF 1(2)] by (cases "?rest = []") (simp_all add: less_imp_le del: drop_eq_Nil)
  moreover have "length ?c < length (lz4_block ?c)" by (rule lz4_block_longer)
  moreover have "length xs = length ?c + length ?rest" by simp
  ultimately show ?case using eq by linarith
qed

lemma lz4_encoded_ge: "length xs \<le> length (lz4_encoded xs)"
  using lz4_encoded_longer [of xs] by (cases "xs = []") simp_all

lemma encode_column_lz4:
  assumes "encode_column kind f = Some (CkLz4, d, a)" and "fv_inv f"
    and "raw_data_bytes f + raw_aux_bytes f > 0"
  shows "length d + length a > raw_data_bytes f + raw_aux_bytes f"
proof -
  have len: "fv_data_len f = fv_size f" using assms(2) by (simp add: fv_inv_def)
  note copy = copy_out_eq [OF length_field_storage [OF len]]
  have grow: "length (lz4_encoded (field_storage f)) > raw_data_bytes f" if "raw_data_bytes f > 0"
    using lz4_encoded_longer [of "field_storage f"] length_field_storage [OF len] that
    by (metis length_greater_0_conv)
  show ?thesis
  proof (cases "is_varlen (fv_type f)")
    case True
    then have v: "length (le_array 4 (fv_lengths f)) = fv_size f * 4" "fv_BytesSize f = raw_data_bytes f"
      "raw_aux_bytes f = fv_size f * 4"
      using len by (auto simp: is_varlen_def fv_data_len_def raw_data_bytes_def raw_aux_bytes_def)
    have "d = lz4_encoded (field_storage f)" "a = lz4_encoded (le_array 4 (fv_lengths f))"
      using True assms(1) v
      by (auto simp: is_varlen_def encode_column_def copy copy_out_eq split: if_splits)
    moreover have "length (lz4_encoded (le_array 4 (fv_lengths f))) > raw_aux_bytes f" if "raw_aux_bytes f > 0"
      using lz4_encoded_longer [of "le_array 4 (fv_lengths f)"] v that by (metis length_greater_0_conv)
    moreover have "length (lz4_encoded (le_array 4 (fv_lengths f))) \<ge> raw_aux_bytes f"
      "length (lz4_encoded (field_storage f)) \<ge> raw_data_bytes f"
      using lz4_encoded_ge v length_field_storage [OF len] by metis+
    ultimately show ?thesis using grow assms(3) by (cases "raw_data_bytes f > 0") auto
  next
    case False
    then have raw: "raw_aux_bytes f = 0" by (simp add: raw_aux_bytes_def)
    then have "fv_type f \<noteq> kObject" using assms(3) by (auto simp: raw_data_bytes_def)
    with False assms(1) have "d = lz4_encoded (field_storage f)"
      by (cases "fv_type f"; cases kind)
         (auto simp: is_varlen_def encode_column_def encode_integers_def copy Let_def
           split: if_splits option.splits Option.bind_splits)
    then show ?thesis using grow assms(3) raw by auto
  qed
qed

lemma kept_not_lz4:
  assumes "build_column cfg kind f = Some b" and "fv_inv f" and "f64_lt 0 (cfg_min_ratio cfg) \<or> fv_size f > 0 \<and> fv_type f \<noteq> kObject"
  shows "bc_kind b \<noteq> CkLz4"
proof
  assume lz4: "bc_kind b = CkLz4"
  obtain k d a where e: "encode_column kind f = Some (k, d, a)"
    using assms(1) by (auto simp: build_column_def split: Option.bind_splits)
  let ?n = "length d + length a + length (validity_copy f) * 8"
  have "bc_kind b = keep_kind cfg f k ?n"
    using assms(1) e by (auto simp: build_column_def Let_def split: if_splits)
  then have keep: "keep_kind cfg f k ?n = CkLz4" and k: "k = CkLz4"
    using lz4 by (auto simp: keep_kind_def Let_def split: if_splits)
  show False
  proof (cases "raw_data_bytes f + raw_aux_bytes f > 0")
    case True
    from encode_column_lz4 [OF _ assms(2) True] e k have "?n > raw_data_bytes f + raw_aux_bytes f" by force
    with keep show False by (auto simp: keep_kind_def Let_def split: if_splits)
  next
    case False
    then have z: "raw_data_bytes f = 0" "raw_aux_bytes f = 0" by auto
    have "fv_size f = 0 \<or> fv_type f = kObject"
      using z by (cases "fv_type f") (auto simp: raw_data_bytes_def raw_aux_bytes_def is_varlen_def)
    then have lt: "f64_lt 0 (cfg_min_ratio cfg)" using assms(3) by auto
    show False
    proof (cases "?n = 0")
      case True
      with keep k lt show False by (simp add: keep_kind_def Let_def)
    next
      case False
      with keep k z show False by (simp add: keep_kind_def Let_def)
    qed
  qed
qed

section \<open>What a built column shows\<close>

lemma build_column_kind:
  assumes "encode_column kind f = Some (k, d, a)"
  shows "build_column cfg kind f = Some b \<Longrightarrow>
         bc_kind b = CkNone \<and> bc_view b = MakeUncompressedView f \<and> bc_field b = f \<or>
         k \<noteq> CkNone \<and> bc_kind b = k \<and> bc_view b = encoded_view f k d a (validity_copy f) \<and>
         bc_field b = fv_ReleaseStorage f"
  using assms by (auto simp: build_column_def keep_kind_def Let_def split: if_splits)

text \<open>The kinds the encoders of an integer column return.\<close>

lemma encode_integers_kind:
  assumes "encode_integers kind f = Some (k, d, a)" and "k \<noteq> CkNone"
  shows "k = kind" and "kind = CkDictionary \<Longrightarrow> EncodeDictionary f = Some (d, a)"
    and "kind = CkBitPacked \<Longrightarrow> EncodeBitpack f = Some (Some (d, a))"
    and "kind = CkForDelta \<Longrightarrow> EncodeForDelta f = Some (d, a)"
  using assms
  by (cases kind; auto simp: encode_integers_def split: if_splits option.splits Option.bind_splits)+

definition bool_cells_ok :: "field_vector \<Rightarrow> bool" where
  "bool_cells_ok f \<longleftrightarrow>
     (fv_type f = kBool \<longrightarrow> (\<forall>i<fv_size f. fv_IsValid f i \<longrightarrow> fv_bool f ! i \<le> 1))"

lemma build_column_correct:
  assumes inv: "fv_inv f" and enc: "is_encodable (fv_type f)" and rows: "0 < fv_size f" "fv_size f < 2 ^ 32"
    and bools: "bool_cells_ok f" and kind: "kind \<noteq> CkRle"
    and fit: "kind = CkBitPacked \<Longrightarrow> deltas_fit f 16" "kind = CkForDelta \<Longrightarrow> deltas_fit f 32"
    and b: "build_column cfg kind f = Some b"
  shows "view_faithful (bc_view b) f \<and> (bc_kind b \<noteq> CkNone \<longrightarrow> view_decodes (bc_view b) f)"
proof -
  obtain k d a where e: "encode_column kind f = Some (k, d, a)"
    using encode_column_total [of f kind] inv by (metis fv_inv_def prod_cases3)
  have obj: "fv_type f \<noteq> kObject" using enc by (auto simp: is_encodable_def)
  then have nolz4: "bc_kind b \<noteq> CkLz4" using kept_not_lz4 [OF b inv] rows(1) by blast
  consider "bc_kind b = CkNone" "bc_view b = MakeUncompressedView f"
    | "k \<noteq> CkNone" "bc_kind b = k" "bc_view b = encoded_view f k d a (validity_copy f)"
    using build_column_kind [OF e b] by blast
  then show ?thesis
  proof cases
    case 1
    then show ?thesis
      using uncompressed_view_correct [OF inv enc] bools by (simp add: bool_cells_ok_def)
  next
    case 2
    have "encode_integers kind f = Some (k, d, a)"
      using e enc by (auto simp: is_encodable_def encode_column_def)
    note k = encode_integers_kind [OF this 2(1)]
    consider "kind = CkDictionary" | "kind = CkBitPacked" | "kind = CkForDelta"
      using 2(1,2) k(1) kind nolz4 by (cases kind) auto
    then show ?thesis
    proof cases
      case 1
      then show ?thesis using dictionary_view_correct [OF inv enc rows(2)] k(1,2) 2(3) by auto
    next
      case b: 2
      then show ?thesis using bitpack_view_correct [OF inv enc fit(1)] k(1,3) 2(3) by auto
    next
      case 3
      then show ?thesis using fordelta_view_correct [OF inv enc fit(2)] k(1,4) 2(3) by auto
    qed
  qed
qed

lemmas build_column_faithful = build_column_correct [THEN conjunct1]
  and build_column_decodes = build_column_correct [THEN conjunct2]

section \<open>The loop over the columns\<close>

text \<open>After \<open>n\<close> columns: the first \<open>n\<close> are built, the others are as they were.\<close>

definition built_upto ::
  "compression_config \<Rightarrow> segment \<Rightarrow> nat \<Rightarrow> segment \<Rightarrow> bool" where
  "built_upto cfg sg n sg' \<longleftrightarrow>
     length (sg_fields sg') = length (sg_fields sg) \<and>
     length (sg_compression_kinds sg') = length (sg_compression_kinds sg) \<and>
     length (sg_compressed_columns sg') = n \<and>
     (\<forall>i. n \<le> i \<longrightarrow> i < length (sg_fields sg) \<longrightarrow> sg_fields sg' ! i = sg_fields sg ! i \<and>
            sg_compression_kinds sg' ! i = sg_compression_kinds sg ! i) \<and>
     (\<forall>i<n. \<exists>b. build_column cfg (sg_compression_kinds sg ! i) (sg_fields sg ! i) = Some b \<and>
          sg_fields sg' ! i = bc_field b \<and> sg_compression_kinds sg' ! i = bc_kind b \<and>
          sg_compressed_columns sg' ! i = bc_view b) \<and>
     sg_row_count sg' = sg_row_count sg \<and> sg_row_capacity sg' = sg_row_capacity sg \<and>
     sg_sealed sg' = sg_sealed sg \<and> sg_stats sg' = sg_stats sg"

lemma build_step_upto:
  assumes "built_upto cfg sg n sg'" and "n < length (sg_fields sg)"
    and "length (sg_compression_kinds sg) = length (sg_fields sg)"
    and "build_column cfg (sg_compression_kinds sg ! n) (sg_fields sg ! n) = Some b"
  shows "\<exists>sg''. build_step cfg n sg' = Some sg'' \<and> built_upto cfg sg (Suc n) sg''"
  using assms
  by (intro exI conjI)
     (auto simp: build_step_def built_upto_def nth_append nth_list_update less_Suc_eq)

lemma BuildCompressionViews_built:
  assumes "sg_sealed sg" and "\<not> sg_compression_ready sg"
    and "length (sg_compression_kinds sg) = length (sg_fields sg)"
    and "\<forall>f\<in>set (sg_fields sg). fv_data_len f = fv_size f"
  shows "\<exists>sg'. BuildCompressionViews cfg sg = Some sg' \<and> built_upto cfg sg (length (sg_fields sg)) sg' \<and>
           sg_compression_ready sg'"
proof -
  let ?clear = "sg\<lparr>sg_compressed_columns := [], sg_compressed_data := [],
                    sg_compressed_aux := [], sg_compressed_validity := []\<rparr>"
  have "\<exists>sg'. for_ub 0 (length (sg_fields sg)) (build_step cfg) ?clear = Some sg' \<and>
          built_upto cfg sg (length (sg_fields sg)) sg'"
  proof (rule for_ub_inv [where P = "built_upto cfg sg"])
    show "built_upto cfg sg 0 ?clear" by (simp add: built_upto_def)
    show "\<exists>t'. build_step cfg i t = Some t' \<and> built_upto cfg sg (Suc i) t'"
      if i: "i < length (sg_fields sg)" and t: "built_upto cfg sg i t" for i t
    proof -
      obtain b where "build_column cfg (sg_compression_kinds sg ! i) (sg_fields sg ! i) = Some b"
        using build_column_total assms(4) i by (meson nth_mem)
      from build_step_upto [OF t i assms(3) this] show ?thesis .
    qed
  qed simp
  then obtain sg' where "for_ub 0 (length (sg_fields sg)) (build_step cfg) ?clear = Some sg'"
    "built_upto cfg sg (length (sg_fields sg)) sg'" by blast
  then show ?thesis
    using assms(1,2) by (simp add: BuildCompressionViews_def built_upto_def)
qed

lemma BuildCompressionViews_unsealed [simp]:
  "\<not> sg_sealed sg \<Longrightarrow> BuildCompressionViews cfg sg = Some sg"
  by (simp add: BuildCompressionViews_def)

end
