(* ===== verification/SegmentFacts.thy ===== *)
theory SegmentFacts
  imports SegmentProps
begin

text \<open>
  The properties of whole segments: construction, sealing, growing and re-encoding.
\<close>

section \<open>Construction\<close>

lemma ChooseCompression_not_rle: "ChooseCompression cfg st t \<noteq> CkRle"
  by (simp add: ChooseCompression_def Let_def)

abbreviation chosen_kind :: "compression_config \<Rightarrow> field_vector \<Rightarrow> compression_kind" where
  "chosen_kind cfg f \<equiv> ChooseCompression cfg (column_ComputeStats f) (fv_type f)"

definition capped_rows :: "field_vector list \<Rightarrow> nat \<Rightarrow> nat \<Rightarrow> nat" where
  "capped_rows flds cap n = min (ResolveRowCount flds n) cap"

lemma no_bad_reads:
  "\<forall>f\<in>set flds. fv_inv f \<Longrightarrow> \<not> list_ex (\<lambda>f. has_numeric_stats (fv_type f) \<and> \<not> reads_ok f) flds"
  by (auto simp: list_ex_iff reads_ok_inv)

text \<open>
  A loaded segment: its rows and statistics, and when it is full a built column for each of
  the columns it was given.
\<close>

definition loaded_from ::
  "compression_config \<Rightarrow> nat \<Rightarrow> nat \<Rightarrow> field_vector list \<Rightarrow> segment \<Rightarrow> bool" where
  "loaded_from cfg cap n flds sg \<longleftrightarrow>
     sg_row_count sg = capped_rows flds cap n \<and> sg_row_capacity sg = cap \<and>
     (sg_sealed sg \<longleftrightarrow> cap \<le> ResolveRowCount flds n) \<and>
     sg_stats sg = map column_ComputeStats flds \<and>
     length (sg_fields sg) = length flds \<and> length (sg_compression_kinds sg) = length flds \<and>
     (if sg_sealed sg then
        length (sg_compressed_columns sg) = length flds \<and> sg_compression_ready sg \<and>
        (\<forall>i<length flds. \<exists>b. build_column cfg (chosen_kind cfg (flds ! i)) (flds ! i) = Some b \<and>
           sg_fields sg ! i = bc_field b \<and> sg_compression_kinds sg ! i = bc_kind b \<and>
           sg_compressed_columns sg ! i = bc_view b)
      else sg_fields sg = flds \<and> sg_compressed_columns sg = [] \<and>
        sg_compression_kinds sg = map (\<lambda>f. chosen_kind cfg f) flds)"

lemma loaded_from_column:
  assumes "loaded_from cfg cap n flds sg" and "sg_sealed sg" and "i < length flds"
  obtains b where "build_column cfg (chosen_kind cfg (flds ! i)) (flds ! i) = Some b"
    and "sg_fields sg ! i = bc_field b" and "sg_compression_kinds sg ! i = bc_kind b"
    and "sg_compressed_columns sg ! i = bc_view b"
  using assms unfolding loaded_from_def by auto

lemma segment_new_built:
  assumes inv: "\<forall>f\<in>set flds. fv_inv f"
  shows "\<exists>sg. segment_new cfg cap n flds = Some sg \<and> loaded_from cfg cap n flds sg"
proof -
  define rows where "rows = capped_rows flds cap n"
  define sealed where "sealed = (cap \<le> ResolveRowCount flds n)"
  define sg0 where "sg0 = (segment_blank cap)\<lparr>sg_row_count := rows, sg_fields := flds, sg_sealed := sealed,
    sg_stats := map column_ComputeStats flds,
    sg_compression_kinds := map2 (\<lambda>st f. ChooseCompression cfg st (fv_type f)) (map column_ComputeStats flds) flds\<rparr>"
  have eq: "segment_new cfg cap n flds = BuildCompressionViews cfg sg0"
    using no_bad_reads [OF inv]
    by (simp add: segment_new_def segment_load_def ComputeStats_def Let_def sg0_def rows_def
        capped_rows_def sealed_def min_def segment_blank_def)
  have kinds: "sg_compression_kinds sg0 ! i = chosen_kind cfg (flds ! i)" if "i < length flds" for i
    using that by (simp add: sg0_def)
  show ?thesis
  proof (cases sealed)
    case False
    then show ?thesis
      unfolding eq
      by (intro exI [of _ sg0])
         (simp add: loaded_from_def sg0_def rows_def sealed_def segment_blank_def zip_map1 zip_same_conv_map)
  next
    case True
    have "sg_sealed sg0" "\<not> sg_compression_ready sg0" "length (sg_compression_kinds sg0) = length (sg_fields sg0)"
      "\<forall>f\<in>set (sg_fields sg0). fv_data_len f = fv_size f"
      using True inv by (simp_all add: sg0_def segment_blank_def fv_inv_def)
    from BuildCompressionViews_built [OF this, of cfg] obtain sg where
      sg: "BuildCompressionViews cfg sg0 = Some sg" "built_upto cfg sg0 (length flds) sg" "sg_compression_ready sg"
      by (auto simp: sg0_def)
    have frame: "sg_row_count sg = rows" "sg_row_capacity sg = cap" "sg_sealed sg" "sg_stats sg = map column_ComputeStats flds"
      "length (sg_fields sg) = length flds" "length (sg_compression_kinds sg) = length flds"
      "length (sg_compressed_columns sg) = length flds"
      using sg(2) True by (simp_all add: built_upto_def sg0_def segment_blank_def)
    have "\<forall>i<length flds. \<exists>b. build_column cfg (chosen_kind cfg (flds ! i)) (flds ! i) = Some b \<and>
        sg_fields sg ! i = bc_field b \<and> sg_compression_kinds sg ! i = bc_kind b \<and>
        sg_compressed_columns sg ! i = bc_view b"
      using sg(2) kinds by (simp add: built_upto_def) (simp add: sg0_def)
    then show ?thesis
      unfolding eq using frame sg(1,3) True by (intro exI [of _ sg]) (simp add: loaded_from_def rows_def sealed_def)
  qed
qed

lemma segment_new_loaded:
  "\<forall>f\<in>set flds. fv_inv f \<Longrightarrow> segment_new cfg cap n flds = Some sg \<Longrightarrow> loaded_from cfg cap n flds sg"
  using segment_new_built [of flds cfg cap n] by auto

definition exact_ints :: "field_vector \<Rightarrow> bool" where
  "exact_ints f \<longleftrightarrow> (\<forall>i<fv_size f. fv_IsValid f i \<longrightarrow> small_int (sint (field_i64 f i)))"

lemma sealed_column_faithful:
  assumes "\<forall>f\<in>set flds. fv_inv f" and "cap \<le> ResolveRowCount flds n" and "i < length flds"
    and "is_encodable (fv_type (flds ! i))" and "0 < fv_size (flds ! i)" and "fv_size (flds ! i) < 2 ^ 32"
    and "bool_cells_ok (flds ! i)" and "exact_ints (flds ! i)"
  shows "\<exists>sg. segment_new cfg cap n flds = Some sg \<and> sg_sealed sg \<and>
           view_faithful (sg_compressed_columns sg ! i) (flds ! i) \<and>
           (if sg_compression_kinds sg ! i = CkNone then sg_fields sg ! i = flds ! i
            else sg_fields sg ! i = fv_ReleaseStorage (flds ! i) \<and> view_decodes (sg_compressed_columns sg ! i) (flds ! i))"
proof -
  let ?f = "flds ! i"
  obtain sg where sg: "segment_new cfg cap n flds = Some sg" "loaded_from cfg cap n flds sg"
    using segment_new_built [OF assms(1)] by blast
  then have sealed: "sg_sealed sg" using assms(2) by (simp add: loaded_from_def)
  from loaded_from_column [OF sg(2) this assms(3)] obtain b where
    b: "build_column cfg (chosen_kind cfg ?f) ?f = Some b" "sg_compressed_columns sg ! i = bc_view b"
      "sg_compression_kinds sg ! i = bc_kind b" "sg_fields sg ! i = bc_field b" by metis
  have inv: "fv_inv ?f" using assms(1,3) by simp
  moreover note ChooseCompression_int_fits [OF assms(4), of cfg]
  ultimately have "view_faithful (bc_view b) ?f \<and> (bc_kind b \<noteq> CkNone \<longrightarrow> view_decodes (bc_view b) ?f)"
    using build_column_correct [OF _ assms(4,5,6,7) ChooseCompression_not_rle _ _ b(1)] assms(8)
    by (auto simp: exact_ints_def)
  moreover obtain k d a where e: "encode_column (chosen_kind cfg ?f) ?f = Some (k, d, a)"
    using encode_column_total [of ?f "chosen_kind cfg ?f"] inv by (metis fv_inv_def prod_cases3)
  ultimately show ?thesis using sg sealed b build_column_kind [OF e b(1)] by auto
qed

text \<open>
  C1. A sealed segment shows what it was built from, end to end: for every configuration
  and every list of well-formed columns that fill the capacity, construction stays in bounds.  Every
  non-empty integer or boolean column of less than \<open>2 ^ 32\<close> rows, whose values a double represents (below
  \<open>2 ^ 53\<close>) and whose boolean cells are 0 or 1, is read and scanned through its view exactly as the
  column was, whichever encoding the statistics chose and whether or not it was kept.  When an
  encoding was kept, a batch decode gives the values of the column too, and the storage of the
  column was released; otherwise the column is still there.
\<close>
theorem sealed_segment_faithful:
  assumes "\<forall>f\<in>set flds. fv_inv f" and "cap \<le> ResolveRowCount flds n" and "i < length flds"
    and "is_encodable (fv_type (flds ! i))" and "0 < fv_size (flds ! i)" and "fv_size (flds ! i) < 2 ^ 32"
    and "bool_cells_ok (flds ! i)" and "exact_ints (flds ! i)"
  shows "\<exists>sg. segment_new cfg cap n flds = Some sg \<and> sg_sealed sg \<and>
           view_faithful (sg_compressed_columns sg ! i) (flds ! i) \<and>
           (if sg_compression_kinds sg ! i = CkNone then sg_fields sg ! i = flds ! i
            else sg_fields sg ! i = fv_ReleaseStorage (flds ! i) \<and> view_decodes (sg_compressed_columns sg ! i) (flds ! i))"
  using assms by (rule sealed_column_faithful)

theorem sealed_segment_faithful_witness:
  "\<exists>sg. segment_new g_compression_config 3 0 [example_column] = Some sg \<and>
     ReadInt64Value (sg_compressed_columns sg ! 0) 2 = Some (Some 300)"
proof -
  have "exact_ints example_column"
    by (auto simp: exact_ints_def example_column_cells less_3)
  then have "\<exists>sg. segment_new g_compression_config 3 0 [example_column] = Some sg \<and> sg_sealed sg \<and>
      view_faithful (sg_compressed_columns sg ! 0) ([example_column] ! 0) \<and>
      (if sg_compression_kinds sg ! 0 = CkNone then sg_fields sg ! 0 = [example_column] ! 0
       else sg_fields sg ! 0 = fv_ReleaseStorage ([example_column] ! 0) \<and>
         view_decodes (sg_compressed_columns sg ! 0) ([example_column] ! 0))"
    by (intro sealed_segment_faithful)
       (auto simp: example_column_inv(1) example_column_cells ResolveRowCount_def bool_cells_ok_def
         is_encodable_def)
  then show ?thesis by (auto simp: view_faithful_def example_column_cells)
qed

text \<open>
  LZ4 is never in effect: with a positive \<open>min_ratio\<close> no column of a sealed segment of
  well-formed columns keeps the kind \<open>kLz4\<close>, because a literal-only encoding is always longer
  than its input.
\<close>
theorem lz4_never_kept:
  assumes "\<forall>f\<in>set flds. fv_inv f" and "f64_lt 0 (cfg_min_ratio cfg)"
    and "segment_new cfg cap n flds = Some sg" and "sg_sealed sg"
  shows "CkLz4 \<notin> set (sg_compression_kinds sg)"
proof
  assume "CkLz4 \<in> set (sg_compression_kinds sg)"
  then obtain i where i: "i < length (sg_compression_kinds sg)" "sg_compression_kinds sg ! i = CkLz4"
    by (auto simp: in_set_conv_nth)
  have l: "loaded_from cfg cap n flds sg" using segment_new_loaded [OF assms(1,3)] .
  then have len: "i < length flds" using i(1) by (simp add: loaded_from_def)
  from loaded_from_column [OF l assms(4) this] obtain b where
    "build_column cfg (chosen_kind cfg (flds ! i)) (flds ! i) = Some b" "bc_kind b = CkLz4"
    using i(2) by metis
  with kept_not_lz4 [of cfg _ "flds ! i" b] assms(1,2) len show False by auto
qed

theorem lz4_never_kept_witness:
  "\<exists>sg. segment_new g_compression_config 3 0 [example_column] = Some sg \<and>
     CkLz4 \<notin> set (sg_compression_kinds sg)"
proof -
  have inv: "\<forall>f\<in>set [example_column]. fv_inv f" by (simp add: example_column_inv(1))
  obtain sg where sg: "segment_new g_compression_config 3 0 [example_column] = Some sg"
    "loaded_from g_compression_config 3 0 [example_column] sg"
    using segment_new_built [OF inv] by blast
  have "f64_lt 0 (cfg_min_ratio g_compression_config)"
    by (simp add: g_compression_config_def kCompressionMinRatio_def f64_lt_def f64_nan_def f64_mag_def
        f64_inf_mag_def f64_key_def f64_neg_def)
  with lz4_never_kept [OF inv _ sg(1)] sg(2) have "CkLz4 \<notin> set (sg_compression_kinds sg)"
    by (auto simp: loaded_from_def ResolveRowCount_def example_column_cells)
  with sg(1) show ?thesis by blast
qed

text \<open>
  Strings, byte strings, arrays and float vectors are never encoded: the statistics
  report no value for them, so \<open>ChooseCompression\<close> answers \<open>kNone\<close> before it reaches the
  case that would give \<open>kLz4\<close>, under every configuration.
\<close>
theorem varlen_never_encoded:
  assumes "is_varlen (fv_type f)"
  shows "ChooseCompression cfg (column_ComputeStats f) (fv_type f) = CkNone"
proof -
  have "\<not> has_numeric_stats (fv_type f)" using assms by (auto simp: is_varlen_def has_numeric_stats_def)
  then have "\<not> st_has_value (column_ComputeStats f)"
    using column_stats_range [of f] by (simp add: range_of_def valid_values_def)
  then show ?thesis by (simp add: ChooseCompression_def)
qed

theorem varlen_never_encoded_witness:
  "ChooseCompression g_compression_config (column_ComputeStats (fv_new [97] kString)) kString = CkNone"
  using varlen_never_encoded [of "fv_new [97] kString"] by (simp add: fv_new_def is_varlen_def)

section \<open>Encoding a second time\<close>

lemma for_ub_fails:
  assumes "P lo s" and "lo \<le> k" and "k < hi"
    and "\<And>i t t'. lo \<le> i \<Longrightarrow> i < k \<Longrightarrow> P i t \<Longrightarrow> f i t = Some t' \<Longrightarrow> P (Suc i) t'"
    and "\<And>t. P k t \<Longrightarrow> f k t = None"
  shows "for_ub lo hi f s = None"
proof -
  have keep: "P j t" if "lo \<le> j" "j \<le> k" "for_ub lo j f s = Some t" for j t
    using that
  proof (induction j arbitrary: t rule: dec_induct)
    case base
    with assms(1) show ?case by simp
  next
    case (step j)
    then show ?case using assms(4) by (auto simp: for_ub_Suc split: Option.bind_splits)
  qed
  have "for_ub lo (Suc k) f s = None"
    using keep [OF assms(2) le_refl] assms(2,5) by (auto simp: for_ub_Suc split: Option.bind_splits)
  then show ?thesis
    using assms(3)
  proof (induction hi)
    case 0
    then show ?case by simp
  next
    case (Suc n)
    then show ?case
      using assms(2) by (cases "k = n") (auto simp: for_ub_Suc)
  qed
qed

text \<open>A column whose storage was released cannot be encoded or copied again.\<close>

lemma released_column_fails:
  assumes "is_encodable (fv_type f)" and "i < fv_size f" and "fv_IsValid f i"
  shows "build_column cfg kind (fv_ReleaseStorage f) = None"
proof -
  let ?g = "fv_ReleaseStorage f"
  have g: "fv_type ?g = fv_type f" "fv_size ?g = fv_size f" "fv_IsValid ?g i" "fv_data_len ?g = 0"
    "field_storage ?g = []"
    using assms(1,3)
    by (auto simp: fv_ReleaseStorage_def fv_IsValid_def is_encodable_def fv_data_len_def field_storage_def)
  have "\<not> reads_ok ?g" using assms(2) g by (auto simp: reads_ok_def list_all_iff)
  moreover have "0 < raw_data_bytes ?g"
    using assms(1,2) g by (auto simp: raw_data_bytes_def is_encodable_def)
  then have "copy_out k (raw_data_bytes ?g) (field_storage ?g) = None" for k
    by (simp add: copy_out_def read_mem_def g)
  ultimately have "encode_integers kind ?g = None"
    by (cases kind) (simp_all add: encode_integers_def)
  then have "encode_column kind ?g = None"
    using assms(1) by (auto simp: encode_column_def g is_encodable_def)
  then show ?thesis by (simp add: build_column_def)
qed

lemma SetCompressionKinds_released:
  assumes "sg_sealed sg" and "length kinds = length (sg_fields sg)" and "i < length (sg_fields sg)"
    and "sg_fields sg ! i = fv_ReleaseStorage f" and "is_encodable (fv_type f)"
    and "r < fv_size f" and "fv_IsValid f r"
  shows "SetCompressionKinds cfg kinds sg = None"
proof -
  let ?sg = "ResetCompression (sg\<lparr>sg_compression_kinds := kinds\<rparr>)"
  let ?P = "\<lambda>k t. \<forall>j\<ge>k. j < length (sg_fields sg) \<longrightarrow> sg_fields t ! j = sg_fields sg ! j"
  have "for_ub 0 (length (sg_fields sg)) (build_step cfg) t = None" if "sg_fields t = sg_fields sg" for t
    by (rule for_ub_fails [where P = ?P and k = i])
       (use assms that released_column_fails [OF assms(5,6,7)] in
         \<open>auto simp: build_step_def split: Option.bind_splits\<close>)
  then show ?thesis
    using assms(1,2) by (simp add: SetCompressionKinds_def BuildCompressionViews_def ResetCompression_def)
qed

section \<open>Filling an empty segment\<close>

text \<open>A segment that is filled by \<open>Append\<close>: what holds between the calls.\<close>

definition fill_inv :: "nat \<Rightarrow> nat \<Rightarrow> segment \<Rightarrow> bool" where
  "fill_inv k cap sg \<longleftrightarrow>
     sg_row_capacity sg = cap \<and> sg_row_count sg \<le> cap \<and> length (sg_fields sg) = k \<and>
     (\<forall>f\<in>set (sg_fields sg). fv_size f = sg_row_count sg) \<and>
     (if sg_sealed sg then sg_row_count sg = cap \<and> length (sg_compressed_columns sg) = k
      else (sg_row_count sg < cap \<or> sg_row_count sg = 0) \<and> \<not> sg_compression_ready sg \<and>
           (\<forall>f\<in>set (sg_fields sg). fv_data_len f = fv_size f \<and> fv_type f \<noteq> kDictInt32))"

lemma build_column_size: "build_column cfg kind f = Some b \<Longrightarrow> fv_size (bc_field b) = fv_size f"
  by (auto simp: build_column_def Let_def fv_ReleaseStorage_def split: Option.bind_splits if_splits)

lemma fv_data_len_Resize:
  assumes "fv_data_len f = fv_size f" and "fv_size f \<le> n"
  shows "fv_data_len (fv_Resize f n) = n" and "fv_size (fv_Resize f n) = n"
  using assms
  by (cases "fv_type f"; auto simp: fv_Resize_def Let_def fv_ResizeStorage_def fv_data_len_def)+

lemma fv_Resize_type: "fv_type (fv_Resize f n) = fv_type f"
  by (cases "fv_type f"; simp add: fv_Resize_def Let_def fv_ResizeStorage_def)

text \<open>Statistics and views of a segment whose columns hold their rows.\<close>

lemma ComputeStats_fill:
  assumes "\<forall>f\<in>set (sg_fields sg). fv_data_len f = fv_size f \<and> fv_type f \<noteq> kDictInt32 \<and> fv_size f = sg_row_count sg"
    and "\<not> sg_compression_ready sg" and "sg_row_capacity sg = cap" and "sg_row_count sg \<le> cap"
    and "sg_sealed sg \<Longrightarrow> sg_row_count sg = cap"
    and "\<not> sg_sealed sg \<Longrightarrow> sg_row_count sg < cap \<or> sg_row_count sg = 0"
  shows "\<exists>sg'. ComputeStats cfg True sg = Some sg' \<and> fill_inv (length (sg_fields sg)) cap sg' \<and>
           sg_row_count sg' = sg_row_count sg \<and> sg_sealed sg' = sg_sealed sg"
proof -
  let ?k = "length (sg_fields sg)"
  define sg0 where "sg0 = sg\<lparr>sg_stats := map column_ComputeStats (sg_fields sg),
    sg_compression_kinds := map2 (\<lambda>st f. ChooseCompression cfg st (fv_type f))
      (map column_ComputeStats (sg_fields sg)) (sg_fields sg)\<rparr>"
  have "\<not> list_ex (\<lambda>f. has_numeric_stats (fv_type f) \<and> \<not> reads_ok f) (sg_fields sg)"
    using assms(1) by (auto simp: list_ex_iff reads_ok_len)
  then have eq: "ComputeStats cfg True sg = BuildCompressionViews cfg sg0"
    by (simp add: ComputeStats_def Let_def sg0_def)
  show ?thesis
  proof (cases "sg_sealed sg")
    case False
    then show ?thesis
      unfolding eq using assms by (intro exI [of _ sg0]) (auto simp: sg0_def fill_inv_def)
  next
    case True
    have "sg_sealed sg0" "\<not> sg_compression_ready sg0"
      "length (sg_compression_kinds sg0) = length (sg_fields sg0)"
      "\<forall>f\<in>set (sg_fields sg0). fv_data_len f = fv_size f"
      using True assms(1,2) by (simp_all add: sg0_def)
    from BuildCompressionViews_built [OF this, of cfg] obtain sg' where
      sg': "BuildCompressionViews cfg sg0 = Some sg'" "built_upto cfg sg0 ?k sg'"
      by (auto simp: sg0_def)
    have "fv_size f = sg_row_count sg" if f: "f \<in> set (sg_fields sg')" for f
    proof -
      have k: "length (sg_fields sg') = ?k" using sg'(2) by (simp add: built_upto_def sg0_def)
      obtain i where "i < length (sg_fields sg')" "sg_fields sg' ! i = f"
        using f unfolding in_set_conv_nth by blast
      then have i: "i < ?k" "f = sg_fields sg' ! i" using k by simp_all
      then obtain b where "build_column cfg (sg_compression_kinds sg0 ! i) (sg_fields sg ! i) = Some b" "f = bc_field b"
        using sg'(2) by (auto simp: built_upto_def sg0_def)
      then show ?thesis using build_column_size assms(1) i(1) by fastforce
    qed
    then show ?thesis
      unfolding eq using sg' True assms(3,5)
      by (intro exI [of _ sg']) (auto simp: built_upto_def fill_inv_def sg0_def)
  qed
qed

lemma segment_empty_fill:
  "\<forall>f\<in>set flds. fv_type f \<noteq> kDictInt32 \<Longrightarrow>
   \<exists>sg. segment_empty cfg cap flds = Some sg \<and> fill_inv (length flds) cap sg \<and> sg_row_count sg = 0"
proof -
  assume types: "\<forall>f\<in>set flds. fv_type f \<noteq> kDictInt32"
  let ?sg = "(segment_blank cap)\<lparr>sg_fields := map (\<lambda>f. fv_new (fv_name f) (fv_type f)) flds\<rparr>"
  have "fv_data_len (fv_new n t) = 0" "fv_size (fv_new n t) = 0" "fv_type (fv_new n t) = t" for n t
    by (cases t; simp add: fv_new_def fv_data_len_def)+
  with types have "\<exists>sg'. ComputeStats cfg True ?sg = Some sg' \<and> fill_inv (length (sg_fields ?sg)) cap sg' \<and>
      sg_row_count sg' = sg_row_count ?sg \<and> sg_sealed sg' = sg_sealed ?sg"
    by (intro ComputeStats_fill) (auto simp: segment_blank_def)
  then show ?thesis by (auto simp: segment_empty_def segment_blank_def)
qed

lemma segment_Append_fill:
  assumes "fill_inv k cap sg"
  shows "\<exists>sg'. segment_Append cfg n sg = Some (n \<noteq> 0 \<and> sg_row_count sg + n \<le> cap, sg') \<and>
           fill_inv k cap sg' \<and>
           sg_row_count sg' = (if sg_row_count sg + n \<le> cap then sg_row_count sg + n else sg_row_count sg)"
proof (cases "n = 0 \<or> sg_row_count sg + n > cap")
  case True
  then show ?thesis using assms by (auto simp: segment_Append_def fill_inv_def)
next
  case False
  then have open': "\<not> sg_sealed sg" using assms by (auto simp: fill_inv_def split: if_splits)
  let ?n = "sg_row_count sg + n"
  define sg1 where "sg1 = (let s = sg\<lparr>sg_row_count := ?n, sg_fields := map (\<lambda>f. fv_Resize f ?n) (sg_fields sg)\<rparr>
    in if ?n = cap then s\<lparr>sg_sealed := True\<rparr> else s)"
  have step: "segment_Append cfg n sg = map_option (Pair True) (ComputeStats cfg True sg1)"
    using False open' assms by (simp add: segment_Append_def Let_def sg1_def fill_inv_def)
  have sg1: "sg_sealed sg1 \<longleftrightarrow> ?n = cap" "sg_row_count sg1 = ?n" "sg_row_capacity sg1 = cap"
    "\<not> sg_compression_ready sg1" "length (sg_fields sg1) = k"
    "\<forall>f\<in>set (sg_fields sg1). fv_data_len f = fv_size f \<and> fv_type f \<noteq> kDictInt32 \<and> fv_size f = ?n"
  proof -
    have flds: "sg_fields sg1 = map (\<lambda>f. fv_Resize f ?n) (sg_fields sg)" by (simp add: sg1_def Let_def)
    show "sg_sealed sg1 \<longleftrightarrow> ?n = cap" "sg_row_count sg1 = ?n" "sg_row_capacity sg1 = cap"
      "\<not> sg_compression_ready sg1" "length (sg_fields sg1) = k"
      using assms open' by (simp_all add: sg1_def Let_def fill_inv_def)
    show "\<forall>f\<in>set (sg_fields sg1). fv_data_len f = fv_size f \<and> fv_type f \<noteq> kDictInt32 \<and> fv_size f = ?n"
      using assms open' by (auto simp: flds fill_inv_def fv_data_len_Resize fv_Resize_type)
  qed
  have "\<exists>sg'. ComputeStats cfg True sg1 = Some sg' \<and> fill_inv (length (sg_fields sg1)) cap sg' \<and>
      sg_row_count sg' = sg_row_count sg1 \<and> sg_sealed sg' = sg_sealed sg1"
  proof (intro ComputeStats_fill)
    show "\<forall>f\<in>set (sg_fields sg1). fv_data_len f = fv_size f \<and> fv_type f \<noteq> kDictInt32 \<and> fv_size f = sg_row_count sg1"
      unfolding sg1(2) by (rule sg1(6))
  qed (use False in \<open>simp_all add: sg1(1-5)\<close>)
  then obtain sg' where "ComputeStats cfg True sg1 = Some sg'" "fill_inv k cap sg'" "sg_row_count sg' = ?n"
    unfolding sg1(2,5) by blast
  then show ?thesis using False by (intro exI [of _ sg']) (simp add: step)
qed

text \<open>A sequence of \<open>Append\<close> calls.\<close>

fun append_all :: "compression_config \<Rightarrow> nat list \<Rightarrow> segment \<Rightarrow> segment ub" where
  "append_all cfg [] sg = Some sg"
| "append_all cfg (n # ns) sg = do { (_, sg) \<leftarrow> segment_Append cfg n sg; append_all cfg ns sg }"

lemma append_all_fill:
  assumes "fill_inv k cap sg"
  shows "\<exists>sg'. append_all cfg ns sg = Some sg' \<and> fill_inv k cap sg' \<and>
           sg_row_count sg' = fold (\<lambda>n c. if c + n \<le> cap then c + n else c) ns (sg_row_count sg)"
  using assms
proof (induction ns arbitrary: sg)
  case Nil
  then show ?case by simp
next
  case (Cons n ns)
  from segment_Append_fill [OF Cons.prems, of cfg n] obtain sg1 where
    sg1: "segment_Append cfg n sg = Some (n \<noteq> 0 \<and> sg_row_count sg + n \<le> cap, sg1)" "fill_inv k cap sg1"
    "sg_row_count sg1 = (if sg_row_count sg + n \<le> cap then sg_row_count sg + n else sg_row_count sg)" by blast
  from Cons.IH [OF sg1(2)] sg1(1,3) show ?case by auto
qed

text \<open>
  C29. Filling a segment without dictionary columns (see \<open>segment_Append_dict_out_of_bounds\<close>): from
  the empty segment, any sequence of \<open>Append\<close> calls stays in bounds, takes exactly the requests that
  still fit, never exceeds the capacity and keeps every column at the segment's row count.  A
  segment of positive capacity is sealed exactly when it is full, and a sealed segment has a
  compressed view for each of its columns.
\<close>
theorem segment_fill:
  assumes "\<forall>f\<in>set flds. fv_type f \<noteq> kDictInt32"
  shows "\<exists>sg. (segment_empty cfg cap flds \<bind> append_all cfg ns) = Some sg \<and>
     sg_row_count sg = fold (\<lambda>n c. if c + n \<le> cap then c + n else c) ns 0 \<and>
     sg_row_count sg \<le> cap \<and> list_all (\<lambda>f. fv_size f = sg_row_count sg) (sg_fields sg) \<and>
     (0 < cap \<longrightarrow> (sg_sealed sg \<longleftrightarrow> sg_row_count sg = cap)) \<and>
     (sg_sealed sg \<longrightarrow> sg_row_count sg = cap \<and> length (sg_compressed_columns sg) = length flds)"
proof -
  obtain sg where sg: "segment_empty cfg cap flds = Some sg" "fill_inv (length flds) cap sg" "sg_row_count sg = 0"
    using segment_empty_fill [OF assms] by blast
  from append_all_fill [OF sg(2), of cfg ns] sg(1,3) show ?thesis
    by (auto simp: fill_inv_def list_all_iff split: if_splits)
qed

theorem segment_fill_witness:
  "\<exists>sg. (segment_empty g_compression_config 5 [fv_new [97] kInt32, fv_new [98] kString]
           \<bind> append_all g_compression_config [3, 4, 1]) = Some sg \<and> sg_row_count sg = 4"
  using segment_fill [of "[fv_new [97] kInt32, fv_new [98] kString]" g_compression_config 5 "[3, 4, 1]"]
  by (auto simp: fv_new_def)

text \<open>\<open>Segment::Append\<close> of a segment with a dictionary column is out of bounds: the new rows
  have id 0 and no dictionary entry, and the statistics look their values up.
\<close>
theorem segment_Append_dict_out_of_bounds:
  assumes "f \<in> set flds" and "fv_type f = kDictInt32" and "0 < n" and "n \<le> cap"
  shows "\<exists>sg. segment_empty cfg cap flds = Some sg \<and> segment_Append cfg n sg = None"
proof -
  define sg0 where "sg0 = (segment_blank cap)\<lparr>sg_fields := map (\<lambda>f. fv_new (fv_name f) (fv_type f)) flds\<rparr>"
  have "\<not> list_ex (\<lambda>f. has_numeric_stats (fv_type f) \<and> \<not> reads_ok f) (sg_fields sg0)"
    by (auto simp: sg0_def list_ex_iff reads_ok_inv fv_new_inv)
  then have "\<exists>sg. ComputeStats cfg True sg0 = Some sg \<and> sg_fields sg = sg_fields sg0 \<and> sg_row_count sg = 0 \<and>
      sg_row_capacity sg = cap \<and> \<not> sg_sealed sg"
    by (simp add: ComputeStats_def Let_def BuildCompressionViews_def sg0_def segment_blank_def)
  then obtain sg where sg: "ComputeStats cfg True sg0 = Some sg" "sg_fields sg = sg_fields sg0" "sg_row_count sg = 0"
    "sg_row_capacity sg = cap" "\<not> sg_sealed sg" by blast
  let ?g = "fv_Resize (fv_new (fv_name f) (fv_type f)) n"
  have g: "fv_type ?g = kDictInt32" "fv_size ?g = n" "dict_values (fv_dictionary ?g) = []" "fv_IsValid ?g 0"
    using assms(2,3)
    by (simp_all add: fv_Resize_def Let_def fv_ResizeStorage_def fv_new_def dict_empty_def fv_IsValid_def bitmap_empty_def
        bitmap_Size_def)
  then have "\<not> reads_ok ?g" using assms(3) by (auto simp: reads_ok_def list_all_iff)
  then have "list_ex (\<lambda>f. has_numeric_stats (fv_type f) \<and> \<not> reads_ok f) (map (\<lambda>f. fv_Resize f n) (sg_fields sg))"
    using assms(1) g(1) sg(2) by (auto simp: list_ex_iff sg0_def has_numeric_stats_def)
  then have "segment_Append cfg n sg = None"
    using assms(3,4) sg(3-5) by (cases "n = cap") (simp_all add: segment_Append_def Let_def ComputeStats_def)
  then show ?thesis using sg(1) by (auto simp: segment_empty_def sg0_def)
qed

theorem segment_Append_dict_out_of_bounds_witness:
  "\<exists>sg. segment_empty g_compression_config 4 [fv_new [97] kDictInt32] = Some sg \<and>
     segment_Append g_compression_config 1 sg = None"
  using segment_Append_dict_out_of_bounds [of "fv_new [97] kDictInt32" "[fv_new [97] kDictInt32]" 1 4 g_compression_config]
  by (simp add: fv_new_def)

end
