(* ===== verification/Lossy.thy ===== *)
theory Lossy
  imports SegmentFacts
begin

text \<open>
  Where the statistics' doubles are not exact: a column of 64-bit integers around \<open>2 ^ 60\<close>
  whose range needs 17 bits, but whose rounded range needs 16, so that the segment bit-packs
  it and loses its values.  The conversions are evaluated on the bit patterns.
\<close>

lemma bit_len_numeral: "bit_len (numeral n) = Suc (bit_len (numeral n div 2))"
  by (simp add: bit_len_pos)

lemmas f64_round_eval = f64_round_mag_def ratio_exponent_def bit_len_numeral Let_def pow_scale_def
  rne_div_def f64_inf_mag_def
lemmas f64_bits_eval = f64_nan_def f64_inf_def f64_mag_def f64_inf_mag_def f64_key_def f64_neg_def
  f64_expo_def f64_mant_def f64_smant_def Let_def

definition lossy_low :: int where "lossy_low = 2 ^ 60 - 447"
definition lossy_high :: int where "lossy_high = 2 ^ 60 + 65152"

definition lossy_rows :: "u64 list" where
  "lossy_rows =
     (let lo = word_of_int lossy_low; hi = word_of_int lossy_high in [lo, hi, lo, hi, lo, hi, lo, hi])"

definition lossy_column :: field_vector where
  "lossy_column =
     snd (fv_AppendBatchInt64 (fv_new [97] kInt64) lossy_rows 8 None)"

definition lossy_config :: compression_config where
  "lossy_config = g_compression_config\<lparr>cfg_enable_dictionary := False, cfg_min_segment_rows := 8\<rparr>"

lemma lossy_doubles:
  "f64_of_int lossy_low = 0x43AFFFFFFFFFFFFD" "f64_of_int lossy_high = 0x43B00000000000FE"
proof -
  have "f64_round_mag 1152921504606846529 1 = 0x43AFFFFFFFFFFFFD" "f64_round_mag 1152921504606912128 1 = 0x43B00000000000FE"
    by (simp_all add: f64_round_eval)
  then show "f64_of_int lossy_low = 0x43AFFFFFFFFFFFFD" "f64_of_int lossy_high = 0x43B00000000000FE"
    by (simp_all add: f64_of_int_def f64_of_ratio_def f64_pack_def lossy_low_def lossy_high_def)
qed

lemma lossy_range: "f64_sub (f64_of_int lossy_high) (f64_of_int lossy_low) = 0x40EFF00000000000"
proof -
  have n: "f64_negate 0x43AFFFFFFFFFFFFD = 0xC3AFFFFFFFFFFFFD" by (simp add: f64_negate_def)
  have r: "f64_round_mag 65408 1 = 0x40EFF00000000000" by (simp add: f64_round_eval)
  show ?thesis
    by (simp add: lossy_doubles f64_sub_def n f64_add_def f64_bits_eval f64_of_ratio_def f64_pack_def pow_scale_def r [unfolded One_nat_def])
qed

lemma lossy_column_simps:
  "fv_type lossy_column = kInt64" "fv_size lossy_column = 8" "fv_IsValid lossy_column i"
  "fv_i64 lossy_column = lossy_rows"
  "fv_HasNulls lossy_column = False"
  by (simp_all add: lossy_column_def fv_AppendBatchInt64_def fv_new_def fv_mark_batch_def bitmap_empty_def
      bitmap_Size_def fv_IsValid_def fv_HasNulls_def lossy_rows_def Let_def)

lemma lossy_sint: "sint (word_of_int lossy_low :: u64) = lossy_low" "sint (word_of_int lossy_high :: u64) = lossy_high"
  by (simp_all add: lossy_low_def lossy_high_def)

lemma less_8: "i < (8 :: nat) \<longleftrightarrow> i \<in> {0, 1, 2, 3, 4, 5, 6, 7}"
  by auto

lemma lossy_cells:
  "i < 8 \<Longrightarrow> field_i64 lossy_column i = (if even i then word_of_int lossy_low else word_of_int lossy_high)"
  unfolding less_8 by (elim insertE emptyE) (simp_all add: field_i64_def lossy_column_simps lossy_rows_def Let_def)

lemma lossy_inv: "fv_inv lossy_column"
  using fv_AppendBatchInt64_correct [OF fv_new_inv, of "[97]" kInt64 8 lossy_rows None]
  by (simp add: lossy_column_def fv_extends_def batch_ok_def lossy_rows_def Let_def)
     (simp add: fv_new_def)

section \<open>The statistics and the choice\<close>

lemma lossy_values: "set (column_values lossy_column) = {f64_of_int lossy_low, f64_of_int lossy_high}"
proof -
  have "set (column_values lossy_column) = (\<lambda>i. f64_of_int (sint (field_i64 lossy_column i))) ` {0..<8}"
    by (auto simp: valid_values_def lossy_column_simps has_numeric_stats_def field_f64_of_i64 is_encodable_def)
  also have "{0..<8 :: nat} = {0, 1, 2, 3, 4, 5, 6, 7}" by auto
  finally show ?thesis by (simp add: lossy_cells lossy_sint insert_commute)
qed

lemma lossy_stats:
  "st_min (column_ComputeStats lossy_column) = f64_of_int lossy_low"
  "st_max (column_ComputeStats lossy_column) = f64_of_int lossy_high"
  "st_has_value (column_ComputeStats lossy_column)"
  "st_value_count (column_ComputeStats lossy_column) = 8"
proof -
  let ?st = "column_ComputeStats lossy_column"
  have ne: "column_values lossy_column \<noteq> []" using lossy_values by auto
  have lt: "f64_lt (f64_of_int lossy_low) (f64_of_int lossy_high)"
    by (simp add: lossy_doubles f64_lt_def f64_bits_eval)
  have r: "st_has_value ?st" "st_min ?st \<in> {f64_of_int lossy_low, f64_of_int lossy_high}"
    "st_max ?st \<in> {f64_of_int lossy_low, f64_of_int lossy_high}"
    "f64_le (st_min ?st) (f64_of_int lossy_low)" "f64_le (f64_of_int lossy_high) (st_max ?st)"
    using column_stats_range [of lossy_column] ne lossy_values by (auto simp: range_of_def)
  show "st_has_value ?st" by (rule r(1))
  show "st_min ?st = f64_of_int lossy_low" "st_max ?st = f64_of_int lossy_high"
    using r(2-5) lt by (auto simp: f64_cmp_defs)
  show "st_value_count ?st = 8"
    using column_stats_counts(1) [of lossy_column] by (simp add: lossy_column_simps)
qed

lemma lossy_kind: "chosen_kind lossy_config lossy_column = CkBitPacked"
proof -
  have t: "f64_trunc 0x40EFF00000000000 = 65408"
    by (simp add: f64_trunc_def f64_bits_eval pow_scale_def)
  have top: "f64_of_int 18446744073709551615 = 0x43F0000000000000"
  proof -
    have "f64_round_mag 18446744073709551615 1 = 0x43F0000000000000" by (simp add: f64_round_eval)
    then show ?thesis by (simp add: f64_of_int_def f64_of_ratio_def f64_pack_def)
  qed
  have "\<not> f64_lt 0x40EFF00000000000 0" "\<not> f64_gt 0x40EFF00000000000 0x43F0000000000000"
    by (simp_all add: f64_lt_def f64_bits_eval)
  then show ?thesis
    by (simp add: ChooseCompression_def lossy_config_def g_compression_config_def lossy_stats lossy_range t top
        lossy_column_simps bit_limit_def kCompressionBitpackMaxBits_def)
qed

section \<open>What is read back\<close>

lemma lossy_encoded:
  "EncodeBitpack lossy_column =
     Some (Some (concat (replicate 4 [0, 0, 63, 0]), le_bytes 8 (word_of_int lossy_low :: u64) @ 16 # replicate 7 0))"
  by code_simp

lemma lossy_kept: "keep_kind lossy_config lossy_column CkBitPacked 32 = CkBitPacked"
proof -
  have "f64_round_mag 64 1 = 0x4050000000000000" "f64_round_mag 32 1 = 0x4040000000000000"
    by (simp_all add: f64_round_eval)
  then have "f64_of_int 64 = 0x4050000000000000" "f64_of_int 32 = 0x4040000000000000"
    by (simp_all add: f64_of_int_def f64_of_ratio_def f64_pack_def)
  moreover have "f64_round_mag 9007199254740992 4503599627370496 = 0x4000000000000000"
    by (simp add: f64_round_eval)
  then have "f64_div 0x4050000000000000 0x4040000000000000 = 0x4000000000000000"
    by (simp add: f64_div_def f64_bits_eval f64_of_ratio_def f64_pack_def pow_scale_def)
  moreover have "\<not> f64_lt 0x4000000000000000 kCompressionMinRatio"
    by (simp add: f64_lt_def f64_bits_eval kCompressionMinRatio_def)
  ultimately show ?thesis
    by (simp add: keep_kind_def raw_data_bytes_def raw_aux_bytes_def is_varlen_def lossy_column_simps
        lossy_config_def g_compression_config_def)
qed

lemma lossy_built:
  assumes "loaded_from lossy_config 8 8 [lossy_column] sg"
  shows "sg_compression_kinds sg ! 0 = CkBitPacked \<and>
         sg_compressed_columns sg ! 0 =
           encoded_view lossy_column CkBitPacked (concat (replicate 4 [0, 0, 63, 0]))
             (le_bytes 8 (word_of_int lossy_low :: u64) @ 16 # replicate 7 0) []"
proof -
  have "sg_sealed sg" using assms by (simp add: loaded_from_def ResolveRowCount_def)
  with loaded_from_column [OF assms, of 0] obtain b where
    b: "build_column lossy_config CkBitPacked lossy_column = Some b" "sg_compressed_columns sg ! 0 = bc_view b"
      "sg_compression_kinds sg ! 0 = bc_kind b"
    by (auto simp: lossy_kind)
  let ?d = "concat (replicate 4 [0, 0, 63, 0 :: u8])"
  let ?a = "le_bytes 8 (word_of_int lossy_low :: u64) @ 16 # replicate 7 0"
  have e: "encode_column CkBitPacked lossy_column = Some (CkBitPacked, ?d, ?a)"
    using lossy_inv by (simp add: encode_column_def encode_integers_def lossy_column_simps lossy_encoded
        reads_ok_inv fv_inv_def)
  have "length ?d + length ?a = 32" by (simp add: numeral_eq_Suc)
  moreover have "validity_copy lossy_column = []" by (simp add: validity_copy_def lossy_column_simps)
  ultimately show ?thesis
    using b e lossy_kept by (auto simp: build_column_def Let_def)
qed

text \<open>
  C37. Defect: choosing an encoding by the double-precision range loses 64-bit integers.
  Sealing the well-formed column of eight rows alternating \<open>2 ^ 60 - 447\<close> and
  \<open>2 ^ 60 + 65152\<close> (dictionaries disabled) bit-packs it to 16 bits, and the second row is read
  back as \<open>2 ^ 60 - 384\<close>.
\<close>
theorem sealing_loses_large_integers:
  "\<exists>sg. segment_new lossy_config 8 8 [lossy_column] = Some sg \<and>
     field_i64 lossy_column 1 = word_of_int (2 ^ 60 + 65152) \<and>
     ReadInt64Value (sg_compressed_columns sg ! 0) 1 = Some (Some (word_of_int (2 ^ 60 - 384)))"
proof -
  obtain sg where sg: "segment_new lossy_config 8 8 [lossy_column] = Some sg"
    "loaded_from lossy_config 8 8 [lossy_column] sg"
    using segment_new_built [of "[lossy_column]" lossy_config 8 8] lossy_inv by auto
  moreover have "ReadInt64Value (encoded_view lossy_column CkBitPacked (concat (replicate 4 [0, 0, 63, 0]))
      (le_bytes 8 (word_of_int lossy_low :: u64) @ 16 # replicate 7 0) []) 1 =
      Some (Some (word_of_int (2 ^ 60 - 384)))"
    by code_simp
  ultimately show ?thesis
    using lossy_built [OF sg(2)] lossy_cells [of 1] by (intro exI [of _ sg]) (simp add: lossy_high_def)
qed

section \<open>Encoding a sealed segment again\<close>

text \<open>Defect: \<open>SetCompressionKinds\<close> on a segment one of whose integer columns was kept in
  an encoded form reads that column's released storage, whatever kinds are asked for: the
  call always goes out of bounds.
\<close>
theorem SetCompressionKinds_out_of_bounds:
  assumes "\<forall>f\<in>set flds. fv_inv f" and "segment_new cfg cap n flds = Some sg" and "sg_sealed sg"
    and "i < length flds" and "sg_compression_kinds sg ! i \<noteq> CkNone"
    and "is_encodable (fv_type (flds ! i))" and "\<exists>r<fv_size (flds ! i). fv_IsValid (flds ! i) r"
    and "length kinds = length flds"
  shows "SetCompressionKinds cfg' kinds sg = None"
proof -
  have l: "loaded_from cfg cap n flds sg" using segment_new_loaded [OF assms(1,2)] .
  from loaded_from_column [OF l assms(3,4)] obtain b where
    b: "build_column cfg (chosen_kind cfg (flds ! i)) (flds ! i) = Some b" "sg_fields sg ! i = bc_field b"
       "sg_compression_kinds sg ! i = bc_kind b" .
  obtain k d a where "encode_column (chosen_kind cfg (flds ! i)) (flds ! i) = Some (k, d, a)"
    using b(1) by (auto simp: build_column_def split: Option.bind_splits)
  from build_column_kind [OF this b(1)] have "sg_fields sg ! i = fv_ReleaseStorage (flds ! i)"
    using b(2,3) assms(5) by auto
  moreover have "length (sg_fields sg) = length flds" using l by (simp add: loaded_from_def)
  ultimately show ?thesis
    using SetCompressionKinds_released [OF assms(3)] assms(4,6-8) by metis
qed

theorem SetCompressionKinds_out_of_bounds_witness:
  "\<exists>sg. segment_new lossy_config 8 8 [lossy_column] = Some sg \<and>
     SetCompressionKinds lossy_config [CkNone] sg = None"
proof -
  have inv: "\<forall>f\<in>set [lossy_column]. fv_inv f" using lossy_inv by simp
  obtain sg where sg: "segment_new lossy_config 8 8 [lossy_column] = Some sg"
    "loaded_from lossy_config 8 8 [lossy_column] sg"
    using segment_new_built [OF inv, of lossy_config 8 8] by auto
  then have sealed: "sg_sealed sg" by (simp add: loaded_from_def ResolveRowCount_def)
  have "sg_compression_kinds sg ! 0 = CkBitPacked" using lossy_built [OF sg(2)] by blast
  then have "SetCompressionKinds lossy_config [CkNone] sg = None"
    using SetCompressionKinds_out_of_bounds [OF inv sg(1) sealed, of 0 "[CkNone]" lossy_config]
      exI [of "\<lambda>r. r < 8" "0 :: nat"]
    by (auto simp: lossy_column_simps is_encodable_def)
  with sg(1) show ?thesis by blast
qed

end
