(* ===== verification/Batch.thy ===== *)
theory Batch
  imports Segment
begin

text \<open>
  \<open>engine/src/batch.cpp\<close>: an iterator that cuts the rows of a segment into batches.
\<close>

record batch =
  ba_offset :: nat
  ba_length :: nat

record batch_iterator =
  bt_total :: nat
  bt_batch_size :: nat
  bt_cursor :: nat

definition batch_empty :: batch where
  "batch_empty = \<lparr>ba_offset = 0, ba_length = 0\<rparr>"

definition BatchIterator :: "segment \<Rightarrow> nat \<Rightarrow> batch_iterator" where
  "BatchIterator sg batch_size =
     \<lparr>bt_total = sg_row_count sg, bt_batch_size = batch_size, bt_cursor = 0\<rparr>"

definition HasNext :: "batch_iterator \<Rightarrow> bool" where
  "HasNext it \<longleftrightarrow> bt_cursor it < bt_total it"

definition Next :: "batch_iterator \<Rightarrow> batch \<times> batch_iterator" where
  "Next it =
     (if \<not> HasNext it \<or> bt_batch_size it = 0 then (batch_empty, it)
      else
        let remaining = bt_total it - bt_cursor it;
            len = (if remaining < bt_batch_size it then remaining else bt_batch_size it)
        in (\<lparr>ba_offset = bt_cursor it, ba_length = len\<rparr>, it\<lparr>bt_cursor := bt_cursor it + len\<rparr>))"

text \<open>
  \<open>while (it.HasNext()) f(it.Next())\<close>: the batches in order, \<open>None\<close> if the loop has not
  ended after \<open>fuel\<close> rounds.
\<close>

fun drain :: "nat \<Rightarrow> batch_iterator \<Rightarrow> batch list option" where
  "drain 0 it = (if HasNext it then None else Some [])"
| "drain (Suc fuel) it =
     (if HasNext it then let (b, it) = Next it in map_option (Cons b) (drain fuel it) else Some [])"

definition batch_rows :: "batch \<Rightarrow> nat list" where
  "batch_rows b = [ba_offset b..<ba_offset b + ba_length b]"

lemma drain_rows:
  assumes "0 < bt_batch_size it" and "bt_total it - bt_cursor it \<le> fuel" and "bt_cursor it \<le> bt_total it"
  shows "\<exists>bs. drain fuel it = Some bs \<and> concat (map batch_rows bs) = [bt_cursor it..<bt_total it] \<and>
           (\<forall>b\<in>set bs. 0 < ba_length b \<and> ba_length b \<le> bt_batch_size it)"
  using assms
proof (induction fuel arbitrary: it)
  case 0
  then show ?case by (simp add: HasNext_def)
next
  case (Suc fuel)
  show ?case
  proof (cases "HasNext it")
    case False
    with Suc.prems show ?thesis by (simp add: HasNext_def)
  next
    case True
    then have lt: "bt_cursor it < bt_total it" by (simp add: HasNext_def)
    define len where "len = min (bt_total it - bt_cursor it) (bt_batch_size it)"
    let ?it = "it\<lparr>bt_cursor := bt_cursor it + len\<rparr>"
    have len: "0 < len" "len \<le> bt_batch_size it" "bt_cursor it + len \<le> bt_total it"
      using lt Suc.prems(1) by (auto simp: len_def)
    have next': "Next it = (\<lparr>ba_offset = bt_cursor it, ba_length = len\<rparr>, ?it)"
      using True Suc.prems(1) by (simp add: Next_def Let_def len_def min_def)
    obtain bs where bs: "drain fuel ?it = Some bs" "concat (map batch_rows bs) = [bt_cursor it + len..<bt_total it]"
      "\<forall>b\<in>set bs. 0 < ba_length b \<and> ba_length b \<le> bt_batch_size it"
      using Suc.IH [of ?it] Suc.prems len by fastforce
    have "[bt_cursor it..<bt_cursor it + len] @ [bt_cursor it + len..<bt_total it] = [bt_cursor it..<bt_total it]"
      using upt_add_eq_append [of "bt_cursor it" "bt_cursor it + len" "bt_total it - (bt_cursor it + len)"] len(3)
      by simp
    moreover have "batch_rows \<lparr>ba_offset = bt_cursor it, ba_length = len\<rparr> =
        [bt_cursor it..<bt_cursor it + len]"
      by (simp add: batch_rows_def)
    ultimately show ?thesis using True next' bs len by simp
  qed
qed

text \<open>The batches of a segment tile its rows: with a positive batch size the loop over
  \<open>HasNext\<close> and \<open>Next\<close> ends after at most as many rounds as there are rows, the batches' rows
  put together are the rows \<open>0, 1, \<dots>\<close> of the segment in order, each once, and no batch is
  empty or longer than the batch size.
\<close>
theorem BatchIterator_tiles:
  assumes "0 < batch_size"
  shows "\<exists>bs. drain (sg_row_count sg) (BatchIterator sg batch_size) = Some bs \<and>
           concat (map batch_rows bs) = [0..<sg_row_count sg] \<and>
           (\<forall>b\<in>set bs. 0 < ba_length b \<and> ba_length b \<le> batch_size)"
  using drain_rows [of "BatchIterator sg batch_size" "sg_row_count sg"] assms
  by (simp add: BatchIterator_def)

theorem BatchIterator_tiles_witness:
  "\<exists>bs. drain 5 (BatchIterator ((segment_blank 8)\<lparr>sg_row_count := 5\<rparr>) 2) = Some bs \<and>
     concat (map batch_rows bs) = [0..<5]"
  using BatchIterator_tiles [of 2 "(segment_blank 8)\<lparr>sg_row_count := 5\<rparr>"] by auto

text \<open>
  With a batch size of zero the same loop never ends on a segment that has rows:
  \<open>HasNext\<close> stays true and \<open>Next\<close> does not move, whatever the number of rounds.
\<close>
theorem BatchIterator_zero_size_diverges:
  assumes "0 < sg_row_count sg"
  shows "drain fuel (BatchIterator sg 0) = None"
proof (induction fuel)
  case 0
  show ?case using assms by (simp add: HasNext_def BatchIterator_def)
next
  case (Suc fuel)
  have "Next (BatchIterator sg 0) = (batch_empty, BatchIterator sg 0)"
    by (simp add: Next_def BatchIterator_def)
  with Suc show ?case using assms by (simp add: HasNext_def BatchIterator_def)
qed

theorem BatchIterator_zero_size_diverges_witness:
  "drain 1000 (BatchIterator ((segment_blank 8)\<lparr>sg_row_count := 5\<rparr>) 0) = None"
  using BatchIterator_zero_size_diverges [of "(segment_blank 8)\<lparr>sg_row_count := 5\<rparr>" 1000] by simp

end
