(* ===== verification/Parallel.thy ===== *)
theory Parallel
  imports Scan SegmentFacts "HOL-Library.Multiset"
begin

text \<open>
  The part of \<open>engine/src/scan.cpp\<close> that works on many segments: the static schedule, the two
  parallel scans and zone-map pruning.

  A parallel scan is an interleaving: each thread owns a consumer context and a list of
  segments, the predicate's context is shared, and one step of the program is one step of one
  thread (one row of a scan, or the move to the next segment).  The locale \<open>thread_steps\<close> is about
  termination; \<open>thread_program\<close> extends it and states what a thread's steps must keep for the
  interleaving not to matter, which both scans provide when the predicate does not write its context.
\<close>

section \<open>The schedule\<close>

definition ScheduleSegments :: "nat \<Rightarrow> nat \<Rightarrow> nat list list" where
  "ScheduleSegments segment_count thread_count =
     (if thread_count = 0 then []
      else for_loop 0 segment_count
             (\<lambda>i schedule. let t = i mod thread_count in schedule[t := schedule ! t @ [i]])
             (replicate thread_count []))"

lemma ScheduleSegments_rows:
  assumes "0 < k"
  shows "ScheduleSegments n k = map (\<lambda>t. filter (\<lambda>i. i mod k = t) [0..<n]) [0..<k]"
proof -
  let ?step = "\<lambda>i schedule. let t = i mod k in schedule[t := schedule ! t @ [i]]"
  have "for_loop 0 n ?step (replicate k []) = map (\<lambda>t. filter (\<lambda>i. i mod k = t) [0..<n]) [0..<k]"
  proof (induction n)
    case 0
    show ?case by (simp add: map_replicate_const)
  next
    case (Suc n)
    have "n mod k < k" using assms by simp
    with Suc show ?case
      by (auto simp: for_loop_Suc Let_def nth_list_update intro!: nth_equalityI)
  qed
  with assms show ?thesis by (simp add: ScheduleSegments_def)
qed

lemma mset_filter_mod:
  "mset (concat (map (\<lambda>t. filter (\<lambda>i. i mod k = t) xs) [0..<m])) = mset (filter (\<lambda>i. i mod k < m) xs)"
proof (induction m)
  case 0
  show ?case by simp
next
  case (Suc m)
  have "mset (filter (\<lambda>i. i mod k < Suc m) xs) =
        mset (filter (\<lambda>i. i mod k < m) xs) + mset (filter (\<lambda>i. i mod k = m) xs)"
    by (induction xs) auto
  with Suc show ?case by simp
qed

text \<open>
  The schedule deals out every segment to exactly one thread: the threads' lists put
  together are a permutation of all segment indices, thread \<open>t\<close> gets those congruent to \<open>t\<close>
  in increasing order, and no two threads' shares differ by more than one segment.
\<close>
theorem ScheduleSegments_partition:
  assumes "0 < k"
  shows "length (ScheduleSegments n k) = k \<and> mset (concat (ScheduleSegments n k)) = mset [0..<n] \<and>
         (\<forall>t<k. ScheduleSegments n k ! t = filter (\<lambda>i. i mod k = t) [0..<n])"
proof -
  have "filter (\<lambda>i. i mod k < k) [0..<n] = [0..<n]" using assms by (simp add: filter_id_conv)
  then show ?thesis
    unfolding ScheduleSegments_rows [OF assms] mset_filter_mod by simp
qed

theorem ScheduleSegments_partition_witness:
  "mset (concat (ScheduleSegments 5 2)) = mset [0..<5] \<and>
   ScheduleSegments 5 2 ! 1 = filter (\<lambda>i. i mod 2 = 1) [0..<5]"
  using ScheduleSegments_partition [of 2 5] by simp

section \<open>Interleaved threads\<close>

text \<open>One step of one thread of many, and runs of such steps.\<close>

inductive par_step ::
  "('p \<Rightarrow> 's \<Rightarrow> ('p \<times> 's) option) \<Rightarrow> 'p \<times> 's list \<Rightarrow> 'p \<times> 's list \<Rightarrow> bool"
  for tstep where
  move: "t < length ths \<Longrightarrow> tstep p (ths ! t) = Some (p', s') \<Longrightarrow> par_step tstep (p, ths) (p', ths[t := s'])"

inductive par_run ::
  "('p \<Rightarrow> 's \<Rightarrow> ('p \<times> 's) option) \<Rightarrow> 'p \<times> 's list \<Rightarrow> 'p \<times> 's list \<Rightarrow> bool"
  for tstep where
  stop: "par_run tstep c c"
| more: "par_run tstep c d \<Longrightarrow> par_step tstep d e \<Longrightarrow> par_run tstep c e"

inductive_cases par_stepE [elim]: "par_step tstep c d"

text \<open>All threads have returned: what the \<open>join\<close> loop waits for. A step function with
  no next step is a thread function that has returned; for the scanning threads below that is
  exactly an empty work list, lemma \<open>scan_threads_stuck\<close>.\<close>

definition all_done :: "('p \<Rightarrow> 's \<Rightarrow> ('p \<times> 's) option) \<Rightarrow> 'p \<times> 's list \<Rightarrow> bool" where
  "all_done tstep c \<longleftrightarrow> list_all (\<lambda>s. tstep (fst c) s = None) (snd c)"

text \<open>A run that is not complete can go on.\<close>

lemma can_move:
  assumes "\<not> all_done tstep d"
  shows "\<exists>e. par_step tstep d e"
proof -
  obtain t where t: "t < length (snd d)" "tstep (fst d) (snd d ! t) \<noteq> None"
    using assms by (auto simp: all_done_def list_all_length)
  then obtain p' s' where "tstep (fst d) (snd d ! t) = Some (p', s')" by auto
  from par_step.move [of t "snd d" tstep, OF t(1) this] show ?thesis by auto
qed

lemma stuck_iff: "(\<nexists>e. par_step tstep d e) \<longleftrightarrow> all_done tstep d"
proof
  show "all_done tstep d" if "\<nexists>e. par_step tstep d e" using can_move that by blast
  show "\<nexists>e. par_step tstep d e" if "all_done tstep d"
    using that by (auto simp: all_done_def list_all_length)
qed

text \<open>Threads that have less to do after every step.\<close>

locale thread_steps =
  fixes tstep :: "'p \<Rightarrow> 's \<Rightarrow> ('p \<times> 's) option" and todo :: "'s \<Rightarrow> nat"
  assumes progress: "tstep p s = Some (p', s') \<Longrightarrow> todo s' < todo s"
begin

text \<open>No run is longer than the work there is.\<close>

lemma step_decreases:
  assumes "par_step tstep c d"
  shows "sum_list (map todo (snd d)) < sum_list (map todo (snd c))"
  using assms
proof cases
  case (move t ths p p' s')
  then have "todo s' < todo (ths ! t)" "todo (ths ! t) \<le> sum_list (map todo ths)"
    using progress elem_le_sum_list [of t "map todo ths"] by auto
  with move show ?thesis by (simp add: map_update sum_list_update)
qed

lemma wf_steps: "wf {(e, d). par_step tstep d e}"
  by (rule wf_subset [OF wf_measure [of "\<lambda>d. sum_list (map todo (snd d))"]]) (auto dest: step_decreases)

lemma completes:
  assumes "par_run tstep c d"
  shows "\<exists>e. par_run tstep c e \<and> all_done tstep e"
  using assms
proof (induction "sum_list (map todo (snd d))" arbitrary: d rule: less_induct)
  case less
  show ?case
  proof (cases "all_done tstep d")
    case True
    with less(2) show ?thesis by blast
  next
    case False
    then obtain e where "par_step tstep d e" using can_move by blast
    with less show ?thesis using step_decreases par_run.more by blast
  qed
qed

end

text \<open>Threads that do not write what they share and whose results can be told before they run.\<close>

locale thread_program = thread_steps tstep todo
  for tstep :: "'p \<Rightarrow> 's \<Rightarrow> ('p \<times> 's) option" and todo :: "'s \<Rightarrow> nat" +
  fixes inv :: "'p \<Rightarrow> 's \<Rightarrow> bool" and result :: "'p \<Rightarrow> 's \<Rightarrow> 'r" and ctx :: "'s \<Rightarrow> 'r"
  assumes shared: "tstep p s = Some (p', s') \<Longrightarrow> p' = p"
    and inv_step: "inv p s \<Longrightarrow> tstep p s = Some (p', s') \<Longrightarrow> inv p s'"
    and result_step: "inv p s \<Longrightarrow> tstep p s = Some (p', s') \<Longrightarrow> result p s' = result p s"
    and at_end: "inv p s \<Longrightarrow> tstep p s = None \<Longrightarrow> result p s = ctx s"
begin

lemma run_keeps:
  assumes "par_run tstep (p, ths) d" and "\<forall>s\<in>set ths. inv p s"
  shows "fst d = p \<and> (\<forall>s\<in>set (snd d). inv p s) \<and> map (result p) (snd d) = map (result p) ths \<and>
         sum_list (map todo (snd d)) \<le> sum_list (map todo ths)"
  using assms
proof (induction "(p, ths)" d rule: par_run.induct)
  case stop
  then show ?case by simp
next
  case (more d e)
  then have IH: "fst d = p" "\<forall>s\<in>set (snd d). inv p s" "map (result p) (snd d) = map (result p) ths"
    "sum_list (map todo (snd d)) \<le> sum_list (map todo ths)" by auto
  from more(3) obtain t us s' p' where
    t: "t < length us" "tstep p (us ! t) = Some (p', s')" "d = (p, us)" "e = (p', us[t := s'])"
    using IH(1) by (cases d) auto
  have u: "inv p (us ! t)" "us ! t \<in> set us" using IH(2) t(1,3) by auto
  have "map (result p) (us[t := s']) = map (result p) us"
    using result_step [OF u(1) t(2)] t(1) by (simp add: map_update list_update_same_conv)
  moreover have "sum_list (map todo (us[t := s'])) \<le> sum_list (map todo us)"
    using progress [OF t(2)] t(1) elem_le_sum_list [of t "map todo us"]
    by (simp add: map_update sum_list_update)
  moreover have "\<forall>s\<in>set (us[t := s']). inv p s"
    using IH(2) inv_step [OF u(1) t(2)] t(3) set_update_subset_insert [of us t s'] by auto
  ultimately show ?case using IH t(3,4) shared [OF t(2)] by auto
qed

text \<open>Every complete run ends with the same contexts, whatever the interleaving.\<close>

lemma run_result:
  assumes "par_run tstep (p, ths) d" and "\<forall>s\<in>set ths. inv p s" and "all_done tstep d"
  shows "map ctx (snd d) = map (result p) ths \<and> fst d = p"
proof -
  have "map ctx (snd d) = map (result p) (snd d)"
    using run_keeps [OF assms(1,2)] assms(3) at_end
    by (intro map_cong) (auto simp: all_done_def list_all_iff)
  with run_keeps [OF assms(1,2)] show ?thesis by simp
qed

lemma outcome:
  assumes "\<forall>s\<in>set ths. inv p s"
  shows "(\<exists>p' us. par_run tstep (p, ths) (p', us) \<and> all_done tstep (p', us) \<and> out = g p' (map ctx us)) \<longleftrightarrow>
         out = g p (map (result p) ths)"
proof
  assume "\<exists>p' us. par_run tstep (p, ths) (p', us) \<and> all_done tstep (p', us) \<and> out = g p' (map ctx us)"
  then obtain p' us where r: "par_run tstep (p, ths) (p', us)" "all_done tstep (p', us)"
    "out = g p' (map ctx us)" by blast
  from run_result [OF r(1) assms r(2)] r(3) show "out = g p (map (result p) ths)" by simp
next
  assume o: "out = g p (map (result p) ths)"
  obtain e where e: "par_run tstep (p, ths) e" "all_done tstep e" using completes [OF par_run.stop] by blast
  moreover from run_result [OF e(1) assms e(2)] have "map ctx (snd e) = map (result p) ths" "fst e = p" by auto
  ultimately show "\<exists>p' us. par_run tstep (p, ths) (p', us) \<and> all_done tstep (p', us) \<and> out = g p' (map ctx us)"
    using o by (intro exI [of _ p] exI [of _ "snd e"]) (metis prod.collapse)
qed

end

section \<open>The two scans\<close>

record 'c scan_thread =
  th_work :: "nat list"
  th_row :: nat
  th_mask :: "mask option"
  th_building :: bool
  th_ctx :: 'c

text \<open>A thread of \<open>ScanSegmentsParallel\<close>: the next row, or the next segment.\<close>

definition scan_thread_step ::
  "segment list \<Rightarrow> 'p predicate_fn \<Rightarrow> 'c consume_fn \<Rightarrow> 'p \<Rightarrow> 'c scan_thread \<Rightarrow> ('p \<times> 'c scan_thread) option" where
  "scan_thread_step segments predicate consume pc th =
     (case th_work th of
        [] \<Rightarrow> None
      | idx # rest \<Rightarrow>
          let i = th_row th in
          if i < sg_row_count (segments ! idx) then
            let (hit, pc) = predicate i pc
            in Some (pc, th\<lparr>th_row := Suc i, th_ctx := (if hit then consume i (th_ctx th) else th_ctx th)\<rparr>)
          else Some (pc, th\<lparr>th_work := rest, th_row := 0\<rparr>))"

text \<open>
  A thread of \<open>ScanSegmentsParallelMaskFirst\<close>: it makes the segment's mask, fills it row by row,
  then goes through the rows again.
\<close>

definition mask_thread_step ::
  "segment list \<Rightarrow> 'p predicate_fn \<Rightarrow> 'c consume_fn \<Rightarrow> 'p \<Rightarrow> 'c scan_thread \<Rightarrow> ('p \<times> 'c scan_thread) option" where
  "mask_thread_step segments predicate consume pc th =
     (case th_work th of
        [] \<Rightarrow> None
      | idx # rest \<Rightarrow>
          let i = th_row th; count = sg_row_count (segments ! idx) in
          case th_mask th of
            None \<Rightarrow>
              Some (pc, th\<lparr>th_mask := Some (mask_Resize (mask_make count) count), th_building := True, th_row := 0\<rparr>)
          | Some m \<Rightarrow>
              if i < count then
                if th_building th then
                  let (hit, pc) = predicate i pc
                  in Some (pc, th\<lparr>th_row := Suc i, th_mask := Some (mask_Set m i hit)\<rparr>)
                else Some (pc, th\<lparr>th_row := Suc i,
                                  th_ctx := (if mask_Get m i then consume i (th_ctx th) else th_ctx th)\<rparr>)
              else if th_building th then Some (pc, th\<lparr>th_building := False, th_row := 0\<rparr>)
              else Some (pc, th\<lparr>th_work := rest, th_mask := None, th_row := 0\<rparr>))"

definition initial_threads :: "nat list list \<Rightarrow> nat \<Rightarrow> 'c list \<Rightarrow> 'c scan_thread list" where
  "initial_threads schedule thread_count consume_ctxs =
     map (\<lambda>t. \<lparr>th_work = schedule ! t, th_row = 0, th_mask = None, th_building = False,
               th_ctx = consume_ctxs ! t\<rparr>) [0..<thread_count]"

text \<open>The outcomes of a call: the shared context and the consumers' contexts after all joins.\<close>

definition parallel_outcome ::
  "(segment list \<Rightarrow> 'p predicate_fn \<Rightarrow> 'c consume_fn \<Rightarrow> 'p \<Rightarrow> 'c scan_thread \<Rightarrow> ('p \<times> 'c scan_thread) option) \<Rightarrow>
   segment list \<Rightarrow> nat \<Rightarrow> 'p predicate_fn option \<Rightarrow> 'p \<Rightarrow> 'c consume_fn option \<Rightarrow> 'c list \<Rightarrow>
   'p \<times> 'c list \<Rightarrow> bool" where
  "parallel_outcome thread segments thread_count predicate pc consume ccs out \<longleftrightarrow>
     (case (predicate, consume) of
        (Some p, Some f) \<Rightarrow>
          if thread_count = 0 \<or> segments = [] \<or> length ccs < thread_count then out = (pc, ccs)
          else
            \<exists>pc' ths. par_run (thread segments p f)
                   (pc, initial_threads (ScheduleSegments (length segments) thread_count) thread_count ccs)
                   (pc', ths) \<and>
                 all_done (thread segments p f) (pc', ths) \<and>
                 out = (pc', map th_ctx ths @ drop thread_count ccs)
      | _ \<Rightarrow> out = (pc, ccs))"

definition ScanSegmentsParallel ::
  "segment list \<Rightarrow> nat \<Rightarrow> 'p predicate_fn option \<Rightarrow> 'p \<Rightarrow> 'c consume_fn option \<Rightarrow> 'c list \<Rightarrow>
   'p \<times> 'c list \<Rightarrow> bool" where
  "ScanSegmentsParallel = parallel_outcome scan_thread_step"

definition ScanSegmentsParallelMaskFirst ::
  "segment list \<Rightarrow> nat \<Rightarrow> 'p predicate_fn option \<Rightarrow> 'p \<Rightarrow> 'c consume_fn option \<Rightarrow> 'c list \<Rightarrow>
   'p \<times> 'c list \<Rightarrow> bool" where
  "ScanSegmentsParallelMaskFirst = parallel_outcome mask_thread_step"

section \<open>Both scans do not depend on the interleaving\<close>

text \<open>A predicate that only reads its context.\<close>

definition read_only :: "(nat \<Rightarrow> 'p \<Rightarrow> bool) \<Rightarrow> 'p predicate_fn" where
  "read_only q = (\<lambda>i pc. (q i pc, pc))"

text \<open>What a thread still has to do to its context, one segment after the other.\<close>

definition scan_rows_from :: "(nat \<Rightarrow> 'p \<Rightarrow> bool) \<Rightarrow> 'c consume_fn \<Rightarrow> 'p \<Rightarrow> nat \<Rightarrow> nat \<Rightarrow> 'c \<Rightarrow> 'c" where
  "scan_rows_from q f pc lo hi cc = fold f (filter (\<lambda>i. q i pc) [lo..<hi]) cc"

definition scan_segments ::
  "segment list \<Rightarrow> (nat \<Rightarrow> 'p \<Rightarrow> bool) \<Rightarrow> 'c consume_fn \<Rightarrow> 'p \<Rightarrow> nat list \<Rightarrow> 'c \<Rightarrow> 'c" where
  "scan_segments segments q f pc work cc =
     fold (\<lambda>idx. scan_rows_from q f pc 0 (sg_row_count (segments ! idx))) work cc"

definition thread_result ::
  "segment list \<Rightarrow> (nat \<Rightarrow> 'p \<Rightarrow> bool) \<Rightarrow> 'c consume_fn \<Rightarrow> 'p \<Rightarrow> 'c scan_thread \<Rightarrow> 'c" where
  "thread_result segments q f pc th =
     (case th_work th of
        [] \<Rightarrow> th_ctx th
      | idx # rest \<Rightarrow>
          let lo = (if th_mask th \<noteq> None \<and> th_building th then 0 else th_row th)
          in scan_segments segments q f pc rest
               (scan_rows_from q f pc lo (sg_row_count (segments ! idx)) (th_ctx th)))"

definition thread_todo :: "segment list \<Rightarrow> 'c scan_thread \<Rightarrow> nat" where
  "thread_todo segments th =
     (case th_work th of
        [] \<Rightarrow> 0
      | idx # rest \<Rightarrow>
          sg_row_count (segments ! idx) - th_row th + 1 +
          sum_list (map (\<lambda>i. sg_row_count (segments ! i) + 1) rest))"

definition mask_thread_todo :: "segment list \<Rightarrow> 'c scan_thread \<Rightarrow> nat" where
  "mask_thread_todo segments th =
     (case th_work th of
        [] \<Rightarrow> 0
      | idx # rest \<Rightarrow>
          (let n = sg_row_count (segments ! idx) in
           if th_mask th = None then 2 * n + 3
           else if th_building th then n - th_row th + n + 2 else n - th_row th + 1) +
          sum_list (map (\<lambda>i. 2 * sg_row_count (segments ! i) + 3) rest))"

definition mask_thread_inv :: "segment list \<Rightarrow> (nat \<Rightarrow> 'p \<Rightarrow> bool) \<Rightarrow> 'p \<Rightarrow> 'c scan_thread \<Rightarrow> bool" where
  "mask_thread_inv segments q pc th \<longleftrightarrow>
     (case th_work th of
        [] \<Rightarrow> True
      | idx # rest \<Rightarrow>
          (case th_mask th of
             None \<Rightarrow> th_row th = 0
           | Some m \<Rightarrow>
               mask_inv m \<and> mask_Size m = sg_row_count (segments ! idx) \<and>
               (\<forall>i < (if th_building th then th_row th else sg_row_count (segments ! idx)).
                  mask_Get m i = q i pc)))"

lemma scan_rows_from_step:
  "lo < hi \<Longrightarrow> scan_rows_from q f pc lo hi cc =
     scan_rows_from q f pc (Suc lo) hi (if q lo pc then f lo cc else cc)"
  by (simp add: scan_rows_from_def upt_conv_Cons)

lemma scan_rows_from_end [simp]: "hi \<le> lo \<Longrightarrow> scan_rows_from q f pc lo hi cc = cc"
  by (simp add: scan_rows_from_def)

lemma thread_result_next:
  "th_mask th = None \<Longrightarrow> th_row th = 0 \<Longrightarrow>
   thread_result segments q f pc th = scan_segments segments q f pc (th_work th) (th_ctx th)"
  by (simp add: thread_result_def scan_segments_def split: list.splits)

definition plain_thread :: "'p \<Rightarrow> 'c scan_thread \<Rightarrow> bool" where
  "plain_thread pc th \<longleftrightarrow> th_mask th = None"

interpretation scan_steps: thread_steps "scan_thread_step segments predicate f" "thread_todo segments"
  for segments predicate f
  by unfold_locales
     (auto simp: scan_thread_step_def thread_todo_def Let_def split: list.splits if_splits prod.splits)

interpretation scan_threads:
  thread_program "scan_thread_step segments (read_only q) f" "thread_todo segments" plain_thread
    "thread_result segments q f" th_ctx
  for segments q f
proof unfold_locales
  fix p p' and s s' :: "'b scan_thread"
  assume s: "scan_thread_step segments (read_only q) f p s = Some (p', s')"
  then show "p' = p"
    by (auto simp: scan_thread_step_def read_only_def Let_def split: list.splits if_splits)
  assume inv: "plain_thread p s"
  from s inv show "plain_thread p s'"
    by (auto simp: scan_thread_step_def read_only_def plain_thread_def Let_def split: list.splits if_splits)
  from s inv show "thread_result segments q f p s' = thread_result segments q f p s"
    by (auto simp: scan_thread_step_def read_only_def plain_thread_def thread_result_def Let_def
        scan_rows_from_step scan_segments_def split: list.splits if_splits)
next
  fix p and s :: "'b scan_thread"
  assume "scan_thread_step segments (read_only q) f p s = None"
  then show "thread_result segments q f p s = th_ctx s"
    by (auto simp: scan_thread_step_def read_only_def thread_result_def Let_def split: list.splits if_splits)
qed

lemma mask_Size_Set [simp]: "mask_Size (mask_Set m i v) = mask_Size m"
  and mask_Size_Resize [simp]: "mask_Size (mask_Resize m n) = n"
  by (simp_all add: mask_Size_def mk.bits_set mask_Resize_def)

lemma mask_Get_Set:
  "mask_inv m \<Longrightarrow> mask_Get (mask_Set m i v) j = (if j = i \<and> i < mask_Size m then v else mask_Get m j)"
  using mk.get_set [of m i v j] mk.set_out [of m i v] by (cases "i < mk_bit_count m") (auto simp: mask_Size_def)

interpretation mask_steps: thread_steps "mask_thread_step segments predicate f" "mask_thread_todo segments"
  for segments predicate f
  by unfold_locales
     (auto simp: mask_thread_step_def mask_thread_todo_def Let_def split: list.splits if_splits option.splits prod.splits)

interpretation mask_threads:
  thread_program "mask_thread_step segments (read_only q) f" "mask_thread_todo segments" "mask_thread_inv segments q"
    "thread_result segments q f" th_ctx
  for segments q f
proof unfold_locales
  fix p p' and s s' :: "'b scan_thread"
  assume s: "mask_thread_step segments (read_only q) f p s = Some (p', s')"
  then show "p' = p"
    by (auto simp: mask_thread_step_def read_only_def Let_def split: list.splits if_splits option.splits)
  assume inv: "mask_thread_inv segments q p s"
  from s inv show "mask_thread_inv segments q p s'"
    by (auto simp: mask_thread_step_def read_only_def mask_thread_inv_def Let_def mask_Get_Set less_Suc_eq mk.invar_set
        split: list.splits if_splits option.splits)
  from s inv show "thread_result segments q f p s' = thread_result segments q f p s"
    by (auto simp: mask_thread_step_def read_only_def mask_thread_inv_def thread_result_def Let_def
        scan_rows_from_step scan_segments_def split: list.splits if_splits option.splits)
next
  fix p and s :: "'b scan_thread"
  assume "mask_thread_step segments (read_only q) f p s = None"
  then show "thread_result segments q f p s = th_ctx s"
    by (auto simp: mask_thread_step_def read_only_def thread_result_def Let_def
        split: list.splits if_splits option.splits)
qed

section \<open>The result of a parallel scan\<close>

lemma ScanLoop_read_only:
  "ScanLoop n (Some (read_only q)) pc (Some f) cc = (pc, scan_rows_from q f pc 0 n cc)"
proof -
  have "pred_run (read_only q) n pc = (pc, filter (\<lambda>i. q i pc) [0..<n])"
    by (induction n) (simp_all add: read_only_def)
  then show ?thesis by (simp add: ScanLoop_run scan_rows_from_def)
qed

text \<open>What one thread computes on its own: \<open>ScanLoop\<close> over its segments.\<close>

definition thread_scan ::
  "segment list \<Rightarrow> 'p predicate_fn \<Rightarrow> 'p \<Rightarrow> 'c consume_fn \<Rightarrow> nat list \<Rightarrow> 'c \<Rightarrow> 'c" where
  "thread_scan segments p pc f work cc =
     fold (\<lambda>idx cc. snd (ScanLoop (sg_row_count (segments ! idx)) (Some p) pc (Some f) cc)) work cc"

lemma thread_scan_read_only: "thread_scan segments (read_only q) pc f work = scan_segments segments q f pc work"
  by (rule ext) (simp add: thread_scan_def scan_segments_def ScanLoop_read_only)

lemma initial_results:
  "map (thread_result segments q f pc) (initial_threads schedule k ccs) =
   map (\<lambda>t. scan_segments segments q f pc (schedule ! t) (ccs ! t)) [0..<k]"
  by (simp add: initial_threads_def thread_result_next)

lemma initial_plain: "\<forall>s\<in>set (initial_threads schedule k ccs). plain_thread pc s"
  and initial_mask: "\<forall>s\<in>set (initial_threads schedule k ccs). mask_thread_inv segments q pc s"
  by (auto simp: initial_threads_def plain_thread_def mask_thread_inv_def split: list.split)

text \<open>
  C16. The parallel scans are deterministic and complete: with at least one thread, a segment and a
  context for every consumer, and with a predicate that only reads its
  context, every interleaving of the threads of \<open>ScanSegmentsParallel\<close>, and of
  \<open>ScanSegmentsParallelMaskFirst\<close>, ends with the predicate's context unchanged and with each
  consumer's context as if its thread had run \<open>ScanLoop\<close> over its scheduled segments alone, and
  at least one interleaving ends.
\<close>
theorem parallel_scans_deterministic:
  assumes "0 < k" and "segments \<noteq> []" and "k \<le> length ccs"
  shows "let schedule = ScheduleSegments (length segments) k;
             expected = (pc, map (\<lambda>t. thread_scan segments (read_only q) pc f (schedule ! t) (ccs ! t)) [0..<k]
                             @ drop k ccs)
         in (ScanSegmentsParallel segments k (Some (read_only q)) pc (Some f) ccs out \<longleftrightarrow> out = expected) \<and>
            (ScanSegmentsParallelMaskFirst segments k (Some (read_only q)) pc (Some f) ccs out \<longleftrightarrow> out = expected)"
  using assms
    scan_threads.outcome [OF initial_plain, of segments q f pc "ScheduleSegments (length segments) k" k ccs out
      "\<lambda>p cs. (p, cs @ drop k ccs)"]
    mask_threads.outcome [OF initial_mask, of segments q f pc "ScheduleSegments (length segments) k" k ccs out
      "\<lambda>p cs. (p, cs @ drop k ccs)"]
  by (simp add: Let_def ScanSegmentsParallel_def ScanSegmentsParallelMaskFirst_def parallel_outcome_def
      initial_results thread_scan_read_only)

theorem parallel_scans_deterministic_witness:
  "\<exists>out. ScanSegmentsParallel [(segment_blank 4)\<lparr>sg_row_count := 3\<rparr>] 1 (Some (read_only (\<lambda>i _. i \<noteq> 1)))
     () (Some (\<lambda>i xs. xs @ [i])) [[]] out \<and> snd out = [[0, 2]]"
proof -
  let ?segs = "[(segment_blank 4)\<lparr>sg_row_count := 3\<rparr>]" and ?q = "\<lambda>i _. i \<noteq> (1 :: nat)"
  let ?out = "((), [[0, 2 :: nat]])"
  have "map (\<lambda>t. thread_scan ?segs (read_only ?q) () (\<lambda>i xs. xs @ [i]) (ScheduleSegments (length ?segs) 1 ! t) ([[]] ! t))
      [0..<1] = [[0, 2 :: nat]]"
    by (simp add: thread_scan_read_only scan_segments_def scan_rows_from_def ScheduleSegments_rows upt_rec)
  then have "ScanSegmentsParallel ?segs 1 (Some (read_only ?q)) () (Some (\<lambda>i xs. xs @ [i])) [[]] ?out"
    using parallel_scans_deterministic [of 1 ?segs "[[]]" "()" ?q "\<lambda>i xs. xs @ [i]" ?out] by (simp add: Let_def)
  then show ?thesis by (intro exI [of _ ?out]) simp
qed

lemma scan_threads_stuck:
  "(\<nexists>e. par_step (scan_thread_step segments predicate f) d e) \<longleftrightarrow> list_all (\<lambda>th. th_work th = []) (snd d)"
  "(\<nexists>e. par_step (mask_thread_step segments predicate f) d' e) \<longleftrightarrow> list_all (\<lambda>th. th_work th = []) (snd d')"
  unfolding stuck_iff all_done_def
  by (intro list.pred_cong refl; auto simp: scan_thread_step_def mask_thread_step_def Let_def
      split: list.split if_splits option.splits prod.splits)+

text \<open>
  C31. Both parallel scans terminate under every scheduling, also with a predicate that writes its
  shared context: there is no infinite sequence of thread steps, and the threads stop moving
  exactly when each of them has gone through all the segments it was given, so the joins return.
\<close>
theorem parallel_scans_terminate:
  "wf {(e, d). par_step (scan_thread_step segments predicate f) d e} \<and>
   wf {(e, d). par_step (mask_thread_step segments predicate f) d e} \<and>
   ((\<nexists>e. par_step (scan_thread_step segments predicate f) d e) \<longleftrightarrow> list_all (\<lambda>th. th_work th = []) (snd d)) \<and>
   ((\<nexists>e. par_step (mask_thread_step segments predicate f) d' e) \<longleftrightarrow> list_all (\<lambda>th. th_work th = []) (snd d'))"
  using scan_steps.wf_steps mask_steps.wf_steps scan_threads_stuck by blast

section \<open>Pruning segments\<close>

definition PruneSegmentsByPredicate :: "segment list \<Rightarrow> nat \<Rightarrow> compare_op \<Rightarrow> f64 \<Rightarrow> nat list" where
  "PruneSegmentsByPredicate segments field_index op v =
     for_loop 0 (length segments)
       (\<lambda>i indices.
          let stats = sg_stats (segments ! i) in
          if field_index \<ge> length stats then indices
          else if SegmentMatchesPredicate (stats ! field_index) op v then indices @ [i] else indices) []"

definition prune_step ::
  "segment list \<Rightarrow> nat \<Rightarrow> compare_op \<Rightarrow> f64 \<Rightarrow> nat \<Rightarrow> nat list \<times> metrics option \<Rightarrow> nat list \<times> metrics option" where
  "prune_step segments field_index op v i r =
     (case r of (indices, ms) \<Rightarrow>
        let stats = sg_stats (segments ! i) in
        if field_index \<ge> length stats then (indices, map_option (AddSegmentsPruned 1) ms)
        else if SegmentMatchesPredicate (stats ! field_index) op v
        then (indices @ [i], map_option (AddSegmentsScanned 1) ms)
        else (indices, map_option (AddSegmentsPruned 1) ms))"

definition PruneSegmentsByPredicateWithMetrics ::
  "segment list \<Rightarrow> nat \<Rightarrow> compare_op \<Rightarrow> f64 \<Rightarrow> metrics option \<Rightarrow> nat list \<times> metrics option" where
  "PruneSegmentsByPredicateWithMetrics segments field_index op v ms =
     for_loop 0 (length segments) (prune_step segments field_index op v)
       ([], map_option (AddSegmentsTotal (of_nat (length segments))) ms)"

definition segment_kept :: "segment list \<Rightarrow> nat \<Rightarrow> compare_op \<Rightarrow> f64 \<Rightarrow> nat \<Rightarrow> bool" where
  "segment_kept segments j op v i \<longleftrightarrow>
     j < length (sg_stats (segments ! i)) \<and> SegmentMatchesPredicate (sg_stats (segments ! i) ! j) op v"

lemma PruneSegmentsByPredicate_filter:
  "PruneSegmentsByPredicate segments j op v = filter (segment_kept segments j op v) [0..<length segments]"
proof -
  have "for_loop 0 n (\<lambda>i indices.
          let stats = sg_stats (segments ! i) in
          if j \<ge> length stats then indices
          else if SegmentMatchesPredicate (stats ! j) op v then indices @ [i] else indices) [] =
        filter (segment_kept segments j op v) [0..<n]" for n
    by (induction n) (auto simp: for_loop_Suc Let_def segment_kept_def)
  then show ?thesis by (simp add: PruneSegmentsByPredicate_def)
qed

lemma prune_step_kept:
  "prune_step segments j op v i (ks, Some m) =
     (if segment_kept segments j op v i then (ks @ [i], Some (AddSegmentsScanned 1 m))
      else (ks, Some (AddSegmentsPruned 1 m)))"
  by (simp add: prune_step_def Let_def segment_kept_def)

lemma PruneWithMetrics_loop:
  "PruneSegmentsByPredicateWithMetrics segments j op v (Some m) =
     (let keep = filter (segment_kept segments j op v) [0..<length segments]
      in (keep,
          Some (m\<lparr>mt_segments_total := mt_segments_total m + of_nat (length segments),
                  mt_segments_scanned := mt_segments_scanned m + of_nat (length keep),
                  mt_segments_pruned := mt_segments_pruned m + of_nat (length segments - length keep)\<rparr>)))"
proof -
  let ?m = "AddSegmentsTotal (of_nat (length segments)) m"
  let ?keep = "\<lambda>n. filter (segment_kept segments j op v) [0..<n]"
  have "for_loop 0 n (prune_step segments j op v) ([], Some ?m) =
      (?keep n, Some (?m\<lparr>mt_segments_scanned := mt_segments_scanned m + of_nat (length (?keep n)),
                         mt_segments_pruned := mt_segments_pruned m + of_nat (n - length (?keep n))\<rparr>))" for n
  proof (induction n)
    case 0
    show ?case by (simp add: AddSegmentsTotal_def)
  next
    case (Suc n)
    have "length (?keep n) \<le> n" using length_filter_le [of _ "[0..<n]"] by simp
    then show ?case
      by (cases "segment_kept segments j op v n")
         (simp_all add: for_loop_Suc Suc prune_step_kept AddSegmentsPruned_def AddSegmentsScanned_def Suc_diff_le)
  qed
  from this [of "length segments"] show ?thesis
    by (simp add: PruneSegmentsByPredicateWithMetrics_def Let_def AddSegmentsTotal_def)
qed

text \<open>
  Counting does not change pruning: with a metrics object the same segments are kept,
  and the counters grow by the number of segments, of those kept and of those pruned, which
  add up.
\<close>
theorem PruneWithMetrics_correct:
  "PruneSegmentsByPredicateWithMetrics segments j op v (Some m) =
     (let keep = PruneSegmentsByPredicate segments j op v
      in (keep,
          Some (m\<lparr>mt_segments_total := mt_segments_total m + of_nat (length segments),
                  mt_segments_scanned := mt_segments_scanned m + of_nat (length keep),
                  mt_segments_pruned := mt_segments_pruned m + of_nat (length segments - length keep)\<rparr>)))"
  by (simp only: PruneWithMetrics_loop PruneSegmentsByPredicate_filter)

text \<open>
  C12. Pruning loses no row: when every segment was constructed from well-formed columns, a
  segment whose column \<open>j\<close> has a valid row that satisfies the comparison (as a double) is among
  those \<open>PruneSegmentsByPredicate\<close> keeps, sealed and encoded or not, if no valid row of that
  column is NaN.
\<close>
theorem PruneSegments_loses_no_row:
  assumes "s < length segments" and "\<forall>f\<in>set flds. fv_inv f"
    and "segment_new cfg cap n flds = Some (segments ! s)" and "j < length flds"
    and "i < fv_size (flds ! j)" and "fv_IsValid (flds ! j) i"
    and "CompareFloat64 (field_f64 (flds ! j) i) v op"
    and "\<forall>k<fv_size (flds ! j). fv_IsValid (flds ! j) k \<longrightarrow> \<not> f64_nan (field_f64 (flds ! j) k)"
  shows "s \<in> set (PruneSegmentsByPredicate segments j op v)"
proof -
  have "sg_stats (segments ! s) = map column_ComputeStats flds"
    using segment_new_loaded [OF assms(2,3)] by (simp add: loaded_from_def)
  moreover have "SegmentMatchesPredicate (column_ComputeStats (flds ! j)) op v"
    using zone_map_sound [OF _ assms(5-7)] assms(8) by blast
  ultimately show ?thesis
    using assms(1,4) by (simp add: PruneSegmentsByPredicate_filter segment_kept_def)
qed

theorem PruneSegments_loses_no_row_witness:
  "\<exists>sg. segment_new g_compression_config 3 0 [example_column] = Some sg \<and>
     0 \<in> set (PruneSegmentsByPredicate [sg] 0 kGt (f64_of_int 200))"
proof -
  have inv: "\<forall>f\<in>set [example_column]. fv_inv f" by (simp add: example_column_inv(1))
  obtain sg where sg: "segment_new g_compression_config 3 0 [example_column] = Some sg"
    using segment_new_built [OF inv] by blast
  have "CompareFloat64 (field_f64 example_column 2) (f64_of_int 200) kGt"
    by (simp add: CompareFloat64_def example_column_f64 f64_of_int_cmp)
  moreover have "\<not> f64_nan (field_f64 example_column k)" for k
    by (simp add: field_f64_of_i64 [OF example_column_inv(2)])
  ultimately have "0 \<in> set (PruneSegmentsByPredicate [sg] 0 kGt (f64_of_int 200))"
    using sg by (intro PruneSegments_loses_no_row [OF _ inv, of 0 "[sg]" g_compression_config 3 0 0 2])
      (simp_all add: example_column_cells)
  with sg show ?thesis by blast
qed

end
