(* ===== verification/ArrayCodec.thy ===== *)
theory ArrayCodec
  imports Hash Float64
begin

text \<open>
  \<open>FieldValue\<close> (\<open>engine/include/mimicdb/dataset.h\<close>, constructors in \<open>dataset.cpp\<close>) and the array
  encoding of \<open>engine/src/array_codec.cpp\<close>.  The type of a value is the byte of its enum, which
  the decoder takes from the input unchecked; floats of a vector are their bit patterns; an
  object is an association list.  The decoder returns its result and what it has put in
  \<open>out\<close> so far.
\<close>

section \<open>Values\<close>

datatype field_value =
  FieldValue (v_type: u8) (v_is_null: bool) (v_i32: u32) (v_i64: u64) (v_f64: f64) (v_b: bool)
    (v_bytes: "u8 list") (v_array: "field_value list") (v_object: "(u8 list \<times> field_value) list")
    (v_vector_f32: "u32 list")

definition blank :: "u8 \<Rightarrow> bool \<Rightarrow> field_value" where
  "blank t is_null = FieldValue t is_null 0 0 0 False [] [] [] []"

definition value_Int32 :: "u32 \<Rightarrow> field_value" where
  "value_Int32 x = FieldValue (type_byte kInt32) False x 0 0 False [] [] [] []"

definition value_Int64 :: "u64 \<Rightarrow> field_value" where
  "value_Int64 x = FieldValue (type_byte kInt64) False 0 x 0 False [] [] [] []"

definition value_Float64 :: "f64 \<Rightarrow> field_value" where
  "value_Float64 x = FieldValue (type_byte kFloat64) False 0 0 x False [] [] [] []"

definition value_Bool :: "bool \<Rightarrow> field_value" where
  "value_Bool x = FieldValue (type_byte kBool) False 0 0 0 x [] [] [] []"

definition value_String :: "u8 list \<Rightarrow> field_value" where
  "value_String x = FieldValue (type_byte kString) False 0 0 0 False x [] [] []"

definition value_Bytes :: "u8 list \<Rightarrow> field_value" where
  "value_Bytes x = FieldValue (type_byte kBytes) False 0 0 0 False x [] [] []"

definition value_Array :: "field_value list \<Rightarrow> field_value" where
  "value_Array x = FieldValue (type_byte kArray) False 0 0 0 False [] x [] []"

definition value_Object :: "(u8 list \<times> field_value) list \<Rightarrow> field_value" where
  "value_Object x = FieldValue (type_byte kObject) False 0 0 0 False [] [] x []"

definition value_VectorFloat32 :: "u32 list \<Rightarrow> field_value" where
  "value_VectorFloat32 x = FieldValue (type_byte kVectorFloat32) False 0 0 0 False [] [] [] x"

definition value_Null :: "field_type \<Rightarrow> field_value" where
  "value_Null t = blank (type_byte t) True"

lemmas value_defs = value_Int32_def value_Int64_def value_Float64_def value_Bool_def value_String_def
  value_Bytes_def value_Array_def value_Object_def value_VectorFloat32_def value_Null_def blank_def

text \<open>The \<open>switch\<close> on the type: a byte outside the enum takes no case.\<close>

definition type_of_byte :: "u8 \<Rightarrow> field_type option" where
  "type_of_byte b =
     find (\<lambda>t. type_byte t = b)
       [kInt32, kInt64, kFloat64, kBool, kDictInt32, kString, kBytes, kArray, kObject, kVectorFloat32]"

lemma type_of_byte_type_byte [simp]: "type_of_byte (type_byte t) = Some t"
  by (cases t) (simp_all add: type_of_byte_def type_byte_inject)

lemma type_of_byte_Some: "type_of_byte b = Some t \<longleftrightarrow> b = type_byte t"
proof
  assume "type_of_byte b = Some t"
  then show "b = type_byte t" unfolding type_of_byte_def by (simp split: if_splits)
qed simp

section \<open>Encoding\<close>

definition encode_element :: "u8 \<Rightarrow> bool \<Rightarrow> u8 list \<Rightarrow> u8 list" where
  "encode_element t is_null data =
     [t, if is_null then 1 else 0] @ le_bytes 2 (0 :: u16) @
     (let size = (of_nat (length data) :: u32) in le_bytes 4 size @ (if size > 0 then data else []))"

fun payload :: "field_value \<Rightarrow> u8 list" where
  "payload (FieldValue t is_null i32 i64 f64 b bytes arr obj vec) =
     (if is_null then []
      else case type_of_byte t of
        Some kInt32 \<Rightarrow> le_bytes 4 i32
      | Some kInt64 \<Rightarrow> le_bytes 8 i64
      | Some kFloat64 \<Rightarrow> le_bytes 8 f64
      | Some kBool \<Rightarrow> [if b then 1 else 0]
      | Some kDictInt32 \<Rightarrow> le_bytes 4 i32
      | Some kString \<Rightarrow> bytes
      | Some kBytes \<Rightarrow> bytes
      | Some kArray \<Rightarrow>
          le_bytes 4 (of_nat (length arr) :: u32) @
          concat (map (\<lambda>v. encode_element (v_type v) (v_is_null v) (payload v)) arr)
      | _ \<Rightarrow> [])"

definition EncodeArray :: "field_value list \<Rightarrow> u8 list" where
  "EncodeArray values =
     le_bytes 4 (of_nat (length values) :: u32) @
     concat (map (\<lambda>v. encode_element (v_type v) (v_is_null v) (payload v)) values)"

section \<open>Decoding\<close>

text \<open>A value that is not a nested array, from its \<open>size\<close> bytes.\<close>

definition decode_scalar :: "u8 \<Rightarrow> bool \<Rightarrow> u8 list \<Rightarrow> field_value option" where
  "decode_scalar t is_null data =
     (if is_null then Some (blank t True)
      else case type_of_byte t of
        Some kInt32 \<Rightarrow>
          if length data \<noteq> 4 then None else Some (FieldValue t False (le_word data) 0 0 False [] [] [] [])
      | Some kInt64 \<Rightarrow>
          if length data \<noteq> 8 then None else Some (FieldValue t False 0 (le_word data) 0 False [] [] [] [])
      | Some kFloat64 \<Rightarrow>
          if length data \<noteq> 8 then None else Some (FieldValue t False 0 0 (le_word data) False [] [] [] [])
      | Some kBool \<Rightarrow>
          if length data \<noteq> 1 then None else Some (FieldValue t False 0 0 0 (hd data \<noteq> 0) [] [] [] [])
      | Some kDictInt32 \<Rightarrow>
          if length data \<noteq> 4 then None else Some (FieldValue t False (le_word data) 0 0 False [] [] [] [])
      | Some kString \<Rightarrow> Some (FieldValue t False 0 0 0 False data [] [] [])
      | Some kBytes \<Rightarrow> Some (FieldValue t False 0 0 0 False data [] [] [])
      | _ \<Rightarrow> Some (blank t False))"

function (sequential) DecodeArray :: "u8 list \<Rightarrow> bool \<times> field_value list"
  and decode_rows :: "nat \<Rightarrow> u8 list \<Rightarrow> nat \<Rightarrow> field_value list \<Rightarrow> bool \<times> field_value list" where
  "DecodeArray bytes =
     (if 4 > length bytes then (False, [])
      else decode_rows (unat (le_word (take 4 bytes) :: u32)) bytes 4 [])"
| "decode_rows 0 bytes offset out = (True, out)"
| "decode_rows (Suc k) bytes offset out =
     (if offset + 8 > length bytes then (False, out)
      else
        let t = bytes ! offset; is_null = (bytes ! (offset + 1) \<noteq> 0);
            size = unat (le_word (take 4 (drop (offset + 4) bytes)) :: u32);
            offset = offset + 8
        in if offset + size > length bytes then (False, out)
           else
             let data = take size (drop offset bytes);
                 value = (if \<not> is_null \<and> type_of_byte t = Some kArray then
                            case DecodeArray data of
                              (ok, arr) \<Rightarrow>
                                if ok then Some (FieldValue t False 0 0 0 False [] arr [] []) else None
                          else decode_scalar t is_null data)
             in case value of
                  None \<Rightarrow> (False, out)
                | Some v \<Rightarrow> decode_rows k bytes (offset + size) (out @ [v]))"
  by pat_completeness auto
termination
  by (relation "inv_image (less_than <*lex*> less_than <*lex*> less_than)
        (\<lambda>x. case x of Inl bytes \<Rightarrow> (length bytes, 1, 0) | Inr (k, bytes, _, _) \<Rightarrow> (length bytes, 0, k))")
     auto

declare DecodeArray.simps [simp del] decode_rows.simps [simp del]

lemma decode_rows_0 [simp]: "decode_rows 0 bytes offset out = (True, out)"
  by (simp add: decode_rows.simps)

section \<open>Round trip\<close>

text \<open>What an encoded value keeps: its type, whether it is null, and the payload of its type.\<close>

fun stored :: "field_value \<Rightarrow> field_value" where
  "stored (FieldValue t is_null i32 i64 f64 b bytes arr obj vec) =
     (if is_null then blank t True
      else case type_of_byte t of
        Some kInt32 \<Rightarrow> FieldValue t False i32 0 0 False [] [] [] []
      | Some kInt64 \<Rightarrow> FieldValue t False 0 i64 0 False [] [] [] []
      | Some kFloat64 \<Rightarrow> FieldValue t False 0 0 f64 False [] [] [] []
      | Some kBool \<Rightarrow> FieldValue t False 0 0 0 b [] [] [] []
      | Some kDictInt32 \<Rightarrow> FieldValue t False i32 0 0 False [] [] [] []
      | Some kString \<Rightarrow> FieldValue t False 0 0 0 False bytes [] [] []
      | Some kBytes \<Rightarrow> FieldValue t False 0 0 0 False bytes [] [] []
      | Some kArray \<Rightarrow> FieldValue t False 0 0 0 False [] (map stored arr) [] []
      | _ \<Rightarrow> blank t False)"

abbreviation element_bytes :: "field_value \<Rightarrow> u8 list" where
  "element_bytes v \<equiv> encode_element (v_type v) (v_is_null v) (payload v)"

lemma payload_array:
  "payload (FieldValue (type_byte kArray) False i32 i64 f64 b bytes arr obj vec) = EncodeArray arr"
  by (simp add: EncodeArray_def)

lemma encode_element_eq:
  assumes "length data < 2 ^ 32"
  shows "encode_element t n data = [t, if n then 1 else 0, 0, 0] @ le_bytes 4 (of_nat (length data) :: u32) @ data"
proof -
  have "unat (of_nat (length data) :: u32) = length data"
    using assms by (simp add: unat_of_nat take_bit_nat_eq_self)
  then have "(of_nat (length data) :: u32) > 0 \<longleftrightarrow> data \<noteq> []" by (metis length_greater_0_conv unat_0 unat_gt_0 word_gt_0)
  then show ?thesis by (auto simp: encode_element_def Let_def numeral_eq_Suc)
qed

text \<open>One element: what the decoder makes of its payload.\<close>

definition element_ok :: "field_value \<Rightarrow> bool" where
  "element_ok v \<longleftrightarrow>
     (if \<not> v_is_null v \<and> type_of_byte (v_type v) = Some kArray
      then DecodeArray (payload v) = (True, v_array (stored v)) \<and>
           stored v = FieldValue (v_type v) False 0 0 0 False [] (v_array (stored v)) [] []
      else decode_scalar (v_type v) (v_is_null v) (payload v) = Some (stored v))"

lemma decode_rows_step:
  assumes "length (payload v) < 2 ^ 32" and "element_ok v"
  shows "decode_rows (Suc k) (pre @ element_bytes v @ post) (length pre) out =
         decode_rows k (pre @ element_bytes v @ post) (length (pre @ element_bytes v)) (out @ [stored v])"
proof -
  let ?p = "payload v" and ?n = "if v_is_null v then 1 else 0 :: u8"
  let ?len = "le_bytes 4 (of_nat (length ?p) :: u32)"
  define buf where "buf = pre @ element_bytes v @ post"
  have e: "element_bytes v = [v_type v, ?n, 0, 0] @ ?len @ ?p" by (rule encode_element_eq [OF assms(1)])
  have size: "unat (le_word (take 4 (drop (length pre + 4) buf)) :: u32) = length ?p"
    using assms(1) by (simp add: buf_def e le_word_le_bytes_full unat_of_nat take_bit_nat_eq_self del: le_bytes.simps)
  have data: "take (length ?p) (drop (length pre + 8) buf) = ?p"
    by (simp add: buf_def e)
  have head: "buf ! length pre = v_type v" "buf ! (length pre + 1) \<noteq> 0 \<longleftrightarrow> v_is_null v"
    by (simp_all add: buf_def e nth_append)
  have len: "length (pre @ element_bytes v) = length pre + 8 + length ?p"
    and room: "\<not> length buf < length pre + 8" "\<not> length buf < length pre + 8 + length ?p"
    by (simp_all add: buf_def e)
  have "decode_rows (Suc k) buf (length pre) out = decode_rows k buf (length pre + 8 + length ?p) (out @ [stored v])"
  proof (cases "\<not> v_is_null v \<and> type_of_byte (v_type v) = Some kArray")
    case True
    with assms(2) have d: "DecodeArray ?p = (True, v_array (stored v))"
      "FieldValue (v_type v) False 0 0 0 False [] (v_array (stored v)) [] [] = stored v"
      by (simp_all add: element_ok_def)
    show ?thesis
      by (subst decode_rows.simps) (use True in \<open>simp add: Let_def size data head room d del: One_nat_def\<close>)
  next
    case False
    with assms(2) have d: "decode_scalar (v_type v) (v_is_null v) ?p = Some (stored v)"
      by (simp add: element_ok_def split: if_splits)
    have "(if \<not> v_is_null v \<and> type_of_byte (v_type v) = Some kArray
        then case DecodeArray ?p of (ok, arr) \<Rightarrow> if ok then Some (FieldValue (v_type v) False 0 0 0 False [] arr [] []) else None
        else decode_scalar (v_type v) (v_is_null v) ?p) = Some (stored v)"
      using False d by auto
    then show ?thesis
      by (subst decode_rows.simps) (simp add: Let_def size data head room del: One_nat_def)
  qed
  then show ?thesis unfolding buf_def len .
qed

lemma decode_rows_all:
  assumes "\<forall>v\<in>set vs. length (payload v) < 2 ^ 32 \<and> element_ok v"
  shows "decode_rows (length vs) (pre @ concat (map element_bytes vs) @ post) (length pre) out =
         (True, out @ map stored vs)"
  using assms
proof (induction vs arbitrary: pre out)
  case Nil
  then show ?case by simp
next
  case (Cons v vs)
  have "decode_rows (length (v # vs)) (pre @ concat (map element_bytes (v # vs)) @ post) (length pre) out =
        decode_rows (Suc (length vs)) (pre @ element_bytes v @ (concat (map element_bytes vs) @ post)) (length pre) out"
    by simp
  also have "\<dots> = decode_rows (length vs) (pre @ element_bytes v @ (concat (map element_bytes vs) @ post))
      (length (pre @ element_bytes v)) (out @ [stored v])"
    using Cons.prems by (intro decode_rows_step) auto
  also have "\<dots> = (True, (out @ [stored v]) @ map stored vs)"
    using Cons.IH [of "pre @ element_bytes v" "out @ [stored v]"] Cons.prems by simp
  finally show ?case by simp
qed

lemma length_element: "length (payload v) < 2 ^ 32 \<Longrightarrow> length (element_bytes v) = 8 + length (payload v)"
  by (simp add: encode_element_eq)

fun fits :: "field_value \<Rightarrow> bool" where
  "fits (FieldValue t is_null i32 i64 f64 b bytes arr obj vec) \<longleftrightarrow>
     length (payload (FieldValue t is_null i32 i64 f64 b bytes arr obj vec)) < 2 ^ 32 \<and>
     (\<forall>v\<in>set arr. fits v)"

lemma fits_payload: "fits v \<Longrightarrow> length (payload v) < 2 ^ 32"
  by (cases v) (simp del: payload.simps)

lemma concat_elements_length: "\<forall>v\<in>set vs. fits v \<Longrightarrow> 8 * length vs \<le> length (concat (map element_bytes vs))"
  by (induction vs) (auto simp: length_element [OF fits_payload])

lemma DecodeArray_encoded:
  assumes "\<forall>v\<in>set vs. fits v \<and> element_ok v" and "length vs < 2 ^ 32"
  shows "DecodeArray (EncodeArray vs) = (True, map stored vs)"
proof -
  have count: "unat (le_word (take 4 (EncodeArray vs)) :: u32) = length vs"
    using assms(2) by (simp add: EncodeArray_def le_word_le_bytes_full unat_of_nat take_bit_nat_eq_self del: le_bytes.simps)
  have "decode_rows (length vs) (le_bytes 4 (of_nat (length vs) :: u32) @ concat (map element_bytes vs) @ [])
      (length (le_bytes 4 (of_nat (length vs) :: u32))) [] = (True, [] @ map stored vs)"
    using assms(1) fits_payload by (intro decode_rows_all) blast
  then have "decode_rows (length vs) (EncodeArray vs) 4 [] = (True, map stored vs)"
    by (simp add: EncodeArray_def del: le_bytes.simps)
  moreover have "4 \<le> length (EncodeArray vs)" by (simp add: EncodeArray_def del: le_bytes.simps)
  ultimately show ?thesis by (simp add: DecodeArray.simps count not_less)
qed

lemma fits_element_ok: "fits v \<Longrightarrow> element_ok v"
proof (induction v)
  case (FieldValue t n i32 i64 f64 b bytes arr obj vec)
  let ?v = "FieldValue t n i32 i64 f64 b bytes arr obj vec"
  show ?case
  proof (cases "\<not> n \<and> type_of_byte t = Some kArray")
    case True
    then have p: "payload ?v = EncodeArray arr" by (simp add: EncodeArray_def)
    have arr: "\<forall>v\<in>set arr. fits v" using FieldValue.prems by simp
    then have "8 * length arr \<le> length (EncodeArray arr)"
      using concat_elements_length [OF arr] by (simp add: EncodeArray_def)
    then have "length arr < 2 ^ 32" using fits_payload [OF FieldValue.prems] p by simp
    from DecodeArray_encoded [OF _ this] arr FieldValue.IH(1)
    have "DecodeArray (EncodeArray arr) = (True, map stored arr)" by blast
    with True p show ?thesis by (simp add: element_ok_def del: payload.simps)
  next
    case False
    have "decode_scalar t n (payload ?v) = Some (stored ?v)"
      using False
      by (cases n; cases "type_of_byte t"; cases "the (type_of_byte t)")
         (auto simp: decode_scalar_def le_word_le_bytes_full blank_def simp del: le_bytes.simps)
    then show ?thesis
      unfolding element_ok_def using False by (auto simp del: payload.simps stored.simps)
  qed
qed

text \<open>
  C22. Array round trip: decoding an encoded list of values succeeds and gives back each
  value's type, nullness and payload, nested arrays to any depth included; what is not
  given back is exactly what the encoding drops (the contents of objects and float vectors, and
  fields that do not belong to the value's type).  All payloads must be below 4 GiB.
\<close>
theorem ArrayCodec_roundtrip:
  assumes "\<forall>v\<in>set vs. fits v" and "length vs < 2 ^ 32"
  shows "DecodeArray (EncodeArray vs) = (True, map stored vs)"
  using assms fits_element_ok by (intro DecodeArray_encoded) auto

theorem ArrayCodec_roundtrip_witness:
  "DecodeArray (EncodeArray [value_Int32 7, value_Array [value_String [97], value_Null kBool]]) =
     (True, [value_Int32 7, value_Array [value_String [97], value_Null kBool]])"
  using ArrayCodec_roundtrip [of "[value_Int32 7, value_Array [value_String [97], value_Null kBool]]"]
  by (simp add: value_defs EncodeArray_def encode_element_def Let_def)

text \<open>
  Objects and float vectors inside an array lose their contents: every array whose
  first element is an object decodes to one whose first element is an object without members,
  and a float vector comes back without components, though decoding reports success.
\<close>
theorem ArrayCodec_drops_objects_and_vectors:
  "DecodeArray (EncodeArray [value_Object members, value_VectorFloat32 vec]) =
     (True, [value_Object [], value_VectorFloat32 []])"
  using DecodeArray_encoded [of "[value_Object members, value_VectorFloat32 vec]"]
  by (simp add: value_defs fits_element_ok)

end
