(* ===== verification/Dataset.thy ===== *)
theory Dataset
  imports Segment ArrayCodec
begin

text \<open>
  \<open>engine/src/dataset.cpp\<close>: a dataset keeps the columns of its last, incomplete segment
  (\<open>active_fields_\<close>) and the sealed segments before it.  \<open>Append\<close> adds one row,
  \<open>AppendBatch\<close> the rows of typed arrays, cutting them at segment boundaries.  \<open>None\<close> is an
  access outside a batch's arrays or a column's storage, or a loop that makes no progress.
  Loops with an early return carry a flag and then leave the state alone.  The destructor
  only releases GPU and index caches.
\<close>

section \<open>State\<close>

record dataset =
  ds_name :: "u8 list"
  ds_rows :: nat
  ds_fields :: "field_vector list"
  ds_active_fields :: "field_vector list"
  ds_segments :: "segment list"
  ds_segment_capacity :: nat
  ds_vector_dimensions :: "nat list"

text \<open>The \<open>void*\<close> of a batch is its bytes; the cast reads them as integers of the type.\<close>

record field_batch =
  fb_type :: field_type
  fb_data :: "u8 list"
  fb_count :: nat
  fb_validity :: "u8 list option"
  fb_lengths :: "u32 list option"
  fb_bytes :: "u8 list option"
  fb_bytes_size :: nat

definition dataset_new :: "u8 list \<Rightarrow> dataset" where
  "dataset_new name =
     \<lparr>ds_name = name, ds_rows = 0, ds_fields = [], ds_active_fields = [], ds_segments = [],
      ds_segment_capacity = kDefaultSegmentRows, ds_vector_dimensions = []\<rparr>"

definition ActiveRowCount :: "dataset \<Rightarrow> nat" where
  "ActiveRowCount ds = (case ds_active_fields ds of [] \<Rightarrow> 0 | f # _ \<Rightarrow> fv_size f)"

definition AddField :: "field_vector \<Rightarrow> dataset \<Rightarrow> dataset" where
  "AddField f ds =
     (let existing_rows = ActiveRowCount ds;
          added = for_loop 0 existing_rows (\<lambda>_ g. snd (fv_AppendNull g)) f
      in ds\<lparr>ds_fields := ds_fields ds @ [f], ds_vector_dimensions := ds_vector_dimensions ds @ [0],
            ds_active_fields := ds_active_fields ds @ [added]\<rparr>)"

section \<open>Appending a row\<close>

definition append_value :: "field_value \<Rightarrow> field_vector \<Rightarrow> bool \<times> field_vector" where
  "append_value v f =
     (if v_is_null v then fv_AppendNull f
      else case type_of_byte (v_type v) of
        Some kInt32 \<Rightarrow> fv_AppendInt32 f (v_i32 v)
      | Some kInt64 \<Rightarrow> fv_AppendInt64 f (v_i64 v)
      | Some kFloat64 \<Rightarrow> fv_AppendFloat64 f (v_f64 v)
      | Some kBool \<Rightarrow> fv_AppendBool f (v_b v)
      | Some kDictInt32 \<Rightarrow> fv_AppendDictInt32 f (v_i32 v)
      | Some kString \<Rightarrow> fv_AppendString f (v_bytes v)
      | Some kBytes \<Rightarrow> fv_AppendBytes f (v_bytes v)
      | Some kArray \<Rightarrow> fv_AppendBytes f (EncodeArray (v_array v))
      | Some kVectorFloat32 \<Rightarrow> fv_AppendVectorFloat32 f (Some (v_vector_f32 v)) (length (v_vector_f32 v))
      | _ \<Rightarrow> (False, f))"

definition is_vector_value :: "field_value \<Rightarrow> bool" where
  "is_vector_value v \<longleftrightarrow> \<not> v_is_null v \<and> v_type v = type_byte kVectorFloat32"

text \<open>The checks on one value before anything is changed.\<close>

definition value_fits :: "dataset \<Rightarrow> nat \<Rightarrow> nat \<Rightarrow> field_value \<Rightarrow> bool" where
  "value_fits ds active_rows i v \<longleftrightarrow>
     fv_size (ds_active_fields ds ! i) = active_rows \<and>
     v_type v = type_byte (fv_type (ds_active_fields ds ! i)) \<and>
     (is_vector_value v \<longrightarrow>
        (let dimension = length (v_vector_f32 v); known = ds_vector_dimensions ds ! i
         in \<not> (dimension = 0 \<or> (known \<noteq> 0 \<and> known \<noteq> dimension))))"

definition append_field :: "field_value list \<Rightarrow> nat \<Rightarrow> bool \<times> dataset \<Rightarrow> bool \<times> dataset" where
  "append_field values i r =
     (case r of (ok, ds) \<Rightarrow>
        if \<not> ok then (ok, ds)
        else
          let v = values ! i;
              (ok, f) = append_value v (ds_active_fields ds ! i);
              ds = ds\<lparr>ds_active_fields := (ds_active_fields ds)[i := f]\<rparr>
          in if \<not> ok then (False, ds)
             else if is_vector_value v \<and> ds_vector_dimensions ds ! i = 0
             then (True, ds\<lparr>ds_vector_dimensions := (ds_vector_dimensions ds)[i := length (v_vector_f32 v)]\<rparr>)
             else (True, ds))"

text \<open>A full set of active columns becomes a segment.\<close>

definition flush_full :: "compression_config \<Rightarrow> dataset \<Rightarrow> dataset ub" where
  "flush_full cfg ds =
     (if ActiveRowCount ds \<ge> ds_segment_capacity ds then
        do { sg \<leftarrow> segment_new cfg (ds_segment_capacity ds) (ActiveRowCount ds) (ds_active_fields ds);
             Some (ds\<lparr>ds_segments := ds_segments ds @ [sg],
                      ds_active_fields := map (\<lambda>f. fv_new (fv_name f) (fv_type f)) (ds_fields ds)\<rparr>) }
      else Some ds)"

definition dataset_Append :: "compression_config \<Rightarrow> field_value list \<Rightarrow> dataset \<Rightarrow> (bool \<times> dataset) ub" where
  "dataset_Append cfg values ds =
     (if length values \<noteq> length (ds_fields ds) then Some (False, ds)
      else
        let active_rows = ActiveRowCount ds; k = length (ds_fields ds)
        in if list_ex (\<lambda>i. \<not> value_fits ds active_rows i (values ! i)) [0..<k] then Some (False, ds)
           else
             let (ok, ds) = for_loop 0 k (append_field values) (True, ds)
             in if \<not> ok then Some (False, ds)
                else map_option (Pair True) (flush_full cfg (ds\<lparr>ds_rows := ds_rows ds + 1\<rparr>)))"

section \<open>Appending a batch\<close>

definition slice_words :: "nat \<Rightarrow> nat \<Rightarrow> nat \<Rightarrow> u8 list \<Rightarrow> 'a::len word list ub" where
  "slice_words w offset n bytes =
     (if w * (offset + n) \<le> length bytes then Some (le_words w n (drop (w * offset) bytes)) else None)"

definition slice :: "nat \<Rightarrow> nat \<Rightarrow> 'a list \<Rightarrow> 'a list ub" where
  "slice offset n xs = (if offset + n \<le> length xs then Some (take n (drop offset xs)) else None)"

definition slice_validity :: "nat \<Rightarrow> nat \<Rightarrow> u8 list option \<Rightarrow> u8 list option ub" where
  "slice_validity offset n validity =
     (case validity of None \<Rightarrow> Some None | Some v \<Rightarrow> map_option Some (slice offset n v))"

definition append_batch ::
  "nat \<Rightarrow> nat \<Rightarrow> field_batch \<Rightarrow> field_vector \<Rightarrow> (bool \<times> field_vector) ub" where
  "append_batch offset n b f =
     do { validity \<leftarrow> slice_validity offset n (fb_validity b);
          case fb_type b of
            kInt32 \<Rightarrow> do { vs \<leftarrow> slice_words 4 offset n (fb_data b); Some (fv_AppendBatchInt32 f vs n validity) }
          | kInt64 \<Rightarrow> do { vs \<leftarrow> slice_words 8 offset n (fb_data b); Some (fv_AppendBatchInt64 f vs n validity) }
          | kFloat64 \<Rightarrow> do { vs \<leftarrow> slice_words 8 offset n (fb_data b); Some (fv_AppendBatchFloat64 f vs n validity) }
          | kBool \<Rightarrow> do { vs \<leftarrow> slice offset n (fb_data b); Some (fv_AppendBatchBool f vs n validity) }
          | kDictInt32 \<Rightarrow> do { vs \<leftarrow> slice_words 4 offset n (fb_data b); Some (fv_AppendBatchDictInt32 f vs n validity) }
          | kObject \<Rightarrow> Some (False, f)
          | _ \<Rightarrow>
              (case (fb_lengths b, fb_bytes b) of
                 (Some lengths, Some bytes) \<Rightarrow>
                   do { before \<leftarrow> slice 0 offset lengths;
                        ls \<leftarrow> slice offset n lengths;
                        bs \<leftarrow> slice (sum_lengths before) (sum_lengths ls) bytes;
                        Some (if fb_type b = kString then fv_AppendBatchString f ls bs n validity
                              else fv_AppendBatchBytes f ls bs n validity) }
               | _ \<Rightarrow> Some (False, f)) }"

text \<open>The checks on one batch.  The known dimension is set on the way, before later checks.\<close>

definition check_vector_row ::
  "field_batch \<Rightarrow> nat \<Rightarrow> nat \<Rightarrow> bool \<times> dataset \<Rightarrow> (bool \<times> dataset) ub" where
  "check_vector_row b i row r =
     (case r of (ok, ds) \<Rightarrow>
        if \<not> ok then Some (ok, ds)
        else
          do { valid \<leftarrow> (case fb_validity b of
                          None \<Rightarrow> Some True
                        | Some v \<Rightarrow> if row < length v then Some (v ! row \<noteq> 0) else None);
               if \<not> valid then Some (True, ds)
               else
                 do { ls \<leftarrow> slice row 1 (the (fb_lengths b));
                      let len = unat (hd ls); dimension = len div 4; known = ds_vector_dimensions ds ! i
                      in Some (if len = 0 \<or> len mod 4 \<noteq> 0 then (False, ds)
                               else if known \<noteq> 0 \<and> known \<noteq> dimension then (False, ds)
                               else if known = 0
                               then (True, ds\<lparr>ds_vector_dimensions := (ds_vector_dimensions ds)[i := dimension]\<rparr>)
                               else (True, ds)) } })"

definition check_batch ::
  "field_batch list \<Rightarrow> nat \<Rightarrow> nat \<Rightarrow> bool \<times> dataset \<Rightarrow> (bool \<times> dataset) ub" where
  "check_batch batches count i r =
     (case r of (ok, ds) \<Rightarrow>
        if \<not> ok then Some (ok, ds)
        else
          let b = batches ! i; f = ds_active_fields ds ! i in
          if fv_size f \<noteq> ActiveRowCount ds \<or> fb_type b \<noteq> fv_type f \<or> fb_count b \<noteq> count then Some (False, ds)
          else if fb_type b = kVectorFloat32 then
            (if fb_lengths b = None \<or> fb_bytes b = None then Some (False, ds)
             else for_ub 0 count (check_vector_row b i) (True, ds))
          else Some (True, ds))"

definition append_batch_field ::
  "field_batch list \<Rightarrow> nat \<Rightarrow> nat \<Rightarrow> nat \<Rightarrow> bool \<times> dataset \<Rightarrow> (bool \<times> dataset) ub" where
  "append_batch_field batches offset n i r =
     (case r of (ok, ds) \<Rightarrow>
        if \<not> ok then Some (ok, ds)
        else do { (ok, f) \<leftarrow> append_batch offset n (batches ! i) (ds_active_fields ds ! i);
                  Some (ok, ds\<lparr>ds_active_fields := (ds_active_fields ds)[i := f]\<rparr>) })"

definition capacity_left :: "dataset \<Rightarrow> nat" where
  "capacity_left ds =
     (let cap = ds_segment_capacity ds; rows = ActiveRowCount ds
      in if rows \<le> cap then cap - rows else 2 ^ 64 - (rows - cap))"

function append_chunks ::
  "compression_config \<Rightarrow> field_batch list \<Rightarrow> nat \<Rightarrow> nat \<Rightarrow> dataset \<Rightarrow> (bool \<times> dataset) ub" where
  "append_chunks cfg batches count offset ds =
     (if offset \<ge> count then Some (True, ds)
      else
        let n = min (count - offset) (capacity_left ds) in
        if n = 0 then None
        else
          do { (ok, ds) \<leftarrow> for_ub 0 (length (ds_fields ds)) (append_batch_field batches offset n) (True, ds);
               if \<not> ok then Some (False, ds)
               else do { ds \<leftarrow> flush_full cfg (ds\<lparr>ds_rows := ds_rows ds + n\<rparr>);
                         append_chunks cfg batches count (offset + n) ds } })"
  by pat_completeness auto
termination
  by (relation "measure (\<lambda>(_, _, count, offset, _). count - offset)") auto

declare append_chunks.simps [simp del]

definition dataset_AppendBatch ::
  "compression_config \<Rightarrow> field_batch list \<Rightarrow> dataset \<Rightarrow> (bool \<times> dataset) ub" where
  "dataset_AppendBatch cfg batches ds =
     (if length batches \<noteq> length (ds_fields ds) then Some (False, ds)
      else if batches = [] then Some (True, ds)
      else
        let count = fb_count (batches ! 0) in
        if count = 0 then Some (True, ds)
        else
          do { (ok, ds) \<leftarrow> for_ub 0 (length (ds_fields ds)) (check_batch batches count) (True, ds);
               if \<not> ok then Some (False, ds) else append_chunks cfg batches count 0 ds })"

section \<open>Segments read back from a file\<close>

text \<open>The first row of a column that has a vector, and its dimension.\<close>

fun first_vector :: "nat list \<Rightarrow> field_vector \<Rightarrow> (nat option \<times> field_vector) ub" where
  "first_vector [] f = Some (None, f)"
| "first_vector (row # rows) f =
     do { ((dimension, p), f) \<leftarrow> fv_VectorFloat32 f row;
          if p \<noteq> None then Some (Some dimension, f) else first_vector rows f }"

definition recover_field :: "nat \<Rightarrow> bool \<times> dataset \<times> segment \<Rightarrow> (bool \<times> dataset \<times> segment) ub" where
  "recover_field i r =
     (case r of (ok, ds, sg) \<Rightarrow>
        if \<not> ok then Some r
        else if fv_type (sg_fields sg ! i) \<noteq> fv_type (ds_fields ds ! i) then Some (False, ds, sg)
        else if fv_type (ds_fields ds ! i) = kVectorFloat32 then
          do { (dimension, f) \<leftarrow> first_vector [0..<fv_size (sg_fields sg ! i)] (sg_fields sg ! i);
               let sg = sg\<lparr>sg_fields := (sg_fields sg)[i := f]\<rparr>; known = ds_vector_dimensions ds ! i
               in Some (case dimension of
                    None \<Rightarrow> (True, ds, sg)
                  | Some d \<Rightarrow>
                      if known \<noteq> 0 \<and> known \<noteq> d then (False, ds, sg)
                      else (True, ds\<lparr>ds_vector_dimensions := (ds_vector_dimensions ds)[i := d]\<rparr>, sg)) }
        else Some (True, ds, sg))"

definition AddRecoveredSegment :: "segment \<Rightarrow> dataset \<Rightarrow> (bool \<times> dataset) ub" where
  "AddRecoveredSegment sg ds =
     (if length (sg_fields sg) \<noteq> length (ds_fields ds) then Some (False, ds)
      else
        do { (ok, ds, sg) \<leftarrow> for_ub 0 (length (ds_fields ds)) recover_field (True, ds, sg);
             Some (if \<not> ok then (False, ds)
                   else (True, ds\<lparr>ds_rows := ds_rows ds + sg_row_count sg,
                                  ds_segments := ds_segments ds @ [sg]\<rparr>)) })"

section \<open>Other operations\<close>

definition VectorDimension :: "nat \<Rightarrow> dataset \<Rightarrow> nat" where
  "VectorDimension field_index ds =
     (if field_index < length (ds_vector_dimensions ds) then ds_vector_dimensions ds ! field_index else 0)"

definition ReleaseSealedFieldValues :: "nat \<Rightarrow> dataset \<Rightarrow> dataset" where
  "ReleaseSealedFieldValues field_index ds =
     ds\<lparr>ds_segments := map (ReleaseFieldValues field_index) (ds_segments ds)\<rparr>"

definition SealedFieldValuesResident :: "nat \<Rightarrow> dataset \<Rightarrow> bool" where
  "SealedFieldValuesResident field_index ds = list_all (FieldValuesResident field_index) (ds_segments ds)"

definition DropSegments :: "nat \<Rightarrow> dataset \<Rightarrow> dataset" where
  "DropSegments count ds =
     (if count = 0 \<or> ds_segments ds = [] then ds
      else if count \<ge> length (ds_segments ds) then ds\<lparr>ds_segments := []\<rparr>
      else ds\<lparr>ds_segments := drop count (ds_segments ds)\<rparr>)"

definition dataset_SchemaFingerprint :: "dataset \<Rightarrow> u64" where
  "dataset_SchemaFingerprint ds =
     (let hash = HashValue HashInit (le_bytes 8 (of_nat (length (ds_fields ds)) :: u64))
      in fold (\<lambda>f hash. HashValue (HashString hash (fv_name f)) [type_byte (fv_type f)])
           (ds_fields ds) hash)"

definition SchemaView :: "dataset \<Rightarrow> schema" where
  "SchemaView ds =
     \<lparr>sch_fields = map (\<lambda>f. \<lparr>sf_name = fv_name f, sf_type = fv_type f\<rparr>) (ds_fields ds)\<rparr>"

section \<open>Sizes\<close>

record compression_stats =
  cs_raw_bytes :: nat
  cs_compressed_bytes :: nat
  cs_segments :: nat
  cs_compressed_segments :: nat
  cs_compressed_columns :: nat
  cs_active_rows :: nat

text \<open>There is no case for vectors: their bytes are not counted.\<close>

definition raw_bytes_for_field :: "field_vector \<Rightarrow> nat" where
  "raw_bytes_for_field f =
     (case fv_type f of
        kInt32 \<Rightarrow> fv_size f * 4
      | kInt64 \<Rightarrow> fv_size f * 8
      | kFloat64 \<Rightarrow> fv_size f * 8
      | kBool \<Rightarrow> fv_size f * 1
      | kDictInt32 \<Rightarrow> fv_size f * 4
      | kString \<Rightarrow> fv_size f * 4 + fv_BytesSize f
      | kBytes \<Rightarrow> fv_size f * 4 + fv_BytesSize f
      | kArray \<Rightarrow> fv_size f * 4 + fv_BytesSize f
      | _ \<Rightarrow> 0) +
     (if fv_HasNulls f then bitmap_WordCount (fv_validity f) * 8 else 0)"

definition count_field :: "field_vector \<Rightarrow> compression_stats \<Rightarrow> compression_stats" where
  "count_field f st =
     (let bytes = raw_bytes_for_field f
      in st\<lparr>cs_raw_bytes := cs_raw_bytes st + bytes, cs_compressed_bytes := cs_compressed_bytes st + bytes\<rparr>)"

definition count_column :: "compressed_view \<Rightarrow> compression_stats \<Rightarrow> compression_stats" where
  "count_column col st =
     (let validity = cv_validity_word_count col * 8
      in st\<lparr>cs_raw_bytes := cs_raw_bytes st + (cv_raw_data_size col + cv_raw_aux_size col + validity),
            cs_compressed_bytes := cs_compressed_bytes st + (cv_data_size col + cv_aux_size col + validity),
            cs_compressed_columns :=
              (if cv_kind col \<noteq> CkNone then cs_compressed_columns st + 1 else cs_compressed_columns st)\<rparr>)"

definition count_segment :: "segment \<Rightarrow> compression_stats \<Rightarrow> compression_stats" where
  "count_segment sg st =
     (let st = st\<lparr>cs_segments := cs_segments st + 1\<rparr>
      in if sg_sealed sg \<and> sg_compressed_columns sg \<noteq> []
         then fold count_column (sg_compressed_columns sg)
                (st\<lparr>cs_compressed_segments := cs_compressed_segments st + 1\<rparr>)
         else fold count_field (sg_fields sg) st)"

definition CompressionStats :: "dataset \<Rightarrow> compression_stats" where
  "CompressionStats ds =
     fold count_field (ds_active_fields ds)
       (fold count_segment (ds_segments ds)
          \<lparr>cs_raw_bytes = 0, cs_compressed_bytes = 0, cs_segments = 0, cs_compressed_segments = 0,
           cs_compressed_columns = 0, cs_active_rows = ActiveRowCount ds\<rparr>)"

text \<open>A dataset and the segments it cuts agree on the schema they were made for.\<close>

lemma dataset_SchemaFingerprint_eq: "dataset_SchemaFingerprint ds = Fingerprint (SchemaView ds)"
  by (simp add: dataset_SchemaFingerprint_def Fingerprint_def SchemaView_def Let_def fold_map comp_def
      fingerprint_step_def [abs_def])

lemma segment_SchemaFingerprint_eq:
  "map fv_name (sg_fields sg) = map fv_name (ds_fields ds) \<Longrightarrow>
   map fv_type (sg_fields sg) = map fv_type (ds_fields ds) \<Longrightarrow>
   segment_SchemaFingerprint sg = dataset_SchemaFingerprint ds"
proof -
  have fold_eq: "fold (\<lambda>f hash. HashValue (HashString hash (fv_name f)) [type_byte (fv_type f)]) fs h =
      fold (\<lambda>(n, t) hash. HashValue (HashString hash n) [type_byte t]) (zip (map fv_name fs) (map fv_type fs)) h"
    for fs h by (induction fs arbitrary: h) auto
  assume "map fv_name (sg_fields sg) = map fv_name (ds_fields ds)"
    and "map fv_type (sg_fields sg) = map fv_type (ds_fields ds)"
  then show ?thesis
    using map_eq_imp_length_eq [of fv_name "sg_fields sg" fv_name "ds_fields ds"]
    by (simp add: segment_SchemaFingerprint_def dataset_SchemaFingerprint_def fold_eq)
qed

end
