(* ===== verification/DatasetProps.thy ===== *)
theory DatasetProps
  imports Dataset SegmentFacts
begin

text \<open>
  What a dataset stands for: a table, given by its columns.  The rows of the sealed segments
  come first, then those of the active columns.  \<open>Append\<close> and \<open>AppendBatch\<close> refine
  appending rows to the table.
\<close>

section \<open>Abstraction\<close>

definition value_cell :: "field_value \<Rightarrow> cell" where
  "value_cell v =
     (if v_is_null v then CNull
      else case type_of_byte (v_type v) of
        Some kInt32 \<Rightarrow> CInt32 (v_i32 v)
      | Some kInt64 \<Rightarrow> CInt64 (v_i64 v)
      | Some kFloat64 \<Rightarrow> CFloat64 (v_f64 v)
      | Some kBool \<Rightarrow> CBool (flag01 (v_b v))
      | Some kDictInt32 \<Rightarrow> CDict (v_i32 v)
      | Some kString \<Rightarrow> CBytes (v_bytes v)
      | Some kBytes \<Rightarrow> CBytes (v_bytes v)
      | Some kArray \<Rightarrow> CBytes (EncodeArray (v_array v))
      | Some kVectorFloat32 \<Rightarrow> CBytes (le_array 4 (v_vector_f32 v))
      | _ \<Rightarrow> CObject)"

text \<open>The values a column can hold: no objects, and below 4 GiB.\<close>

definition value_ok :: "field_value \<Rightarrow> bool" where
  "value_ok v \<longleftrightarrow> v_is_null v \<or>
     v_type v \<noteq> type_byte kObject \<and> length (v_bytes v) < 2 ^ 32 \<and>
     length (EncodeArray (v_array v)) < 2 ^ 32 \<and> length (v_vector_f32 v) < 2 ^ 30"

definition row_fits :: "dataset \<Rightarrow> field_value list \<Rightarrow> bool" where
  "row_fits ds values \<longleftrightarrow>
     length values = length (ds_fields ds) \<and>
     (\<forall>i<length values. v_type (values ! i) = type_byte (fv_type (ds_fields ds ! i)) \<and>
        (is_vector_value (values ! i) \<longrightarrow>
           v_vector_f32 (values ! i) \<noteq> [] \<and>
           ds_vector_dimensions ds ! i \<in> {0, length (v_vector_f32 (values ! i))}))"

text \<open>The active columns: the schema's names and types, the class invariant, one row count.\<close>

definition active_ok :: "dataset \<Rightarrow> bool" where
  "active_ok ds \<longleftrightarrow>
     map fv_name (ds_active_fields ds) = map fv_name (ds_fields ds) \<and>
     map fv_type (ds_active_fields ds) = map fv_type (ds_fields ds) \<and>
     length (ds_vector_dimensions ds) = length (ds_fields ds) \<and> ds_fields ds \<noteq> [] \<and>
     (\<forall>f\<in>set (ds_active_fields ds). fv_inv f \<and> fv_size f = ActiveRowCount ds) \<and>
     ActiveRowCount ds < ds_segment_capacity ds"

text \<open>A sealed segment made of full columns.\<close>

definition sealed_from :: "compression_config \<Rightarrow> dataset \<Rightarrow> field_vector list \<Rightarrow> segment \<Rightarrow> bool" where
  "sealed_from cfg ds flds sg \<longleftrightarrow>
     (\<forall>f\<in>set flds. fv_inv f \<and> fv_size f = ds_segment_capacity ds) \<and>
     map fv_type flds = map fv_type (ds_fields ds) \<and>
     segment_new cfg (ds_segment_capacity ds) (ds_segment_capacity ds) flds = Some sg"

definition table_columns :: "dataset \<Rightarrow> field_vector list list \<Rightarrow> cell list list" where
  "table_columns ds chunks =
     map (\<lambda>i. concat (map (\<lambda>flds. fv_cells (flds ! i)) chunks) @ fv_cells (ds_active_fields ds ! i))
       [0..<length (ds_fields ds)]"

text \<open>The vectors of a column all have its known dimension.\<close>

definition dims_ok :: "dataset \<Rightarrow> cell list list \<Rightarrow> bool" where
  "dims_ok ds cols \<longleftrightarrow>
     (\<forall>i<length (ds_fields ds). fv_type (ds_fields ds ! i) = kVectorFloat32 \<longrightarrow>
        (\<forall>bs. CBytes bs \<in> set (cols ! i) \<longrightarrow>
           ds_vector_dimensions ds ! i \<noteq> 0 \<and> length bs = 4 * ds_vector_dimensions ds ! i))"

definition dataset_rep :: "compression_config \<Rightarrow> dataset \<Rightarrow> cell list list \<Rightarrow> bool" where
  "dataset_rep cfg ds cols \<longleftrightarrow>
     active_ok ds \<and> dims_ok ds cols \<and>
     (\<exists>chunks. list_all2 (sealed_from cfg ds) chunks (ds_segments ds) \<and> cols = table_columns ds chunks \<and>
        ds_rows ds = length chunks * ds_segment_capacity ds + ActiveRowCount ds)"

section \<open>Appending one value\<close>

lemma append_value_correct:
  assumes "fv_inv f" and "v_type v = type_byte (fv_type f)" and "value_ok v"
  shows "fst (append_value v f) \<and> fv_extends f [value_cell v] (snd (append_value v f))"
proof (cases "v_is_null v")
  case True
  then show ?thesis using fv_AppendNull_correct [OF assms(1)] by (simp add: append_value_def value_cell_def)
next
  case False
  then have ok: "fv_type f \<noteq> kObject" "length (v_bytes v) < 2 ^ 32" "length (EncodeArray (v_array v)) < 2 ^ 32"
    "length (v_vector_f32 v) < 2 ^ 30"
    using assms(2,3) by (auto simp: value_ok_def)
  show ?thesis
    using False assms(1,2) ok fv_AppendInt32_correct [of f "v_i32 v"] fv_AppendInt64_correct [of f "v_i64 v"]
      fv_AppendFloat64_correct [of f "v_f64 v"] fv_AppendBool_correct [of f "v_b v"]
      fv_AppendDictInt32_correct [of f "v_i32 v"] fv_AppendString_correct [of f "v_bytes v"]
      fv_AppendBytes_correct [of f "v_bytes v"] fv_AppendBytes_correct [of f "EncodeArray (v_array v)"]
      fv_AppendVectorFloat32_correct [of f "v_vector_f32 v"]
    by (cases "fv_type f") (simp_all add: append_value_def value_cell_def)
qed

text \<open>The loop over the columns.\<close>

definition new_dimension :: "dataset \<Rightarrow> nat \<Rightarrow> field_value \<Rightarrow> nat" where
  "new_dimension ds i v =
     (if is_vector_value v \<and> ds_vector_dimensions ds ! i = 0 then length (v_vector_f32 v)
      else ds_vector_dimensions ds ! i)"

lemma append_fields:
  assumes act: "length (ds_active_fields ds) = length (ds_fields ds)"
    and dims: "length (ds_vector_dimensions ds) = length (ds_fields ds)"
    and ok: "\<forall>i<k. fst (append_value (values ! i) (ds_active_fields ds ! i))"
    and k: "k \<le> length (ds_fields ds)"
  shows "for_loop 0 k (append_field values) (True, ds) =
     (True, ds\<lparr>ds_active_fields :=
                 map (\<lambda>i. snd (append_value (values ! i) (ds_active_fields ds ! i))) [0..<k] @
                 drop k (ds_active_fields ds),
               ds_vector_dimensions :=
                 map (\<lambda>i. new_dimension ds i (values ! i)) [0..<k] @ drop k (ds_vector_dimensions ds)\<rparr>)"
  using k ok
proof (induction k)
  case 0
  then show ?case by simp
next
  case (Suc k)
  let ?A = "map (\<lambda>i. snd (append_value (values ! i) (ds_active_fields ds ! i))) [0..<k]"
  let ?D = "map (\<lambda>i. new_dimension ds i (values ! i)) [0..<k]"
  let ?s = "append_value (values ! k) (ds_active_fields ds ! k)"
  have k: "k < length (ds_active_fields ds)" "k < length (ds_vector_dimensions ds)"
    using Suc.prems act dims by simp_all
  have upd: "(?A @ drop k (ds_active_fields ds))[k := snd ?s] = ?A @ snd ?s # drop (Suc k) (ds_active_fields ds)"
    "(?A @ drop k (ds_active_fields ds)) ! k = ds_active_fields ds ! k"
    "(?D @ drop k (ds_vector_dimensions ds))[k := x] = ?D @ x # drop (Suc k) (ds_vector_dimensions ds)"
    "(?D @ drop k (ds_vector_dimensions ds)) ! k = ds_vector_dimensions ds ! k" for x
    using k by (simp_all add: list_update_append nth_append Cons_nth_drop_Suc [symmetric])
  have dk: "drop k (ds_vector_dimensions ds) = ds_vector_dimensions ds ! k # drop (Suc k) (ds_vector_dimensions ds)"
    using k by (simp add: Cons_nth_drop_Suc)
  obtain g where g: "?s = (True, g)" using Suc.prems by (cases ?s) auto
  have "for_loop 0 (Suc k) (append_field values) (True, ds) =
      append_field values k (True, ds\<lparr>ds_active_fields := ?A @ drop k (ds_active_fields ds),
        ds_vector_dimensions := ?D @ drop k (ds_vector_dimensions ds)\<rparr>)"
    using Suc by (simp add: for_loop_Suc)
  also have "\<dots> = (True, ds\<lparr>ds_active_fields := ?A @ g # drop (Suc k) (ds_active_fields ds),
        ds_vector_dimensions := ?D @ new_dimension ds k (values ! k) # drop (Suc k) (ds_vector_dimensions ds)\<rparr>)"
    using upd g dk by (auto simp: append_field_def Let_def new_dimension_def)
  finally show ?case using g by simp
qed

section \<open>More rows in the active columns\<close>

lemma active_length: "active_ok ds \<Longrightarrow> length (ds_active_fields ds) = length (ds_fields ds)"
  unfolding active_ok_def by (metis length_map)

lemma active_types:
  assumes "active_ok ds" and "i < length (ds_fields ds)"
  shows "fv_type (ds_active_fields ds ! i) = fv_type (ds_fields ds ! i)"
    and "fv_name (ds_active_fields ds ! i) = fv_name (ds_fields ds ! i)"
    and "fv_inv (ds_active_fields ds ! i)" and "fv_size (ds_active_fields ds ! i) = ActiveRowCount ds"
  using assms active_length [OF assms(1)] nth_map [of i "ds_active_fields ds"] nth_map [of i "ds_fields ds"]
  unfolding active_ok_def by (metis nth_mem)+

lemma ActiveRowCount_hd: "ds_active_fields ds \<noteq> [] \<Longrightarrow> ActiveRowCount ds = fv_size (ds_active_fields ds ! 0)"
  by (cases "ds_active_fields ds") (simp_all add: ActiveRowCount_def)

lemma new_columns_active:
  assumes "ds_fields ds \<noteq> []" and "0 < ds_segment_capacity ds"
    and "length (ds_vector_dimensions ds) = length (ds_fields ds)"
  shows "active_ok (ds\<lparr>ds_active_fields := map (\<lambda>f. fv_new (fv_name f) (fv_type f)) (ds_fields ds)\<rparr>)"
proof -
  obtain f fs where f: "ds_fields ds = f # fs" using assms(1) by (cases "ds_fields ds") auto
  have "ActiveRowCount (ds\<lparr>ds_active_fields := map (\<lambda>f. fv_new (fv_name f) (fv_type f)) (ds_fields ds)\<rparr>) = 0"
    by (simp add: ActiveRowCount_def f fv_new_def)
  then show ?thesis
    using assms fv_new_inv by (auto simp: active_ok_def fv_new_def comp_def)
qed

text \<open>
  The active columns grow by \<open>n\<close> rows that fit into the segment; a segment that is full
  is cut off.
\<close>

lemma flush_full_rep:
  assumes rep: "dataset_rep cfg ds cols" and n: "ActiveRowCount ds + n \<le> ds_segment_capacity ds"
    and ext: "\<And>i. i < length (ds_fields ds) \<Longrightarrow>
       fv_extends (ds_active_fields ds ! i) (cs ! i) (act ! i) \<and> length (cs ! i) = n"
    and len: "length act = length (ds_fields ds)" "length cs = length (ds_fields ds)"
      "length dims = length (ds_fields ds)"
    and dims: "dims_ok (ds\<lparr>ds_vector_dimensions := dims\<rparr>) (map2 (@) cols cs)"
  shows "\<exists>ds'. flush_full cfg (ds\<lparr>ds_active_fields := act, ds_vector_dimensions := dims,
                 ds_rows := ds_rows ds + n\<rparr>) = Some ds' \<and>
           dataset_rep cfg ds' (map2 (@) cols cs) \<and> ds_fields ds' = ds_fields ds \<and>
           ds_segment_capacity ds' = ds_segment_capacity ds \<and> ds_vector_dimensions ds' = dims \<and>
           ActiveRowCount ds' =
             (if ActiveRowCount ds + n = ds_segment_capacity ds then 0 else ActiveRowCount ds + n)"
proof -
  define d where "d = ds\<lparr>ds_active_fields := act, ds_vector_dimensions := dims, ds_rows := ds_rows ds + n\<rparr>"
  obtain chunks where act: "active_ok ds" and chunks: "list_all2 (sealed_from cfg ds) chunks (ds_segments ds)"
    and cols: "cols = table_columns ds chunks"
    and rows: "ds_rows ds = length chunks * ds_segment_capacity ds + ActiveRowCount ds"
    using rep by (auto simp: dataset_rep_def)
  have nonempty: "ds_fields ds \<noteq> []" and pos: "0 < ds_segment_capacity ds" using act by (auto simp: active_ok_def)
  have new: "fv_inv (act ! i)" "fv_size (act ! i) = ActiveRowCount ds + n"
    "fv_type (act ! i) = fv_type (ds_fields ds ! i)" "fv_name (act ! i) = fv_name (ds_fields ds ! i)"
    "fv_cells (act ! i) = fv_cells (ds_active_fields ds ! i) @ cs ! i" if "i < length (ds_fields ds)" for i
    using ext [OF that] active_types [OF act that] by (auto simp: fv_extends_def)
  have count: "ActiveRowCount d = ActiveRowCount ds + n"
    using new(2) [of 0] nonempty len(1) by (subst ActiveRowCount_hd) (auto simp: d_def)
  have sealed: "sealed_from cfg d = sealed_from cfg ds"
    if "ds_segment_capacity d = ds_segment_capacity ds" "ds_fields d = ds_fields ds" for d :: dataset
    using that by (simp add: sealed_from_def fun_eq_iff)
  have dims_d: "dims_ok d' (map2 (@) cols cs)" if "ds_fields d' = ds_fields ds" "ds_vector_dimensions d' = dims" for d'
    using dims that by (simp add: dims_ok_def)
  have columns: "map2 (@) cols cs = table_columns d chunks"
    using len new(5) by (auto simp: cols table_columns_def d_def intro!: nth_equalityI)
  have all_new: "fv_inv f \<and> fv_size f = ActiveRowCount ds + n" if f: "f \<in> set act" for f
  proof -
    obtain i where "i < length (ds_fields ds)" "f = act ! i" using f len(1) by (auto simp: in_set_conv_nth)
    then show ?thesis using new(1,2) by simp
  qed
  have types: "map fv_type act = map fv_type (ds_fields ds)" "map fv_name act = map fv_name (ds_fields ds)"
    using new(3,4) len(1) by (auto intro!: nth_equalityI)
  show ?thesis
  proof (cases "ActiveRowCount ds + n = ds_segment_capacity ds")
    case False
    then have "flush_full cfg d = Some d" using count n by (simp add: flush_full_def d_def)
    moreover have "active_ok d"
      using False n nonempty types len all_new count by (auto simp: active_ok_def d_def)
    then have "dataset_rep cfg d (map2 (@) cols cs)"
      using chunks columns dims_d [of d] rows count sealed [of d]
      unfolding dataset_rep_def by (auto simp: d_def intro!: exI [of _ chunks])
    ultimately show ?thesis using False count by (intro exI [of _ d]) (simp add: d_def)
  next
    case True
    obtain sg where sg: "segment_new cfg (ds_segment_capacity ds) (ds_segment_capacity ds) act = Some sg"
      using segment_new_built all_new by blast
    define e where "e = d\<lparr>ds_segments := ds_segments ds @ [sg],
      ds_active_fields := map (\<lambda>f. fv_new (fv_name f) (fv_type f)) (ds_fields ds)\<rparr>"
    have flush: "flush_full cfg d = Some e"
      using True count sg by (simp add: flush_full_def d_def e_def)
    have act_e: "active_ok e"
      using new_columns_active [of "d\<lparr>ds_segments := ds_segments ds @ [sg]\<rparr>"] nonempty pos len(3)
      by (simp add: d_def e_def)
    have rows_e: "ActiveRowCount e = 0"
      using nonempty by (subst ActiveRowCount_hd) (simp_all add: e_def fv_new_def)
    have "list_all2 (sealed_from cfg e) (chunks @ [act]) (ds_segments e)"
      using chunks sg types all_new True sealed [of e]
      by (auto simp: e_def d_def intro!: list_all2_appendI) (simp add: sealed_from_def)
    moreover have "table_columns e (chunks @ [act]) = table_columns d chunks"
      using len by (simp add: table_columns_def e_def d_def)
    moreover have "ds_rows e = length (chunks @ [act]) * ds_segment_capacity e + ActiveRowCount e"
      using rows True rows_e by (simp add: e_def d_def)
    ultimately have "dataset_rep cfg e (map2 (@) cols cs)"
      using act_e columns dims_d [of e] unfolding dataset_rep_def
      by (auto simp: e_def d_def intro!: exI [of _ "chunks @ [act]"])
    then show ?thesis using flush True rows_e by (intro exI [of _ e]) (simp add: d_def e_def)
  qed
qed

lemma rep_columns_length: "dataset_rep cfg ds cols \<Longrightarrow> length cols = length (ds_fields ds)"
  by (auto simp: dataset_rep_def table_columns_def)

section \<open>Making a dataset\<close>

lemma append_nulls:
  "fv_inv f \<Longrightarrow> fv_extends f (replicate n CNull) (for_loop 0 n (\<lambda>_ g. snd (fv_AppendNull g)) f)"
proof (induction n)
  case 0
  then show ?case by (simp add: fv_extends_refl)
next
  case (Suc n)
  then have e: "fv_extends f (replicate n CNull) (for_loop 0 n (\<lambda>_ g. snd (fv_AppendNull g)) f)" by simp
  then have "fv_inv (for_loop 0 n (\<lambda>_ g. snd (fv_AppendNull g)) f)" by (simp add: fv_extends_def)
  from fv_extends_trans [OF e conjunct2 [OF fv_AppendNull_correct [OF this]]] show ?case
    by (simp add: for_loop_Suc replicate_append_same del: replicate_Suc) (simp add: replicate_append_same)
qed

lemma AddField_first: "dataset_rep cfg (AddField (fv_new n t) (dataset_new name)) [[]]"
proof -
  have "fv_inv (fv_new n t)" "fv_cells (fv_new n t) = []" by (simp_all add: fv_new_inv)
  then show ?thesis
    by (simp add: dataset_rep_def active_ok_def dims_ok_def table_columns_def AddField_def dataset_new_def
        ActiveRowCount_def Let_def fv_new_def kDefaultSegmentRows_def)
qed

lemma AddField_rep:
  assumes rep: "dataset_rep cfg ds cols" and segs: "ds_segments ds = []"
  shows "dataset_rep cfg (AddField (fv_new n t) ds) (cols @ [replicate (ActiveRowCount ds) CNull])"
proof -
  define g where "g = for_loop 0 (ActiveRowCount ds) (\<lambda>_ g. snd (fv_AppendNull g)) (fv_new n t)"
  have ext: "fv_extends (fv_new n t) (replicate (ActiveRowCount ds) CNull) g"
    unfolding g_def by (rule append_nulls [OF fv_new_inv])
  have g: "fv_inv g" "fv_cells g = replicate (ActiveRowCount ds) CNull" "fv_type g = t" "fv_name g = n"
    "fv_size g = ActiveRowCount ds"
    using ext by (simp_all add: fv_extends_def) (simp_all add: fv_new_def)
  have a: "active_ok ds" "dims_ok ds cols" "cols = table_columns ds []" "ds_rows ds = ActiveRowCount ds"
    using rep segs by (auto simp: dataset_rep_def)
  define e where "e = AddField (fv_new n t) ds"
  have e: "ds_fields e = ds_fields ds @ [fv_new n t]" "ds_active_fields e = ds_active_fields ds @ [g]"
    "ds_vector_dimensions e = ds_vector_dimensions ds @ [0]" "ds_segment_capacity e = ds_segment_capacity ds"
    "ds_segments e = []" "ds_rows e = ds_rows ds"
    using segs by (simp_all add: e_def AddField_def Let_def g_def)
  have count: "ActiveRowCount e = ActiveRowCount ds"
    using active_length [OF a(1)] a(1) by (cases "ds_active_fields ds") (auto simp: e ActiveRowCount_def active_ok_def)
  have "active_ok e"
    using a(1) g count by (auto simp: active_ok_def e fv_new_def)
  moreover have "cols @ [replicate (ActiveRowCount ds) CNull] = table_columns e []"
    using active_length [OF a(1)] g(2) by (auto simp: a(3) table_columns_def e nth_append)
  moreover have "dims_ok e (cols @ [replicate (ActiveRowCount ds) CNull])"
    using a(1,2) rep_columns_length [OF rep]
    by (auto simp: dims_ok_def e nth_append less_Suc_eq active_ok_def)
  ultimately show ?thesis
    using a(4) count e by (simp add: dataset_rep_def e_def [symmetric])
qed

section \<open>Appending a row\<close>

lemma value_fits_row_fits:
  assumes "active_ok ds" and "length values = length (ds_fields ds)"
  shows "list_ex (\<lambda>i. \<not> value_fits ds (ActiveRowCount ds) i (values ! i)) [0..<length (ds_fields ds)] \<longleftrightarrow>
         \<not> row_fits ds values"
  using assms active_types(1,4) [OF assms(1)]
  by (auto simp: list_ex_iff row_fits_def value_fits_def Let_def)

lemma dims_ok_append:
  assumes old: "dims_ok ds cols" and len: "length cols = length (ds_fields ds)" "length cs = length (ds_fields ds)"
    and keep: "\<And>i. i < length (ds_fields ds) \<Longrightarrow> ds_vector_dimensions ds ! i \<noteq> 0 \<Longrightarrow>
       dims ! i = ds_vector_dimensions ds ! i"
    and new: "\<And>i bs. i < length (ds_fields ds) \<Longrightarrow> fv_type (ds_fields ds ! i) = kVectorFloat32 \<Longrightarrow>
       CBytes bs \<in> set (cs ! i) \<Longrightarrow> dims ! i \<noteq> 0 \<and> length bs = 4 * dims ! i"
  shows "dims_ok (ds\<lparr>ds_vector_dimensions := dims\<rparr>) (map2 (@) cols cs)"
  using assms unfolding dims_ok_def by fastforce

lemma new_dimension_ok:
  assumes "v_type v = type_byte kVectorFloat32"
    and "is_vector_value v \<Longrightarrow> v_vector_f32 v \<noteq> [] \<and> ds_vector_dimensions ds ! i \<in> {0, length (v_vector_f32 v)}"
    and "value_cell v = CBytes bs"
  shows "new_dimension ds i v \<noteq> 0 \<and> length bs = 4 * new_dimension ds i v"
  using assms by (auto simp: value_cell_def new_dimension_def is_vector_value_def split: if_splits)

lemma dataset_Append_rep:
  assumes rep: "dataset_rep cfg ds cols" and ok: "\<forall>v\<in>set values. value_ok v" and fits: "row_fits ds values"
  shows "\<exists>ds'. dataset_Append cfg values ds = Some (True, ds') \<and>
           dataset_rep cfg ds' (map2 (\<lambda>c v. c @ [value_cell v]) cols values) \<and>
           ds_fields ds' = ds_fields ds"
proof -
  define k where "k = length (ds_fields ds)"
  define act where "act = map (\<lambda>i. snd (append_value (values ! i) (ds_active_fields ds ! i))) [0..<k]"
  define dims where "dims = map (\<lambda>i. new_dimension ds i (values ! i)) [0..<k]"
  define cs where "cs = map (\<lambda>v. [value_cell v]) values"
  have a: "active_ok ds" and d: "dims_ok ds cols" using rep by (auto simp: dataset_rep_def)
  have len: "length values = k" "length (ds_active_fields ds) = k" "length (ds_vector_dimensions ds) = k"
    using fits active_length [OF a] a by (simp_all add: row_fits_def active_ok_def k_def)
  have fit: "v_type (values ! i) = type_byte (fv_type (ds_fields ds ! i))"
    "is_vector_value (values ! i) \<Longrightarrow> v_vector_f32 (values ! i) \<noteq> [] \<and>
       ds_vector_dimensions ds ! i \<in> {0, length (v_vector_f32 (values ! i))}" if "i < k" for i
    using fits that by (auto simp: row_fits_def k_def)
  have appended: "fst (append_value (values ! i) (ds_active_fields ds ! i)) \<and>
      fv_extends (ds_active_fields ds ! i) [value_cell (values ! i)] (act ! i)" if "i < k" for i
    using append_value_correct [of "ds_active_fields ds ! i" "values ! i"] active_types [OF a] fit(1) [OF that] ok that len
    by (simp add: act_def k_def)
  have "for_loop 0 k (append_field values) (True, ds) =
      (True, ds\<lparr>ds_active_fields := act, ds_vector_dimensions := dims\<rparr>)"
    using append_fields [of ds k "values"] len appended by (simp add: k_def act_def dims_def)
  moreover have "\<not> list_ex (\<lambda>i. \<not> value_fits ds (ActiveRowCount ds) i (values ! i)) [0..<k]"
    using value_fits_row_fits [OF a] fits len by (simp add: k_def)
  ultimately have run: "dataset_Append cfg values ds = map_option (Pair True)
      (flush_full cfg (ds\<lparr>ds_active_fields := act, ds_vector_dimensions := dims, ds_rows := ds_rows ds + 1\<rparr>))"
    using len by (simp add: dataset_Append_def Let_def k_def)
  have "dims_ok (ds\<lparr>ds_vector_dimensions := dims\<rparr>) (map2 (@) cols cs)"
  proof (rule dims_ok_append [OF d rep_columns_length [OF rep]])
    fix i bs
    assume i: "i < length (ds_fields ds)" "fv_type (ds_fields ds ! i) = kVectorFloat32" "CBytes bs \<in> set (cs ! i)"
    then show "dims ! i \<noteq> 0 \<and> length bs = 4 * dims ! i"
      using new_dimension_ok [of "values ! i" ds i bs] fit [of i] len by (simp add: dims_def cs_def k_def)
  qed (simp_all add: cs_def dims_def new_dimension_def len k_def [symmetric])
  then have "\<exists>ds'. flush_full cfg (ds\<lparr>ds_active_fields := act, ds_vector_dimensions := dims, ds_rows := ds_rows ds + 1\<rparr>)
      = Some ds' \<and> dataset_rep cfg ds' (map2 (@) cols cs) \<and> ds_fields ds' = ds_fields ds"
    using flush_full_rep [OF rep, of 1 cs act dims] appended a len
    by (auto simp: cs_def k_def act_def dims_def active_ok_def)
  moreover have "map2 (@) cols cs = map2 (\<lambda>c v. c @ [value_cell v]) cols values"
    using len rep_columns_length [OF rep] by (auto simp: cs_def k_def intro!: nth_equalityI)
  ultimately show ?thesis using run by auto
qed

text \<open>
  C8. \<open>Dataset::Append\<close> refines appending a row to a table: on a dataset that holds a table
  and values without objects and below 4 GiB, it never fails outside its checks; it returns
  true exactly when the row has one value per column, each of the column's type and each
  vector non-empty and of the column's known dimension, and then the dataset holds the table
  with the row added (in the active columns or in a newly sealed segment); otherwise the
  dataset is unchanged.
\<close>
theorem dataset_Append_refines:
  assumes "dataset_rep cfg ds cols" and "\<forall>v\<in>set values. value_ok v"
  shows "\<exists>ds'. dataset_Append cfg values ds = Some (row_fits ds values, ds') \<and>
           (if row_fits ds values then dataset_rep cfg ds' (map2 (\<lambda>c v. c @ [value_cell v]) cols values)
            else ds' = ds)"
proof (cases "row_fits ds values")
  case True
  then show ?thesis using dataset_Append_rep [OF assms] by auto
next
  case False
  have "dataset_Append cfg values ds = Some (False, ds)"
    using False value_fits_row_fits [of ds "values"] assms(1)
    by (auto simp: dataset_Append_def Let_def dataset_rep_def row_fits_def)
  with False show ?thesis by simp
qed

theorem dataset_Append_refines_witness:
  "\<exists>ds. dataset_Append g_compression_config [value_Int32 5] (AddField (fv_new [97] kInt32) (dataset_new [])) =
          Some (True, ds) \<and> dataset_rep g_compression_config ds [[CInt32 5]]"
proof -
  let ?ds = "AddField (fv_new [97] kInt32) (dataset_new [])"
  have "\<forall>v\<in>set [value_Int32 5]. value_ok v"
    by (simp add: value_ok_def value_defs EncodeArray_def type_byte_inject)
  moreover have "row_fits ?ds [value_Int32 5]"
    by (simp add: row_fits_def is_vector_value_def value_defs AddField_def dataset_new_def Let_def
        ActiveRowCount_def fv_new_def type_byte_inject)
  moreover have "map2 (\<lambda>c v. c @ [value_cell v]) [[]] [value_Int32 5] = [[CInt32 5]]"
    by (simp add: value_cell_def value_defs)
  ultimately show ?thesis
    using dataset_Append_refines [OF AddField_first, of "[value_Int32 5]" g_compression_config "[97]" kInt32 "[]"] by auto
qed

section \<open>A row with an object\<close>

lemma append_field_failed: "for_loop lo hi (append_field vs) (False, ds) = (False, ds)"
  using for_loop_inv [of "\<lambda>_ r. r = (False, ds)" lo "(False, ds)" hi "append_field vs"]
  by (cases "lo \<le> hi") (simp_all add: append_field_def)

text \<open>
  C32. An \<open>Append\<close> that fails half-way is not undone: a row of the right types whose first
  object value is not in the first column makes \<open>Append\<close> return false after the columns before
  it have grown, and from then on every \<open>Append\<close> returns false.
\<close>
theorem dataset_Append_wedges:
  assumes "dataset_rep cfg ds cols" and "row_fits ds values" and "0 < i" and "i < length values"
    and "\<forall>j<i. value_ok (values ! j)" and "\<not> v_is_null (values ! i)" and "v_type (values ! i) = type_byte kObject"
  shows "\<exists>ds'. dataset_Append cfg values ds = Some (False, ds') \<and>
           (\<forall>row. dataset_Append cfg row ds' = Some (False, ds'))"
proof -
  define k where "k = length (ds_fields ds)"
  have a: "active_ok ds" using assms(1) by (auto simp: dataset_rep_def)
  have len: "length values = k" "length (ds_active_fields ds) = k" "length (ds_vector_dimensions ds) = k"
    using assms(2) active_length [OF a] a by (simp_all add: row_fits_def active_ok_def k_def)
  have appended: "fst (append_value (values ! j) (ds_active_fields ds ! j)) \<and>
      fv_extends (ds_active_fields ds ! j) [value_cell (values ! j)] (snd (append_value (values ! j) (ds_active_fields ds ! j)))"
    if "j < i" for j
    using append_value_correct [of "ds_active_fields ds ! j" "values ! j"] active_types [OF a, of j] that assms(2,4,5) len
    by (simp add: row_fits_def k_def)
  define e where "e = ds\<lparr>ds_active_fields :=
      map (\<lambda>j. snd (append_value (values ! j) (ds_active_fields ds ! j))) [0..<i] @ drop i (ds_active_fields ds),
    ds_vector_dimensions := map (\<lambda>j. new_dimension ds j (values ! j)) [0..<i] @ drop i (ds_vector_dimensions ds)\<rparr>"
  have i: "ds_active_fields e ! i = ds_active_fields ds ! i" "i < length (ds_active_fields e)" "length (ds_active_fields e) = k"
    using assms(4) len by (simp_all add: e_def nth_append)
  have "for_loop 0 i (append_field values) (True, ds) = (True, e)"
    using append_fields [of ds i "values"] len appended assms(4) by (simp add: k_def e_def)
  moreover have "append_field values i (True, e) = (False, e)"
    using assms(6,7) i(1,2) by (simp add: append_field_def append_value_def Let_def list_update_id)
  ultimately have "for_loop 0 k (append_field values) (True, ds) = (False, e)"
    using for_loop_split [of 0 i k "append_field values"] for_loop_step [of i k "append_field values"] assms(4) len
    by (simp add: append_field_failed)
  then have "dataset_Append cfg values ds = Some (False, e)"
    using value_fits_row_fits [OF a, of "values"] assms(2) len by (simp add: dataset_Append_def Let_def k_def)
  moreover have "dataset_Append cfg row e = Some (False, e)" for row
  proof (cases "length row = k")
    case True
    have "ds_active_fields e ! 0 = snd (append_value (values ! 0) (ds_active_fields ds ! 0))"
      using assms(3) by (simp add: e_def nth_append)
    then have "ActiveRowCount e = Suc (ActiveRowCount ds)"
      using appended [OF assms(3)] i(2) active_types(4) [OF a, of 0] assms(4) len a [unfolded active_ok_def]
      by (subst ActiveRowCount_hd) (auto simp: fv_extends_def k_def)
    moreover have "fv_size (ds_active_fields e ! i) = ActiveRowCount ds"
      using active_types(4) [OF a, of i] i(1) assms(4) len by (simp add: k_def)
    ultimately have "list_ex (\<lambda>i. \<not> value_fits e (ActiveRowCount e) i (row ! i)) [0..<k]"
      using assms(4) len by (auto simp: list_ex_iff value_fits_def intro!: bexI [of _ i])
    then show ?thesis using True by (simp add: dataset_Append_def Let_def e_def k_def)
  qed (simp add: dataset_Append_def e_def k_def)
  ultimately show ?thesis by blast
qed

theorem dataset_Append_wedges_witness:
  "\<exists>ds'. dataset_Append g_compression_config [value_Int32 5, value_Object []]
           (AddField (fv_new [98] kObject) (AddField (fv_new [97] kInt32) (dataset_new []))) = Some (False, ds') \<and>
     dataset_Append g_compression_config [value_Int32 5, value_Null kObject] ds' = Some (False, ds')"
proof -
  let ?ds = "AddField (fv_new [97] kInt32) (dataset_new [])"
  let ?es = "AddField (fv_new [98] kObject) ?ds"
  have "dataset_rep g_compression_config ?es ([[]] @ [replicate (ActiveRowCount ?ds) CNull])"
    by (rule AddField_rep [OF AddField_first]) (simp add: AddField_def dataset_new_def Let_def)
  moreover have "row_fits ?es [value_Int32 5, value_Object []]"
    by (simp add: row_fits_def is_vector_value_def value_defs AddField_def dataset_new_def Let_def
        ActiveRowCount_def fv_new_def type_byte_inject less_Suc_eq)
  moreover have "value_ok (value_Int32 5)" by (simp add: value_ok_def value_defs EncodeArray_def type_byte_inject)
  ultimately show ?thesis
    using dataset_Append_wedges [of g_compression_config ?es _ "[value_Int32 5, value_Object []]" 1]
    by (auto simp: value_defs)
qed

end
