(* ===== verification/DatasetBatch.thy ===== *)
theory DatasetBatch
  imports DatasetProps
begin

text \<open>
  \<open>AppendBatch\<close> refines appending the cells of typed arrays to every column, however the
  rows are cut into segments.
\<close>

section \<open>The cells of a batch\<close>

definition batch_column :: "field_batch \<Rightarrow> cell list" where
  "batch_column b =
     (let n = fb_count b; v = fb_validity b in
      case fb_type b of
        kInt32 \<Rightarrow> batch_cells v n (map CInt32 (le_words 4 n (fb_data b)))
      | kInt64 \<Rightarrow> batch_cells v n (map CInt64 (le_words 8 n (fb_data b)))
      | kFloat64 \<Rightarrow> batch_cells v n (map CFloat64 (le_words 8 n (fb_data b)))
      | kBool \<Rightarrow> batch_cells v n (map CBool (fb_data b))
      | kDictInt32 \<Rightarrow> batch_cells v n (map CDict (le_words 4 n (fb_data b)))
      | kObject \<Rightarrow> []
      | _ \<Rightarrow> batch_cells v n (map CBytes (split_rows (the (fb_lengths b)) (the (fb_bytes b)))))"

text \<open>The arrays behind a batch's pointers are as long as its count says.\<close>

definition batch_mem_ok :: "field_batch \<Rightarrow> bool" where
  "batch_mem_ok b \<longleftrightarrow>
     batch_ok (fb_validity b) (fb_count b) \<and>
     (case fb_type b of
        kInt32 \<Rightarrow> 4 * fb_count b \<le> length (fb_data b)
      | kInt64 \<Rightarrow> 8 * fb_count b \<le> length (fb_data b)
      | kFloat64 \<Rightarrow> 8 * fb_count b \<le> length (fb_data b)
      | kBool \<Rightarrow> fb_count b \<le> length (fb_data b)
      | kDictInt32 \<Rightarrow> 4 * fb_count b \<le> length (fb_data b)
      | kObject \<Rightarrow> False
      | _ \<Rightarrow> (\<exists>ls bs. fb_lengths b = Some ls \<and> fb_bytes b = Some bs \<and> fb_count b \<le> length ls \<and>
                sum_lengths (take (fb_count b) ls) \<le> length bs))"

lemma length_batch_column:
  assumes "batch_mem_ok b"
  shows "length (batch_column b) = fb_count b"
  using assms by (cases "fb_type b") (auto simp: batch_mem_ok_def batch_column_def Let_def)

section \<open>Slices\<close>

lemma take_le_words: "k + n \<le> m \<Longrightarrow> le_words w n (drop (w * k) bs) = take n (drop k (le_words w m bs))"
proof (induction k arbitrary: m bs)
  case 0
  then show ?case
  proof (induction n arbitrary: m bs)
    case 0
    then show ?case by simp
  next
    case (Suc n)
    then obtain m' where "m = Suc m'" by (cases m) auto
    with Suc show ?case by simp
  qed
next
  case (Suc k)
  then obtain m' where "m = Suc m'" by (cases m) auto
  with Suc.prems Suc.IH [of m' "drop w bs"] show ?case by (simp add: add.commute)
qed

lemma slice_validity_ok:
  assumes "batch_ok v count" and "offset + n \<le> count"
  shows "\<exists>w. slice_validity offset n v = Some w \<and> batch_ok w n \<and>
           batch_valids w n = take n (drop offset (batch_valids v count))"
  using assms
  by (cases v) (auto simp: slice_validity_def slice_def batch_ok_def batch_valids_def take_map drop_map drop_take)

lemma batch_cells_slice:
  assumes "batch_valids w n = take n (drop offset (batch_valids v count))" and "offset + n \<le> count"
    and "count \<le> length cs"
  shows "batch_cells w n (take n (drop offset cs)) = take n (drop offset (batch_cells v count cs))"
  using assms by (simp add: batch_cells_def take_map drop_map take_zip drop_zip drop_take min_def)

lemma split_rows_slice:
  assumes "offset + n \<le> length ls"
  shows "split_rows (take n (drop offset ls))
           (take (sum_lengths (take n (drop offset ls))) (drop (sum_lengths (take offset ls)) bs)) =
         take n (drop offset (split_rows ls bs))"
proof (rule nth_equalityI)
  show "length (split_rows (take n (drop offset ls))
           (take (sum_lengths (take n (drop offset ls))) (drop (sum_lengths (take offset ls)) bs))) =
        length (take n (drop offset (split_rows ls bs)))"
    using assms by simp
next
  fix i
  assume "i < length (split_rows (take n (drop offset ls))
           (take (sum_lengths (take n (drop offset ls))) (drop (sum_lengths (take offset ls)) bs)))"
  then have i: "i < n" "offset + i < length ls" using assms by auto
  have "sum_lengths (take (offset + i) ls) =
      sum_lengths (take offset ls) + sum_lengths (take i (take n (drop offset ls)))"
    using i(1) by (simp add: take_add min_def)
  with i show "split_rows (take n (drop offset ls))
      (take (sum_lengths (take n (drop offset ls))) (drop (sum_lengths (take offset ls)) bs)) ! i =
      take n (drop offset (split_rows ls bs)) ! i"
    by (simp add: split_rows_take split_rows_nth add.commute)
qed

section \<open>Appending a slice of a batch\<close>

lemma slice_words_ok:
  assumes "w * count \<le> length bytes" and "offset + n \<le> count"
  shows "slice_words w offset n bytes = Some (take n (drop offset (le_words w count bytes)))"
proof -
  have "w * (offset + n) \<le> length bytes" using mult_le_mono2 [OF assms(2), of w] assms(1) by linarith
  then show ?thesis using assms(2) take_le_words [of offset n count w bytes] by (simp add: slice_words_def)
qed

lemma sum_lengths_slice:
  assumes "offset + n \<le> count"
  shows "sum_lengths (take offset ls) + sum_lengths (take n (drop offset ls)) \<le> sum_lengths (take count ls)"
proof -
  have "sum_lengths (take offset ls) + sum_lengths (take n (drop offset ls)) =
      sum_lengths (take (offset + n) (take count ls))"
    using assms by (simp add: take_add min_def)
  then show ?thesis by (metis sum_lengths_take_le)
qed

lemma append_varlen_slice:
  assumes f: "fv_inv f" "fv_type f = fb_type b" and t: "is_varlen (fb_type b)"
    and b: "fb_lengths b = Some ls" "fb_bytes b = Some bs" "fb_count b \<le> length ls"
      "sum_lengths (take (fb_count b) ls) \<le> length bs" and fit: "offset + n \<le> fb_count b"
    and v: "slice_validity offset n (fb_validity b) = Some w" "batch_ok w n"
      "batch_valids w n = take n (drop offset (batch_valids (fb_validity b) (fb_count b)))"
  shows "\<exists>g. append_batch offset n b f = Some (True, g) \<and>
           fv_extends f (take n (drop offset (batch_column b))) g"
proof -
  define ms where "ms = take n (drop offset ls)"
  define cs where "cs = take (sum_lengths ms) (drop (sum_lengths (take offset ls)) bs)"
  have sum: "sum_lengths (take offset ls) + sum_lengths ms \<le> length bs"
    using sum_lengths_slice [OF fit, of ls] b(4) by (simp add: ms_def)
  have slices: "slice 0 offset ls = Some (take offset ls)" "slice offset n ls = Some ms"
    "slice (sum_lengths (take offset ls)) (sum_lengths ms) bs = Some cs"
    using fit b(3) sum by (simp_all add: slice_def ms_def cs_def)
  have len: "length ms = n" "sum_lengths (take n ms) \<le> length cs"
    using fit b(3) sum by (simp_all add: ms_def cs_def)
  have "split_rows ms cs = take n (drop offset (split_rows ls bs))"
    unfolding ms_def cs_def using fit b(3) by (intro split_rows_slice) simp
  then have cells: "batch_cells w n (map CBytes (split_rows ms cs)) = take n (drop offset (batch_column b))"
    using batch_cells_slice [OF v(3) fit, of "map CBytes (split_rows ls bs)"] b t
    by (cases "fb_type b") (simp_all add: batch_column_def Let_def take_map drop_map)
  show ?thesis
    using fv_AppendBatchString_correct [of f n ms cs w] fv_AppendBatchBytes_correct [of f n ms cs w]
      f t b(1,2) v slices len cells
    by (cases "fb_type b"; cases "fv_AppendBatchString f ms cs n w"; cases "fv_AppendBatchBytes f ms cs n w")
       (simp_all add: append_batch_def)
qed

lemma append_okI:
  "x = Some r \<Longrightarrow> fst r \<and> fv_extends f cs (snd r) \<Longrightarrow> \<exists>g. x = Some (True, g) \<and> fv_extends f cs g"
  by (cases r) auto

lemma append_batch_slice:
  assumes f: "fv_inv f" "fv_type f = fb_type b" and b: "batch_mem_ok b" and fit: "offset + n \<le> fb_count b"
  shows "\<exists>g. append_batch offset n b f = Some (True, g) \<and>
           fv_extends f (take n (drop offset (batch_column b))) g"
proof -
  obtain w where v: "slice_validity offset n (fb_validity b) = Some w" "batch_ok w n"
    "batch_valids w n = take n (drop offset (batch_valids (fb_validity b) (fb_count b)))"
    using slice_validity_ok [of "fb_validity b" "fb_count b" offset n] b fit by (auto simp: batch_mem_ok_def)
  note cells = batch_cells_slice [OF v(3) fit]
  show ?thesis
  proof (cases "is_varlen (fb_type b)")
    case True
    then obtain ls bs where "fb_lengths b = Some ls" "fb_bytes b = Some bs" "fb_count b \<le> length ls"
      "sum_lengths (take (fb_count b) ls) \<le> length bs"
      using b by (cases "fb_type b") (auto simp: batch_mem_ok_def)
    with f True v fit show ?thesis by (intro append_varlen_slice) auto
  next
    case False
    then show ?thesis
    proof (cases "fb_type b")
      case kInt32
      let ?vs = "take n (drop offset (le_words 4 (fb_count b) (fb_data b) :: u32 list))"
      have words: "slice_words 4 offset n (fb_data b) = Some ?vs"
        using kInt32 b by (intro slice_words_ok [OF _ fit]) (simp add: batch_mem_ok_def)
      have run: "append_batch offset n b f = Some (fv_AppendBatchInt32 f ?vs n w)"
        using kInt32 v words by (simp add: append_batch_def)
      show ?thesis
        by (rule append_okI [OF run])
           (use fv_AppendBatchInt32_correct [of f n ?vs w] kInt32 f v fit
              cells [of "map CInt32 (le_words 4 (fb_count b) (fb_data b))"]
            in \<open>simp add: batch_column_def Let_def take_map drop_map\<close>)
    next
      case kInt64
      let ?vs = "take n (drop offset (le_words 8 (fb_count b) (fb_data b) :: u64 list))"
      have words: "slice_words 8 offset n (fb_data b) = Some ?vs"
        using kInt64 b by (intro slice_words_ok [OF _ fit]) (simp add: batch_mem_ok_def)
      have run: "append_batch offset n b f = Some (fv_AppendBatchInt64 f ?vs n w)"
        using kInt64 v words by (simp add: append_batch_def)
      show ?thesis
        by (rule append_okI [OF run])
           (use fv_AppendBatchInt64_correct [of f n ?vs w] kInt64 f v fit
              cells [of "map CInt64 (le_words 8 (fb_count b) (fb_data b))"]
            in \<open>simp add: batch_column_def Let_def take_map drop_map\<close>)
    next
      case kFloat64
      let ?vs = "take n (drop offset (le_words 8 (fb_count b) (fb_data b) :: u64 list))"
      have words: "slice_words 8 offset n (fb_data b) = Some ?vs"
        using kFloat64 b by (intro slice_words_ok [OF _ fit]) (simp add: batch_mem_ok_def)
      have run: "append_batch offset n b f = Some (fv_AppendBatchFloat64 f ?vs n w)"
        using kFloat64 v words by (simp add: append_batch_def)
      show ?thesis
        by (rule append_okI [OF run])
           (use fv_AppendBatchFloat64_correct [of f n ?vs w] kFloat64 f v fit
              cells [of "map CFloat64 (le_words 8 (fb_count b) (fb_data b))"]
            in \<open>simp add: batch_column_def Let_def take_map drop_map\<close>)
    next
      case kDictInt32
      let ?vs = "take n (drop offset (le_words 4 (fb_count b) (fb_data b) :: u32 list))"
      have words: "slice_words 4 offset n (fb_data b) = Some ?vs"
        using kDictInt32 b by (intro slice_words_ok [OF _ fit]) (simp add: batch_mem_ok_def)
      have run: "append_batch offset n b f = Some (fv_AppendBatchDictInt32 f ?vs n w)"
        using kDictInt32 v words by (simp add: append_batch_def)
      show ?thesis
        by (rule append_okI [OF run])
           (use fv_AppendBatchDictInt32_correct [of f n ?vs w] kDictInt32 f v fit
              cells [of "map CDict (le_words 4 (fb_count b) (fb_data b))"]
            in \<open>simp add: batch_column_def Let_def take_map drop_map\<close>)
    next
      case kBool
      then have len: "n \<le> length (fb_data b) - offset" "offset + n \<le> length (fb_data b)"
        "fb_count b \<le> length (fb_data b)"
        using b fit by (auto simp: batch_mem_ok_def)
      let ?vs = "take n (drop offset (fb_data b))"
      have run: "append_batch offset n b f = Some (fv_AppendBatchBool f ?vs n w)"
        using kBool v len by (simp add: append_batch_def slice_def)
      show ?thesis
        by (rule append_okI [OF run])
           (use fv_AppendBatchBool_correct [of f n ?vs w] kBool f v len cells [of "map CBool (fb_data b)"]
            in \<open>simp add: batch_column_def Let_def take_map drop_map\<close>)
    qed (use b in \<open>simp_all add: batch_mem_ok_def is_varlen_def\<close>)
  qed
qed

section \<open>Checking the dimensions\<close>

definition row_valid :: "field_batch \<Rightarrow> nat \<Rightarrow> bool" where
  "row_valid b row = (case fb_validity b of None \<Rightarrow> True | Some v \<Rightarrow> v ! row \<noteq> 0)"

definition valid_lengths :: "field_batch \<Rightarrow> nat \<Rightarrow> nat list" where
  "valid_lengths b m = map (\<lambda>r. unat (the (fb_lengths b) ! r)) (filter (row_valid b) [0..<m])"

definition dimension_of :: "nat \<Rightarrow> nat list \<Rightarrow> nat" where
  "dimension_of known ls = (if known \<noteq> 0 \<or> ls = [] then known else hd ls div 4)"

definition vectors_fit :: "nat \<Rightarrow> nat list \<Rightarrow> bool" where
  "vectors_fit known ls \<longleftrightarrow> (\<forall>l\<in>set ls. l \<noteq> 0 \<and> l = 4 * dimension_of known ls)"

lemma vectors_fit_snoc:
  assumes "vectors_fit known (ls @ [l])"
  shows "vectors_fit known ls \<and> l \<noteq> 0 \<and> l mod 4 = 0 \<and>
      (dimension_of known ls \<noteq> 0 \<longrightarrow> dimension_of known ls = l div 4) \<and>
      (dimension_of known ls = 0 \<longrightarrow> dimension_of known (ls @ [l]) = l div 4) \<and>
      (dimension_of known ls \<noteq> 0 \<longrightarrow> dimension_of known (ls @ [l]) = dimension_of known ls)"
proof (cases ls)
  case Nil
  then show ?thesis
    using assms by (cases "known = 0") (auto simp: vectors_fit_def dimension_of_def, presburger)
next
  case (Cons a as)
  define d where "d = dimension_of known ls"
  have same: "dimension_of known (ls @ [l]) = d" by (simp add: d_def dimension_of_def Cons)
  have all: "\<forall>x\<in>set ls. x \<noteq> 0 \<and> x = 4 * d" and l: "l \<noteq> 0" "l = 4 * d"
    using assms unfolding vectors_fit_def same by auto
  from all Cons have "d \<noteq> 0" by auto
  with all l same show ?thesis
    unfolding vectors_fit_def d_def [symmetric] by simp
qed

lemma valid_lengths_Suc:
  "valid_lengths b (Suc m) =
   (if row_valid b m then valid_lengths b m @ [unat (the (fb_lengths b) ! m)] else valid_lengths b m)"
  by (simp add: valid_lengths_def)

lemma check_vector_rows:
  assumes lens: "fb_lengths b = Some ls" "m \<le> length ls" and v: "batch_ok (fb_validity b) m"
    and i: "i < length (ds_vector_dimensions ds)"
    and fit: "vectors_fit (ds_vector_dimensions ds ! i) (valid_lengths b m)"
  shows "for_ub 0 m (check_vector_row b i) (True, ds) =
     Some (True, ds\<lparr>ds_vector_dimensions :=
       (ds_vector_dimensions ds)[i := dimension_of (ds_vector_dimensions ds ! i) (valid_lengths b m)]\<rparr>)"
  using lens(2) v fit
proof (induction m)
  case 0
  then show ?case by (simp add: valid_lengths_def dimension_of_def)
next
  case (Suc m)
  let ?known = "ds_vector_dimensions ds ! i"
  let ?d = "dimension_of ?known (valid_lengths b m)"
  let ?l = "unat (ls ! m)"
  have ok: "batch_ok (fb_validity b) m" using Suc.prems(2) by (auto simp: batch_ok_def split: option.splits)
  have row: "slice m 1 ls = Some [ls ! m]" using Suc.prems(1) by (simp add: slice_def Cons_nth_drop_Suc [symmetric])
  have valid: "(case fb_validity b of None \<Rightarrow> Some True | Some v \<Rightarrow> if m < length v then Some (v ! m \<noteq> 0) else None) =
      Some (row_valid b m)"
    using Suc.prems(2) by (auto simp: row_valid_def batch_ok_def split: option.splits)
  show ?case
  proof (cases "row_valid b m")
    case False
    then show ?thesis
      using Suc ok valid by (simp add: for_ub_Suc valid_lengths_Suc check_vector_row_def)
  next
    case True
    then have next_fit: "vectors_fit ?known (valid_lengths b m @ [?l])"
      using Suc.prems(3) lens(1) by (simp add: valid_lengths_Suc)
    note f = vectors_fit_snoc [OF this]
    then have prev: "vectors_fit ?known (valid_lengths b m)" by simp
    have IH: "for_ub 0 m (check_vector_row b i) (True, ds) =
        Some (True, ds\<lparr>ds_vector_dimensions := (ds_vector_dimensions ds)[i := ?d]\<rparr>)"
      using Suc.IH Suc.prems(1) ok prev by simp
    have dims: "(ds_vector_dimensions ds)[i := ?d] ! i = ?d" using i by simp
    have "check_vector_row b i m (True, ds\<lparr>ds_vector_dimensions := (ds_vector_dimensions ds)[i := ?d]\<rparr>) =
        Some (True, ds\<lparr>ds_vector_dimensions :=
          (ds_vector_dimensions ds)[i := dimension_of ?known (valid_lengths b m @ [?l])]\<rparr>)"
      using True valid row lens(1) f dims
      by (cases "?d = 0") (simp_all add: check_vector_row_def Let_def)
    then show ?thesis using IH True lens(1) by (simp add: for_ub_Suc valid_lengths_Suc)
  qed
qed

section \<open>The checks of all columns\<close>

definition batch_dimension :: "dataset \<Rightarrow> nat \<Rightarrow> field_batch \<Rightarrow> nat" where
  "batch_dimension ds i b =
     (if fb_type b = kVectorFloat32
      then dimension_of (ds_vector_dimensions ds ! i) (valid_lengths b (fb_count b))
      else ds_vector_dimensions ds ! i)"

definition batches_fit :: "dataset \<Rightarrow> field_batch list \<Rightarrow> bool" where
  "batches_fit ds batches \<longleftrightarrow>
     length batches = length (ds_fields ds) \<and>
     (\<forall>i<length batches. fb_type (batches ! i) = fv_type (ds_fields ds ! i) \<and>
        fb_count (batches ! i) = fb_count (batches ! 0) \<and>
        (fb_type (batches ! i) = kVectorFloat32 \<longrightarrow>
           vectors_fit (ds_vector_dimensions ds ! i) (valid_lengths (batches ! i) (fb_count (batches ! i)))))"

lemma check_batches:
  assumes a: "active_ok ds" and fit: "batches_fit ds batches" and mem: "\<forall>b\<in>set batches. batch_mem_ok b"
    and k: "k \<le> length (ds_fields ds)"
  shows "for_ub 0 k (check_batch batches (fb_count (batches ! 0))) (True, ds) =
     Some (True, ds\<lparr>ds_vector_dimensions :=
       map (\<lambda>i. batch_dimension ds i (batches ! i)) [0..<k] @ drop k (ds_vector_dimensions ds)\<rparr>)"
  using k
proof (induction k)
  case 0
  then show ?case by simp
next
  case (Suc k)
  let ?D = "map (\<lambda>i. batch_dimension ds i (batches ! i)) [0..<k]"
  let ?e = "ds\<lparr>ds_vector_dimensions := ?D @ drop k (ds_vector_dimensions ds)\<rparr>"
  let ?b = "batches ! k"
  have k: "k < length (ds_vector_dimensions ds)" "k < length batches"
    using Suc.prems a fit by (simp_all add: active_ok_def batches_fit_def)
  have b: "fb_type ?b = fv_type (ds_fields ds ! k)" "fb_count ?b = fb_count (batches ! 0)" "batch_mem_ok ?b"
    "fb_type ?b = kVectorFloat32 \<Longrightarrow> vectors_fit (ds_vector_dimensions ds ! k) (valid_lengths ?b (fb_count ?b))"
    using fit k(2) mem by (auto simp: batches_fit_def)
  have same: "ActiveRowCount ?e = ActiveRowCount ds" by (simp add: ActiveRowCount_def)
  have dims: "(?D @ drop k (ds_vector_dimensions ds))[k := x] = ?D @ x # drop (Suc k) (ds_vector_dimensions ds)"
    "(?D @ drop k (ds_vector_dimensions ds)) ! k = ds_vector_dimensions ds ! k" for x
    using k by (simp_all add: list_update_append nth_append Cons_nth_drop_Suc [symmetric])
  have dk: "drop k (ds_vector_dimensions ds) = ds_vector_dimensions ds ! k # drop (Suc k) (ds_vector_dimensions ds)"
    using k by (simp add: Cons_nth_drop_Suc)
  have "check_batch batches (fb_count (batches ! 0)) k (True, ?e) =
      Some (True, ds\<lparr>ds_vector_dimensions := ?D @ batch_dimension ds k ?b # drop (Suc k) (ds_vector_dimensions ds)\<rparr>)"
  proof (cases "fb_type ?b = kVectorFloat32")
    case True
    then obtain ls bs where ls: "fb_lengths ?b = Some ls" "fb_bytes ?b = Some bs" "fb_count ?b \<le> length ls"
      "batch_ok (fb_validity ?b) (fb_count ?b)"
      using b(3) by (auto simp: batch_mem_ok_def)
    show ?thesis
      using True b(1,2,4) ls same active_types(1,4) [OF a, of k] Suc.prems k dims
        check_vector_rows [of ?b ls "fb_count ?b" k ?e]
      by (simp add: check_batch_def Let_def batch_dimension_def)
  next
    case False
    then show ?thesis
      using b(1,2) same active_types(1,4) [OF a, of k] Suc.prems dk
      by (simp add: check_batch_def Let_def batch_dimension_def)
  qed
  then show ?case using Suc by (simp add: for_ub_Suc)
qed

section \<open>Appending the chunks\<close>

lemma append_batch_fields:
  assumes act: "length (ds_active_fields ds) = length (ds_fields ds)"
    and g: "\<And>i. i < length (ds_fields ds) \<Longrightarrow>
      append_batch offset n (batches ! i) (ds_active_fields ds ! i) = Some (True, g i)"
    and k: "k \<le> length (ds_fields ds)"
  shows "for_ub 0 k (append_batch_field batches offset n) (True, ds) =
     Some (True, ds\<lparr>ds_active_fields := map g [0..<k] @ drop k (ds_active_fields ds)\<rparr>)"
  using k
proof (induction k)
  case 0
  then show ?case by simp
next
  case (Suc k)
  then have "(map g [0..<k] @ drop k (ds_active_fields ds))[k := g k] =
      map g [0..<k] @ g k # drop (Suc k) (ds_active_fields ds)"
    "(map g [0..<k] @ drop k (ds_active_fields ds)) ! k = ds_active_fields ds ! k"
    using act by (simp_all add: list_update_append nth_append Cons_nth_drop_Suc [symmetric])
  then show ?case using Suc g [of k] by (simp add: for_ub_Suc append_batch_field_def)
qed

text \<open>The vectors of a batch that fits all have the dimension the check leaves.\<close>

lemma batch_column_vectors:
  assumes mem: "batch_mem_ok b" and t: "fb_type b = kVectorFloat32"
    and fit: "vectors_fit known (valid_lengths b (fb_count b))" and c: "CBytes bs \<in> set (batch_column b)"
  shows "dimension_of known (valid_lengths b (fb_count b)) \<noteq> 0 \<and>
         length bs = 4 * dimension_of known (valid_lengths b (fb_count b))"
proof -
  define n where "n = fb_count b"
  obtain ls bytes where b: "fb_lengths b = Some ls" "fb_bytes b = Some bytes" "n \<le> length ls"
    "sum_lengths (take n ls) \<le> length bytes" "batch_ok (fb_validity b) n"
    using mem t by (auto simp: batch_mem_ok_def n_def)
  have len: "length (batch_column b) = n" using length_batch_column [OF mem] by (simp add: n_def)
  obtain r where r: "r < n" "batch_column b ! r = CBytes bs" using c len by (auto simp: in_set_conv_nth)
  have cell: "batch_column b ! r = mask_cell (batch_valids (fb_validity b) n ! r) (CBytes (split_rows ls bytes ! r))"
    using r b t by (simp add: batch_column_def n_def [symmetric] batch_cells_def)
  have valid: "batch_valids (fb_validity b) n ! r = row_valid b r"
    using r(1) b(5) by (auto simp: batch_valids_def row_valid_def batch_ok_def split: option.splits)
  have "sum_lengths (take (Suc r) ls) \<le> length bytes"
    using sum_lengths_take_le [of "Suc r" "take n ls"] r(1) b(4) by (simp add: min_def)
  then have "length (split_rows ls bytes ! r) = unat (ls ! r)"
    using r(1) b(3) by (simp add: split_rows_nth take_Suc_conv_app_nth)
  with r cell valid have "row_valid b r" "length bs = unat (ls ! r)"
    by (auto simp: mask_cell_def split: if_splits)
  then have "length bs \<in> set (valid_lengths b n)"
    using r(1) b(1) by (auto simp: valid_lengths_def)
  moreover have "\<forall>l\<in>set (valid_lengths b n). l \<noteq> 0 \<and> l = 4 * dimension_of known (valid_lengths b n)"
    using fit by (simp only: vectors_fit_def n_def)
  ultimately have "length bs \<noteq> 0 \<and> length bs = 4 * dimension_of known (valid_lengths b n)" by blast
  then show ?thesis by (simp only: n_def) linarith
qed

lemma append_chunk:
  assumes rep: "dataset_rep cfg e cols" and fields: "ds_fields e = ds_fields ds"
    and fit: "batches_fit ds batches" and mem: "\<forall>b\<in>set batches. batch_mem_ok b"
    and dims: "ds_vector_dimensions e = map (\<lambda>i. batch_dimension ds i (batches ! i)) [0..<length (ds_fields ds)]"
    and n: "offset + n \<le> fb_count (batches ! 0)" "ActiveRowCount e + n \<le> ds_segment_capacity e"
  shows "\<exists>d e'. for_ub 0 (length (ds_fields e)) (append_batch_field batches offset n) (True, e) = Some (True, d) \<and>
           flush_full cfg (d\<lparr>ds_rows := ds_rows d + n\<rparr>) = Some e' \<and>
           dataset_rep cfg e' (map2 (@) cols (map (\<lambda>b. take n (drop offset (batch_column b))) batches)) \<and>
           ds_fields e' = ds_fields ds \<and> ds_vector_dimensions e' = ds_vector_dimensions e"
proof -
  define k where "k = length (ds_fields ds)"
  define cs where "cs = map (\<lambda>b. take n (drop offset (batch_column b))) batches"
  have a: "active_ok e" and d: "dims_ok e cols" using rep by (auto simp: dataset_rep_def)
  have len: "length batches = k" "length (ds_active_fields e) = k" "length cs = k"
    using fit active_length [OF a] fields by (simp_all add: batches_fit_def k_def cs_def)
  have b: "fb_type (batches ! i) = fv_type (ds_fields ds ! i)" "fb_count (batches ! i) = fb_count (batches ! 0)"
    "batch_mem_ok (batches ! i)" if "i < k" for i
    using fit mem that len by (auto simp: batches_fit_def)
  have "\<exists>g. \<forall>i<k. append_batch offset n (batches ! i) (ds_active_fields e ! i) = Some (True, g i) \<and>
      fv_extends (ds_active_fields e ! i) (take n (drop offset (batch_column (batches ! i)))) (g i)"
  proof (rule choice, intro allI)
    fix i
    show "\<exists>g. i < k \<longrightarrow> append_batch offset n (batches ! i) (ds_active_fields e ! i) = Some (True, g) \<and>
        fv_extends (ds_active_fields e ! i) (take n (drop offset (batch_column (batches ! i)))) g"
      using append_batch_slice [of "ds_active_fields e ! i" "batches ! i" offset n] b [of i] n(1)
        active_types [OF a, of i] fields by (cases "i < k") (auto simp: k_def)
  qed
  then obtain g where g: "\<And>i. i < k \<Longrightarrow> append_batch offset n (batches ! i) (ds_active_fields e ! i) = Some (True, g i)"
    "\<And>i. i < k \<Longrightarrow> fv_extends (ds_active_fields e ! i) (take n (drop offset (batch_column (batches ! i)))) (g i)"
    by blast
  have run: "for_ub 0 (length (ds_fields e)) (append_batch_field batches offset n) (True, e) =
      Some (True, e\<lparr>ds_active_fields := map g [0..<k]\<rparr>)"
    using append_batch_fields [of e offset n batches g k] g(1) len fields by (simp add: k_def)
  have "dims_ok (e\<lparr>ds_vector_dimensions := ds_vector_dimensions e\<rparr>) (map2 (@) cols cs)"
  proof (rule dims_ok_append [OF d rep_columns_length [OF rep]])
    fix i bs
    assume i: "i < length (ds_fields e)" "fv_type (ds_fields e ! i) = kVectorFloat32" "CBytes bs \<in> set (cs ! i)"
    then have "CBytes bs \<in> set (batch_column (batches ! i))"
      using len fields by (auto simp: cs_def k_def dest!: in_set_takeD in_set_dropD)
    moreover have "ds_vector_dimensions e ! i = batch_dimension ds i (batches ! i)"
      using i(1) fields by (simp add: dims)
    moreover have "vectors_fit (ds_vector_dimensions ds ! i) (valid_lengths (batches ! i) (fb_count (batches ! i)))"
      using fit i(1,2) fields unfolding batches_fit_def by metis
    ultimately show "ds_vector_dimensions e ! i \<noteq> 0 \<and> length bs = 4 * ds_vector_dimensions e ! i"
      using batch_column_vectors [of "batches ! i" "ds_vector_dimensions ds ! i" bs] b [of i] i fields
      by (simp add: batch_dimension_def k_def)
  qed (simp_all add: len fields k_def)
  then have "\<exists>e'. flush_full cfg (e\<lparr>ds_active_fields := map g [0..<k], ds_vector_dimensions := ds_vector_dimensions e,
        ds_rows := ds_rows e + n\<rparr>) = Some e' \<and> dataset_rep cfg e' (map2 (@) cols cs) \<and> ds_fields e' = ds_fields e \<and>
      ds_vector_dimensions e' = ds_vector_dimensions e"
    using flush_full_rep [OF rep n(2), of cs "map g [0..<k]" "ds_vector_dimensions e"] g(2) len fields n(1) b
      length_batch_column dims
    by (auto simp: cs_def k_def)
  then show ?thesis using run fields by (auto simp: cs_def)
qed

text \<open>The columns when the first \<open>offset\<close> rows of each batch are in.\<close>

definition with_rows :: "cell list list \<Rightarrow> field_batch list \<Rightarrow> nat \<Rightarrow> cell list list" where
  "with_rows cols batches n = map2 (\<lambda>c b. c @ take n (batch_column b)) cols batches"

lemma with_rows_more:
  "map2 (@) (with_rows cols batches offset) (map (\<lambda>b. take n (drop offset (batch_column b))) batches) =
   with_rows cols batches (offset + n)"
  by (rule nth_equalityI) (auto simp: with_rows_def take_add)

lemma append_chunks_rep:
  assumes "dataset_rep cfg e (with_rows cols batches offset)" and "ds_fields e = ds_fields ds"
    and "batches_fit ds batches" and "\<forall>b\<in>set batches. batch_mem_ok b"
    and "ds_vector_dimensions e = map (\<lambda>i. batch_dimension ds i (batches ! i)) [0..<length (ds_fields ds)]"
    and "offset \<le> count" and "count = fb_count (batches ! 0)"
  shows "\<exists>ds'. append_chunks cfg batches count offset e = Some (True, ds') \<and>
           dataset_rep cfg ds' (with_rows cols batches count)"
  using assms
proof (induction "count - offset" arbitrary: e offset rule: less_induct)
  case less
  show ?case
  proof (cases "offset = count")
    case True
    then show ?thesis using less.prems(1) by (simp add: append_chunks.simps)
  next
    case False
    define n where "n = min (count - offset) (capacity_left e)"
    have cap: "ActiveRowCount e < ds_segment_capacity e"
      using less.prems(1) by (auto simp: dataset_rep_def active_ok_def)
    then have n: "0 < n" "offset + n \<le> count" "ActiveRowCount e + n \<le> ds_segment_capacity e"
      using False less.prems(6) by (auto simp: n_def capacity_left_def Let_def)
    obtain d e' where step: "for_ub 0 (length (ds_fields e)) (append_batch_field batches offset n) (True, e) = Some (True, d)"
      "flush_full cfg (d\<lparr>ds_rows := ds_rows d + n\<rparr>) = Some e'"
      and e': "dataset_rep cfg e' (with_rows cols batches (offset + n))" "ds_fields e' = ds_fields ds"
        "ds_vector_dimensions e' = ds_vector_dimensions e"
      using append_chunk [OF less.prems(1-5), of offset n] n less.prems(7) with_rows_more by metis
    have "append_chunks cfg batches count offset e = append_chunks cfg batches count (offset + n) e'"
      using False less.prems(6) n(1) step
      by (subst append_chunks.simps) (simp add: Let_def n_def [symmetric])
    moreover have "\<exists>ds'. append_chunks cfg batches count (offset + n) e' = Some (True, ds') \<and>
        dataset_rep cfg ds' (with_rows cols batches count)"
      using n less.prems(3-5,7) e' by (intro less.hyps) auto
    ultimately show ?thesis by simp
  qed
qed

lemma dataset_rep_dims:
  assumes "dataset_rep cfg ds cols" and "length dims = length (ds_fields ds)"
    and "dims_ok (ds\<lparr>ds_vector_dimensions := dims\<rparr>) cols"
  shows "dataset_rep cfg (ds\<lparr>ds_vector_dimensions := dims\<rparr>) cols"
proof -
  have same: "sealed_from cfg (ds\<lparr>ds_vector_dimensions := dims\<rparr>) = sealed_from cfg ds"
    "table_columns (ds\<lparr>ds_vector_dimensions := dims\<rparr>) = table_columns ds"
    "ActiveRowCount (ds\<lparr>ds_vector_dimensions := dims\<rparr>) = ActiveRowCount ds"
    by (simp_all add: fun_eq_iff sealed_from_def table_columns_def ActiveRowCount_def)
  have "active_ok (ds\<lparr>ds_vector_dimensions := dims\<rparr>)"
    using assms(1,2) by (simp add: dataset_rep_def active_ok_def same)
  with assms show ?thesis by (simp add: dataset_rep_def same)
qed

section \<open>Appending a batch\<close>

text \<open>
  C9. \<open>Dataset::AppendBatch\<close> refines appending columns of cells to a table: when there is one
  batch per column, of the column's type, all of one length, with vectors of the column's known
  dimension (or of one new dimension), and the arrays are as long as the batches say, it
  returns true and the dataset holds the table with the cells of each batch added to its column,
  however many segments had to be cut off on the way; no access leaves an array and the loop
  ends.
\<close>
theorem dataset_AppendBatch_refines:
  assumes rep: "dataset_rep cfg ds cols" and fit: "batches_fit ds batches"
    and mem: "\<forall>b\<in>set batches. batch_mem_ok b"
  shows "\<exists>ds'. dataset_AppendBatch cfg batches ds = Some (True, ds') \<and>
           dataset_rep cfg ds' (map2 (\<lambda>c b. c @ batch_column b) cols batches)"
proof -
  define count where "count = fb_count (batches ! 0)"
  have a: "active_ok ds" and d: "dims_ok ds cols" using rep by (auto simp: dataset_rep_def)
  have k: "length batches = length (ds_fields ds)" "length cols = length (ds_fields ds)" "batches \<noteq> []"
    "length (ds_vector_dimensions ds) = length (ds_fields ds)"
    using fit rep_columns_length [OF rep] a by (auto simp: batches_fit_def active_ok_def)
  have full: "take count (batch_column b) = batch_column b" if "b \<in> set batches" for b
  proof -
    have "fb_count b = count" using that fit by (auto simp: batches_fit_def count_def in_set_conv_nth)
    then show ?thesis using length_batch_column [of b] mem that by simp
  qed
  have all: "with_rows cols batches count = map2 (\<lambda>c b. c @ batch_column b) cols batches"
    by (rule nth_equalityI) (use full k in \<open>simp_all add: with_rows_def\<close>)
  show ?thesis
  proof (cases "count = 0")
    case True
    have "map2 (\<lambda>c b. c @ batch_column b) cols batches = cols"
      unfolding all [symmetric] by (rule nth_equalityI) (use k True in \<open>simp_all add: with_rows_def\<close>)
    then show ?thesis
      using True k rep by (simp add: dataset_AppendBatch_def count_def Let_def)
  next
    case False
    define e where "e = ds\<lparr>ds_vector_dimensions :=
      map (\<lambda>i. batch_dimension ds i (batches ! i)) [0..<length (ds_fields ds)]\<rparr>"
    have checked: "for_ub 0 (length (ds_fields ds)) (check_batch batches count) (True, ds) = Some (True, e)"
      using check_batches [OF a fit mem, of "length (ds_fields ds)"] k(4) by (simp add: e_def count_def)
    have "dims_ok e (map2 (@) cols (replicate (length (ds_fields ds)) []))"
      unfolding e_def using d k
      by (intro dims_ok_append) (auto simp: batch_dimension_def dimension_of_def)
    moreover have "map2 (@) cols (replicate (length (ds_fields ds)) []) = cols"
      by (rule nth_equalityI) (use k(2) in simp_all)
    moreover have "with_rows cols batches 0 = cols"
      by (rule nth_equalityI) (use k in \<open>simp_all add: with_rows_def\<close>)
    ultimately have "dataset_rep cfg e (with_rows cols batches 0)"
      using dataset_rep_dims [OF rep, of "ds_vector_dimensions e"] by (simp add: e_def)
    then obtain ds' where "append_chunks cfg batches count 0 e = Some (True, ds')"
      "dataset_rep cfg ds' (map2 (\<lambda>c b. c @ batch_column b) cols batches)"
      using append_chunks_rep [of cfg e cols batches 0 ds count] fit mem all by (auto simp: e_def count_def)
    moreover have "dataset_AppendBatch cfg batches ds = append_chunks cfg batches count 0 e"
      using checked k(1,3) False by (simp add: dataset_AppendBatch_def Let_def count_def)
    ultimately show ?thesis by simp
  qed
qed

theorem dataset_AppendBatch_refines_witness:
  "\<exists>b ds. dataset_AppendBatch g_compression_config [b] (AddField (fv_new [97] kInt32) (dataset_new [])) = Some (True, ds) \<and>
     dataset_rep g_compression_config ds [[CInt32 1, CNull]]"
proof -
  let ?ds = "AddField (fv_new [97] kInt32) (dataset_new [])"
  let ?b = "\<lparr>fb_type = kInt32, fb_data = [1, 0, 0, 0, 2, 0, 0, 0], fb_count = 2, fb_validity = Some [1, 0],
    fb_lengths = None, fb_bytes = None, fb_bytes_size = 0\<rparr>"
  have "batches_fit ?ds [?b]"
    by (simp add: batches_fit_def AddField_def dataset_new_def Let_def ActiveRowCount_def fv_new_def)
  moreover have "\<forall>b\<in>set [?b]. batch_mem_ok b" by (simp add: batch_mem_ok_def batch_ok_def)
  moreover have "batch_column ?b = [CInt32 1, CNull]" by code_simp
  ultimately show ?thesis
    using dataset_AppendBatch_refines [OF AddField_first, of "[97]" kInt32 "[]" "[?b]" g_compression_config]
    by (intro exI [of _ ?b]) simp
qed

end
