(* ===== verification/DatasetRead.thy ===== *)
theory DatasetRead
  imports DatasetBatch
begin

text \<open>
  Reading a dataset's sealed segments: the compressed views show the rows of the table.
\<close>

definition cell_int :: "cell \<Rightarrow> u64 option" where
  "cell_int c =
     (case c of
        CInt32 x \<Rightarrow> Some (scast x)
      | CInt64 x \<Rightarrow> Some x
      | CBool b \<Rightarrow> Some (if b \<noteq> 0 then 1 else 0)
      | _ \<Rightarrow> None)"

text \<open>Integers a double represents, and booleans as \<open>Append\<close> stores them.\<close>

definition cell_exact :: "cell \<Rightarrow> bool" where
  "cell_exact c = (case c of CInt64 x \<Rightarrow> small_int (sint x) | CBool b \<Rightarrow> b \<le> 1 | _ \<Rightarrow> True)"

lemma cell_int_cells:
  assumes "fv_inv f" and "is_encodable (fv_type f)" and "r < fv_size f"
  shows "cell_int (fv_cells f ! r) = (if fv_IsValid f r then Some (field_i64 f r) else None)"
proof -
  have "length (fv_values f) = fv_size f" using fv_inv_values_len [OF assms(1)] .
  then show ?thesis
    using assms fv_cells_nth [OF assms(1,3)]
    by (cases "fv_type f") (simp_all add: cell_int_def field_i64_def is_encodable_def fv_values_def)
qed

lemma cells_exact:
  assumes "fv_inv f" and "is_encodable (fv_type f)" and "\<forall>c\<in>set (fv_cells f). cell_exact c"
  shows "exact_ints f" and "bool_cells_ok f"
proof -
  have len: "length (fv_values f) = fv_size f" "length (fv_cells f) = fv_size f"
    using fv_inv_values_len [OF assms(1)] fv_cells_len [OF assms(1)] .
  have e: "cell_exact (fv_values f ! r)" if "r < fv_size f" "fv_IsValid f r" for r
    using assms(3) that fv_cells_nth [OF assms(1) that(1)] len(2) by (metis nth_mem)
  have i32: "small_int (sint (scast (x :: u32) :: u64))" for x
    using sint_ge [of x] sint_lt [of x] by (simp add: sint_scast_i32)
  show "exact_ints f"
    using e len(1) assms(2) i32
    by (cases "fv_type f") (auto simp: exact_ints_def field_i64_def fv_values_def cell_exact_def is_encodable_def)
  show "bool_cells_ok f"
    using e len(1) by (auto simp: bool_cells_ok_def fv_values_def cell_exact_def)
qed

lemma concat_nth:
  "\<forall>xs\<in>set xss. length xs = n \<Longrightarrow> s < length xss \<Longrightarrow> r < n \<Longrightarrow> concat xss ! (s * n + r) = xss ! s ! r"
proof (induction xss arbitrary: s)
  case Nil
  then show ?case by simp
next
  case (Cons xs xss)
  then show ?case by (cases s) (auto simp: nth_append)
qed

lemma length_concat_same: "\<forall>xs\<in>set xss. length xs = n \<Longrightarrow> length (concat xss) = length xss * n"
  by (induction xss) auto

text \<open>The columns a sealed segment was built from hold its rows of the table.\<close>

lemma sealed_rows:
  assumes rep: "dataset_rep cfg ds cols" and s: "s < length (ds_segments ds)" and i: "i < length (ds_fields ds)"
  obtains flds where "sealed_from cfg ds flds (ds_segments ds ! s)" and "length flds = length (ds_fields ds)"
    and "length (fv_cells (flds ! i)) = ds_segment_capacity ds"
    and "\<And>r. r < ds_segment_capacity ds \<Longrightarrow> fv_cells (flds ! i) ! r = cols ! i ! (s * ds_segment_capacity ds + r)"
    and "set (fv_cells (flds ! i)) \<subseteq> set (cols ! i)"
proof -
  let ?cap = "ds_segment_capacity ds"
  obtain chunks where chunks: "list_all2 (sealed_from cfg ds) chunks (ds_segments ds)"
    and cols: "cols = table_columns ds chunks"
    using rep by (auto simp: dataset_rep_def)
  define col where "col = map (\<lambda>flds. fv_cells (flds ! i)) chunks"
  have sealed: "sealed_from cfg ds (chunks ! t) (ds_segments ds ! t)" if "t < length chunks" for t
    using chunks that by (simp add: list_all2_conv_all_nth)
  have len: "length (chunks ! t) = length (ds_fields ds)" "length (fv_cells (chunks ! t ! i)) = ?cap" if "t < length chunks" for t
  proof -
    show l: "length (chunks ! t) = length (ds_fields ds)"
      using sealed [OF that] unfolding sealed_from_def by (metis length_map)
    show "length (fv_cells (chunks ! t ! i)) = ?cap"
      using sealed [OF that] i l by (auto simp: sealed_from_def fv_cells_len)
  qed
  have all: "\<forall>xs\<in>set col. length xs = ?cap" using len(2) by (auto simp: col_def in_set_conv_nth)
  have s': "s < length chunks" using s chunks by (simp add: list_all2_lengthD)
  have column: "cols ! i = concat col @ fv_cells (ds_active_fields ds ! i)"
    using i by (simp add: cols table_columns_def col_def)
  have row: "fv_cells (chunks ! s ! i) ! r = cols ! i ! (s * ?cap + r)" if "r < ?cap" for r
  proof -
    have "s * ?cap + r < Suc s * ?cap" using that by simp
    also have "\<dots> \<le> length col * ?cap" using s' by (intro mult_le_mono1) (simp add: col_def)
    finally have "cols ! i ! (s * ?cap + r) = concat col ! (s * ?cap + r)"
      using length_concat_same [OF all] by (simp add: column nth_append)
    then show ?thesis using concat_nth [OF all, of s r] s' that by (simp add: col_def)
  qed
  show thesis
    using s' by (intro that [of "chunks ! s"] sealed len row) (auto simp: column col_def intro!: bexI [of _ "chunks ! s"])
qed

text \<open>
  The compressed view of every integer or boolean column of every sealed segment reads every row of
  the table that fell into the segment, nulls included, and a predicate scan of the view selects
  exactly the rows whose cell satisfies the comparison (cells within \<open>2 ^ 53\<close>).
\<close>
lemma sealed_reads_back:
  assumes rep: "dataset_rep cfg ds cols" and s: "s < length (ds_segments ds)" and i: "i < length (ds_fields ds)"
    and enc: "is_encodable (fv_type (ds_fields ds ! i))" and cap: "ds_segment_capacity ds < 2 ^ 32"
    and exact: "\<forall>c\<in>set (cols ! i). cell_exact c"
  shows "let view = sg_compressed_columns (ds_segments ds ! s) ! i; n = ds_segment_capacity ds;
             cell = (\<lambda>r. cell_int (cols ! i ! (s * n + r)))
         in (\<forall>r<n. ReadInt64Value view r = Some (cell r)) \<and>
            (\<forall>p m. no_null_check p \<longrightarrow>
               (\<exists>m'. BuildMaskCompressed view p (Some m) = Some (True, Some m') \<and>
                  (\<forall>r. mask_Get m' r \<longleftrightarrow>
                     r < n \<and> (\<exists>x. cell r = Some x \<and> CompareInt64 x (cp_i64 p) (cp_op p)))))"
proof -
  let ?n = "ds_segment_capacity ds"
  from sealed_rows [OF rep s i] obtain flds where flds: "sealed_from cfg ds flds (ds_segments ds ! s)"
    "length flds = length (ds_fields ds)"
    and cells: "\<And>r. r < ?n \<Longrightarrow> fv_cells (flds ! i) ! r = cols ! i ! (s * ?n + r)"
      "set (fv_cells (flds ! i)) \<subseteq> set (cols ! i)" by metis
  let ?f = "flds ! i"
  have f: "fv_inv ?f" "fv_size ?f = ?n" using flds i by (auto simp: sealed_from_def)
  have types: "map fv_type flds ! i = map fv_type (ds_fields ds) ! i" using flds(1) by (simp add: sealed_from_def)
  then have enc': "is_encodable (fv_type ?f)" using enc flds(2) i by simp
  have pos: "0 < ?n" using rep by (auto simp: dataset_rep_def active_ok_def)
  have fill: "?n \<le> ResolveRowCount flds ?n" using pos by (simp add: ResolveRowCount_def)
  have faithful: "view_faithful (sg_compressed_columns (ds_segments ds ! s) ! i) ?f"
    using sealed_column_faithful [of flds ?n ?n i cfg] flds i enc' f fill pos cap exact cells(2)
      cells_exact [OF f(1) enc'] by (auto simp: sealed_from_def)
  have cell: "cell_int (cols ! i ! (s * ?n + r)) = (if fv_IsValid ?f r then Some (field_i64 ?f r) else None)"
    if "r < ?n" for r
    using cell_int_cells [OF f(1) enc', of r] cells(1) [OF that] f(2) that by simp
  have hit: "(r < ?n \<and> (\<exists>x. cell_int (cols ! i ! (s * ?n + r)) = Some x \<and> CompareInt64 x (cp_i64 p) (cp_op p))) =
      (r < ?n \<and> fv_IsValid ?f r \<and> CompareInt64 (field_i64 ?f r) (cp_i64 p) (cp_op p))" for r p
    using cell [of r] by (cases "fv_IsValid ?f r") auto
  show ?thesis
    using faithful cell by (simp add: view_faithful_def Let_def f(2) hit)
qed

section \<open>A dataset with sealed and active rows\<close>

lemma example_dataset:
  obtains ds where "dataset_rep g_compression_config ds [[CInt32 7, CNull, CInt32 300, CInt32 9]]"
    and "length (ds_segments ds) = 1" and "ds_segment_capacity ds = 3" and "length (ds_fields ds) = 1"
    and "fv_type (ds_fields ds ! 0) = kInt32" and "ActiveRowCount ds = 1"
proof -
  define f where "f = fv_new (fv_name example_column) (fv_type example_column)"
  have t: "fv_type example_column = kInt32" by code_simp
  have f: "fv_inv f" "fv_cells f = []" "fv_type f = kInt32" "fv_name f = fv_name example_column" "fv_size f = 0"
    by (simp_all add: f_def fv_new_inv) (simp_all add: fv_new_def t)
  have cells: "fv_cells example_column = [CInt32 7, CNull, CInt32 300]" by code_simp
  define g where "g = snd (fv_AppendInt32 f 9)"
  have g: "fv_inv g" "fv_cells g = [CInt32 9]" "fv_type g = kInt32" "fv_name g = fv_name example_column" "fv_size g = 1"
    using fv_AppendInt32_correct [OF f(1), of 9] f by (simp_all add: g_def fv_extends_def)
  obtain sg where sg: "segment_new g_compression_config 3 3 [example_column] = Some sg"
    using segment_new_built [of "[example_column]" g_compression_config 3 3] example_column_inv(1) by auto
  define ds where "ds = \<lparr>ds_name = [], ds_rows = 4, ds_fields = [f], ds_active_fields = [g], ds_segments = [sg],
    ds_segment_capacity = 3, ds_vector_dimensions = [0]\<rparr>"
  have cols: "[[CInt32 7, CNull, CInt32 300, CInt32 9]] = table_columns ds [[example_column]]"
    using g cells by (simp add: table_columns_def ds_def)
  have "sealed_from g_compression_config ds [example_column] sg"
    using sg example_column_inv(1) example_column_cells f t by (simp add: sealed_from_def ds_def)
  moreover have "active_ok ds" "dims_ok ds [[CInt32 7, CNull, CInt32 300, CInt32 9]]"
    using f g by (simp_all add: active_ok_def dims_ok_def ds_def ActiveRowCount_def)
  ultimately have "dataset_rep g_compression_config ds [[CInt32 7, CNull, CInt32 300, CInt32 9]]"
    unfolding dataset_rep_def using g cols
    by (intro conjI exI [of _ "[[example_column]]"]) (simp_all add: ds_def ActiveRowCount_def)
  then show thesis using that [of ds] f g by (simp add: ds_def ActiveRowCount_def)
qed

end
