(* ===== verification/Projection.thy ===== *)
theory Projection
  imports Segment ColumnSteps
begin

text \<open>
  \<open>engine/src/projection.cpp\<close>: copying selected rows of selected columns, value by value.
  A row or column index that is out of range is \<open>None\<close>; what the appends return is ignored.
\<close>

section \<open>Copying one value\<close>

definition at :: "nat \<Rightarrow> 'a list \<Rightarrow> 'a ub" where
  "at i xs = (if i < length xs then Some (xs ! i) else None)"

text \<open>The bytes of a row: the loop that sums the lengths before it, then the slice.\<close>

definition row_bytes :: "nat \<Rightarrow> field_vector \<Rightarrow> u8 list ub" where
  "row_bytes row f =
     do { offset \<leftarrow> for_ub 0 row (\<lambda>i offset. do { l \<leftarrow> at i (fv_lengths f); Some (offset + unat l) }) 0;
          l \<leftarrow> at row (fv_lengths f);
          read_mem offset (unat l) (fv_bytes f) }"

definition project_value :: "field_vector \<Rightarrow> nat \<Rightarrow> field_vector \<Rightarrow> field_vector ub" where
  "project_value f row dest =
     (if \<not> fv_IsValid f row then Some (snd (fv_AppendNull dest))
      else case fv_type f of
        kInt32 \<Rightarrow> do { x \<leftarrow> at row (fv_i32 f); Some (snd (fv_AppendInt32 dest x)) }
      | kInt64 \<Rightarrow> do { x \<leftarrow> at row (fv_i64 f); Some (snd (fv_AppendInt64 dest x)) }
      | kFloat64 \<Rightarrow> do { x \<leftarrow> at row (fv_f64 f); Some (snd (fv_AppendFloat64 dest x)) }
      | kBool \<Rightarrow> do { x \<leftarrow> at row (fv_bool f); Some (snd (fv_AppendBool dest (x \<noteq> 0))) }
      | kDictInt32 \<Rightarrow>
          do { id \<leftarrow> at row (fv_dict_ids f); x \<leftarrow> dict_Value_ub (fv_dictionary f) id;
               Some (snd (fv_AppendDictInt32 dest x)) }
      | kString \<Rightarrow> do { bs \<leftarrow> row_bytes row f; Some (snd (fv_AppendString dest bs)) }
      | kBytes \<Rightarrow> do { bs \<leftarrow> row_bytes row f; Some (snd (fv_AppendBytes dest bs)) }
      | kArray \<Rightarrow> do { bs \<leftarrow> row_bytes row f; Some (snd (fv_AppendBytes dest bs)) }
      | _ \<Rightarrow> Some dest)"

section \<open>Projecting\<close>

definition project_cell ::
  "field_vector list \<Rightarrow> nat list \<Rightarrow> nat \<Rightarrow> nat \<Rightarrow> field_vector list \<Rightarrow> field_vector list ub" where
  "project_cell flds indices row i result =
     do { f \<leftarrow> at (indices ! i) flds;
          dest \<leftarrow> project_value f row (result ! i);
          Some (result[i := dest]) }"

definition ProjectRows :: "field_vector list \<Rightarrow> nat list \<Rightarrow> nat list \<Rightarrow> field_vector list ub" where
  "ProjectRows flds indices row_ids =
     do { result \<leftarrow> for_ub 0 (length indices)
                      (\<lambda>i result. do { f \<leftarrow> at (indices ! i) flds; Some (result @ [fv_new (fv_name f) (fv_type f)]) }) [];
          for_ub 0 (length row_ids)
            (\<lambda>r. for_ub 0 (length indices) (project_cell flds indices (row_ids ! r))) result }"

section \<open>What a projected row is\<close>

text \<open>Booleans are normalised; vectors and objects have no case and add no row.\<close>

definition projected :: "field_vector \<Rightarrow> nat \<Rightarrow> cell list" where
  "projected f r =
     (if \<not> fv_IsValid f r then [CNull]
      else if fv_type f = kObject \<or> fv_type f = kVectorFloat32 then []
      else [case fv_cells f ! r of CBool b \<Rightarrow> CBool (flag01 (b \<noteq> 0)) | c \<Rightarrow> c])"

lemma row_bytes_correct:
  assumes "fv_inv f" and "is_varlen (fv_type f)" and "r < fv_size f"
  shows "row_bytes r f = Some (split_rows (fv_lengths f) (fv_bytes f) ! r)"
    and "length (split_rows (fv_lengths f) (fv_bytes f) ! r) < 2 ^ 32"
proof -
  have len: "length (fv_lengths f) = fv_size f" and sum: "sum_lengths (fv_lengths f) = length (fv_bytes f)"
    using assms by (auto simp: fv_inv_def varlen_ok_def fv_data_len_varlen)
  have "for_ub 0 k (\<lambda>i offset. do { l \<leftarrow> at i (fv_lengths f); Some (offset + unat l) }) 0 =
      Some (sum_lengths (take k (fv_lengths f)))" if "k \<le> fv_size f" for k
    using that by (induction k) (simp_all add: for_ub_Suc at_def len take_Suc_conv_app_nth)
  moreover have "sum_lengths (take r (fv_lengths f)) + unat (fv_lengths f ! r) \<le> length (fv_bytes f)"
    using sum_lengths_take_le [of "Suc r" "fv_lengths f"] assms(3) len sum by (simp add: take_Suc_conv_app_nth)
  ultimately show "row_bytes r f = Some (split_rows (fv_lengths f) (fv_bytes f) ! r)"
    using assms(3) len by (simp add: row_bytes_def at_def read_mem_def split_rows_nth)
  show "length (split_rows (fv_lengths f) (fv_bytes f) ! r) < 2 ^ 32"
    using assms(3) len unsigned_less [of "fv_lengths f ! r", where 'a = nat] by (simp add: split_rows_nth)
qed

lemma project_value_correct:
  assumes f: "fv_inv f" "r < fv_size f" and dest: "fv_inv dest" "fv_type dest = fv_type f"
  shows "\<exists>g. project_value f r dest = Some g \<and> fv_extends dest (projected f r) g"
proof (cases "fv_IsValid f r")
  case False
  then show ?thesis using fv_AppendNull_correct [OF dest(1)] by (simp add: project_value_def projected_def)
next
  case True
  have len: "length (fv_values f) = fv_size f" "fv_data_len f = fv_size f" "fv_cells f ! r = fv_values f ! r"
    using fv_inv_values_len [OF f(1)] fv_cells_nth [OF f] True f(1) by (simp_all add: fv_inv_def)
  have id: "fv_type f = kDictInt32 \<Longrightarrow> unat (fv_dict_ids f ! r) < length (dict_values (fv_dictionary f))"
    using dict_ids_ok [OF f(1) _ f(2) True] .
  note bytes = row_bytes_correct [OF f(1) _ f(2)]
  show ?thesis
    using True len f(2) dest id bytes fv_AppendInt32_correct [OF dest(1)] fv_AppendInt64_correct [OF dest(1)]
      fv_AppendFloat64_correct [OF dest(1)] fv_AppendBool_correct [OF dest(1)] fv_AppendDictInt32_correct [OF dest(1)]
      fv_AppendString_correct [OF dest(1)] fv_AppendBytes_correct [OF dest(1)] fv_extends_refl [OF dest(1)]
    by (cases "fv_type f")
       (simp_all add: project_value_def projected_def at_def fv_data_len_def fv_values_def dict_cell_def dict_Value_ub_def)
qed

section \<open>Projecting rows\<close>

text \<open>Column \<open>j\<close> of the result holds the projected \<open>rows\<close> of its source.\<close>

definition projection_of :: "field_vector list \<Rightarrow> nat list \<Rightarrow> nat list \<Rightarrow> nat \<Rightarrow> field_vector \<Rightarrow> bool" where
  "projection_of flds indices rows j g \<longleftrightarrow>
     (let f = flds ! (indices ! j)
      in fv_inv g \<and> fv_name g = fv_name f \<and> fv_type g = fv_type f \<and> fv_cells g = concat (map (projected f) rows))"

lemma project_result_new:
  assumes "\<forall>i\<in>set indices. i < length flds" and "k \<le> length indices"
  shows "for_ub 0 k (\<lambda>i result. do { f \<leftarrow> at (indices ! i) flds; Some (result @ [fv_new (fv_name f) (fv_type f)]) }) [] =
     Some (map (\<lambda>i. fv_new (fv_name (flds ! i)) (fv_type (flds ! i))) (take k indices))"
  using assms(2)
proof (induction k)
  case 0
  then show ?case by simp
next
  case (Suc k)
  then have "indices ! k < length flds" using assms(1) by simp
  with Suc show ?case by (simp add: for_ub_Suc at_def take_Suc_conv_app_nth)
qed

lemma project_row:
  assumes inv: "\<forall>f\<in>set flds. fv_inv f"
    and rows: "\<forall>i\<in>set indices. i < length flds \<and> row < fv_size (flds ! i)"
    and old: "length result = length indices" "\<forall>j<length indices. projection_of flds indices rs j (result ! j)"
  shows "\<exists>new. for_ub 0 (length indices) (project_cell flds indices row) result = Some new \<and>
           length new = length indices \<and> (\<forall>j<length indices. projection_of flds indices (rs @ [row]) j (new ! j))"
proof -
  define P where "P k res \<longleftrightarrow> length res = length indices \<and>
    (\<forall>j<length indices. projection_of flds indices (if j < k then rs @ [row] else rs) j (res ! j))" for k res
  have "\<exists>new. for_ub 0 (length indices) (project_cell flds indices row) result = Some new \<and> P (length indices) new"
  proof (rule for_ub_inv)
    show "P 0 result" using old by (simp add: P_def)
  next
    fix k res
    assume k: "k < length indices" and P: "P k res"
    let ?f = "flds ! (indices ! k)"
    have f: "indices ! k < length flds" "row < fv_size ?f" "fv_inv ?f" using rows inv k by auto
    have "projection_of flds indices rs k (res ! k)" using P k by (auto simp: P_def)
    then obtain g where g: "project_value ?f row (res ! k) = Some g" "fv_extends (res ! k) (projected ?f row) g"
      "fv_name (res ! k) = fv_name ?f" "fv_type (res ! k) = fv_type ?f"
      "fv_cells (res ! k) = concat (map (projected ?f) rs)"
      using project_value_correct [OF f(3,2)] by (auto simp: projection_of_def Let_def)
    have "projection_of flds indices (rs @ [row]) k g"
      using g by (simp add: projection_of_def fv_extends_def)
    then have "P (Suc k) (res[k := g])"
      using P k by (auto simp: P_def nth_list_update less_Suc_eq)
    then show "\<exists>t'. project_cell flds indices row k res = Some t' \<and> P (Suc k) t'"
      using f(1) g(1) by (simp add: project_cell_def at_def)
  qed simp
  then show ?thesis by (auto simp: P_def)
qed

text \<open>
  C25. \<open>ProjectRows\<close> copies the selected rows of the selected columns, in order and with
  repetitions: on well-formed columns and indices in range it stays in bounds, and each result
  column has the name and type of its source and the source's cells at the given rows (booleans
  normalised), except that valid vectors and objects are left out, so that such a column gets
  fewer rows than the others.
\<close>
theorem ProjectRows_correct:
  assumes inv: "\<forall>f\<in>set flds. fv_inv f"
    and rows: "\<forall>i\<in>set indices. i < length flds \<and> (\<forall>r\<in>set row_ids. r < fv_size (flds ! i))"
  shows "\<exists>result. ProjectRows flds indices row_ids = Some result \<and> length result = length indices \<and>
           (\<forall>j<length indices. projection_of flds indices row_ids j (result ! j))"
proof -
  define new where "new = map (\<lambda>i. fv_new (fv_name (flds ! i)) (fv_type (flds ! i))) indices"
  define P where "P k res \<longleftrightarrow> length res = length indices \<and>
    (\<forall>j<length indices. projection_of flds indices (take k row_ids) j (res ! j))" for k res
  have start: "for_ub 0 (length indices) (\<lambda>i result. do { f \<leftarrow> at (indices ! i) flds;
      Some (result @ [fv_new (fv_name f) (fv_type f)]) }) [] = Some new"
    using project_result_new [of indices flds "length indices"] rows by (simp add: new_def)
  have "\<exists>res. for_ub 0 (length row_ids) (\<lambda>r. for_ub 0 (length indices) (project_cell flds indices (row_ids ! r))) new =
      Some res \<and> P (length row_ids) res"
  proof (rule for_ub_inv)
    show "P 0 new" by (simp add: P_def new_def projection_of_def Let_def fv_new_inv) (simp add: fv_new_def)
  next
    fix k res
    assume "k < length row_ids" and "P k res"
    then show "\<exists>t'. for_ub 0 (length indices) (project_cell flds indices (row_ids ! k)) res = Some t' \<and> P (Suc k) t'"
      using project_row [OF inv, of indices "row_ids ! k" res "take k row_ids"] rows
      by (auto simp: P_def take_Suc_conv_app_nth)
  qed simp
  with start show ?thesis by (auto simp: ProjectRows_def P_def)
qed

theorem ProjectRows_correct_witness:
  "\<exists>g. ProjectRows [snd (fv_AppendInt32 (fv_new [97] kInt32) 5)] [0] [0, 0] = Some [g] \<and>
     fv_cells g = [CInt32 5, CInt32 5]"
proof -
  let ?f = "snd (fv_AppendInt32 (fv_new [97] kInt32) 5)"
  have new: "fv_type (fv_new [97] kInt32) = kInt32" "fv_size (fv_new [97] kInt32) = 0" by (simp_all add: fv_new_def)
  have f: "fv_inv ?f" "fv_size ?f = 1" "fv_type ?f = kInt32" "fv_cells ?f = [CInt32 5]"
    using fv_AppendInt32_correct [OF fv_new_inv, of "[97]" kInt32 5] new by (simp_all add: fv_extends_def)
  have "fv_IsValid ?f 0" by code_simp
  then have "projected ?f 0 = [CInt32 5]" using f by (simp add: projected_def)
  with f ProjectRows_correct [of "[?f]" "[0]" "[0, 0]"] show ?thesis
    by (auto simp: projection_of_def length_Suc_conv)
qed

end
