(* ===== verification/SegmentIO.thy ===== *)
theory SegmentIO
  imports Segment ArrayCodec
begin

text \<open>
  \<open>engine/src/segment_io.cpp\<close>: segments written to files and read back.  A file is the list of
  its bytes, the file system a map from paths; the structures are written with \<open>memcpy\<close> in the
  layout of the header file.  The parameter \<open>io\<close> says whether a file can be created, synced and
  mapped; writing to an open stream succeeds.

  Every operation is \<open>None\<close> when it reads or writes outside a buffer, when a vector would have
  more bytes than \<open>size_t\<close> counts, or when a type or kind byte lies outside the enum.  The sizes
  in a file are kept at 64 bits, where the reader's checks may wrap.
\<close>

section \<open>Headers\<close>

record segment_header =
  sh_magic :: u32
  sh_version :: u32
  sh_row_capacity :: u64
  sh_row_count :: u64
  sh_schema_fingerprint :: u64
  sh_field_count :: u32
  sh_reserved :: u32

definition segment_header_new :: segment_header where
  "segment_header_new =
     \<lparr>sh_magic = 0x4D434442, sh_version = 1, sh_row_capacity = 0, sh_row_count = 0,
      sh_schema_fingerprint = 0, sh_field_count = 0, sh_reserved = 0\<rparr>"

record column_header =
  ch_type :: u32
  ch_estimated_cardinality :: u32
  ch_value_count :: u64
  ch_data_bytes :: u64
  ch_aux_bytes :: u64
  ch_validity_words :: u64
  ch_min :: f64
  ch_max :: f64
  ch_null_count :: u64
  ch_has_value :: u8
  ch_monotonic_hint :: u8
  ch_compression_kind :: u8
  ch_padding :: "u8 list"

definition column_header_new :: column_header where
  "column_header_new =
     \<lparr>ch_type = 0, ch_estimated_cardinality = 0, ch_value_count = 0, ch_data_bytes = 0, ch_aux_bytes = 0,
      ch_validity_words = 0, ch_min = 0, ch_max = 0, ch_null_count = 0, ch_has_value = 0,
      ch_monotonic_hint = 0, ch_compression_kind = 0, ch_padding = [0, 0, 0, 0, 0]\<rparr>"

definition segment_header_bytes :: "segment_header \<Rightarrow> u8 list" where
  "segment_header_bytes h =
     le_bytes 4 (sh_magic h) @ le_bytes 4 (sh_version h) @ le_bytes 8 (sh_row_capacity h) @
     le_bytes 8 (sh_row_count h) @ le_bytes 8 (sh_schema_fingerprint h) @ le_bytes 4 (sh_field_count h) @
     le_bytes 4 (sh_reserved h)"

definition segment_header_of :: "u8 list \<Rightarrow> segment_header" where
  "segment_header_of bs =
     \<lparr>sh_magic = le_word (take 4 bs), sh_version = le_word (take 4 (drop 4 bs)),
      sh_row_capacity = le_word (take 8 (drop 8 bs)), sh_row_count = le_word (take 8 (drop 16 bs)),
      sh_schema_fingerprint = le_word (take 8 (drop 24 bs)), sh_field_count = le_word (take 4 (drop 32 bs)),
      sh_reserved = le_word (take 4 (drop 36 bs))\<rparr>"

definition column_header_bytes :: "column_header \<Rightarrow> u8 list" where
  "column_header_bytes c =
     le_bytes 4 (ch_type c) @ le_bytes 4 (ch_estimated_cardinality c) @ le_bytes 8 (ch_value_count c) @
     le_bytes 8 (ch_data_bytes c) @ le_bytes 8 (ch_aux_bytes c) @ le_bytes 8 (ch_validity_words c) @
     le_bytes 8 (ch_min c) @ le_bytes 8 (ch_max c) @ le_bytes 8 (ch_null_count c) @
     [ch_has_value c, ch_monotonic_hint c, ch_compression_kind c] @ ch_padding c"

definition column_header_of :: "u8 list \<Rightarrow> column_header" where
  "column_header_of bs =
     \<lparr>ch_type = le_word (take 4 bs), ch_estimated_cardinality = le_word (take 4 (drop 4 bs)),
      ch_value_count = le_word (take 8 (drop 8 bs)), ch_data_bytes = le_word (take 8 (drop 16 bs)),
      ch_aux_bytes = le_word (take 8 (drop 24 bs)), ch_validity_words = le_word (take 8 (drop 32 bs)),
      ch_min = le_word (take 8 (drop 40 bs)), ch_max = le_word (take 8 (drop 48 bs)),
      ch_null_count = le_word (take 8 (drop 56 bs)), ch_has_value = bs ! 64, ch_monotonic_hint = bs ! 65,
      ch_compression_kind = bs ! 66, ch_padding = take 5 (drop 67 bs)\<rparr>"

definition kSegmentHeaderSize :: nat where "kSegmentHeaderSize = 40"
definition kColumnHeaderSize :: nat where "kColumnHeaderSize = 72"

section \<open>Kinds and names\<close>

definition kind_byte :: "compression_kind \<Rightarrow> u8" where
  "kind_byte k =
     (case k of CkNone \<Rightarrow> 0 | CkBitPacked \<Rightarrow> 1 | CkDictionary \<Rightarrow> 2 | CkForDelta \<Rightarrow> 3 | CkRle \<Rightarrow> 4 | CkLz4 \<Rightarrow> 5)"

definition kind_of_byte :: "u8 \<Rightarrow> compression_kind option" where
  "kind_of_byte b =
     find (\<lambda>k. kind_byte k = b) [CkNone, CkBitPacked, CkDictionary, CkForDelta, CkRle, CkLz4]"

lemma kind_of_byte_kind_byte [simp]: "kind_of_byte (kind_byte k) = Some k"
  by (cases k) (simp_all add: kind_of_byte_def kind_byte_def)

fun to_string :: "nat \<Rightarrow> u8 list" where
  "to_string n = (if n < 10 then [48 + of_nat n] else to_string (n div 10) @ [48 + of_nat (n mod 10)])"

declare to_string.simps [simp del]

definition col_name :: "nat \<Rightarrow> u8 list" where
  "col_name i = [99, 111, 108] @ to_string i"

section \<open>Writing\<close>

type_synonym files = "u8 list \<Rightarrow> u8 list option"

record io =
  io_can_create :: bool
  io_fsync_ok :: bool
  io_can_map :: bool

record segment_writer =
  sw_path :: "u8 list"
  sw_is_open :: bool
  sw_header :: segment_header

definition segment_writer_new :: segment_writer where
  "segment_writer_new = \<lparr>sw_path = [], sw_is_open = False, sw_header = segment_header_new\<rparr>"

definition SegmentWriter_Open :: "u8 list \<Rightarrow> segment_writer \<Rightarrow> bool \<times> segment_writer" where
  "SegmentWriter_Open path w = (path \<noteq> [], w\<lparr>sw_path := path, sw_is_open := (path \<noteq> [])\<rparr>)"

definition uses_compressed :: "segment \<Rightarrow> bool" where
  "uses_compressed sg \<longleftrightarrow> sg_sealed sg \<and> sg_compressed_columns sg \<noteq> []"

definition written_view :: "segment \<Rightarrow> nat \<Rightarrow> compressed_view option" where
  "written_view sg i =
     (if uses_compressed sg \<and> i < length (sg_compressed_columns sg)
      then Some (sg_compressed_columns sg ! i) else None)"

text \<open>The sizes of a column without a view; an object column ends the write.\<close>

definition raw_sizes :: "field_vector \<Rightarrow> column_header \<Rightarrow> column_header option" where
  "raw_sizes f col =
     (let col = (case fv_type f of
          kInt32 \<Rightarrow> Some (col\<lparr>ch_data_bytes := of_nat (fv_size f * 4)\<rparr>)
        | kInt64 \<Rightarrow> Some (col\<lparr>ch_data_bytes := of_nat (fv_size f * 8)\<rparr>)
        | kFloat64 \<Rightarrow> Some (col\<lparr>ch_data_bytes := of_nat (fv_size f * 8)\<rparr>)
        | kBool \<Rightarrow> Some (col\<lparr>ch_data_bytes := of_nat (fv_size f)\<rparr>)
        | kDictInt32 \<Rightarrow> Some (col\<lparr>ch_data_bytes := of_nat (fv_size f * 4)\<rparr>)
        | kObject \<Rightarrow> None
        | _ \<Rightarrow> Some (col\<lparr>ch_aux_bytes := of_nat (fv_size f * 4), ch_data_bytes := of_nat (fv_BytesSize f)\<rparr>))
      in map_option (\<lambda>col. col\<lparr>ch_validity_words :=
           (if fv_HasNulls f then of_nat (bitmap_WordCount (fv_validity f)) else 0)\<rparr>) col)"

definition write_column_header :: "segment \<Rightarrow> nat \<Rightarrow> column_header option" where
  "write_column_header sg i =
     (let f = sg_fields sg ! i;
          col = column_header_new\<lparr>ch_type := ucast (type_byte (fv_type f)), ch_value_count := of_nat (fv_size f)\<rparr>
      in if (of_nat (fv_size f) :: u64) \<noteq> of_nat (sg_row_count sg) then None
         else
           case (case written_view sg i of
                   Some view \<Rightarrow>
                     Some (col\<lparr>ch_data_bytes := of_nat (cv_data_size view), ch_aux_bytes := of_nat (cv_aux_size view),
                               ch_validity_words := of_nat (cv_validity_word_count view)\<rparr>)
                 | None \<Rightarrow> raw_sizes f col) of
             None \<Rightarrow> None
           | Some col \<Rightarrow>
               let col = (if i < length (sg_stats sg) then
                     let st = sg_stats sg ! i
                     in col\<lparr>ch_min := st_min st, ch_max := st_max st, ch_null_count := st_null_count st,
                            ch_has_value := (if st_has_value st then 1 else 0),
                            ch_estimated_cardinality := st_estimated_cardinality st,
                            ch_monotonic_hint := st_monotonic_hint st\<rparr>
                     else col)
               in Some (if i < length (sg_compression_kinds sg)
                        then col\<lparr>ch_compression_kind := kind_byte (sg_compression_kinds sg ! i)\<rparr> else col))"

text \<open>\<open>out.write(p, n)\<close>: \<open>n\<close> bytes from the buffer \<open>p\<close> points at.\<close>

definition write_from :: "u8 list \<Rightarrow> u64 \<Rightarrow> u8 list \<Rightarrow> u8 list ub" where
  "write_from storage n out = do { bs \<leftarrow> read_mem 0 (unat n) storage; Some (out @ bs) }"

definition write_view :: "compressed_view \<Rightarrow> column_header \<Rightarrow> u8 list \<Rightarrow> u8 list ub" where
  "write_view view col out =
     do { out \<leftarrow> (case cv_aux view of
                   Some aux \<Rightarrow> if cv_aux_size view > 0 then write_from aux (ch_aux_bytes col) out else Some out
                 | None \<Rightarrow> Some out);
          case cv_data view of
            Some data \<Rightarrow> if cv_data_size view > 0 then write_from data (ch_data_bytes col) out else Some out
          | None \<Rightarrow> Some out }"

definition write_raw :: "field_vector \<Rightarrow> column_header \<Rightarrow> u8 list \<Rightarrow> u8 list ub" where
  "write_raw f col out =
     (if is_varlen (fv_type f) then
        do { out \<leftarrow> write_from (le_array 4 (fv_lengths f)) (ch_aux_bytes col) out;
             write_from (fv_bytes f) (ch_data_bytes col) out }
      else write_from (field_storage f) (ch_data_bytes col) out)"

definition write_column :: "segment \<Rightarrow> column_header list \<Rightarrow> nat \<Rightarrow> u8 list \<Rightarrow> u8 list ub" where
  "write_column sg columns i out =
     (let f = sg_fields sg ! i; col = columns ! i; view = written_view sg i in
      do { out \<leftarrow> (case view of Some v \<Rightarrow> write_view v col out | None \<Rightarrow> write_raw f col out);
           if ch_validity_words col = 0 then Some out
           else
             let words = (case view of
                   Some v \<Rightarrow> (case cv_validity_words v of Some ws \<Rightarrow> ws | None \<Rightarrow> bm_words (fv_validity f))
                 | None \<Rightarrow> bm_words (fv_validity f))
             in write_from (le_array 8 words) (ch_validity_words col * 8) out })"

text \<open>The headers of all columns: the loop ends at the first one that cannot be written.\<close>

fun write_headers :: "segment \<Rightarrow> nat list \<Rightarrow> column_header list option" where
  "write_headers sg [] = Some []"
| "write_headers sg (i # is) =
     (case write_column_header sg i of
        None \<Rightarrow> None
      | Some col \<Rightarrow> map_option (Cons col) (write_headers sg is))"

definition SegmentWriter_Write ::
  "io \<Rightarrow> segment \<Rightarrow> segment_writer \<Rightarrow> files \<Rightarrow> (bool \<times> segment_writer \<times> files) ub" where
  "SegmentWriter_Write io sg w fs =
     (if \<not> sw_is_open w then Some (False, w, fs)
      else if fs (sw_path w) \<noteq> None then Some (False, w, fs)
      else
        let h = (sw_header w)\<lparr>sh_row_capacity := of_nat (sg_row_capacity sg), sh_row_count := of_nat (sg_row_count sg),
                   sh_schema_fingerprint := segment_SchemaFingerprint sg,
                   sh_field_count := of_nat (length (sg_fields sg))\<rparr>;
            w = w\<lparr>sw_header := h\<rparr>
        in if \<not> io_can_create io then Some (False, w, fs)
           else
             let out = segment_header_bytes h in
             case write_headers sg [0..<length (sg_fields sg)] of
               None \<Rightarrow> Some (False, w, fs(sw_path w \<mapsto> out))
             | Some columns \<Rightarrow>
                 do { out \<leftarrow> for_ub 0 (length columns) (write_column sg columns)
                               (out @ concat (map column_header_bytes columns));
                      Some (io_fsync_ok io, w, fs(sw_path w \<mapsto> out)) })"

section \<open>Reading a column\<close>

text \<open>
  What reading a part of a column gives: \<open>Some None\<close> when the reader returns false, otherwise the
  column and the offset.
\<close>

type_synonym column_result = "(field_vector \<times> u64) option ub"

text \<open>\<open>memcpy(v.data(), bytes, n)\<close> into a vector of \<open>w\<close>-byte integers.\<close>

definition copy_into :: "nat \<Rightarrow> u8 list \<Rightarrow> 'a::len word list \<Rightarrow> 'a word list ub" where
  "copy_into w bytes ws =
     do { m \<leftarrow> write_mem 0 bytes (le_array w ws); Some (le_words w (length ws) m) }"

text \<open>The storage of a fixed-width column overwritten; the reader returns false for other types.\<close>

definition fill_storage :: "u8 list \<Rightarrow> field_vector \<Rightarrow> field_vector option ub" where
  "fill_storage bytes f =
     (case fv_type f of
        kInt32 \<Rightarrow> do { ws \<leftarrow> copy_into 4 bytes (fv_i32 f); Some (Some (f\<lparr>fv_i32 := ws\<rparr>)) }
      | kInt64 \<Rightarrow> do { ws \<leftarrow> copy_into 8 bytes (fv_i64 f); Some (Some (f\<lparr>fv_i64 := ws\<rparr>)) }
      | kFloat64 \<Rightarrow> do { ws \<leftarrow> copy_into 8 bytes (fv_f64 f); Some (Some (f\<lparr>fv_f64 := ws\<rparr>)) }
      | kBool \<Rightarrow> do { ws \<leftarrow> copy_into 1 bytes (fv_bool f); Some (Some (f\<lparr>fv_bool := ws\<rparr>)) }
      | kDictInt32 \<Rightarrow> do { ws \<leftarrow> copy_into 4 bytes (fv_dict_ids f); Some (Some (f\<lparr>fv_dict_ids := ws\<rparr>)) }
      | _ \<Rightarrow> Some None)"

definition read_none ::
  "u8 list \<Rightarrow> column_header \<Rightarrow> u64 \<Rightarrow> field_vector \<Rightarrow> column_result" where
  "read_none base col offset f =
     (let data_ptr = unat (offset + ch_aux_bytes col); mapped_size = (of_nat (length base) :: u64) in
      if is_varlen (fv_type f) then
        if offset + ch_aux_bytes col + ch_data_bytes col > mapped_size then Some None
        else
          do { ls \<leftarrow> read_mem (unat offset) (unat (ch_aux_bytes col)) base;
               lengths \<leftarrow> copy_into 4 ls (replicate (unat (ch_value_count col)) 0);
               bs \<leftarrow> read_mem data_ptr (unat (ch_data_bytes col)) base;
               let (ok, f) = fv_LoadVarlen f lengths bs
               in Some (if ok then Some (f, offset + ch_aux_bytes col) else None) }
      else if fv_type f = kObject then Some None
      else
        do { bs \<leftarrow> read_mem data_ptr (unat (ch_data_bytes col)) base;
             f \<leftarrow> fill_storage bs f;
             Some (map_option (\<lambda>f. (f, offset)) f) })"

text \<open>\<open>DecodeLz4Literal\<close> into a new vector of \<open>n\<close> bytes.\<close>

definition decode_new :: "u8 list \<Rightarrow> nat \<Rightarrow> nat \<Rightarrow> u8 list option ub" where
  "decode_new src src_size n =
     do { (ok, dst) \<leftarrow> DecodeLz4Literal src src_size (Some (replicate n 0)) n;
          Some (if ok then dst else None) }"

definition fixed_width :: "field_type \<Rightarrow> nat" where
  "fixed_width t =
     (case t of kInt32 \<Rightarrow> 4 | kInt64 \<Rightarrow> 8 | kFloat64 \<Rightarrow> 8 | kBool \<Rightarrow> 1 | kDictInt32 \<Rightarrow> 4 | _ \<Rightarrow> 0)"

definition read_lz4 ::
  "u8 list \<Rightarrow> column_header \<Rightarrow> u64 \<Rightarrow> field_vector \<Rightarrow> column_result" where
  "read_lz4 base col offset f =
     (let data = drop (unat (offset + ch_aux_bytes col)) base; count = unat (ch_value_count col) in
      if is_varlen (fv_type f) then
        do { ls \<leftarrow> decode_new (drop (unat offset) base) (unat (ch_aux_bytes col)) (count * 4);
             case ls of
               None \<Rightarrow> Some None
             | Some ls \<Rightarrow>
                 let lengths = (le_words 4 count ls :: u32 list) in
                 do { bs \<leftarrow> decode_new data (unat (ch_data_bytes col)) (sum_lengths lengths);
                      case bs of
                        None \<Rightarrow> Some None
                      | Some bs \<Rightarrow>
                          let (ok, f) = fv_LoadVarlen f lengths bs
                          in Some (if ok then Some (f, offset + ch_aux_bytes col) else None) } }
      else
        do { bs \<leftarrow> decode_new data (unat (ch_data_bytes col)) (count * fixed_width (fv_type f));
             case bs of
               None \<Rightarrow> Some None
             | Some bs \<Rightarrow> do { f \<leftarrow> fill_storage bs f; Some (map_option (\<lambda>f. (f, offset)) f) } })"

text \<open>The bytes in a vector of 64-bit words, as many as they need.\<close>

definition aligned :: "u8 list \<Rightarrow> u8 list option" where
  "aligned bs = ptr_of (bs @ replicate ((8 - length bs mod 8) mod 8) 0)"

text \<open>The value of each row, 0 where \<open>ReadInt64Value\<close> returns false.\<close>

definition read_rows :: "compressed_view \<Rightarrow> u64 list ub" where
  "read_rows view =
     for_ub 0 (cv_row_count view)
       (\<lambda>j out. do { v \<leftarrow> ReadInt64Value view j; Some (out @ [case v of Some x \<Rightarrow> x | None \<Rightarrow> 0]) }) []"

definition read_encoded_view ::
  "u8 list \<Rightarrow> column_header \<Rightarrow> u64 \<Rightarrow> compression_kind \<Rightarrow> field_type \<Rightarrow> compressed_view option ub" where
  "read_encoded_view base col offset kind t =
     (let data_ptr = unat (offset + ch_aux_bytes col); mapped_size = (of_nat (length base) :: u64) in
      do { data \<leftarrow> read_mem data_ptr (unat (ch_data_bytes col)) base;
           aux \<leftarrow> read_mem (unat offset) (unat (ch_aux_bytes col)) base;
           let view = view_empty\<lparr>cv_kind := kind, cv_type := t, cv_row_count := unat (ch_value_count col),
                 cv_ops := Some (CompressionOpsFor kind), cv_data := aligned data,
                 cv_data_size := unat (ch_data_bytes col), cv_aux := aligned aux,
                 cv_aux_size := unat (ch_aux_bytes col)\<rparr>
           in if ch_validity_words col > 0 then
                if offset + ch_aux_bytes col + ch_data_bytes col + ch_validity_words col * 8 > mapped_size
                then Some None
                else if unat (ch_validity_words col) * 8 \<ge> 2 ^ 64 then None
                else
                  do { vs \<leftarrow> read_mem (data_ptr + unat (ch_data_bytes col)) (unat (ch_validity_words col) * 8) base;
                       Some (Some (view\<lparr>cv_validity_words := Some (le_words 8 (unat (ch_validity_words col)) vs),
                              cv_validity_word_count := unat (ch_validity_words col),
                              cv_validity_bit_count := unat (ch_value_count col)\<rparr>)) }
              else Some (Some view) })"

definition read_encoded ::
  "u8 list \<Rightarrow> column_header \<Rightarrow> u64 \<Rightarrow> compression_kind \<Rightarrow> field_vector \<Rightarrow> column_result" where
  "read_encoded base col offset kind f =
     do { view \<leftarrow> read_encoded_view base col offset kind (fv_type f);
          case view of
            None \<Rightarrow> Some None
          | Some view \<Rightarrow>
              if fv_type f \<in> {kInt32, kInt64, kBool, kDictInt32} then
                do { vs \<leftarrow> read_rows view;
                     let f = (case fv_type f of
                           kInt32 \<Rightarrow> f\<lparr>fv_i32 := map ucast vs\<rparr>
                         | kInt64 \<Rightarrow> f\<lparr>fv_i64 := vs\<rparr>
                         | kBool \<Rightarrow> f\<lparr>fv_bool := map (\<lambda>v. if v \<noteq> 0 then 1 else 0) vs\<rparr>
                         | _ \<Rightarrow> f\<lparr>fv_dict_ids := map ucast vs\<rparr>)
                     in Some (Some (f, offset + ch_aux_bytes col)) }
              else Some None }"

definition read_validity ::
  "u8 list \<Rightarrow> column_header \<Rightarrow> u64 \<Rightarrow> field_vector \<Rightarrow> column_result" where
  "read_validity base col offset f =
     (let n = ch_validity_words col; mapped_size = (of_nat (length base) :: u64) in
      if n > 0 then
        if offset + n * 8 > mapped_size then Some None
        else if unat n * 8 \<ge> 2 ^ 64 then None
        else
          do { vs \<leftarrow> read_mem (unat offset) (unat n * 8) base;
               Some (Some (snd (fv_LoadValidityWords f (le_words 8 (unat n) vs) (unat (ch_value_count col))),
                     offset + n * 8)) }
      else Some (Some (f, offset)))"

definition read_column ::
  "u8 list \<Rightarrow> segment_header \<Rightarrow> column_header \<Rightarrow> nat \<Rightarrow> u64 \<Rightarrow> column_result" where
  "read_column base h col i offset =
     (if ch_value_count col \<noteq> sh_row_count h then Some None
      else if offset + (ch_data_bytes col + ch_aux_bytes col) > of_nat (length base) then Some None
      else
        do { t \<leftarrow> type_of_byte (ucast (ch_type col));
             kind \<leftarrow> kind_of_byte (ch_compression_kind col);
             _ \<leftarrow> (if t \<noteq> kObject \<and> unat (ch_value_count col) * 8 \<ge> 2 ^ 64 then None else Some ());
             let f = fv_new (col_name i) t;
                 f = (if \<not> is_varlen t then fv_Resize f (unat (ch_value_count col)) else f);
                 kind = (if t = kFloat64 \<and> kind \<noteq> CkLz4 then CkNone else kind)
             in do { r \<leftarrow> (if kind = CkNone then read_none base col offset f
                          else if kind = CkLz4 then read_lz4 base col offset f
                          else read_encoded base col offset kind f);
                     case r of
                       None \<Rightarrow> Some None
                     | Some (f, offset) \<Rightarrow> read_validity base col (offset + ch_data_bytes col) f } })"

section \<open>Reading a file\<close>

record segment_reader =
  sr_path :: "u8 list"
  sr_is_open :: bool
  sr_header :: segment_header
  sr_expected_schema_fingerprint :: u64
  sr_column_headers :: "column_header list"

definition segment_reader_new :: segment_reader where
  "segment_reader_new =
     \<lparr>sr_path = [], sr_is_open = False, sr_header = segment_header_new, sr_expected_schema_fingerprint = 0,
      sr_column_headers = []\<rparr>"

definition SegmentReader_Open :: "u8 list \<Rightarrow> segment_reader \<Rightarrow> bool \<times> segment_reader" where
  "SegmentReader_Open path r = (path \<noteq> [], r\<lparr>sr_path := path, sr_is_open := (path \<noteq> [])\<rparr>)"

definition SetExpectedSchemaFingerprint :: "u64 \<Rightarrow> segment_reader \<Rightarrow> segment_reader" where
  "SetExpectedSchemaFingerprint fingerprint r = r\<lparr>sr_expected_schema_fingerprint := fingerprint\<rparr>"

definition read_columns_step ::
  "u8 list \<Rightarrow> segment_header \<Rightarrow> column_header list \<Rightarrow> nat \<Rightarrow>
   bool \<times> field_vector list \<times> u64 \<Rightarrow> (bool \<times> field_vector list \<times> u64) ub" where
  "read_columns_step base h columns i s =
     (case s of (ok, flds, offset) \<Rightarrow>
        if \<not> ok then Some s
        else do { r \<leftarrow> read_column base h (columns ! i) i offset;
                  Some (case r of None \<Rightarrow> (False, flds, offset)
                        | Some (f, offset) \<Rightarrow> (True, flds @ [f], offset)) })"

text \<open>The segment that is read replaces the one the caller gave, when it gave one.\<close>

definition SegmentReader_Read ::
  "compression_config \<Rightarrow> io \<Rightarrow> files \<Rightarrow> segment option \<Rightarrow> segment_reader \<Rightarrow>
   (bool \<times> segment option \<times> segment_reader) ub" where
  "SegmentReader_Read cfg io fs out_segment r =
     (if \<not> sr_is_open r then Some (False, out_segment, r)
      else
        let r = r\<lparr>sr_column_headers := []\<rparr> in
        case fs (sr_path r) of
          None \<Rightarrow> Some (False, out_segment, r)
        | Some base \<Rightarrow>
            if length base < kSegmentHeaderSize \<or> \<not> io_can_map io then Some (False, out_segment, r)
            else
              let h = segment_header_of base; r = r\<lparr>sr_header := h\<rparr> in
              if sh_magic h \<noteq> 0x4D434442 \<or> sh_version h \<noteq> 1 then Some (False, out_segment, r)
              else if sr_expected_schema_fingerprint r \<noteq> 0 \<and>
                      sh_schema_fingerprint h \<noteq> sr_expected_schema_fingerprint r
              then Some (False, out_segment, r)
              else
                let n = unat (sh_field_count h); header_bytes = kSegmentHeaderSize + n * kColumnHeaderSize in
                if length base < header_bytes then Some (False, out_segment, r)
                else
                  let columns = map (\<lambda>i. column_header_of (drop (kSegmentHeaderSize + i * kColumnHeaderSize) base)) [0..<n];
                      r = r\<lparr>sr_column_headers := columns\<rparr>
                  in do { (ok, flds, _) \<leftarrow> for_ub 0 n (read_columns_step base h columns) (True, [], of_nat header_bytes);
                          if \<not> ok then Some (False, out_segment, r)
                          else
                            case out_segment of
                              None \<Rightarrow> Some (True, None, r)
                            | Some _ \<Rightarrow>
                                do { sg \<leftarrow> segment_load cfg (unat (sh_row_capacity h)) (unat (sh_row_count h)) flds False;
                                     Some (True, Some sg, r) } })"

definition SegmentReader_ReadWithSchema ::
  "compression_config \<Rightarrow> io \<Rightarrow> files \<Rightarrow> segment option \<Rightarrow> schema \<Rightarrow> segment_reader \<Rightarrow>
   (bool \<times> segment option \<times> segment_reader) ub" where
  "SegmentReader_ReadWithSchema cfg io fs out_segment s r =
     SegmentReader_Read cfg io fs out_segment (SetExpectedSchemaFingerprint (Fingerprint s) r)"

end
