(* ===== verification/SegmentIOProps.thy ===== *)
theory SegmentIOProps
  imports SegmentIO SegmentFacts
begin

text \<open>
  What is written to a segment file is what is read back: the headers, the bytes of each
  column, and the cells of the columns.
\<close>

section \<open>Headers\<close>

lemma length_segment_header_bytes [simp]: "length (segment_header_bytes h) = kSegmentHeaderSize"
  by (simp add: segment_header_bytes_def kSegmentHeaderSize_def)

lemma le_word_le_bytes_u32 [simp]: "le_word (le_bytes 4 (w :: u32)) = w"
  and le_word_le_bytes_u64 [simp]: "le_word (le_bytes 8 (v :: u64)) = v"
  by (simp_all add: le_word_le_bytes_full)

lemma segment_header_of_bytes: "segment_header_of (segment_header_bytes h @ rest) = h"
  by (cases h) (simp add: segment_header_of_def segment_header_bytes_def)

lemma length_column_header_bytes: "length (ch_padding c) = 5 \<Longrightarrow> length (column_header_bytes c) = kColumnHeaderSize"
  by (simp add: column_header_bytes_def kColumnHeaderSize_def)

lemma column_header_of_bytes:
  "length (ch_padding c) = 5 \<Longrightarrow> column_header_of (column_header_bytes c @ rest) = c"
  by (cases c) (simp add: column_header_of_def column_header_bytes_def nth_append)

lemma unat_of_nat_u64: "n < 2 ^ 64 \<Longrightarrow> unat (of_nat n :: u64) = n"
  by (simp add: unat_of_nat take_bit_nat_eq_self)

section \<open>What is written of a column\<close>

text \<open>The bytes of a column: \<open>aux\<close>, then \<open>data\<close>, then the validity \<open>words\<close>.\<close>

definition parts_of :: "segment \<Rightarrow> nat \<Rightarrow> u8 list \<Rightarrow> u8 list \<Rightarrow> u64 list \<Rightarrow> bool" where
  "parts_of sg i aux data words \<longleftrightarrow>
     length aux < 2 ^ 64 \<and> length data < 2 ^ 64 \<and> 8 * length words < 2 ^ 64 \<and>
     (let f = sg_fields sg ! i in
      case written_view sg i of
        Some v \<Rightarrow>
          cv_aux_size v = length aux \<and> (aux \<noteq> [] \<longrightarrow> cv_aux v = Some aux) \<and>
          cv_data_size v = length data \<and> (data \<noteq> [] \<longrightarrow> cv_data v = Some data) \<and>
          cv_validity_word_count v = length words \<and> (words \<noteq> [] \<longrightarrow> cv_validity_words v = Some words)
      | None \<Rightarrow>
          fv_inv f \<and> fv_type f \<noteq> kObject \<and> data = field_storage f \<and> words = validity_copy f \<and>
          aux = (if is_varlen (fv_type f) then le_array 4 (fv_lengths f) else []))"

definition header_for :: "segment \<Rightarrow> nat \<Rightarrow> u8 list \<Rightarrow> u8 list \<Rightarrow> u64 list \<Rightarrow> column_header \<Rightarrow> bool" where
  "header_for sg i aux data words col \<longleftrightarrow>
     ch_type col = ucast (type_byte (fv_type (sg_fields sg ! i))) \<and>
     ch_value_count col = of_nat (fv_size (sg_fields sg ! i)) \<and> ch_data_bytes col = of_nat (length data) \<and>
     ch_aux_bytes col = of_nat (length aux) \<and> ch_validity_words col = of_nat (length words) \<and>
     ch_compression_kind col =
       (if i < length (sg_compression_kinds sg) then kind_byte (sg_compression_kinds sg ! i) else 0) \<and>
     length (ch_padding col) = 5"

lemma raw_sizes_ok:
  assumes "fv_inv f" and "fv_type f \<noteq> kObject"
  shows "raw_sizes f col = Some (col\<lparr>ch_data_bytes := of_nat (length (field_storage f)),
     ch_aux_bytes := (if is_varlen (fv_type f) then of_nat (length (le_array 4 (fv_lengths f))) else ch_aux_bytes col),
     ch_validity_words := of_nat (length (validity_copy f))\<rparr>)"
  using assms
  by (cases "fv_type f")
     (simp_all add: raw_sizes_def Let_def fv_inv_def fv_data_len_def field_storage_def validity_copy_def
       bitmap_WordCount_def fv_BytesSize_def mult.commute del: of_nat_mult)

lemma write_column_header_ok:
  assumes parts: "parts_of sg i aux data words"
    and rows: "(of_nat (fv_size (sg_fields sg ! i)) :: u64) = of_nat (sg_row_count sg)"
  shows "\<exists>col. write_column_header sg i = Some col \<and> header_for sg i aux data words col"
proof (cases "written_view sg i")
  case None
  then have "raw_sizes (sg_fields sg ! i) col = Some (col\<lparr>ch_data_bytes := of_nat (length data),
     ch_aux_bytes := (if is_varlen (fv_type (sg_fields sg ! i)) then of_nat (length aux) else ch_aux_bytes col),
     ch_validity_words := of_nat (length words)\<rparr>)" for col
    using raw_sizes_ok [of "sg_fields sg ! i" col] parts by (auto simp: parts_of_def Let_def)
  with None rows parts show ?thesis
    by (simp add: write_column_header_def Let_def header_for_def column_header_new_def kind_byte_def parts_of_def)
next
  case (Some v)
  with rows parts show ?thesis
    by (simp add: write_column_header_def Let_def header_for_def column_header_new_def kind_byte_def parts_of_def)
qed

lemma write_from_ok [simp]: "length bs < 2 ^ 64 \<Longrightarrow> write_from bs (of_nat (length bs)) out = Some (out @ bs)"
  by (simp add: write_from_def read_mem_def unat_of_nat_u64)

lemma write_words_ok:
  assumes "8 * length words < 2 ^ 64"
  shows "write_from (le_array 8 words) (of_nat (length words) * 8) out = Some (out @ le_array 8 words)"
proof -
  have "write_from (le_array 8 words) (of_nat (length (le_array 8 words))) out = Some (out @ le_array 8 words)"
    using assms by (intro write_from_ok) simp
  moreover have "(of_nat (length (le_array 8 words)) :: u64) = of_nat (length words) * 8" by (simp add: mult.commute)
  ultimately show ?thesis by (simp only:)
qed

lemma write_column_ok:
  assumes parts: "parts_of sg i aux data words" and col: "header_for sg i aux data words (columns ! i)"
  shows "write_column sg columns i out = Some (out @ aux @ data @ le_array 8 words)"
proof -
  let ?f = "sg_fields sg ! i"
  have zero: "(of_nat (length words) :: u64) = 0 \<longleftrightarrow> words = []"
    using parts unat_of_nat_u64 [of "length words"] by (auto simp: parts_of_def)
  have sizes: "length aux < 2 ^ 64" "length data < 2 ^ 64" "8 * length words < 2 ^ 64"
    using parts by (simp_all add: parts_of_def)
  have head: "ch_data_bytes (columns ! i) = of_nat (length data)" "ch_aux_bytes (columns ! i) = of_nat (length aux)"
    "ch_validity_words (columns ! i) = of_nat (length words)"
    using col by (simp_all add: header_for_def)
  show ?thesis
  proof (cases "written_view sg i")
    case None
    then have f: "fv_inv ?f" "fv_type ?f \<noteq> kObject" "data = field_storage ?f" "words = validity_copy ?f"
      "aux = (if is_varlen (fv_type ?f) then le_array 4 (fv_lengths ?f) else [])"
      using parts by (simp_all add: parts_of_def Let_def)
    have bytes: "is_varlen (fv_type ?f) \<Longrightarrow> fv_bytes ?f = data"
      using f(3) by (cases "fv_type ?f") (simp_all add: field_storage_def)
    have aux: "is_varlen (fv_type ?f) \<Longrightarrow> le_array 4 (fv_lengths ?f) = aux" "\<not> is_varlen (fv_type ?f) \<Longrightarrow> aux = []"
      using f(5) by simp_all
    have "write_raw ?f (columns ! i) out = Some (out @ aux @ data)"
      using f(3) [symmetric] aux bytes sizes head by (cases "is_varlen (fv_type ?f)") (simp_all add: write_raw_def)
    moreover have "words \<noteq> [] \<Longrightarrow> bm_words (fv_validity ?f) = words"
      using f(4) by (simp add: validity_copy_def split: if_splits)
    ultimately show ?thesis
      using None head zero write_words_ok [OF sizes(3)] by (auto simp: write_column_def Let_def)
  next
    case (Some v)
    then have "cv_aux_size v = length aux" "aux \<noteq> [] \<longrightarrow> cv_aux v = Some aux"
      "cv_data_size v = length data" "data \<noteq> [] \<longrightarrow> cv_data v = Some data"
      "words \<noteq> [] \<longrightarrow> cv_validity_words v = Some words"
      using parts by (simp_all add: parts_of_def Let_def)
    moreover from this have "write_view v (columns ! i) out = Some (out @ aux @ data)"
      using sizes head
      by (cases "aux = []"; cases "data = []") (auto simp: write_view_def split: option.split)
    ultimately show ?thesis
      using Some head zero write_words_ok [OF sizes(3)] by (cases "words = []") (auto simp: write_column_def Let_def)
  qed
qed

section \<open>The file\<close>

definition written_header :: "segment \<Rightarrow> segment_header \<Rightarrow> segment_header" where
  "written_header sg h =
     h\<lparr>sh_row_capacity := of_nat (sg_row_capacity sg), sh_row_count := of_nat (sg_row_count sg),
       sh_schema_fingerprint := segment_SchemaFingerprint sg, sh_field_count := of_nat (length (sg_fields sg))\<rparr>"

text \<open>The parts of every column and a header for each.\<close>

definition all_parts ::
  "segment \<Rightarrow> (nat \<Rightarrow> u8 list) \<Rightarrow> (nat \<Rightarrow> u8 list) \<Rightarrow> (nat \<Rightarrow> u64 list) \<Rightarrow> bool" where
  "all_parts sg aux data words \<longleftrightarrow>
     (\<forall>i<length (sg_fields sg). parts_of sg i (aux i) (data i) (words i) \<and>
        fv_size (sg_fields sg ! i) = sg_row_count sg)"

definition column_bytes :: "(nat \<Rightarrow> u8 list) \<Rightarrow> (nat \<Rightarrow> u8 list) \<Rightarrow> (nat \<Rightarrow> u64 list) \<Rightarrow> nat \<Rightarrow> u8 list" where
  "column_bytes aux data words i = aux i @ data i @ le_array 8 (words i)"

lemma write_headers_ok:
  assumes "all_parts sg aux data words" and "\<forall>i\<in>set is. i < length (sg_fields sg)"
  shows "\<exists>cols. write_headers sg is = Some cols \<and> length cols = length is \<and>
           (\<forall>k<length is. header_for sg (is ! k) (aux (is ! k)) (data (is ! k)) (words (is ! k)) (cols ! k))"
  using assms(2)
proof (induction "is")
  case Nil
  then show ?case by simp
next
  case (Cons i "is")
  then obtain col cols where "write_column_header sg i = Some col" "header_for sg i (aux i) (data i) (words i) col"
    "write_headers sg is = Some cols" "length cols = length is"
    "\<forall>k<length is. header_for sg (is ! k) (aux (is ! k)) (data (is ! k)) (words (is ! k)) (cols ! k)"
    using write_column_header_ok [of sg i "aux i" "data i" "words i"] assms(1) by (auto simp: all_parts_def)
  then show ?case by (auto simp: nth_Cons split: nat.split)
qed

lemma write_columns_ok:
  assumes "all_parts sg aux data words"
    and "\<forall>i<length (sg_fields sg). header_for sg i (aux i) (data i) (words i) (columns ! i)"
    and "k \<le> length (sg_fields sg)"
  shows "for_ub 0 k (write_column sg columns) out = Some (out @ concat (map (column_bytes aux data words) [0..<k]))"
  using assms(3)
proof (induction k)
  case 0
  then show ?case by simp
next
  case (Suc k)
  then show ?case
    using write_column_ok [of sg k "aux k" "data k" "words k" columns] assms(1,2)
    by (simp add: for_ub_Suc all_parts_def column_bytes_def)
qed

lemma Write_file:
  assumes parts: "all_parts sg aux data words" and w: "sw_is_open w" "fs (sw_path w) = None" "io_can_create io"
  shows "\<exists>cols. SegmentWriter_Write io sg w fs =
       Some (io_fsync_ok io, w\<lparr>sw_header := written_header sg (sw_header w)\<rparr>,
             fs(sw_path w \<mapsto> segment_header_bytes (written_header sg (sw_header w)) @
                  concat (map column_header_bytes cols) @
                  concat (map (column_bytes aux data words) [0..<length (sg_fields sg)]))) \<and>
     length cols = length (sg_fields sg) \<and>
     (\<forall>i<length (sg_fields sg). header_for sg i (aux i) (data i) (words i) (cols ! i))"
proof -
  let ?n = "length (sg_fields sg)"
  obtain cols where cols: "write_headers sg [0..<?n] = Some cols" "length cols = ?n"
    "\<forall>i<?n. header_for sg i (aux i) (data i) (words i) (cols ! i)"
    using write_headers_ok [OF parts, of "[0..<?n]"] by auto
  then show ?thesis
    using w write_columns_ok [OF parts cols(3) order_refl]
    by (intro exI [of _ cols]) (simp add: SegmentWriter_Write_def Let_def written_header_def)
qed

section \<open>Reading the bytes of a column\<close>

text \<open>Column \<open>i\<close> of the file lies between \<open>pre\<close> and \<open>post\<close>.\<close>

definition column_at :: "u8 list \<Rightarrow> u8 list \<Rightarrow> u8 list \<Rightarrow> u8 list \<Rightarrow> u64 list \<Rightarrow> u64 \<Rightarrow> column_header \<Rightarrow> bool" where
  "column_at base pre aux data words offset col \<longleftrightarrow>
     (\<exists>post. base = pre @ aux @ data @ le_array 8 words @ post) \<and> length base < 2 ^ 64 \<and>
     offset = of_nat (length pre) \<and> ch_data_bytes col = of_nat (length data) \<and>
     ch_aux_bytes col = of_nat (length aux) \<and> ch_validity_words col = of_nat (length words)"

lemma column_at_reads:
  assumes "column_at base pre aux data words offset col"
  shows "read_mem (unat offset) (unat (ch_aux_bytes col)) base = Some aux"
    and "read_mem (unat (offset + ch_aux_bytes col)) (unat (ch_data_bytes col)) base = Some data"
    and "read_mem (unat (offset + ch_aux_bytes col) + unat (ch_data_bytes col)) (unat (ch_validity_words col) * 8) base =
         Some (le_array 8 words)"
    and "read_mem (unat (offset + ch_aux_bytes col + ch_data_bytes col)) (unat (ch_validity_words col) * 8) base =
         Some (le_array 8 words)"
    and "\<not> offset + (ch_data_bytes col + ch_aux_bytes col) > of_nat (length base)"
    and "\<not> offset + ch_aux_bytes col + ch_data_bytes col > of_nat (length base)"
    and "\<not> offset + ch_aux_bytes col + ch_data_bytes col + ch_validity_words col * 8 > of_nat (length base)"
    and "unat (ch_validity_words col) = length words" and "\<not> unat (ch_validity_words col) * 8 \<ge> 2 ^ 64"
    and "unat (ch_aux_bytes col) = length aux" and "unat (ch_data_bytes col) = length data"
    and "ch_validity_words col > 0 \<longleftrightarrow> words \<noteq> []"
    and "offset + ch_aux_bytes col + ch_data_bytes col + ch_validity_words col * 8 =
         of_nat (length (pre @ aux @ data @ le_array 8 words))"
proof -
  from assms obtain post where base: "base = pre @ aux @ data @ le_array 8 words @ post" and len: "length base < 2 ^ 64"
    and col: "offset = of_nat (length pre)" "ch_data_bytes col = of_nat (length data)"
      "ch_aux_bytes col = of_nat (length aux)" "ch_validity_words col = of_nat (length words)"
    by (auto simp: column_at_def)
  have total: "length pre + length aux + length data + 8 * length words \<le> length base" by (simp add: base)
  have sums: "offset + ch_aux_bytes col = of_nat (length pre + length aux)"
    "offset + ch_aux_bytes col + ch_data_bytes col = of_nat (length pre + length aux + length data)"
    "offset + (ch_data_bytes col + ch_aux_bytes col) = of_nat (length pre + length aux + length data)"
    "offset + ch_aux_bytes col + ch_data_bytes col + ch_validity_words col * 8 =
       of_nat (length pre + length aux + length data + 8 * length words)"
    by (simp_all add: col add_ac)
  have le: "\<not> (of_nat n :: u64) > of_nat (length base)" if "n \<le> length base" for n
    using that len by (simp add: word_less_nat_alt unat_of_nat_u64)
  have u: "unat (of_nat n :: u64) = n" if "n \<le> length base" for n
    using that len by (intro unat_of_nat_u64) simp
  have words: "unat (ch_validity_words col) = length words" "unat (ch_aux_bytes col) = length aux"
    "unat (ch_data_bytes col) = length data" "unat offset = length pre"
    using u total by (simp_all add: col)
  show "read_mem (unat offset) (unat (ch_aux_bytes col)) base = Some aux"
    using words by (simp add: base)
  have d: "unat (offset + ch_aux_bytes col) = length (pre @ aux)"
    unfolding sums(1) by (subst u) (use total in simp_all)
  show "read_mem (unat (offset + ch_aux_bytes col)) (unat (ch_data_bytes col)) base = Some data"
    using read_mem_app [of "pre @ aux" data "le_array 8 words @ post"] words d by (simp add: base)
  have v: "unat (offset + ch_aux_bytes col + ch_data_bytes col) = length (pre @ aux @ data)"
    unfolding sums(2) by (subst u) (use total in simp_all)
  have w: "read_mem (length (pre @ aux @ data)) (unat (ch_validity_words col) * 8) base = Some (le_array 8 words)"
    using read_mem_app [of "pre @ aux @ data" "le_array 8 words" post] words by (simp add: base mult.commute)
  show "read_mem (unat (offset + ch_aux_bytes col) + unat (ch_data_bytes col)) (unat (ch_validity_words col) * 8) base =
         Some (le_array 8 words)"
    using w d words by (simp add: add.assoc)
  show "read_mem (unat (offset + ch_aux_bytes col + ch_data_bytes col)) (unat (ch_validity_words col) * 8) base =
         Some (le_array 8 words)"
    using w v by simp
  show "\<not> offset + (ch_data_bytes col + ch_aux_bytes col) > of_nat (length base)"
    "\<not> offset + ch_aux_bytes col + ch_data_bytes col > of_nat (length base)"
    "\<not> offset + ch_aux_bytes col + ch_data_bytes col + ch_validity_words col * 8 > of_nat (length base)"
    by ((subst sums(3) | subst sums(4) | subst sums(2)), rule le, use total in simp)+
  show "unat (ch_validity_words col) = length words" "unat (ch_aux_bytes col) = length aux"
    "unat (ch_data_bytes col) = length data" by (fact words)+
  show "\<not> unat (ch_validity_words col) * 8 \<ge> 2 ^ 64" using words total len by simp
  show "ch_validity_words col > 0 \<longleftrightarrow> words \<noteq> []"
    using words(1) by (simp add: word_less_nat_alt)
  show "offset + ch_aux_bytes col + ch_data_bytes col + ch_validity_words col * 8 =
         of_nat (length (pre @ aux @ data @ le_array 8 words))"
    unfolding sums(4) by (simp add: add_ac)
qed

section \<open>Columns read back\<close>

text \<open>The same rows, null or not, in a well-formed column of the same type.\<close>

definition read_back :: "field_vector \<Rightarrow> field_vector \<Rightarrow> bool" where
  "read_back f g \<longleftrightarrow>
     fv_inv g \<and> fv_type g = fv_type f \<and> fv_size g = fv_size f \<and> fv_cells g = fv_cells f"

definition kept_validity :: "field_vector \<Rightarrow> bitmap" where
  "kept_validity f = (if fv_HasNulls f then fv_validity f else bitmap_empty)"

lemma read_backI:
  assumes f: "fv_inv f" and t: "fv_type g = fv_type f" "fv_type f \<noteq> kDictInt32" and n: "fv_size g = fv_size f"
    and v: "fv_validity g = kept_validity f" and d: "fv_dictionary g = dict_empty"
    and data: "fv_data_len g = fv_size g" "varlen_ok g"
    and vals: "\<And>i. i < fv_size f \<Longrightarrow> fv_IsValid f i \<Longrightarrow> fv_values g ! i = fv_values f ! i"
  shows "read_back f g"
proof -
  have ok: "validity_ok f" using f by (simp add: fv_inv_def)
  have valid: "fv_IsValid g i = fv_IsValid f i" for i
    using v by (auto simp: fv_IsValid_def kept_validity_def fv_HasNulls_def bitmap_empty_def bitmap_Size_def)
  have "validity_ok g"
    using ok v n by (auto simp: validity_ok_def kept_validity_def fv_HasNulls_def bitmap_empty_def bitmap_inv_def
      word_count_for_def bitmap_Size_def kWordBits_def)
  moreover have "dict_ok g" using d t by (simp add: dict_ok_def dict_empty_def dict_inv_def)
  ultimately have g: "fv_inv g" using data by (simp add: fv_inv_def)
  have "fv_cells g = fv_cells f"
    using n vals valid fv_cells_len [OF f] fv_cells_len [OF g] fv_cells_nth [OF f] fv_cells_nth [OF g]
    by (intro nth_equalityI) auto
  with g t(1) n show ?thesis by (simp add: read_back_def)
qed

lemma word_count_for_pos: "0 < n \<Longrightarrow> 0 < word_count_for n"
  by (auto simp: word_count_for_def kWordBits_def)

lemma validity_copy_Nil: "validity_ok f \<Longrightarrow> validity_copy f = [] \<longleftrightarrow> \<not> fv_HasNulls f"
  using word_count_for_pos [of "fv_size f"]
  by (auto simp: validity_copy_def validity_ok_def bitmap_inv_def fv_HasNulls_def bitmap_Size_def)

lemma copy_into_all:
  fixes ws :: "'a::len word list"
  assumes "length old = length ws" and "LENGTH('a) \<le> 8 * w"
  shows "copy_into w (le_array w ws) old = Some ws"
  using assms le_words_le_array [of w ws "[]"] by (simp add: copy_into_def write_mem_def)

lemma le_array_1 [simp]: "le_array 1 (ws :: u8 list) = ws" "le_array (Suc 0) (ws :: u8 list) = ws"
  by (induction ws) simp_all

text \<open>The validity of a column.\<close>

lemma read_validity_ok:
  assumes at: "column_at base pre aux data (validity_copy f) offset col" and f: "validity_ok f"
    and n: "ch_value_count col = of_nat (fv_size f)" "fv_size f < 2 ^ 64" and g: "fv_validity g = bitmap_empty"
  shows "read_validity base col (offset + ch_aux_bytes col + ch_data_bytes col) g =
     Some (Some (g\<lparr>fv_validity := kept_validity f\<rparr>,
       of_nat (length (pre @ aux @ data @ le_array 8 (validity_copy f)))))"
proof (cases "fv_HasNulls f")
  case False
  then have none: "validity_copy f = []" by (simp add: validity_copy_def)
  then have "ch_validity_words col = 0" using column_at_reads(12) [OF at] by (simp add: word_gt_0)
  with column_at_reads(13) [OF at] none False g show ?thesis
    by (simp add: read_validity_def kept_validity_def Let_def)
next
  case True
  then have words: "validity_copy f \<noteq> []" "validity_copy f = bm_words (fv_validity f)"
    using validity_copy_Nil [OF f] by (auto simp: validity_copy_def)
  have "le_words 8 (length (validity_copy f)) (le_array 8 (validity_copy f)) = validity_copy f"
    using le_words_le_array [of 8 "validity_copy f" "[]"] by simp
  moreover have "bm_bit_count (fv_validity f) = fv_size f"
    using f True by (auto simp: validity_ok_def fv_HasNulls_def bitmap_Size_def)
  moreover have "unat (ch_value_count col) = fv_size f" using n by (simp add: unat_of_nat_u64)
  ultimately show ?thesis
    using column_at_reads(4,7,8,9,12,13) [OF at] words True
    by (simp add: read_validity_def kept_validity_def fv_LoadValidityWords_def bitmap_LoadWords_def Let_def)
qed

text \<open>The values of a column, before its validity is read.\<close>

definition loaded_data :: "field_vector \<Rightarrow> field_vector \<Rightarrow> bool" where
  "loaded_data f g \<longleftrightarrow>
     fv_type g = fv_type f \<and> fv_size g = fv_size f \<and> fv_validity g = bitmap_empty \<and>
     fv_dictionary g = dict_empty \<and> fv_data_len g = fv_size g \<and> varlen_ok g \<and>
     (\<forall>i<fv_size f. fv_IsValid f i \<longrightarrow> fv_values g ! i = fv_values f ! i)"

definition fresh_column :: "u8 list \<Rightarrow> field_type \<Rightarrow> nat \<Rightarrow> field_vector" where
  "fresh_column name t n = (if \<not> is_varlen t then fv_Resize (fv_new name t) n else fv_new name t)"

lemma fresh_column_fixed:
  assumes "\<not> is_varlen t" and "t \<noteq> kObject"
  shows "fv_type (fresh_column name t n) = t" "fv_size (fresh_column name t n) = n"
    "fv_validity (fresh_column name t n) = bitmap_empty" "fv_dictionary (fresh_column name t n) = dict_empty"
    "fv_data_len (fresh_column name t n) = n"
  using assms by (cases t; simp add: fresh_column_def fv_Resize_def fv_new_def fv_ResizeStorage_def
    bitmap_empty_def bitmap_Size_def fv_data_len_def vec_resize_def is_varlen_def; fail)+

lemma loaded_data_read_back:
  assumes "fv_inv f" and "fv_type f \<noteq> kDictInt32" and "loaded_data f g"
  shows "read_back f (g\<lparr>fv_validity := kept_validity f\<rparr>)"
  using assms by (intro read_backI) (auto simp: loaded_data_def fv_data_len_def varlen_ok_def fv_values_def
    split: field_type.split)

lemma read_none_ok:
  assumes at: "column_at base pre aux (field_storage f) words offset col" and f: "fv_inv f"
    and t: "fv_type f \<noteq> kDictInt32" "fv_type f \<noteq> kObject"
    and aux: "aux = (if is_varlen (fv_type f) then le_array 4 (fv_lengths f) else [])"
    and n: "ch_value_count col = of_nat (fv_size f)" "fv_size f < 2 ^ 64"
  shows "\<exists>g. read_none base col offset (fresh_column name (fv_type f) (fv_size f)) =
      Some (Some (g, offset + ch_aux_bytes col)) \<and> loaded_data f g"
proof (cases "is_varlen (fv_type f)")
  case True
  have len: "length (fv_lengths f) = fv_size f" "sum_lengths (fv_lengths f) = length (fv_bytes f)"
    using f True t by (auto simp: fv_inv_def fv_data_len_def varlen_ok_def is_varlen_def split: field_type.splits)
  have v: "unat (ch_value_count col) = fv_size f" using n by (simp add: unat_of_nat_u64)
  have c: "copy_into 4 aux (replicate (fv_size f) 0) = Some (fv_lengths f)"
    using True len by (simp add: aux copy_into_all)
  have s: "field_storage f = fv_bytes f"
    using True by (cases "fv_type f") (simp_all add: field_storage_def is_varlen_def)
  define g where "g = snd (fv_LoadVarlen (fv_new name (fv_type f)) (fv_lengths f) (fv_bytes f))"
  have "read_none base col offset (fv_new name (fv_type f)) = Some (Some (g, offset + ch_aux_bytes col))"
    using column_at_reads(1,2,6) [OF at] True c v s
    by (simp add: read_none_def fv_LoadVarlen_def fv_new_def g_def Let_def)
  moreover have "loaded_data f g"
    using True len by (auto simp: loaded_data_def g_def fv_LoadVarlen_def fv_new_def fv_data_len_def varlen_ok_def
      fv_values_def is_varlen_def split: field_type.splits)
  ultimately show ?thesis using True by (auto simp: fresh_column_def)
next
  case False
  then have a: "ch_aux_bytes col = 0" using at aux by (simp add: column_at_def)
  let ?g = "fresh_column name (fv_type f) (fv_size f)"
  note g = fresh_column_fixed [OF False t(2), of name "fv_size f"]
  have bools: "copy_into (Suc 0) (fv_bool f) old = Some (fv_bool f)" if "length old = length (fv_bool f)" for old
    using that copy_into_all [of old "fv_bool f" 1] by simp
  have "\<exists>h. fill_storage (field_storage f) ?g = Some (Some h) \<and> loaded_data f h"
    using f False t g
    by (cases "fv_type f")
       (auto simp: fill_storage_def field_storage_def copy_into_all fv_inv_def fv_data_len_def loaded_data_def
         fv_values_def varlen_ok_def is_varlen_def bools)
  then show ?thesis
    using column_at_reads(2) [OF at] False t g a
    by (auto simp: read_none_def Let_def)
qed

end
