(* ===== verification/SegmentRoundtrip.thy ===== *)
theory SegmentRoundtrip
  imports SegmentIOProps
begin

text \<open>
  A segment that is written and read back has the cells it was built from: the encoded columns
  of a file, and the whole file.
\<close>

section \<open>Reads do not depend on trailing bytes\<close>

definition padded :: "u8 list option \<Rightarrow> u8 list option \<Rightarrow> bool" where
  "padded p q \<longleftrightarrow> (case p of None \<Rightarrow> q = None | Some d \<Rightarrow> \<exists>z. q = Some (d @ z))"

text \<open>The same column, with longer buffers.\<close>

definition padded_view :: "compressed_view \<Rightarrow> compressed_view \<Rightarrow> bool" where
  "padded_view v w \<longleftrightarrow>
     cv_kind v \<in> {CkDictionary, CkBitPacked, CkForDelta} \<and> cv_kind w = cv_kind v \<and>
     (\<forall>i. view_IsValid w i = view_IsValid v i) \<and>
     cv_aux_size w = cv_aux_size v \<and> (\<forall>a. cv_aux v = Some a \<longrightarrow> length a = cv_aux_size v) \<and>
     padded (cv_aux v) (cv_aux w) \<and> padded (cv_data v) (cv_data w)"

lemma padded_ptr_aligned: "padded (ptr_of bs) (aligned bs)"
  by (auto simp: padded_def ptr_of_def aligned_def)

lemma rd_app: "rd n bs i = Some x \<Longrightarrow> rd n (bs @ zs) i = Some x"
  by (auto simp: rd_def split: if_splits)

lemma byte_at_app: "byte_at bs i = Some x \<Longrightarrow> byte_at (bs @ zs) i = Some x"
  by (auto simp: byte_at_def nth_append split: if_splits)

lemma bind_mono:
  assumes "Option.bind p f = Some r" and "\<And>x. p = Some x \<Longrightarrow> q = Some x"
    and "\<And>x. p = Some x \<Longrightarrow> f x = Some r \<Longrightarrow> g x = Some r"
  shows "Option.bind q g = Some r"
  using assms by (cases p) auto

lemma for_ub_mono:
  assumes "\<And>i s t. f i s = Some t \<Longrightarrow> g i s = Some t" and "for_ub lo hi f s = Some t"
  shows "for_ub lo hi g s = Some t"
  using assms(2)
proof (induction hi arbitrary: t)
  case 0
  then show ?case by simp
next
  case (Suc hi)
  show ?case
  proof (cases "lo \<le> hi")
    case True
    with Suc.prems obtain u where "for_ub lo hi f s = Some u" "f hi u = Some t"
      by (auto simp: for_ub_Suc split: Option.bind_splits)
    with Suc.IH assms(1) True show ?thesis by (simp add: for_ub_Suc)
  next
    case False
    with Suc.prems show ?thesis by simp
  qed
qed

lemma ReadBits_padded:
  assumes "padded p q" and "ReadBits p k bits = Some v"
  shows "ReadBits q k bits = Some v"
proof (cases p)
  case None
  with assms show ?thesis by (simp add: padded_def)
next
  case (Some d)
  with assms(1) obtain z where q: "q = Some (d @ z)" by (auto simp: padded_def)
  show ?thesis
  proof (cases "bits = 0")
    case True
    with assms(2) Some q show ?thesis by (simp add: ReadBits_def)
  next
    case False
    let ?body = "\<lambda>d i value. do { b \<leftarrow> byte_at d ((k + i) div 8);
        Some (if b AND push_bit ((k + i) mod 8) 1 \<noteq> 0 then value OR push_bit i (1 :: u64) else value) }"
    have "?body (d @ z) i s = Some t" if "?body d i s = Some t" for i s t
      using that by (auto split: Option.bind_splits dest: byte_at_app [of d _ _ z])
    from for_ub_mono [of "?body d" "?body (d @ z)", OF this] assms(2) Some q False show ?thesis
      by (simp add: ReadBits_def)
  qed
qed

lemma ReadInt64Value_padded:
  assumes pad: "padded_view v w" and r: "ReadInt64Value v i = Some r"
  shows "ReadInt64Value w i = Some r"
proof (cases "view_IsValid v i")
  case False
  with assms show ?thesis
    by (simp add: padded_view_def ReadInt64Value_def ReadInt64ValueInternal_def)
next
  case True
  then have valid: "view_IsValid v i" "view_IsValid w i" using pad by (simp_all add: padded_view_def)
  have data: "padded (cv_data v) (cv_data w)" and kind: "cv_kind w = cv_kind v" and size: "cv_aux_size w = cv_aux_size v"
    using pad by (simp_all add: padded_view_def)
  show ?thesis
  proof (cases "cv_aux v")
    case None
    then have "cv_aux w = None" using pad by (simp add: padded_view_def padded_def)
    with None r kind valid pad show ?thesis
      by (auto simp: ReadInt64Value_def ReadInt64ValueInternal_def ReadDictHeader_def ReadBitpackHeader_def
        ReadForDeltaHeader_def padded_view_def)
  next
    case (Some a)
    then obtain z where w: "cv_aux w = Some (a @ z)" and len: "length a = cv_aux_size v"
      using pad by (auto simp: padded_view_def padded_def)
    consider "cv_kind v = CkDictionary" | "cv_kind v = CkBitPacked" | "cv_kind v = CkForDelta"
      using pad by (auto simp: padded_view_def)
    then show ?thesis
    proof cases
      case 1
      have h: "ReadDictHeader w = map_option (\<lambda>(c, vs). (c, vs @ z)) (ReadDictHeader v)"
        using Some w len size by (simp add: ReadDictHeader_def kDictHeaderSize_def Let_def)
      show ?thesis
      proof (cases "ReadDictHeader v = None \<or> cv_data v = None")
        case True
        with r 1 kind valid data show ?thesis
          by (auto simp: ReadInt64Value_def ReadInt64ValueInternal_def h padded_def split: option.splits)
      next
        case False
        then obtain c vs ids y where v: "ReadDictHeader v = Some (c, vs)" "cv_data v = Some ids" "cv_data w = Some (ids @ y)"
          using data by (auto simp: padded_def)
        let ?row = "\<lambda>vs i. if i \<ge> c then Some None else do { x \<leftarrow> (rd 8 vs (unat i) :: u64 ub); Some (Some x) }"
        have A: "do { k \<leftarrow> (rd 4 ids i :: u32 ub); ?row vs k } = Some r"
          using r 1 valid v by (simp add: ReadInt64Value_def ReadInt64ValueInternal_def)
        have B: "?row (vs @ z) k = Some r" if "?row vs k = Some r" for k
          using that by (cases "rd 8 vs (unat k) :: u64 ub") (auto simp: rd_app split: if_splits)
        have "do { k \<leftarrow> (rd 4 (ids @ y) i :: u32 ub); ?row (vs @ z) k } = Some r"
          by (rule bind_mono [OF A]) (erule rd_app, erule B)
        then show ?thesis
          using 1 kind valid v by (simp add: ReadInt64Value_def ReadInt64ValueInternal_def h)
      qed
    next
      case 2
      have h: "ReadBitpackHeader w = ReadBitpackHeader v"
        using Some w len size by (simp add: ReadBitpackHeader_def kBitpackHeaderSize_def nth_append Let_def)
      show ?thesis
        using r 2 kind valid ReadBits_padded [OF data]
        by (auto simp: ReadInt64Value_def ReadInt64ValueInternal_def h
             split: option.splits Option.bind_splits)
    next
      case 3
      have h: "ReadForDeltaHeader w = ReadForDeltaHeader v"
        using Some w len size by (simp add: ReadForDeltaHeader_def kForDeltaHeaderSize_def)
      show ?thesis
      proof (cases "ReadForDeltaHeader v = None \<or> cv_data v = None")
        case True
        with r 3 kind valid data show ?thesis
          by (auto simp: ReadInt64Value_def ReadInt64ValueInternal_def h padded_def split: option.splits)
      next
        case False
        then obtain b ds y where v: "ReadForDeltaHeader v = Some b" "cv_data v = Some ds" "cv_data w = Some (ds @ y)"
          using data by (auto simp: padded_def)
        then obtain x where x: "rd 4 ds i = Some (x :: u32)" "r = Some (b + ucast x)"
          using r 3 valid by (auto simp: ReadInt64Value_def ReadInt64ValueInternal_def split: Option.bind_splits)
        then have "rd 4 (ds @ y) i = Some x" by (simp add: rd_app)
        with x 3 kind valid v show ?thesis by (simp add: ReadInt64Value_def ReadInt64ValueInternal_def h)
      qed
    qed
  qed
qed

section \<open>An encoded column\<close>

text \<open>The rows of a file's view of an encoded column.\<close>

lemma read_encoded_view_ok:
  assumes at: "column_at base pre aux data (validity_copy f) offset col"
    and n: "ch_value_count col = of_nat (fv_size f)" "fv_size f < 2 ^ 64"
    and kind: "kind \<in> {CkDictionary, CkBitPacked, CkForDelta}"
  shows "\<exists>w. read_encoded_view base col offset kind (fv_type f) = Some (Some w) \<and> cv_row_count w = fv_size f \<and>
           padded_view (encoded_view f kind data aux (validity_copy f)) w"
proof -
  let ?v = "view_empty\<lparr>cv_kind := kind, cv_type := fv_type f, cv_row_count := fv_size f,
    cv_ops := Some (CompressionOpsFor kind), cv_data := aligned data, cv_data_size := length data,
    cv_aux := aligned aux, cv_aux_size := length aux\<rparr>"
  let ?words = "validity_copy f"
  define w where "w = (if ?words = [] then ?v
    else ?v\<lparr>cv_validity_words := Some ?words, cv_validity_word_count := length ?words,
            cv_validity_bit_count := fv_size f\<rparr>)"
  have count: "unat (ch_value_count col) = fv_size f" using n by (simp add: unat_of_nat_u64)
  have words: "le_words 8 (length ?words) (le_array 8 ?words) = ?words"
    using le_words_le_array [of 8 ?words "[]"] by simp
  have "read_encoded_view base col offset kind (fv_type f) = Some (Some w)"
    using column_at_reads(1,2,3,7,8,9,10,11,12) [OF at] count words
    by (cases "?words = []") (simp_all add: read_encoded_view_def w_def Let_def word_gt_0)
  moreover have "cv_row_count w = fv_size f" by (simp add: w_def)
  moreover have "padded_view (encoded_view f kind data aux ?words) w"
    using kind padded_ptr_aligned [of aux] padded_ptr_aligned [of data]
    by (simp add: padded_view_def encoded_view_def w_def view_IsValid_def view_empty_def ptr_of_def)
  ultimately show ?thesis by blast
qed

lemma read_rows_ok:
  assumes "\<And>i. i < cv_row_count w \<Longrightarrow> ReadInt64Value w i = Some (if valid i then Some (vals i) else None)"
  shows "read_rows w = Some (map (\<lambda>i. if valid i then vals i else 0) [0..<cv_row_count w])"
proof -
  have "for_ub 0 k (\<lambda>j out. do { v \<leftarrow> ReadInt64Value w j;
      Some (out @ [case v of Some x \<Rightarrow> x | None \<Rightarrow> 0]) }) [] =
    Some (map (\<lambda>i. if valid i then vals i else 0) [0..<k])" if "k \<le> cv_row_count w" for k
    using that assms by (induction k) (simp_all add: for_ub_Suc)
  then show ?thesis by (simp add: read_rows_def)
qed

lemma ucast_scast_u32: "ucast (scast (x :: u32) :: u64) = x"
  by (rule bit_word_eqI) (simp add: bit_simps)

lemma read_encoded_ok:
  assumes at: "column_at base pre aux data (validity_copy f) offset col" and f: "fv_inv f" "is_encodable (fv_type f)"
    and n: "ch_value_count col = of_nat (fv_size f)" "fv_size f < 2 ^ 64"
    and kind: "kind \<in> {CkDictionary, CkBitPacked, CkForDelta}" and bools: "bool_cells_ok f"
    and view: "view_faithful (encoded_view f kind data aux (validity_copy f)) f"
  shows "\<exists>g. read_encoded base col offset kind (fresh_column name (fv_type f) (fv_size f)) =
      Some (Some (g, offset + ch_aux_bytes col)) \<and> loaded_data f g"
proof -
  obtain w where w: "read_encoded_view base col offset kind (fv_type f) = Some (Some w)" "cv_row_count w = fv_size f"
    "padded_view (encoded_view f kind data aux (validity_copy f)) w"
    using read_encoded_view_ok [OF at n kind] by blast
  have "ReadInt64Value w i = Some (if fv_IsValid f i then Some (field_i64 f i) else None)" if "i < cv_row_count w" for i
    using view that w(2) by (intro ReadInt64Value_padded [OF w(3)]) (simp add: view_faithful_def)
  then have rows: "read_rows w = Some (map (\<lambda>i. if fv_IsValid f i then field_i64 f i else 0) [0..<fv_size f])"
    using read_rows_ok [of w "fv_IsValid f" "field_i64 f"] w(2) by simp
  have t: "\<not> is_varlen (fv_type f)" "fv_type f \<noteq> kObject" using f(2) by (auto simp: is_encodable_def is_varlen_def)
  note g = fresh_column_fixed [OF t, of name "fv_size f"]
  have len: "fv_data_len f = fv_size f" using f(1) by (simp add: fv_inv_def)
  have bool: "fv_bool f ! i = 1"
    if "fv_type f = kBool" "i < fv_size f" "fv_IsValid f i" "fv_bool f ! i \<noteq> 0" for i
  proof -
    have "unat (fv_bool f ! i) \<le> 1" using bools that by (auto simp: bool_cells_ok_def word_le_nat_alt)
    then have "unat (fv_bool f ! i) = 0 \<or> unat (fv_bool f ! i) = 1" by linarith
    with that(4) show ?thesis by (metis unat_eq_zero unsigned_1 word_unat_eq_iff)
  qed
  show ?thesis
    using f(2) w(1) g rows len bool
    by (auto simp: is_encodable_def read_encoded_def loaded_data_def fv_data_len_def fv_values_def varlen_ok_def
      is_varlen_def field_i64_def ucast_scast_u32 Let_def)
qed

end
