(* ===== verification/SegmentFiles.thy ===== *)
theory SegmentFiles
  imports SegmentRoundtrip
begin

text \<open>
  Whole segment files: the parts every column of a built segment is written as, and the
  segment that reading the file gives.
\<close>

section \<open>The parts of a built segment\<close>

text \<open>The bytes from which the reader rebuilds a column of kind \<open>k\<close>.\<close>

definition readable :: "field_vector \<Rightarrow> compression_kind \<Rightarrow> u8 list \<Rightarrow> u8 list \<Rightarrow> bool" where
  "readable f k aux data \<longleftrightarrow>
     data = field_storage f \<and> aux = (if is_varlen (fv_type f) then le_array 4 (fv_lengths f) else []) \<and>
       (k = CkNone \<or> fv_type f = kFloat64 \<and> k \<noteq> CkLz4) \<or>
     is_encodable (fv_type f) \<and> k \<in> {CkDictionary, CkBitPacked, CkForDelta} \<and> bool_cells_ok f \<and>
       view_faithful (encoded_view f k data aux (validity_copy f)) f"

definition column_size :: "field_vector \<Rightarrow> nat" where
  "column_size f = raw_data_bytes f + raw_aux_bytes f + 8 * length (validity_copy f)"

text \<open>A column that can be written and read: no dictionary or object, integers a double holds.\<close>

definition storable :: "field_vector \<Rightarrow> bool" where
  "storable f \<longleftrightarrow>
     fv_inv f \<and> 0 < fv_size f \<and> fv_size f < 2 ^ 32 \<and> fv_type f \<noteq> kDictInt32 \<and> fv_type f \<noteq> kObject \<and>
     (is_encodable (fv_type f) \<longrightarrow> bool_cells_ok f \<and> exact_ints f)"

lemma raw_sizes_eq:
  assumes "fv_inv f"
  shows "length (field_storage f) = raw_data_bytes f"
    and "length (if is_varlen (fv_type f) then le_array 4 (fv_lengths f) else []) = raw_aux_bytes f"
  using assms length_field_storage [of f]
  by (auto simp: fv_inv_def raw_aux_bytes_def fv_data_len_def is_varlen_def)

lemma uncompressed_parts:
  assumes "fv_inv f" and "fv_type f \<noteq> kObject"
  shows "cv_data (MakeUncompressedView f) = Some (field_storage f)"
    and "cv_data_size (MakeUncompressedView f) = length (field_storage f)"
    and "cv_aux_size (MakeUncompressedView f) = (if is_varlen (fv_type f) then 4 * length (fv_lengths f) else 0)"
    and "is_varlen (fv_type f) \<Longrightarrow> cv_aux (MakeUncompressedView f) = Some (le_array 4 (fv_lengths f))"
  using assms
  by (cases "fv_type f"; simp add: MakeUncompressedView_def field_storage_def fv_inv_def fv_data_len_def view_validity_def
    view_empty_def fv_BytesSize_def Let_def; fail)+

lemma built_parts:
  assumes b: "build_column cfg (chosen_kind cfg f) f = Some b" and f: "storable f"
  shows "\<exists>aux data. readable f (bc_kind b) aux data \<and>
      length aux + length data + 8 * length (validity_copy f) \<le> column_size f \<and>
      cv_aux_size (bc_view b) = length aux \<and> (aux \<noteq> [] \<longrightarrow> cv_aux (bc_view b) = Some aux) \<and>
      cv_data_size (bc_view b) = length data \<and> (data \<noteq> [] \<longrightarrow> cv_data (bc_view b) = Some data) \<and>
      cv_validity_word_count (bc_view b) = length (validity_copy f) \<and>
      (validity_copy f \<noteq> [] \<longrightarrow> cv_validity_words (bc_view b) = Some (validity_copy f))"
proof -
  have inv: "fv_inv f" "fv_type f \<noteq> kObject" "fv_data_len f = fv_size f" using f by (auto simp: storable_def fv_inv_def)
  obtain k d a where e: "encode_column (chosen_kind cfg f) f = Some (k, d, a)"
    using encode_column_total [OF inv(3)] by (metis prod_cases3)
  have nolz4: "bc_kind b \<noteq> CkLz4" using kept_not_lz4 [OF b inv(1)] f by (auto simp: storable_def)
  consider "bc_kind b = CkNone" "bc_view b = MakeUncompressedView f"
    | "k \<noteq> CkNone" "bc_kind b = k" "bc_view b = encoded_view f k d a (validity_copy f)"
    using build_column_kind [OF e b] by blast
  then show ?thesis
  proof cases
    case 1
    define aux where "aux = (if is_varlen (fv_type f) then le_array 4 (fv_lengths f) else [])"
    have "readable f (bc_kind b) aux (field_storage f)" using 1 by (simp add: readable_def aux_def)
    moreover have "length aux + length (field_storage f) + 8 * length (validity_copy f) \<le> column_size f"
      using raw_sizes_eq [OF inv(1)] by (simp add: column_size_def aux_def)
    ultimately show ?thesis
      using 1 uncompressed_parts [OF inv(1,2)]
      by (intro exI [of _ aux] exI [of _ "field_storage f"]) (auto simp: aux_def validity_copy_def)
  next
    case 2
    let ?n = "length d + length a + length (validity_copy f) * 8"
    have "bc_kind b = keep_kind cfg f k ?n" using b e by (auto simp: build_column_def Let_def split: if_splits)
    then have "keep_kind cfg f k ?n = k" using 2(2) by simp
    then have "?n \<le> raw_data_bytes f + raw_aux_bytes f" using 2(1) by (auto simp: keep_kind_def Let_def split: if_splits)
    then have size: "length a + length d + 8 * length (validity_copy f) \<le> column_size f" by (simp add: column_size_def)
    have "readable f k a d"
    proof (cases "is_encodable (fv_type f)")
      case True
      then have "encode_integers (chosen_kind cfg f) f = Some (k, d, a)"
        using e by (auto simp: is_encodable_def encode_column_def)
      from encode_integers_kind(1) [OF this 2(1)] have k: "k \<in> {CkDictionary, CkBitPacked, CkForDelta}"
        using nolz4 2 ChooseCompression_not_rle [of cfg "column_ComputeStats f" "fv_type f"] by (cases k) auto
      have "bool_cells_ok f" "exact_ints f" using f True by (auto simp: storable_def)
      moreover have "view_faithful (bc_view b) f"
        using build_column_faithful [OF inv(1) True _ _ _ ChooseCompression_not_rle _ _ b]
          ChooseCompression_int_fits [OF True, of cfg] f True by (auto simp: storable_def exact_ints_def)
      ultimately show ?thesis using True k 2 by (simp add: readable_def)
    next
      case False
      have "\<not> is_varlen (fv_type f)"
      proof
        assume v: "is_varlen (fv_type f)"
        then have "chosen_kind cfg f = CkNone" by (rule varlen_never_encoded)
        with e v 2(1) show False
          by (auto simp: is_varlen_def encode_column_def copy_out_def split: Option.bind_splits)
      qed
      with False f have t: "fv_type f = kFloat64"
        by (cases "fv_type f") (auto simp: storable_def is_encodable_def is_varlen_def)
      then have "d = field_storage f" "a = []"
        using e nolz4 2 copy_out_eq [OF length_field_storage [OF inv(3)]] by (auto simp: encode_column_def)
      with t nolz4 2 show ?thesis by (simp add: readable_def)
    qed
    with size 2 show ?thesis
      by (intro exI [of _ a] exI [of _ d]) (auto simp: encoded_view_def ptr_of_def)
  qed
qed

section \<open>Reading a column\<close>

lemma ucast_type_byte: "ucast (ucast (type_byte t) :: u32) = type_byte t"
  by (rule bit_word_eqI) (auto simp: bit_simps)

lemma read_column_ok:
  assumes at: "column_at base pre aux data (validity_copy f) offset col" and f: "storable f"
    and r: "readable f k aux data"
    and col: "ch_type col = ucast (type_byte (fv_type f))" "ch_value_count col = of_nat (fv_size f)"
      "ch_compression_kind col = kind_byte k"
    and h: "sh_row_count h = of_nat (fv_size f)"
  shows "\<exists>g. read_column base h col i offset =
      Some (Some (g, of_nat (length (pre @ aux @ data @ le_array 8 (validity_copy f))))) \<and> read_back f g"
proof -
  have inv: "fv_inv f" "validity_ok f" and t: "fv_type f \<noteq> kDictInt32" "fv_type f \<noteq> kObject" and n: "fv_size f < 2 ^ 32"
    using f by (auto simp: storable_def fv_inv_def)
  have size: "fv_size f < 2 ^ 64" "\<not> unat (ch_value_count col) * 8 \<ge> 2 ^ 64" "unat (ch_value_count col) = fv_size f"
    using n by (simp_all add: col unat_of_nat_u64)
  let ?kind = "if fv_type f = kFloat64 \<and> k \<noteq> CkLz4 then CkNone else k"
  let ?new = "fresh_column (col_name i) (fv_type f) (fv_size f)"
  let ?part = "if ?kind = CkNone then read_none base col offset ?new
    else if ?kind = CkLz4 then read_lz4 base col offset ?new else read_encoded base col offset ?kind ?new"
  have "\<exists>g. ?part = Some (Some (g, offset + ch_aux_bytes col)) \<and> loaded_data f g"
  proof (cases "?kind = CkNone")
    case True
    then have raw: "data = field_storage f" "aux = (if is_varlen (fv_type f) then le_array 4 (fv_lengths f) else [])"
      using r by (auto simp: readable_def is_encodable_def split: if_splits)
    with read_none_ok [OF _ inv(1) t raw(2) col(2) size(1)] at True show ?thesis by auto
  next
    case False
    then have k: "is_encodable (fv_type f)" "k \<in> {CkDictionary, CkBitPacked, CkForDelta}" "bool_cells_ok f"
      "view_faithful (encoded_view f k data aux (validity_copy f)) f"
      using r by (auto simp: readable_def split: if_splits)
    then have "?kind = k" by (auto simp: is_encodable_def)
    with read_encoded_ok [OF at inv(1) k(1) col(2) size(1) k(2,3,4)] k(2) show ?thesis by auto
  qed
  then obtain g where g: "?part = Some (Some (g, offset + ch_aux_bytes col))" "loaded_data f g" by blast
  have "fv_validity g = bitmap_empty" using g(2) by (simp add: loaded_data_def)
  note validity = read_validity_ok [OF at inv(2) col(2) size(1) this]
  have new: "(if \<not> is_varlen (fv_type f) then fv_Resize (fv_new (col_name i) (fv_type f)) (unat (ch_value_count col))
      else fv_new (col_name i) (fv_type f)) = ?new"
    by (simp only: fresh_column_def size(3))
  have eq: "(ch_value_count col \<noteq> sh_row_count h) = False"
    "(t \<noteq> kObject \<and> unat (ch_value_count col) * 8 \<ge> 2 ^ 64) = False"
    "(offset + (ch_data_bytes col + ch_aux_bytes col) > of_nat (length base)) = False" for t
    using col(2) h size(2) column_at_reads(5) [OF at] by simp_all
  have "read_column base h col i offset = Some (Some (g\<lparr>fv_validity := kept_validity f\<rparr>,
      of_nat (length (pre @ aux @ data @ le_array 8 (validity_copy f)))))"
    by (simp only: read_column_def eq Let_def ucast_type_byte new g(1) validity col(1,3) type_of_byte_type_byte
      kind_of_byte_kind_byte Option.bind.simps if_False option.case prod.case)
  with loaded_data_read_back [OF inv(1) t(1) g(2)] show ?thesis by blast
qed

section \<open>The parts of every column\<close>

definition stored_as :: "segment \<Rightarrow> field_vector list \<Rightarrow> nat \<Rightarrow> u8 list \<Rightarrow> u8 list \<Rightarrow> bool" where
  "stored_as sg flds i aux data \<longleftrightarrow>
     (let f = flds ! i in
      parts_of sg i aux data (validity_copy f) \<and> readable f (sg_compression_kinds sg ! i) aux data \<and>
      length aux + length data + 8 * length (validity_copy f) \<le> column_size f \<and>
      fv_type (sg_fields sg ! i) = fv_type f \<and> fv_size (sg_fields sg ! i) = fv_size f)"

lemma segment_stored:
  assumes l: "loaded_from cfg cap n flds sg" and i: "i < length flds" and f: "storable (flds ! i)"
    and size: "column_size (flds ! i) < 2 ^ 64"
    and kinds: "sg_sealed sg \<or> chosen_kind cfg (flds ! i) = CkNone"
  shows "\<exists>aux data. stored_as sg flds i aux data"
proof (cases "sg_sealed sg")
  case True
  from loaded_from_column [OF l True i] obtain b where
    b: "build_column cfg (chosen_kind cfg (flds ! i)) (flds ! i) = Some b" "sg_fields sg ! i = bc_field b"
      "sg_compression_kinds sg ! i = bc_kind b" "sg_compressed_columns sg ! i = bc_view b" .
  have len: "length (sg_compressed_columns sg) = length flds" using l True by (simp add: loaded_from_def)
  then have view: "written_view sg i = Some (bc_view b)"
    using i True b(4) by (auto simp: written_view_def uses_compressed_def)
  obtain k d a where "encode_column (chosen_kind cfg (flds ! i)) (flds ! i) = Some (k, d, a)"
    using b(1) by (auto simp: build_column_def split: Option.bind_splits)
  from build_column_kind [OF this b(1)] have field: "fv_type (bc_field b) = fv_type (flds ! i)" "fv_size (bc_field b) = fv_size (flds ! i)"
    by (auto simp: fv_ReleaseStorage_def)
  from built_parts [OF b(1) f] obtain aux data where parts: "readable (flds ! i) (bc_kind b) aux data"
    "length aux + length data + 8 * length (validity_copy (flds ! i)) \<le> column_size (flds ! i)"
    "cv_aux_size (bc_view b) = length aux" "aux \<noteq> [] \<longrightarrow> cv_aux (bc_view b) = Some aux"
    "cv_data_size (bc_view b) = length data" "data \<noteq> [] \<longrightarrow> cv_data (bc_view b) = Some data"
    "cv_validity_word_count (bc_view b) = length (validity_copy (flds ! i))"
    "validity_copy (flds ! i) \<noteq> [] \<longrightarrow> cv_validity_words (bc_view b) = Some (validity_copy (flds ! i))"
    by blast
  then have "stored_as sg flds i aux data"
    using size view b(2,3) field by (simp add: stored_as_def parts_of_def Let_def)
  then show ?thesis by blast
next
  case False
  let ?f = "flds ! i"
  define aux where "aux = (if is_varlen (fv_type ?f) then le_array 4 (fv_lengths ?f) else [])"
  have eq: "sg_fields sg = flds" "written_view sg i = None" "sg_compression_kinds sg ! i = CkNone"
    using l False kinds i by (simp_all add: loaded_from_def written_view_def uses_compressed_def)
  have inv: "fv_inv ?f" "fv_type ?f \<noteq> kObject" using f by (simp_all add: storable_def)
  have "length aux + length (field_storage ?f) + 8 * length (validity_copy ?f) \<le> column_size ?f"
    using raw_sizes_eq [OF inv(1)] by (simp add: column_size_def aux_def)
  then have "stored_as sg flds i aux (field_storage ?f)"
    using eq size inv by (simp add: stored_as_def parts_of_def readable_def aux_def Let_def)
  then show ?thesis by blast
qed

section \<open>The file\<close>

definition file_size :: "field_vector list \<Rightarrow> nat" where
  "file_size flds = kSegmentHeaderSize + kColumnHeaderSize * length flds + sum_list (map column_size flds)"

lemma drop_concat_chunks:
  assumes "\<forall>x\<in>set xs. length (g x) = n" and "i < length xs"
  shows "drop (n * i) (concat (map g xs) @ rest) = g (xs ! i) @ concat (map g (drop (Suc i) xs)) @ rest"
  using assms
proof (induction xs arbitrary: i)
  case Nil
  then show ?case by simp
next
  case (Cons x xs)
  then show ?case by (cases i) auto
qed

lemma length_concat_chunks: "\<forall>x\<in>set xs. length (g x) = n \<Longrightarrow> length (concat (map g xs)) = n * length xs"
  by (induction xs) auto

lemma read_columns_ok:
  assumes base: "base = pre @ concat (map (column_bytes aux data words) [0..<length flds])"
    and len: "length base < 2 ^ 64"
    and cols: "\<And>i. i < length flds \<Longrightarrow> column_at base (pre @ concat (map (column_bytes aux data words) [0..<i]))
         (aux i) (data i) (words i) (of_nat (length (pre @ concat (map (column_bytes aux data words) [0..<i])))) (columns ! i) \<Longrightarrow>
       \<exists>g. read_column base h (columns ! i) i (of_nat (length (pre @ concat (map (column_bytes aux data words) [0..<i])))) =
         Some (Some (g, of_nat (length (pre @ concat (map (column_bytes aux data words) [0..<Suc i]))))) \<and> read_back (flds ! i) g"
    and head: "\<And>i. i < length flds \<Longrightarrow> ch_data_bytes (columns ! i) = of_nat (length (data i)) \<and>
       ch_aux_bytes (columns ! i) = of_nat (length (aux i)) \<and> ch_validity_words (columns ! i) = of_nat (length (words i))"
  shows "\<exists>gs off. for_ub 0 (length flds) (read_columns_step base h columns) (True, [], of_nat (length pre)) = Some (True, gs, off) \<and>
           list_all2 read_back flds gs"
proof -
  let ?upto = "\<lambda>i. pre @ concat (map (column_bytes aux data words) [0..<i])"
  define P where "P i s \<longleftrightarrow> (\<exists>gs. s = (True, gs, of_nat (length (?upto i))) \<and> list_all2 read_back (take i flds) gs)"
    for i and s :: "bool \<times> field_vector list \<times> u64"
  have "\<exists>s. for_ub 0 (length flds) (read_columns_step base h columns) (True, [], of_nat (length pre)) = Some s \<and> P (length flds) s"
  proof (rule for_ub_inv)
    show "P 0 (True, [], of_nat (length pre))" by (simp add: P_def)
  next
    fix i s
    assume i: "i < length flds" and "P i s"
    then obtain gs where s: "s = (True, gs, of_nat (length (?upto i)))" "list_all2 read_back (take i flds) gs"
      by (auto simp: P_def)
    have "[0..<length flds] = [0..<i] @ i # [Suc i..<length flds]"
      using i upt_add_eq_append [of 0 i "length flds - i"] by (simp add: upt_conv_Cons)
    then have "base = ?upto i @ aux i @ data i @ le_array 8 (words i) @
        concat (map (column_bytes aux data words) [Suc i..<length flds])"
      by (simp add: base column_bytes_def)
    then have "column_at base (?upto i) (aux i) (data i) (words i) (of_nat (length (?upto i))) (columns ! i)"
      using head [OF i] len unfolding column_at_def by blast
    with cols [OF i] obtain g where "read_column base h (columns ! i) i (of_nat (length (?upto i))) =
        Some (Some (g, of_nat (length (?upto (Suc i)))))" "read_back (flds ! i) g" by blast
    then show "\<exists>t'. read_columns_step base h columns i s = Some t' \<and> P (Suc i) t'"
      using s i by (auto simp: read_columns_step_def P_def take_Suc_conv_app_nth intro: list_all2_appendI)
  qed simp
  then show ?thesis by (auto simp: P_def)
qed

lemma sum_list_bound:
  assumes "\<And>i. i < length xs \<Longrightarrow> length (g i) \<le> c (xs ! i)"
  shows "length (concat (map g [0..<length xs])) \<le> sum_list (map c xs)"
proof -
  have "length (concat (map g [0..<k])) \<le> sum_list (map c (take k xs))" if "k \<le> length xs" for k
    using that
  proof (induction k)
    case 0
    then show ?case by simp
  next
    case (Suc k)
    then have "length (g k) \<le> c (xs ! k)" using assms by simp
    with Suc show ?case by (simp add: take_Suc_conv_app_nth)
  qed
  from this [of "length xs"] show ?thesis by simp
qed

text \<open>The headers of a file, written and read.\<close>

lemma file_headers:
  assumes base: "base = segment_header_bytes h @ concat (map column_header_bytes cols) @ body"
    and pad: "\<forall>c\<in>set cols. length (ch_padding c) = 5"
  shows "segment_header_of base = h"
    and "length (segment_header_bytes h @ concat (map column_header_bytes cols)) =
         kSegmentHeaderSize + length cols * kColumnHeaderSize"
    and "map (\<lambda>i. column_header_of (drop (kSegmentHeaderSize + i * kColumnHeaderSize) base)) [0..<length cols] = cols"
proof -
  show "segment_header_of base = h" by (simp add: base segment_header_of_bytes)
  have len: "\<forall>c\<in>set cols. length (column_header_bytes c) = kColumnHeaderSize"
    using pad length_column_header_bytes by simp
  show "length (segment_header_bytes h @ concat (map column_header_bytes cols)) =
         kSegmentHeaderSize + length cols * kColumnHeaderSize"
    using length_concat_chunks [OF len] by (simp add: mult.commute)
  show "map (\<lambda>i. column_header_of (drop (kSegmentHeaderSize + i * kColumnHeaderSize) base)) [0..<length cols] = cols"
  proof (rule nth_equalityI)
    fix i
    assume "i < length (map (\<lambda>i. column_header_of (drop (kSegmentHeaderSize + i * kColumnHeaderSize) base)) [0..<length cols])"
    then have i: "i < length cols" by simp
    have "drop (kSegmentHeaderSize + i * kColumnHeaderSize) base =
        drop (kColumnHeaderSize * i) (concat (map column_header_bytes cols) @ body)"
      by (simp add: base mult.commute)
    also have "\<dots> = column_header_bytes (cols ! i) @ concat (map column_header_bytes (drop (Suc i) cols)) @ body"
      by (rule drop_concat_chunks [OF len i])
    finally show "map (\<lambda>i. column_header_of (drop (kSegmentHeaderSize + i * kColumnHeaderSize) base)) [0..<length cols] ! i =
        cols ! i"
      using i pad column_header_of_bytes by simp
  qed simp
qed

text \<open>A file whose columns can be read is a segment.\<close>

lemma Read_file:
  assumes base: "base = segment_header_bytes h @ concat (map column_header_bytes cols) @ body"
    and pad: "\<forall>c\<in>set cols. length (ch_padding c) = 5"
    and h: "sh_magic h = 0x4D434442" "sh_version h = 1" "unat (sh_field_count h) = length cols"
    and rd: "sr_is_open r" "fs (sr_path r) = Some base" "io_can_map io"
      "sr_expected_schema_fingerprint r = 0 \<or> sr_expected_schema_fingerprint r = sh_schema_fingerprint h"
    and loop: "for_ub 0 (length cols) (read_columns_step base h cols)
      (True, [], of_nat (kSegmentHeaderSize + length cols * kColumnHeaderSize)) = Some (True, gs, off)"
  shows "SegmentReader_Read cfg io fs (Some old) r =
     map_option (\<lambda>sg. (True, Some sg, r\<lparr>sr_column_headers := cols, sr_header := h\<rparr>))
       (segment_load cfg (unat (sh_row_capacity h)) (unat (sh_row_count h)) gs False)"
proof -
  have len: "length base = kSegmentHeaderSize + length cols * kColumnHeaderSize + length body"
    using file_headers(2) [OF base pad] by (simp add: base)
  have "\<not> (length base < kSegmentHeaderSize \<or> \<not> io_can_map io)"
    "\<not> length base < kSegmentHeaderSize + length cols * kColumnHeaderSize"
    using len rd(3) by simp_all
  moreover have "\<not> (sr_expected_schema_fingerprint r \<noteq> 0 \<and> sh_schema_fingerprint h \<noteq> sr_expected_schema_fingerprint r)"
    using rd(4) by auto
  ultimately show ?thesis
    using rd(1,2) h loop file_headers(1,3) [OF base pad]
    by (cases "segment_load cfg (unat (sh_row_capacity h)) (unat (sh_row_count h)) gs False")
       (simp_all add: SegmentReader_Read_def Let_def)
qed

lemma load_columns:
  assumes "list_all2 read_back flds gs" and "n \<le> cap" and "ResolveRowCount flds n = n"
  shows "\<exists>sg. segment_load cfg cap n gs False = Some sg \<and> sg_row_count sg = n \<and> sg_row_capacity sg = cap \<and>
           (sg_sealed sg \<longleftrightarrow> cap \<le> n) \<and> sg_fields sg = gs"
proof -
  have inv: "\<forall>f\<in>set gs. fv_inv f" and sizes: "map fv_size gs = map fv_size flds"
    using assms(1) by (auto simp: list_all2_conv_all_nth in_set_conv_nth read_back_def intro!: nth_equalityI)
  have "ResolveRowCount gs n = n"
    using assms(3) sizes by (cases gs; cases flds) (auto simp: ResolveRowCount_def split: if_splits)
  with no_bad_reads [OF inv] assms(2) show ?thesis
    by (auto simp: segment_load_def ComputeStats_def segment_blank_def Let_def)
qed

lemma file_roundtrip:
  assumes flds: "\<forall>f\<in>set flds. storable f \<and> fv_size f = rows" and rows: "ResolveRowCount flds n = rows" "rows \<le> cap"
    and cap: "cap < 2 ^ 64" and size: "file_size flds < 2 ^ 64" "length flds < 2 ^ 32"
    and kinds: "rows = cap \<or> (\<forall>f\<in>set flds. chosen_kind cfg f = CkNone)"
    and sg: "segment_new cfg cap n flds = Some sg"
    and io: "path \<noteq> []" "fs path = None" "io_can_create io" "io_fsync_ok io" "io_can_map io"
    and fp: "fingerprint = 0 \<or> fingerprint = segment_SchemaFingerprint sg"
  shows "\<exists>w' fs' sg' r'.
     SegmentWriter_Write io sg (snd (SegmentWriter_Open path segment_writer_new)) fs = Some (True, w', fs') \<and>
     SegmentReader_Read cfg' io fs' (Some old)
       (SetExpectedSchemaFingerprint fingerprint (snd (SegmentReader_Open path segment_reader_new))) =
       Some (True, Some sg', r') \<and>
     sg_row_count sg' = sg_row_count sg \<and> sg_row_capacity sg' = sg_row_capacity sg \<and>
     sg_sealed sg' = sg_sealed sg \<and> list_all2 read_back flds (sg_fields sg')"
proof -
  let ?k = "length flds"
  have inv: "\<forall>f\<in>set flds. fv_inv f" using flds by (auto simp: storable_def)
  have l: "loaded_from cfg cap n flds sg" using segment_new_loaded [OF inv sg] .
  have meta: "sg_row_count sg = rows" "sg_row_capacity sg = cap" "length (sg_fields sg) = ?k" "sg_sealed sg \<longleftrightarrow> cap \<le> rows"
    "length (sg_compression_kinds sg) = ?k"
    using l rows by (auto simp: loaded_from_def capped_rows_def)
  have csize: "column_size f < 2 ^ 64" if "f \<in> set flds" for f
    using size(1) member_le_sum_list [of "column_size f" "map column_size flds"] that by (auto simp: file_size_def)
  have "\<forall>i. \<exists>p. i < ?k \<longrightarrow> stored_as sg flds i (fst p) (snd p)"
    using segment_stored [OF l] flds csize kinds meta(4) by fastforce
  then obtain ad where ad: "\<forall>i<?k. stored_as sg flds i (fst (ad i)) (snd (ad i))" by metis
  define aux data where "aux i = fst (ad i)" and "data i = snd (ad i)" for i
  with ad have st: "\<And>i. i < ?k \<Longrightarrow> stored_as sg flds i (aux i) (data i)" by (simp add: aux_def data_def)
  define words where "words i = validity_copy (flds ! i)" for i
  have parts: "all_parts sg aux data words"
    using st flds meta by (simp add: all_parts_def stored_as_def words_def Let_def)
  let ?w = "snd (SegmentWriter_Open path segment_writer_new)"
  let ?h = "written_header sg (sw_header ?w)"
  let ?body = "concat (map (column_bytes aux data words) [0..<?k])"
  have w: "sw_is_open ?w" "fs (sw_path ?w) = None" "sw_path ?w = path" using io by (simp_all add: SegmentWriter_Open_def)
  from Write_file [of sg aux data words ?w fs io, OF parts w(1,2) io(3)] obtain cols where
    wrote: "SegmentWriter_Write io sg ?w fs = Some (True, ?w\<lparr>sw_header := ?h\<rparr>,
      fs(path \<mapsto> segment_header_bytes ?h @ concat (map column_header_bytes cols) @ ?body))"
    and cols: "length cols = ?k" "\<forall>i<?k. header_for sg i (aux i) (data i) (words i) (cols ! i)"
    using io(4) w(3) meta(3) by auto
  let ?pre = "segment_header_bytes ?h @ concat (map column_header_bytes cols)"
  define base where "base = ?pre @ ?body"
  have pad: "\<forall>c\<in>set cols. length (ch_padding c) = 5" using cols by (auto simp: header_for_def in_set_conv_nth)
  note head = file_headers [OF base_def [unfolded append_assoc] pad]
  have "length (column_bytes aux data words i) \<le> column_size (flds ! i)" if "i < ?k" for i
    using st [OF that] by (simp add: stored_as_def column_bytes_def words_def Let_def)
  then have body: "length ?body \<le> sum_list (map column_size flds)" by (rule sum_list_bound)
  have len: "length base < 2 ^ 64"
    using body size(1) head(2) cols(1) by (simp add: base_def file_size_def mult.commute)
  have h: "sh_magic ?h = 0x4D434442" "sh_version ?h = 1" "sh_row_count ?h = of_nat rows" "sh_row_capacity ?h = of_nat cap"
    "sh_schema_fingerprint ?h = segment_SchemaFingerprint sg" "unat (sh_field_count ?h) = ?k"
    using size(2) meta
    by (simp_all add: written_header_def SegmentWriter_Open_def segment_writer_new_def segment_header_new_def
      unat_of_nat take_bit_nat_eq_self)
  have "\<exists>gs off. for_ub 0 ?k (read_columns_step base ?h cols) (True, [], of_nat (length ?pre)) = Some (True, gs, off) \<and>
      list_all2 read_back flds gs"
  proof (rule read_columns_ok [OF base_def len])
    fix i
    assume i: "i < ?k" and at: "column_at base (?pre @ concat (map (column_bytes aux data words) [0..<i]))
      (aux i) (data i) (words i) (of_nat (length (?pre @ concat (map (column_bytes aux data words) [0..<i])))) (cols ! i)"
    have w: "words i = validity_copy (flds ! i)" by (simp add: words_def)
    have c: "header_for sg i (aux i) (data i) (words i) (cols ! i)" and s: "stored_as sg flds i (aux i) (data i)"
      and f: "storable (flds ! i)" "fv_size (flds ! i) = rows"
      using cols(2) st i flds by auto
    show "\<exists>g. read_column base ?h (cols ! i) i (of_nat (length (?pre @ concat (map (column_bytes aux data words) [0..<i])))) =
        Some (Some (g, of_nat (length (?pre @ concat (map (column_bytes aux data words) [0..<Suc i]))))) \<and> read_back (flds ! i) g"
      using read_column_ok [OF at [unfolded w] f(1), of "sg_compression_kinds sg ! i" ?h i] c s f(2) h(3) i meta(5)
      by (simp add: header_for_def stored_as_def column_bytes_def [of _ _ _ i] w Let_def)
  next
    fix i
    assume "i < ?k"
    with cols(2) show "ch_data_bytes (cols ! i) = of_nat (length (data i)) \<and>
        ch_aux_bytes (cols ! i) = of_nat (length (aux i)) \<and> ch_validity_words (cols ! i) = of_nat (length (words i))"
      by (simp add: header_for_def)
  qed
  then obtain gs off where gs: "for_ub 0 ?k (read_columns_step base ?h cols) (True, [], of_nat (length ?pre)) = Some (True, gs, off)"
    "list_all2 read_back flds gs" by blast
  have "SegmentReader_Read cfg' io (fs(path \<mapsto> base)) (Some old)
      (SetExpectedSchemaFingerprint fingerprint (snd (SegmentReader_Open path segment_reader_new))) =
     map_option (\<lambda>sg. (True, Some sg, (SetExpectedSchemaFingerprint fingerprint (snd (SegmentReader_Open path segment_reader_new)))
       \<lparr>sr_column_headers := cols, sr_header := ?h\<rparr>)) (segment_load cfg' cap rows gs False)"
    using Read_file [OF base_def [unfolded append_assoc] pad h(1,2), of _ _ io gs off] gs(1) head(2) h(3-6) cols(1) io cap rows fp
    by (simp add: SegmentReader_Open_def SetExpectedSchemaFingerprint_def unat_of_nat_u64)
  moreover have "ResolveRowCount flds rows = rows" using rows(1) by (auto simp: ResolveRowCount_def split: if_splits)
  then obtain sg' where "segment_load cfg' cap rows gs False = Some sg'" "sg_row_count sg' = rows" "sg_row_capacity sg' = cap"
    "sg_sealed sg' \<longleftrightarrow> cap \<le> rows" "sg_fields sg' = gs"
    using load_columns [OF gs(2) rows(2)] by blast
  ultimately show ?thesis using wrote gs(2) meta by (auto simp: base_def)
qed

text \<open>
  C3. Segment files round trip: a segment built from columns that can be stored (no dictionary or
  object columns, integers a double represents) and written to a new path is read back, by a
  reader that expects its schema fingerprint or none, as a segment of the same capacity and row
  count whose columns have the types and cells of the columns it was built from, whichever
  encodings were kept, in any configuration; if it was not full, provided no encoding had been
  chosen for it.  Every read and write stays in bounds.
\<close>
theorem segment_file_roundtrip:
  assumes flds: "\<forall>f\<in>set flds. storable f \<and> fv_size f = rows" and rows: "ResolveRowCount flds n = rows" "rows \<le> cap"
    and cap: "cap < 2 ^ 64" and size: "file_size flds < 2 ^ 64" "length flds < 2 ^ 32"
    and kinds: "rows = cap \<or> (\<forall>f\<in>set flds. ChooseCompression cfg (column_ComputeStats f) (fv_type f) = CkNone)"
    and sg: "segment_new cfg cap n flds = Some sg"
    and io: "path \<noteq> []" "fs path = None" "io_can_create io" "io_fsync_ok io" "io_can_map io"
    and fp: "fingerprint = 0 \<or> fingerprint = segment_SchemaFingerprint sg"
  shows "\<exists>w' fs' sg' r'.
     SegmentWriter_Write io sg (snd (SegmentWriter_Open path segment_writer_new)) fs = Some (True, w', fs') \<and>
     SegmentReader_Read cfg' io fs' (Some old)
       (SetExpectedSchemaFingerprint fingerprint (snd (SegmentReader_Open path segment_reader_new))) =
       Some (True, Some sg', r') \<and>
     sg_row_count sg' = sg_row_count sg \<and> sg_row_capacity sg' = sg_row_capacity sg \<and>
     sg_sealed sg' = sg_sealed sg \<and> list_all2 read_back flds (sg_fields sg')"
  using assms by (rule file_roundtrip)

theorem segment_file_roundtrip_witness:
  "\<exists>sg w' fs' sg' r' g.
     segment_new g_compression_config 3 0 [example_column] = Some sg \<and>
     SegmentWriter_Write \<lparr>io_can_create = True, io_fsync_ok = True, io_can_map = True\<rparr> sg
       (snd (SegmentWriter_Open [97] segment_writer_new)) (\<lambda>_. None) = Some (True, w', fs') \<and>
     SegmentReader_Read g_compression_config \<lparr>io_can_create = True, io_fsync_ok = True, io_can_map = True\<rparr> fs'
       (Some (segment_blank 0)) (SetExpectedSchemaFingerprint 0 (snd (SegmentReader_Open [97] segment_reader_new))) =
       Some (True, Some sg', r') \<and>
     sg_fields sg' = [g] \<and> fv_cells g = fv_cells example_column"
proof -
  have inv: "\<forall>f\<in>set [example_column]. fv_inv f" by (simp add: example_column_inv(1))
  have e: "storable example_column" "fv_size example_column = 3"
    using example_column_inv(1)
    by (auto simp: storable_def exact_ints_def bool_cells_ok_def example_column_cells less_3)
  obtain sg where sg: "segment_new g_compression_config 3 0 [example_column] = Some sg"
    using segment_new_built [OF inv] by blast
  have "length (validity_copy example_column) = 1" by code_simp
  then have size: "file_size [example_column] < 2 ^ 64"
    by (simp add: file_size_def column_size_def raw_data_bytes_def raw_aux_bytes_def example_column_cells is_varlen_def
      kSegmentHeaderSize_def kColumnHeaderSize_def)
  show ?thesis
    using segment_file_roundtrip [of "[example_column]" 3 0 3 g_compression_config sg "[97]" "\<lambda>_. None"
      "\<lparr>io_can_create = True, io_fsync_ok = True, io_can_map = True\<rparr>" 0 g_compression_config "segment_blank 0"] e sg size
    by (auto simp: ResolveRowCount_def list_all2_Cons1 read_back_def)
qed

end
