(* ===== verification/Catalog.thy ===== *)
theory Catalog
  imports Hash Memory "HOL-Library.AList"
begin

text \<open>
  \<open>rag_cpp/src/catalog.cpp\<close>: the append-only binary catalog of MimicRAG.  A file is the list of
  its bytes; the file system maps paths to files, and creating, removing, resizing and renaming
  files succeeds.  Exceptions are the values of \<open>catalog_error\<close>; an operation returns the file
  system also when it throws.  A float is its 32-bit pattern.

  JSON values and Zstandard are not under \<open>src/\<close>: they are the type \<open>'j\<close> and the functions of a
  \<open>library\<close>.  \<open>lib_value j key\<close> is \<open>j.value(key, "")\<close>; \<open>None\<close> is a thrown exception or an error
  code.
\<close>

section \<open>State\<close>

type_synonym path = "u8 list"
type_synonym filesystem = "path \<Rightarrow> u8 list option"

datatype catalog_error =
    CannotCreate | MetadataTooLarge | JsonError | CompressionFailed | ShapeTooLarge | RaggedVectors
  | VectorBlockTooLarge | CannotAppend | FlushFailed | CannotOpen | BadFileHeader | BadRecordHeader
  | OutOfMemory | ChecksumMismatch | DecompressionFailed | MissingId

record 'j library =
  lib_dump :: "'j \<Rightarrow> u8 list option"
  lib_parse :: "u8 list \<Rightarrow> 'j option"
  lib_value :: "'j \<Rightarrow> u8 list \<Rightarrow> u8 list option"
  lib_null :: 'j
  lib_is_null :: "'j \<Rightarrow> bool"
  lib_compress :: "u8 list \<Rightarrow> u8 list option"
  lib_decompress :: "u8 list \<Rightarrow> nat \<Rightarrow> u8 list option"

record 'j catalog_record =
  cr_document :: 'j
  cr_remote :: "u32 list list"
  cr_local :: "u32 list list"

text \<open>
  What the file system does to one write: whether the stream opens, and how many bytes of it
  arrive (\<open>None\<close>: all of them, and the flush succeeds).
\<close>

record disk =
  dk_can_open :: bool
  dk_written :: "nat option"

definition disk_ok :: disk where
  "disk_ok = \<lparr>dk_can_open = True, dk_written = None\<rparr>"

section \<open>Format\<close>

definition kFileMagic :: "u8 list" where "kFileMagic = [77, 82, 71, 67, 65, 84, 49, 0]"
definition kRecordMagic :: u32 where "kRecordMagic = 0x31474152"
definition kVersion :: u32 where "kVersion = 1"
definition kRecordHeaderBytes :: u32 where "kRecordHeaderBytes = 48"
definition kMaximumMetadataBytes :: nat where "kMaximumMetadataBytes = 64 * 1024 * 1024"
definition kMaximumVectorBytes :: nat where "kMaximumVectorBytes = 16 * 1024 * 1024 * 1024"

definition catalog_hash_seed :: u64 where "catalog_hash_seed = 1469598103934665603"

fun catalog_HashBytes :: "u64 \<Rightarrow> u8 list \<Rightarrow> u64" where
  "catalog_HashBytes hash [] = hash"
| "catalog_HashBytes hash (b # bs) = catalog_HashBytes ((hash XOR ucast b) * 1099511628211) bs"

definition file_header :: "u8 list" where
  "file_header = kFileMagic @ le_bytes 4 kVersion @ le_bytes 4 (0 :: u32)"

text \<open>The number of vectors and their dimension.\<close>

definition Validate :: "u32 list list \<Rightarrow> catalog_error + (u32 \<times> u32)" where
  "Validate vectors =
     (case vectors of
        [] \<Rightarrow> Inr (0, 0)
      | v # _ \<Rightarrow>
          if length vectors > 2 ^ 32 - 1 \<or> length v > 2 ^ 32 - 1 then Inl ShapeTooLarge
          else
            let count = (of_nat (length vectors) :: u32); dimension = (of_nat (length v) :: u32) in
            if list_ex (\<lambda>w. length w \<noteq> unat dimension) vectors then Inl RaggedVectors
            else if unat (ucast count * ucast dimension * 4 :: u64) > kMaximumVectorBytes then Inl VectorBlockTooLarge
            else Inr (count, dimension))"

definition vector_bytes :: "u32 list list \<Rightarrow> u8 list" where
  "vector_bytes vectors = concat (map (le_array 4) vectors)"

definition record_hash :: "u8 list \<Rightarrow> u32 list list \<Rightarrow> u32 list list \<Rightarrow> u64" where
  "record_hash compressed remote local =
     fold (\<lambda>v hash. catalog_HashBytes hash (le_array 4 v)) local
       (fold (\<lambda>v hash. catalog_HashBytes hash (le_array 4 v)) remote
         (catalog_HashBytes catalog_hash_seed compressed))"

definition record_header :: "nat \<Rightarrow> nat \<Rightarrow> u32 \<times> u32 \<Rightarrow> u32 \<times> u32 \<Rightarrow> u64 \<Rightarrow> u8 list" where
  "record_header compressed_size metadata_size remote local hash =
     le_bytes 4 kRecordMagic @ le_bytes 4 kRecordHeaderBytes @
     le_bytes 8 (of_nat compressed_size :: u64) @ le_bytes 8 (of_nat metadata_size :: u64) @
     le_bytes 4 (fst remote) @ le_bytes 4 (snd remote) @ le_bytes 4 (fst local) @ le_bytes 4 (snd local) @
     le_bytes 8 hash"

section \<open>Appending\<close>

definition Exists :: "path \<Rightarrow> filesystem \<Rightarrow> bool" where
  "Exists path fs = (case fs path of None \<Rightarrow> False | Some bs \<Rightarrow> length bs \<ge> 16)"

definition Initialize :: "disk \<Rightarrow> path \<Rightarrow> filesystem \<Rightarrow> (catalog_error + unit) \<times> filesystem" where
  "Initialize dk path fs =
     (if \<not> dk_can_open dk then (Inl CannotCreate, fs) else (Inr (), fs(path \<mapsto> file_header)))"

text \<open>The bytes \<open>Append\<close> writes for a record, or what it throws before it opens the file.\<close>

definition record_bytes :: "'j library \<Rightarrow> 'j catalog_record \<Rightarrow> catalog_error + u8 list" where
  "record_bytes lib r =
     (case lib_dump lib (cr_document r) of
        None \<Rightarrow> Inl JsonError
      | Some metadata \<Rightarrow>
          if length metadata > kMaximumMetadataBytes then Inl MetadataTooLarge
          else case lib_compress lib metadata of
            None \<Rightarrow> Inl CompressionFailed
          | Some compressed \<Rightarrow>
              (case Validate (cr_remote r) of
                 Inl e \<Rightarrow> Inl e
               | Inr remote \<Rightarrow>
                   (case Validate (cr_local r) of
                      Inl e \<Rightarrow> Inl e
                    | Inr local \<Rightarrow>
                        Inr (record_header (length compressed) (length metadata) remote local
                               (record_hash compressed (cr_remote r) (cr_local r)) @
                             compressed @ vector_bytes (cr_remote r) @ vector_bytes (cr_local r)))))"

definition catalog_Append ::
  "'j library \<Rightarrow> disk \<Rightarrow> 'j catalog_record \<Rightarrow> path \<Rightarrow> filesystem \<Rightarrow> (catalog_error + unit) \<times> filesystem" where
  "catalog_Append lib dk r path fs =
     (case (if \<not> Exists path fs then Initialize dk path fs else (Inr (), fs)) of
        (Inl e, fs) \<Rightarrow> (Inl e, fs)
      | (Inr _, fs) \<Rightarrow>
          (case record_bytes lib r of
             Inl e \<Rightarrow> (Inl e, fs)
           | Inr bs \<Rightarrow>
               if \<not> dk_can_open dk then (Inl CannotAppend, fs)
               else
                 let old = (case fs path of None \<Rightarrow> [] | Some old \<Rightarrow> old)
                 in case dk_written dk of
                      None \<Rightarrow> (Inr (), fs(path \<mapsto> old @ bs))
                    | Some k \<Rightarrow> (Inl FlushFailed, fs(path \<mapsto> old @ take k bs))))"

section \<open>Reading a record\<close>

definition take_bytes :: "nat \<Rightarrow> u8 list \<Rightarrow> (u8 list \<times> u8 list) option" where
  "take_bytes n bs = (if n \<le> length bs then Some (take n bs, drop n bs) else None)"

definition read_u32 :: "u8 list \<Rightarrow> (u32 \<times> u8 list) option" where
  "read_u32 bs = map_option (\<lambda>(b, rest). (le_word b, rest)) (take_bytes 4 bs)"

definition read_u64 :: "u8 list \<Rightarrow> (u64 \<times> u8 list) option" where
  "read_u64 bs = map_option (\<lambda>(b, rest). (le_word b, rest)) (take_bytes 8 bs)"

text \<open>
  \<open>ReadVectors\<close>: \<open>Inl\<close> is a thrown exception, \<open>OutOfMemory\<close> when the vectors have more bytes than
  \<open>size_t\<close> counts and any other value for the \<open>runtime_error\<close>s.
\<close>

fun read_vector_rows :: "nat \<Rightarrow> nat \<Rightarrow> u8 list \<Rightarrow> u64 \<Rightarrow> (u32 list list \<times> u8 list \<times> u64) option" where
  "read_vector_rows 0 dimension bs hash = Some ([], bs, hash)"
| "read_vector_rows (Suc n) dimension bs hash =
     (case take_bytes (4 * dimension) bs of
        None \<Rightarrow> None
      | Some (b, rest) \<Rightarrow>
          map_option (\<lambda>(vs, r). (le_words 4 dimension b # vs, r))
            (read_vector_rows n dimension rest (catalog_HashBytes hash b)))"

definition ReadVectors ::
  "u8 list \<Rightarrow> u32 \<Rightarrow> u32 \<Rightarrow> u64 \<Rightarrow> catalog_error + (u32 list list \<times> u8 list \<times> u64)" where
  "ReadVectors bs count dimension hash =
     (if unat (ucast count * ucast dimension * 4 :: u64) > kMaximumVectorBytes then Inl VectorBlockTooLarge
      else if unat count * unat dimension * 4 \<ge> 2 ^ 64 then Inl OutOfMemory
      else case read_vector_rows (unat count) (unat dimension) bs hash of
             None \<Rightarrow> Inl VectorBlockTooLarge
           | Some r \<Rightarrow> Inr r)"

text \<open>
  One round of the loop of \<open>Replay\<close> on the rest of the file: the end, a tail to be cut off, an
  exception, or a record and what follows it.
\<close>

datatype 'r frame = EndOfFile | Tail | Broken catalog_error | Complete 'r "u8 list"

definition read_header ::
  "u8 list \<Rightarrow> (u32 \<times> u64 \<times> u64 \<times> u32 \<times> u32 \<times> u32 \<times> u32 \<times> u64 \<times> u8 list) option" where
  "read_header bs =
     do { (header_bytes, bs) \<leftarrow> read_u32 bs;
          (compressed_size, bs) \<leftarrow> read_u64 bs;
          (metadata_size, bs) \<leftarrow> read_u64 bs;
          (remote_count, bs) \<leftarrow> read_u32 bs;
          (remote_dimension, bs) \<leftarrow> read_u32 bs;
          (local_count, bs) \<leftarrow> read_u32 bs;
          (local_dimension, bs) \<leftarrow> read_u32 bs;
          (expected_hash, bs) \<leftarrow> read_u64 bs;
          Some (header_bytes, compressed_size, metadata_size, remote_count, remote_dimension,
                local_count, local_dimension, expected_hash, bs) }"

definition read_metadata ::
  "'j library \<Rightarrow> u8 list \<Rightarrow> nat \<Rightarrow> u32 list list \<Rightarrow> u32 list list \<Rightarrow> u8 list \<Rightarrow> 'j catalog_record frame" where
  "read_metadata lib compressed metadata_size remote local rest =
     (case lib_decompress lib compressed metadata_size of
        None \<Rightarrow> Broken DecompressionFailed
      | Some metadata \<Rightarrow>
          if length metadata \<noteq> metadata_size then Broken DecompressionFailed
          else case lib_parse lib metadata of
                 None \<Rightarrow> Broken JsonError
               | Some document \<Rightarrow>
                   Complete \<lparr>cr_document = document, cr_remote = remote, cr_local = local\<rparr> rest)"

definition read_record :: "'j library \<Rightarrow> u8 list \<Rightarrow> 'j catalog_record frame" where
  "read_record lib bs =
     (if bs = [] then EndOfFile
      else case read_u32 bs of
        None \<Rightarrow> Tail
      | Some (record_magic, bs) \<Rightarrow>
          (case read_header bs of
             None \<Rightarrow> Tail
           | Some (header_bytes, compressed_size, metadata_size, remote_count, remote_dimension,
                   local_count, local_dimension, expected_hash, bs) \<Rightarrow>
               if record_magic \<noteq> kRecordMagic \<or> header_bytes \<noteq> kRecordHeaderBytes \<or>
                  unat compressed_size > kMaximumMetadataBytes \<or> unat metadata_size > kMaximumMetadataBytes
               then Broken BadRecordHeader
               else
                 case take_bytes (unat compressed_size) bs of
                   None \<Rightarrow> Tail
                 | Some (compressed, bs) \<Rightarrow>
                     (case ReadVectors bs remote_count remote_dimension
                             (catalog_HashBytes catalog_hash_seed compressed) of
                        Inl OutOfMemory \<Rightarrow> Broken OutOfMemory
                      | Inl _ \<Rightarrow> Tail
                      | Inr (remote, bs, hash) \<Rightarrow>
                          (case ReadVectors bs local_count local_dimension hash of
                             Inl OutOfMemory \<Rightarrow> Broken OutOfMemory
                           | Inl _ \<Rightarrow> Tail
                           | Inr (local, bs, hash) \<Rightarrow>
                               if hash \<noteq> expected_hash then Broken ChecksumMismatch
                               else read_metadata lib compressed (unat metadata_size) remote local bs))))"

section \<open>Replaying\<close>

text \<open>
  The loop over the rest \<open>bs\<close> of a file whose first \<open>good\<close> bytes hold the records already consumed.
  The callback \<open>consume\<close> changes the state \<open>s\<close> it captures, or throws.  The result has the state,
  the number of records and the length the file is cut to.
\<close>

lemma take_bytes_length: "take_bytes n bs = Some (b, rest) \<Longrightarrow> length bs = length b + length rest"
  by (auto simp: take_bytes_def split: if_splits)

lemma read_u32_length: "read_u32 bs = Some (w, rest) \<Longrightarrow> length rest < length bs"
  by (auto simp: read_u32_def take_bytes_def split: if_splits)

lemma read_u64_length: "read_u64 bs = Some (w, rest) \<Longrightarrow> length rest < length bs"
  by (auto simp: read_u64_def take_bytes_def split: if_splits)

lemma read_header_length:
  "read_header bs = Some (hb, cs, ms, r_count, r_dim, l_count, l_dim, h, rest) \<Longrightarrow> length rest < length bs"
  by (auto simp: read_header_def split: Option.bind_splits dest!: read_u32_length read_u64_length)

lemma read_vector_rows_length: "read_vector_rows n d bs hash = Some (vs, rest, hash') \<Longrightarrow> length rest \<le> length bs"
  by (induction n arbitrary: bs hash vs) (auto split: option.splits dest!: take_bytes_length, force)

lemma ReadVectors_length: "ReadVectors bs c d hash = Inr (vs, rest, hash') \<Longrightarrow> length rest \<le> length bs"
  by (auto simp: ReadVectors_def split: if_splits option.splits dest: read_vector_rows_length)

lemma read_record_length:
  assumes "read_record lib bs = Complete r rest"
  shows "length rest < length bs"
  using assms
  by (auto simp: read_record_def read_metadata_def split: if_splits option.splits sum.splits catalog_error.splits
      dest!: read_u32_length read_header_length take_bytes_length ReadVectors_length)

function replay_loop ::
  "'j library \<Rightarrow> ('j catalog_record \<Rightarrow> 's \<Rightarrow> catalog_error + 's) \<Rightarrow> u8 list \<Rightarrow> nat \<Rightarrow> 's \<Rightarrow> nat \<Rightarrow>
   catalog_error + ('s \<times> nat \<times> nat)" where
  "replay_loop lib consume bs good s records =
     (case read_record lib bs of
        EndOfFile \<Rightarrow> Inr (s, records, good)
      | Tail \<Rightarrow> Inr (s, records, good)
      | Broken e \<Rightarrow> Inl e
      | Complete r rest \<Rightarrow>
          (case consume r s of
             Inl e \<Rightarrow> Inl e
           | Inr s \<Rightarrow> replay_loop lib consume rest (good + (length bs - length rest)) s (records + 1)))"
  by pat_completeness auto
termination
  by (relation "measure (\<lambda>(_, _, bs, _). length bs)") (auto dest: read_record_length)

declare replay_loop.simps [simp del]

definition Replay ::
  "'j library \<Rightarrow> disk \<Rightarrow> ('j catalog_record \<Rightarrow> 's \<Rightarrow> catalog_error + 's) \<Rightarrow> 's \<Rightarrow> path \<Rightarrow> filesystem \<Rightarrow>
   (catalog_error + ('s \<times> nat)) \<times> filesystem" where
  "Replay lib dk consume s path fs =
     (if \<not> Exists path fs then (Inr (s, 0), fs)
      else
        let bs = the (fs path) in
        if \<not> dk_can_open dk then (Inl CannotOpen, fs)
        else if take 8 bs \<noteq> kFileMagic \<or> le_word (take 4 (drop 8 bs)) \<noteq> kVersion then (Inl BadFileHeader, fs)
        else case replay_loop lib consume (drop 16 bs) 16 s 0 of
               Inl e \<Rightarrow> (Inl e, fs)
             | Inr (s, records, good) \<Rightarrow> (Inr (s, records), fs(path \<mapsto> take good bs)))"

section \<open>Inspecting and compacting\<close>

definition key_document_id :: "u8 list" where
  "key_document_id = [100, 111, 99, 117, 109, 101, 110, 116, 95, 105, 100]"

definition key_operation :: "u8 list" where
  "key_operation = [95, 111, 112, 101, 114, 97, 116, 105, 111, 110]"

definition op_delete :: "u8 list" where
  "op_delete = [100, 101, 108, 101, 116, 101]"

definition is_delete :: "'j library \<Rightarrow> 'j \<Rightarrow> bool option" where
  "is_delete lib j = map_option (\<lambda>op. op = op_delete) (lib_value lib j key_operation)"

record inspect_state =
  is_live :: "(u8 list \<times> bool) list"
  is_documents :: nat
  is_tombstones :: nat

definition inspect_record :: "'j library \<Rightarrow> 'j catalog_record \<Rightarrow> inspect_state \<Rightarrow> catalog_error + inspect_state" where
  "inspect_record lib r s =
     (case lib_value lib (cr_document r) key_document_id of
        None \<Rightarrow> Inl JsonError
      | Some doc \<Rightarrow>
          if doc = [] then Inl MissingId
          else case is_delete lib (cr_document r) of
                 None \<Rightarrow> Inl JsonError
               | Some del \<Rightarrow>
                   Inr (if del then s\<lparr>is_live := AList.update doc False (is_live s), is_tombstones := is_tombstones s + 1\<rparr>
                        else s\<lparr>is_live := AList.update doc True (is_live s), is_documents := is_documents s + 1\<rparr>))"

record inspect_result =
  ir_bytes :: nat
  ir_records :: nat
  ir_document_versions :: nat
  ir_tombstones :: nat
  ir_live_documents :: nat

definition Inspect :: "'j library \<Rightarrow> disk \<Rightarrow> path \<Rightarrow> filesystem \<Rightarrow> (catalog_error + inspect_result) \<times> filesystem" where
  "Inspect lib dk path fs =
     (case Replay lib dk (inspect_record lib) \<lparr>is_live = [], is_documents = 0, is_tombstones = 0\<rparr> path fs of
        (Inl e, fs') \<Rightarrow> (Inl e, fs')
      | (Inr (s, records), fs') \<Rightarrow>
          (Inr \<lparr>ir_bytes = (if Exists path fs then length (the (fs path)) else 0), ir_records = records,
                ir_document_versions = is_documents s, ir_tombstones = is_tombstones s,
                ir_live_documents = length (filter snd (is_live s))\<rparr>, fs'))"

text \<open>The callback of \<open>Compact\<close>: an earlier record of the same document is replaced by null.\<close>

definition compact_record ::
  "'j library \<Rightarrow> 'j catalog_record \<Rightarrow> (u8 list \<Rightarrow> nat option) \<times> 'j catalog_record list \<Rightarrow>
   catalog_error + ((u8 list \<Rightarrow> nat option) \<times> 'j catalog_record list)" where
  "compact_record lib r s =
     (case s of (latest, records) \<Rightarrow>
        (case lib_value lib (cr_document r) key_document_id of
           None \<Rightarrow> Inl JsonError
         | Some doc \<Rightarrow>
             if doc = [] then Inl MissingId
             else
               let records = (case latest doc of
                     None \<Rightarrow> records
                   | Some k \<Rightarrow> records[k := (records ! k)\<lparr>cr_document := lib_null lib\<rparr>])
               in Inr (latest(doc \<mapsto> length records), records @ [r])))"

fun append_kept ::
  "'j library \<Rightarrow> disk \<Rightarrow> path \<Rightarrow> 'j catalog_record list \<Rightarrow> nat \<Rightarrow> filesystem \<Rightarrow> (catalog_error + nat) \<times> filesystem" where
  "append_kept lib dk temporary [] retained fs = (Inr retained, fs)"
| "append_kept lib dk temporary (r # rs) retained fs =
     (if lib_is_null lib (cr_document r) then append_kept lib dk temporary rs retained fs
      else case is_delete lib (cr_document r) of
             None \<Rightarrow> (Inl JsonError, fs)
           | Some True \<Rightarrow> append_kept lib dk temporary rs retained fs
           | Some False \<Rightarrow>
               (case catalog_Append lib dk r temporary fs of
                  (Inl e, fs) \<Rightarrow> (Inl e, fs)
                | (Inr _, fs) \<Rightarrow> append_kept lib dk temporary rs (retained + 1) fs))"

definition suffixed :: "path \<Rightarrow> u8 list \<Rightarrow> path" where
  "suffixed path suffix = path @ suffix"

definition dot_compacting :: "u8 list" where
  "dot_compacting = [46, 99, 111, 109, 112, 97, 99, 116, 105, 110, 103]"

definition dot_previous :: "u8 list" where
  "dot_previous = [46, 112, 114, 101, 118, 105, 111, 117, 115]"

definition rename_file :: "path \<Rightarrow> path \<Rightarrow> filesystem \<Rightarrow> filesystem" where
  "rename_file a b fs = (if a = b then fs else (fs(b := fs a))(a := None))"

text \<open>The kept records written to the temporary file and read back.\<close>

definition write_generation ::
  "'j library \<Rightarrow> disk \<Rightarrow> path \<Rightarrow> 'j catalog_record list \<Rightarrow> filesystem \<Rightarrow> (catalog_error + nat) \<times> filesystem" where
  "write_generation lib dk temporary records fs =
     (case append_kept lib dk temporary records 0 (fs(temporary := None)) of
        (Inl e, fs) \<Rightarrow> (Inl e, fs)
      | (Inr retained, fs) \<Rightarrow>
          (case (if \<not> Exists temporary fs then Initialize dk temporary fs else (Inr (), fs)) of
             (Inl e, fs) \<Rightarrow> (Inl e, fs)
           | (Inr _, fs) \<Rightarrow>
               (case Inspect lib dk temporary fs of
                  (Inl e, fs) \<Rightarrow> (Inl e, fs)
                | (Inr _, fs) \<Rightarrow> (Inr retained, fs))))"

text \<open>The generation switch: the file systems after each of its four steps.\<close>

definition switch_generation :: "path \<Rightarrow> filesystem \<Rightarrow> filesystem list" where
  "switch_generation path fs =
     (let temporary = suffixed path dot_compacting; previous = suffixed path dot_previous;
          fs1 = fs(previous := None);
          fs2 = rename_file path previous fs1;
          fs3 = rename_file temporary path fs2
      in [fs1, fs2, fs3, fs3(previous := None)])"

record compact_result =
  co_records_before :: nat
  co_records_after :: nat
  co_bytes_before :: nat
  co_bytes_after :: nat

text \<open>\<open>None\<close> is the answer \<open>catalog_not_found\<close>.\<close>

definition Compact ::
  "'j library \<Rightarrow> disk \<Rightarrow> path \<Rightarrow> filesystem \<Rightarrow> (catalog_error + compact_result option) \<times> filesystem" where
  "Compact lib dk path fs =
     (if \<not> Exists path fs then (Inr None, fs)
      else
        let before = length (the (fs path)) in
        case Replay lib dk (compact_record lib) ((\<lambda>_. None), []) path fs of
          (Inl e, fs) \<Rightarrow> (Inl e, fs)
        | (Inr ((latest, records), _), fs) \<Rightarrow>
            (case write_generation lib dk (suffixed path dot_compacting) records fs of
               (Inl e, fs) \<Rightarrow> (Inl e, fs)
             | (Inr retained, fs) \<Rightarrow>
                 let fs = last (switch_generation path fs)
                 in (Inr (Some \<lparr>co_records_before = length records, co_records_after = retained,
                                co_bytes_before = before, co_bytes_after = length (the (fs path))\<rparr>), fs)))"

end
