(* ===== verification/CatalogProps.thy ===== *)
theory CatalogProps
  imports Catalog
begin

text \<open>
  The catalog is a durable log: what was appended is replayed, a torn tail is cut off, a damaged
  record is detected.  The log of framed records is the locale \<open>framed_log\<close>, interpreted on the
  catalog's records.
\<close>

section \<open>Logs of framed records\<close>

fun consume_all :: "('r \<Rightarrow> 's \<Rightarrow> 'e + 's) \<Rightarrow> 'r list \<Rightarrow> 's \<Rightarrow> 'e + 's" where
  "consume_all consume [] s = Inr s"
| "consume_all consume (r # rs) s = (case consume r s of Inl e \<Rightarrow> Inl e | Inr s \<Rightarrow> consume_all consume rs s)"

definition log_bytes :: "('r \<Rightarrow> u8 list) \<Rightarrow> 'r list \<Rightarrow> u8 list" where
  "log_bytes encode rs = concat (map encode rs)"

lemma log_bytes_simps [simp]:
  "log_bytes encode [] = []" "log_bytes encode (r # rs) = encode r @ log_bytes encode rs"
  "log_bytes encode (rs @ ls) = log_bytes encode rs @ log_bytes encode ls"
  by (simp_all add: log_bytes_def)

locale framed_log =
  fixes valid :: "'r \<Rightarrow> bool"
    and encode :: "'r \<Rightarrow> u8 list"
    and decode :: "u8 list \<Rightarrow> 'r frame"
    and replay :: "('r \<Rightarrow> 's \<Rightarrow> catalog_error + 's) \<Rightarrow> u8 list \<Rightarrow> nat \<Rightarrow> 's \<Rightarrow> nat \<Rightarrow> catalog_error + ('s \<times> nat \<times> nat)"
  assumes decode_Nil: "decode [] = EndOfFile"
    and decode_encode: "valid r \<Longrightarrow> decode (encode r @ rest) = Complete r rest"
    and decode_torn: "valid r \<Longrightarrow> 0 < k \<Longrightarrow> k < length (encode r) \<Longrightarrow> decode (take k (encode r)) = Tail"
    and replay_step: "replay consume bs good s n =
      (case decode bs of
         EndOfFile \<Rightarrow> Inr (s, n, good)
       | Tail \<Rightarrow> Inr (s, n, good)
       | Broken e \<Rightarrow> Inl e
       | Complete r rest \<Rightarrow>
           (case consume r s of
              Inl e \<Rightarrow> Inl e
            | Inr s \<Rightarrow> replay consume rest (good + (length bs - length rest)) s (n + 1)))"
begin

lemma replay_log:
  assumes "\<forall>r\<in>set rs. valid r"
  shows "replay consume (log_bytes encode rs @ tail) good s n =
    (case consume_all consume rs s of
       Inl e \<Rightarrow> Inl e
     | Inr s' \<Rightarrow> replay consume tail (good + length (log_bytes encode rs)) s' (n + length rs))"
  using assms
proof (induction rs arbitrary: good s n)
  case Nil
  then show ?case by simp
next
  case (Cons r rs)
  have "decode (log_bytes encode (r # rs) @ tail) = Complete r (log_bytes encode rs @ tail)"
    using Cons.prems by (simp add: decode_encode)
  with Cons show ?case
    by (subst replay_step) (simp split: sum.split add: add.assoc)
qed

text \<open>A tail that was only partly written is cut off and no record before it is lost.\<close>

lemma replay_torn:
  assumes "\<forall>r\<in>set rs. valid r" and "valid r" and "k < length (encode r)"
  shows "replay consume (log_bytes encode rs @ take k (encode r)) good s n =
    (case consume_all consume rs s of
       Inl e \<Rightarrow> Inl e | Inr s' \<Rightarrow> Inr (s', n + length rs, good + length (log_bytes encode rs)))"
proof -
  have "decode (take k (encode r)) \<in> {EndOfFile, Tail}"
    using decode_Nil decode_torn [OF assms(2) _ assms(3)] by (cases "k = 0") auto
  then have "replay consume (take k (encode r)) g s' m = Inr (s', m, g)" for g s' m
    by (subst replay_step) auto
  with replay_log [OF assms(1)] show ?thesis by (simp split: sum.split)
qed

lemma replay_whole:
  assumes "\<forall>r\<in>set rs. valid r"
  shows "replay consume (log_bytes encode rs) good s n =
    (case consume_all consume rs s of
       Inl e \<Rightarrow> Inl e | Inr s' \<Rightarrow> Inr (s', n + length rs, good + length (log_bytes encode rs)))"
proof -
  have "replay consume [] g s' m = Inr (s', m, g)" for g s' m
    by (subst replay_step) (simp add: decode_Nil)
  with replay_log [OF assms, of consume "[]"] show ?thesis by (simp split: sum.split)
qed

end

section \<open>The records of the catalog\<close>

text \<open>
  A record that can be stored: its document survives dumping and compressing, its vectors have one
  dimension and fit into memory.
\<close>

definition vectors_ok :: "u32 list list \<Rightarrow> bool" where
  "vectors_ok vectors \<longleftrightarrow>
     (\<exists>shape. Validate vectors = Inr shape) \<and>
     (\<forall>v\<in>set vectors. length vectors * length v * 4 < 2 ^ 64)"

definition document_ok :: "'j library \<Rightarrow> 'j \<Rightarrow> bool" where
  "document_ok lib j \<longleftrightarrow>
     (case lib_dump lib j of
        None \<Rightarrow> False
      | Some m \<Rightarrow> length m \<le> kMaximumMetadataBytes \<and> lib_parse lib m = Some j \<and>
          (case lib_compress lib m of
             None \<Rightarrow> False
           | Some c \<Rightarrow> length c \<le> kMaximumMetadataBytes \<and> lib_decompress lib c (length m) = Some m))"

definition storable_record :: "'j library \<Rightarrow> 'j catalog_record \<Rightarrow> bool" where
  "storable_record lib r \<longleftrightarrow>
     document_ok lib (cr_document r) \<and> vectors_ok (cr_remote r) \<and> vectors_ok (cr_local r)"

definition encoded_record :: "'j library \<Rightarrow> 'j catalog_record \<Rightarrow> u8 list" where
  "encoded_record lib r = (case record_bytes lib r of Inl _ \<Rightarrow> [] | Inr bs \<Rightarrow> bs)"

lemma catalog_HashBytes_eq: "catalog_HashBytes h bs = HashBytes h bs"
  by (induction bs arbitrary: h) (simp_all add: kFnvPrime_def)

lemma take_bytes_app: "n = length xs \<Longrightarrow> take_bytes n (xs @ ys) = Some (xs, ys)"
  by (simp add: take_bytes_def)

lemma read_u32_app [simp]: "read_u32 (le_bytes 4 w @ rest) = Some (w, rest)"
  by (simp add: read_u32_def take_bytes_app le_word_le_bytes_full)

lemma read_u64_app [simp]: "read_u64 (le_bytes 8 w @ rest) = Some (w, rest)"
  by (simp add: read_u64_def take_bytes_app le_word_le_bytes_full)

lemma read_header_app:
  "read_header (le_bytes 4 hb @ le_bytes 8 cs @ le_bytes 8 ms @ le_bytes 4 rc @ le_bytes 4 rn @
     le_bytes 4 lc @ le_bytes 4 ln @ le_bytes 8 h @ rest) = Some (hb, cs, ms, rc, rn, lc, ln, h, rest)"
  by (simp add: read_header_def)

lemma length_record_header [simp]: "length (record_header cs ms remote local h) = 48"
  by (simp add: record_header_def)

text \<open>Vectors are read as long as there are bytes, and every byte is hashed.\<close>

lemma read_vector_rows_Some:
  "4 * d * n \<le> length bs \<Longrightarrow>
   \<exists>vs. read_vector_rows n d bs h = Some (vs, drop (4 * d * n) bs, HashBytes h (take (4 * d * n) bs))"
proof (induction n arbitrary: bs h)
  case 0
  then show ?case by simp
next
  case (Suc n)
  let ?m = "4 * d * n" and ?b = "take (4 * d) bs"
  have len: "4 * d + ?m \<le> length bs" using Suc.prems by simp
  then have "?m \<le> length (drop (4 * d) bs)" by simp
  from Suc.IH [OF this] obtain vs where "read_vector_rows n d (drop (4 * d) bs) (HashBytes h ?b) =
      Some (vs, drop ?m (drop (4 * d) bs), HashBytes (HashBytes h ?b) (take ?m (drop (4 * d) bs)))"
    by blast
  moreover have "take (4 * d + ?m) bs = ?b @ take ?m (drop (4 * d) bs)" by (rule take_add)
  ultimately show ?case
    using len by (simp add: take_bytes_def catalog_HashBytes_eq HashBytes_append add.commute)
qed

lemma read_vector_rows_None: "length bs < 4 * d * n \<Longrightarrow> read_vector_rows n d bs h = None"
proof (induction n arbitrary: bs h)
  case 0
  then show ?case by simp
next
  case (Suc n)
  then show ?case by (auto simp: take_bytes_def split: option.split)
qed

lemma read_vector_rows_vectors:
  assumes "\<forall>v\<in>set vs. length v = d"
  shows "read_vector_rows (length vs) d (vector_bytes vs @ rest) h =
     Some (vs, rest, HashBytes h (vector_bytes vs))"
  using assms
proof (induction vs arbitrary: h)
  case Nil
  then show ?case by (simp add: vector_bytes_def)
next
  case (Cons v vs)
  have "le_words 4 d (le_array 4 v) = v" using Cons.prems le_words_le_array [of 4 v "[]"] by simp
  moreover have "take_bytes (4 * d) (vector_bytes (v # vs) @ rest) = Some (le_array 4 v, vector_bytes vs @ rest)"
    using Cons.prems by (simp add: vector_bytes_def take_bytes_app)
  moreover have "vector_bytes (v # vs) = le_array 4 v @ vector_bytes vs" by (simp add: vector_bytes_def)
  ultimately show ?case using Cons by (simp add: catalog_HashBytes_eq HashBytes_append)
qed

text \<open>The shape of vectors that pass the checks.\<close>

definition shape_ok :: "u32 \<Rightarrow> u32 \<Rightarrow> bool" where
  "shape_ok c d \<longleftrightarrow>
     unat (ucast c * ucast d * 4 :: u64) \<le> kMaximumVectorBytes \<and> unat c * unat d * 4 < 2 ^ 64"

lemma vectors_shape:
  assumes "vectors_ok vs"
  obtains c d where "Validate vs = Inr (c, d)" and "unat c = length vs" and "\<forall>v\<in>set vs. length v = unat d"
    and "shape_ok c d" and "length (vector_bytes vs) = 4 * unat d * unat c"
proof (cases vs)
  case Nil
  with that [of 0 0] show ?thesis
    by (simp add: Validate_def shape_ok_def kMaximumVectorBytes_def vector_bytes_def)
next
  case (Cons v ws)
  let ?c = "of_nat (length vs) :: u32" and ?d = "of_nat (length v) :: u32"
  have ok: "Validate vs = Inr (?c, ?d)" "length vs \<le> 2 ^ 32 - 1" "length v \<le> 2 ^ 32 - 1"
    "unat (ucast ?c * ucast ?d * 4 :: u64) \<le> kMaximumVectorBytes" "\<forall>w\<in>set vs. length w = unat ?d"
    using assms Cons by (auto simp: vectors_ok_def Validate_def Let_def list_ex_iff split: if_splits)
  have u: "unat ?c = length vs" "unat ?d = length v"
    using ok(2,3) by (simp_all add: unat_of_nat take_bit_nat_eq_self)
  have "length (vector_bytes xs) = 4 * unat ?d * length xs" if "\<forall>w\<in>set xs. length w = unat ?d" for xs
    using that by (induction xs) (simp_all add: vector_bytes_def)
  with ok(5) have len: "length (vector_bytes vs) = 4 * unat ?d * unat ?c" using u by simp
  have "length vs * length v * 4 < 2 ^ 64" using assms Cons by (simp add: vectors_ok_def)
  then have "shape_ok ?c ?d" using ok(4) u by (simp add: shape_ok_def)
  with that ok(1,5) u(1) len show ?thesis by blast
qed

lemma ReadVectors_ok:
  assumes "unat c = length vs" and "\<forall>v\<in>set vs. length v = unat d" and "shape_ok c d"
  shows "ReadVectors (vector_bytes vs @ rest) c d h = Inr (vs, rest, HashBytes h (vector_bytes vs))"
  using assms read_vector_rows_vectors [of vs "unat d" rest h] by (simp add: ReadVectors_def shape_ok_def)

lemma ReadVectors_short:
  assumes "shape_ok c d" and "length bs < 4 * unat d * unat c"
  shows "ReadVectors bs c d h = Inl VectorBlockTooLarge"
  using assms read_vector_rows_None [of bs "unat d" "unat c" h] by (simp add: ReadVectors_def shape_ok_def)

lemma ReadVectors_long:
  assumes "shape_ok c d" and "4 * unat d * unat c \<le> length bs"
  shows "\<exists>vs. ReadVectors bs c d h =
    Inr (vs, drop (4 * unat d * unat c) bs, HashBytes h (take (4 * unat d * unat c) bs))"
  using assms read_vector_rows_Some [of "unat d" "unat c" bs h] by (auto simp: ReadVectors_def shape_ok_def)

section \<open>One record\<close>

lemma record_hash_eq: "record_hash c remote local = HashBytes catalog_hash_seed (c @ vector_bytes remote @ vector_bytes local)"
proof -
  have "fold (\<lambda>v hash. catalog_HashBytes hash (le_array 4 v)) vs h = HashBytes h (vector_bytes vs)" for vs h
    by (induction vs arbitrary: h) (simp_all add: vector_bytes_def catalog_HashBytes_eq HashBytes_append)
  then show ?thesis by (simp add: record_hash_def catalog_HashBytes_eq HashBytes_append)
qed

text \<open>The parts of the bytes of a record.\<close>

definition record_layout ::
  "'j library \<Rightarrow> 'j catalog_record \<Rightarrow> u8 list \<Rightarrow> u8 list \<Rightarrow> u32 \<Rightarrow> u32 \<Rightarrow> u32 \<Rightarrow> u32 \<Rightarrow> bool" where
  "record_layout lib r m c rc rn lc ln \<longleftrightarrow>
     lib_decompress lib c (length m) = Some m \<and> lib_parse lib m = Some (cr_document r) \<and>
     length m \<le> kMaximumMetadataBytes \<and> length c \<le> kMaximumMetadataBytes \<and>
     unat rc = length (cr_remote r) \<and> (\<forall>v\<in>set (cr_remote r). length v = unat rn) \<and> shape_ok rc rn \<and>
     length (vector_bytes (cr_remote r)) = 4 * unat rn * unat rc \<and>
     unat lc = length (cr_local r) \<and> (\<forall>v\<in>set (cr_local r). length v = unat ln) \<and> shape_ok lc ln \<and>
     length (vector_bytes (cr_local r)) = 4 * unat ln * unat lc \<and>
     record_bytes lib r = Inr (encoded_record lib r) \<and>
     encoded_record lib r = record_header (length c) (length m) (rc, rn) (lc, ln)
       (HashBytes catalog_hash_seed (c @ vector_bytes (cr_remote r) @ vector_bytes (cr_local r))) @
       c @ vector_bytes (cr_remote r) @ vector_bytes (cr_local r)"

lemma record_layout_ex:
  assumes "storable_record lib r"
  shows "\<exists>m c rc rn lc ln. record_layout lib r m c rc rn lc ln"
proof -
  obtain m c where doc: "lib_dump lib (cr_document r) = Some m" "length m \<le> kMaximumMetadataBytes"
    "lib_parse lib m = Some (cr_document r)" "lib_compress lib m = Some c" "length c \<le> kMaximumMetadataBytes"
    "lib_decompress lib c (length m) = Some m"
    using assms by (auto simp: storable_record_def document_ok_def split: option.splits)
  have "vectors_ok (cr_remote r)" "vectors_ok (cr_local r)" using assms by (simp_all add: storable_record_def)
  then obtain rc rn lc ln where r: "Validate (cr_remote r) = Inr (rc, rn)" "unat rc = length (cr_remote r)"
      "\<forall>v\<in>set (cr_remote r). length v = unat rn" "shape_ok rc rn" "length (vector_bytes (cr_remote r)) = 4 * unat rn * unat rc"
    and l: "Validate (cr_local r) = Inr (lc, ln)" "unat lc = length (cr_local r)"
      "\<forall>v\<in>set (cr_local r). length v = unat ln" "shape_ok lc ln" "length (vector_bytes (cr_local r)) = 4 * unat ln * unat lc"
    by (metis vectors_shape)
  from doc r(1) l(1) have "record_bytes lib r = Inr (record_header (length c) (length m) (rc, rn) (lc, ln)
      (HashBytes catalog_hash_seed (c @ vector_bytes (cr_remote r) @ vector_bytes (cr_local r))) @
      c @ vector_bytes (cr_remote r) @ vector_bytes (cr_local r))"
    by (simp add: record_bytes_def record_hash_eq)
  then have "record_layout lib r m c rc rn lc ln"
    using doc r l by (simp add: record_layout_def encoded_record_def)
  then show ?thesis by blast
qed

text \<open>What the loop does after a header that passes the checks.\<close>

definition read_payload ::
  "'j library \<Rightarrow> nat \<Rightarrow> nat \<Rightarrow> u32 \<times> u32 \<Rightarrow> u32 \<times> u32 \<Rightarrow> u64 \<Rightarrow> u8 list \<Rightarrow> 'j catalog_record frame" where
  "read_payload lib cs ms remote local expected bs =
     (case take_bytes cs bs of
        None \<Rightarrow> Tail
      | Some (compressed, bs) \<Rightarrow>
          (case ReadVectors bs (fst remote) (snd remote) (catalog_HashBytes catalog_hash_seed compressed) of
             Inl OutOfMemory \<Rightarrow> Broken OutOfMemory
           | Inl _ \<Rightarrow> Tail
           | Inr (rv, bs, hash) \<Rightarrow>
               (case ReadVectors bs (fst local) (snd local) hash of
                  Inl OutOfMemory \<Rightarrow> Broken OutOfMemory
                | Inl _ \<Rightarrow> Tail
                | Inr (lv, bs, hash) \<Rightarrow>
                    if hash \<noteq> expected then Broken ChecksumMismatch
                    else read_metadata lib compressed ms rv lv bs)))"

lemma read_record_header:
  assumes "cs \<le> kMaximumMetadataBytes" and "ms \<le> kMaximumMetadataBytes"
  shows "read_record lib (record_header cs ms remote local h @ bs) = read_payload lib cs ms remote local h bs"
proof -
  have u: "unat (of_nat cs :: u64) = cs" "unat (of_nat ms :: u64) = ms"
    using assms by (simp_all add: kMaximumMetadataBytes_def unat_of_nat take_bit_nat_eq_self)
  have ne: "(record_header cs ms remote local h @ bs = []) = False"
    using length_record_header [of cs ms remote local h] by (metis append_is_Nil_conv list.size(3) zero_neq_numeral)
  have check: "(kRecordMagic \<noteq> kRecordMagic \<or> kRecordHeaderBytes \<noteq> kRecordHeaderBytes \<or>
      cs > kMaximumMetadataBytes \<or> ms > kMaximumMetadataBytes) = False"
    using assms by simp
  have "read_u32 (record_header cs ms remote local h @ bs) =
      Some (kRecordMagic, le_bytes 4 kRecordHeaderBytes @ le_bytes 8 (of_nat cs :: u64) @ le_bytes 8 (of_nat ms :: u64) @
        le_bytes 4 (fst remote) @ le_bytes 4 (snd remote) @ le_bytes 4 (fst local) @ le_bytes 4 (snd local) @
        le_bytes 8 h @ bs)"
    by (simp add: record_header_def)
  then show ?thesis
    by (simp only: read_record_def ne if_False option.case prod.case read_header_app u check read_payload_def)
qed

lemma read_record_record:
  assumes "storable_record lib r"
  shows "read_record lib (encoded_record lib r @ rest) = Complete r rest"
proof -
  obtain m c rc rn lc ln where lay: "record_layout lib r m c rc rn lc ln"
    using record_layout_ex [OF assms] by blast
  then have e: "lib_decompress lib c (length m) = Some m" "lib_parse lib m = Some (cr_document r)"
    "length m \<le> kMaximumMetadataBytes" "length c \<le> kMaximumMetadataBytes"
    and r: "unat rc = length (cr_remote r)" "\<forall>v\<in>set (cr_remote r). length v = unat rn" "shape_ok rc rn"
    and l: "unat lc = length (cr_local r)" "\<forall>v\<in>set (cr_local r). length v = unat ln" "shape_ok lc ln"
    and bytes: "encoded_record lib r = record_header (length c) (length m) (rc, rn) (lc, ln)
           (HashBytes catalog_hash_seed (c @ vector_bytes (cr_remote r) @ vector_bytes (cr_local r))) @
           c @ vector_bytes (cr_remote r) @ vector_bytes (cr_local r)"
    by (simp_all add: record_layout_def)
  show ?thesis
    using e ReadVectors_ok [OF r] ReadVectors_ok [OF l]
    by (simp add: bytes read_record_header read_payload_def take_bytes_app read_metadata_def HashBytes_append catalog_HashBytes_eq)
qed

lemma read_record_torn:
  assumes "storable_record lib r" and "0 < k" and "k < length (encoded_record lib r)"
  shows "read_record lib (take k (encoded_record lib r)) = Tail"
proof -
  obtain m c rc rn lc ln where lay: "record_layout lib r m c rc rn lc ln"
    using record_layout_ex [OF assms(1)] by blast
  then have e: "length m \<le> kMaximumMetadataBytes" "length c \<le> kMaximumMetadataBytes"
    and r: "shape_ok rc rn" "length (vector_bytes (cr_remote r)) = 4 * unat rn * unat rc"
    and l: "shape_ok lc ln" "length (vector_bytes (cr_local r)) = 4 * unat ln * unat lc"
    and bytes: "encoded_record lib r = record_header (length c) (length m) (rc, rn) (lc, ln)
           (HashBytes catalog_hash_seed (c @ vector_bytes (cr_remote r) @ vector_bytes (cr_local r))) @
           c @ vector_bytes (cr_remote r) @ vector_bytes (cr_local r)"
    by (simp_all add: record_layout_def)
  show ?thesis
  proof (cases "k < 48")
    case True
    let ?bs = "take k (encoded_record lib r)"
    have len: "length ?bs = k" using assms(3) by simp
    have "read_header rest = None" if "read_u32 ?bs = Some (w, rest)" for w rest
    proof (cases "read_header rest")
      case (Some x)
      then have "length rest \<ge> 44"
        by (auto simp: read_header_def read_u32_def read_u64_def take_bytes_def split: Option.bind_splits if_splits) arith
      moreover have "length ?bs = 4 + length rest"
        using that by (auto simp: read_u32_def take_bytes_def split: if_splits)
      ultimately show ?thesis using len True by simp
    qed simp
    moreover have "?bs \<noteq> []" using len assms(2) by auto
    ultimately show ?thesis by (auto simp: read_record_def split: option.split)
  next
    case False
    define j where "j = k - 48"
    let ?h = "HashBytes catalog_hash_seed (c @ vector_bytes (cr_remote r) @ vector_bytes (cr_local r))"
    let ?rest = "take j (c @ vector_bytes (cr_remote r) @ vector_bytes (cr_local r))"
    have "take k (encoded_record lib r) = record_header (length c) (length m) (rc, rn) (lc, ln) ?h @ ?rest"
      using False by (simp add: bytes j_def)
    then have eq: "read_record lib (take k (encoded_record lib r)) =
        read_payload lib (length c) (length m) (rc, rn) (lc, ln) ?h ?rest"
      using e by (simp only: read_record_header)
    have j: "j < length c + 4 * unat rn * unat rc + 4 * unat ln * unat lc"
      using assms(3) r(2) l(2) False by (simp add: bytes j_def)
    consider "j < length c" | "length c \<le> j" "j - length c < 4 * unat rn * unat rc"
      | "length c \<le> j" "4 * unat rn * unat rc \<le> j - length c" by linarith
    then show ?thesis
    proof cases
      case 1
      then show ?thesis by (simp add: eq read_payload_def take_bytes_def)
    next
      case 2
      then have "take_bytes (length c) ?rest = Some (c, take (j - length c) (vector_bytes (cr_remote r) @ vector_bytes (cr_local r)))"
        by (simp add: take_bytes_def)
      then show ?thesis
        using 2 r(2) by (simp add: eq read_payload_def ReadVectors_short [OF r(1)])
    next
      case 3
      let ?vs = "take (j - length c) (vector_bytes (cr_remote r) @ vector_bytes (cr_local r))"
      have tb: "take_bytes (length c) ?rest = Some (c, ?vs)" using 3 by (simp add: take_bytes_def)
      have long: "4 * unat rn * unat rc \<le> length ?vs" using 3 r(2) by simp
      obtain rv where rv: "ReadVectors ?vs rc rn (HashBytes catalog_hash_seed c) =
          Inr (rv, drop (4 * unat rn * unat rc) ?vs, HashBytes (HashBytes catalog_hash_seed c) (take (4 * unat rn * unat rc) ?vs))"
        using ReadVectors_long [OF r(1) long] by blast
      have short: "length (drop (4 * unat rn * unat rc) ?vs) < 4 * unat ln * unat lc"
        using 3 j r(2) by simp
      show ?thesis
        by (simp only: eq read_payload_def tb option.case prod.case fst_conv snd_conv catalog_HashBytes_eq rv sum.case
          ReadVectors_short [OF l(1) short] catalog_error.case)
    qed
  qed
qed

text \<open>The catalog is such a log.\<close>

interpretation cat: framed_log "storable_record lib" "encoded_record lib" "read_record lib" "replay_loop lib"
  for lib
proof unfold_locales
  show "read_record lib [] = EndOfFile" by (simp add: read_record_def)
  show "read_record lib (encoded_record lib r @ rest) = Complete r rest" if "storable_record lib r" for r rest
    by (rule read_record_record [OF that])
  show "read_record lib (take k (encoded_record lib r)) = Tail"
    if "storable_record lib r" "0 < k" "k < length (encoded_record lib r)" for r k
    by (rule read_record_torn [OF that])
qed (rule replay_loop.simps)

end
