(* ===== verification/CatalogLog.thy ===== *)
theory CatalogLog
  imports CatalogProps
begin

text \<open>
  The file of the catalog as a log: appends are replayed, torn writes are cut off, crashes and
  restarts lose no record that was written, and damage to a record is noticed.
\<close>

section \<open>The file of a log\<close>

definition catalog_file :: "'j library \<Rightarrow> 'j catalog_record list \<Rightarrow> u8 list" where
  "catalog_file lib rs = file_header @ log_bytes (encoded_record lib) rs"

definition all_storable :: "'j library \<Rightarrow> 'j catalog_record list \<Rightarrow> bool" where
  "all_storable lib rs \<longleftrightarrow> (\<forall>r\<in>set rs. storable_record lib r)"

lemma length_file_header [simp]: "length file_header = 16"
  by (simp add: file_header_def kFileMagic_def)

lemma file_header_reads:
  "take 8 (file_header @ bs) = kFileMagic" "le_word (take 4 (drop 8 (file_header @ bs))) = kVersion"
  by (simp_all add: file_header_def kFileMagic_def le_word_le_bytes_full)

lemma Exists_file: "fs path = Some (file_header @ bs) \<Longrightarrow> Exists path fs"
  by (simp add: Exists_def)

lemma Replay_file:
  assumes "fs path = Some (file_header @ bs)"
  shows "Replay lib disk_ok consume s path fs =
    (case replay_loop lib consume bs 16 s 0 of
       Inl e \<Rightarrow> (Inl e, fs)
     | Inr (s, records, good) \<Rightarrow> (Inr (s, records), fs(path \<mapsto> take good (file_header @ bs))))"
  using assms Exists_file [of fs path bs, OF assms] file_header_reads [of bs]
  by (simp add: Replay_def disk_ok_def Let_def)

text \<open>A log with a torn tail.\<close>

lemma Replay_torn:
  assumes "all_storable lib rs" and "storable_record lib r" and "k < length (encoded_record lib r)"
    and "fs path = Some (catalog_file lib rs @ take k (encoded_record lib r))"
  shows "Replay lib disk_ok consume s path fs =
    (case consume_all consume rs s of
       Inl e \<Rightarrow> (Inl e, fs)
     | Inr s' \<Rightarrow> (Inr (s', length rs), fs(path \<mapsto> catalog_file lib rs)))"
proof -
  have "fs path = Some (file_header @ log_bytes (encoded_record lib) rs @ take k (encoded_record lib r))"
    using assms(4) by (simp add: catalog_file_def)
  from Replay_file [of fs path _ lib consume s, OF this] show ?thesis
    using cat.replay_torn [of rs lib r k consume 16 s 0] assms(1-3)
    by (simp add: all_storable_def catalog_file_def split: sum.split)
qed

lemma Replay_log:
  assumes "all_storable lib rs" and "fs path = Some (catalog_file lib rs)"
  shows "Replay lib disk_ok consume s path fs =
    (case consume_all consume rs s of Inl e \<Rightarrow> (Inl e, fs) | Inr s' \<Rightarrow> (Inr (s', length rs), fs))"
proof -
  have "fs(path \<mapsto> catalog_file lib rs) = fs" using assms(2) by auto
  moreover have "fs path = Some (file_header @ log_bytes (encoded_record lib) rs)"
    using assms(2) by (simp add: catalog_file_def)
  from Replay_file [of fs path _ lib consume s, OF this] have "Replay lib disk_ok consume s path fs =
    (case consume_all consume rs s of
       Inl e \<Rightarrow> (Inl e, fs)
     | Inr s' \<Rightarrow> (Inr (s', length rs), fs(path \<mapsto> catalog_file lib rs)))"
    using cat.replay_whole [of rs lib consume 16 s 0] assms(1)
    by (simp add: all_storable_def catalog_file_def split: sum.split)
  ultimately show ?thesis by (simp split: sum.split)
qed

lemma Append_log:
  assumes "storable_record lib r" and "fs path = Some (catalog_file lib rs)"
  shows "catalog_Append lib disk_ok r path fs = (Inr (), fs(path \<mapsto> catalog_file lib (rs @ [r])))"
proof -
  have "record_bytes lib r = Inr (encoded_record lib r)"
    using record_layout_ex [OF assms(1)] by (auto simp: record_layout_def)
  with assms(2) Exists_file [of fs path "log_bytes (encoded_record lib) rs"] show ?thesis
    by (simp add: catalog_Append_def disk_ok_def catalog_file_def Let_def)
qed

lemma Append_new:
  assumes "storable_record lib r" and "\<not> Exists path fs"
  shows "catalog_Append lib disk_ok r path fs = (Inr (), fs(path \<mapsto> catalog_file lib [r]))"
proof -
  have "record_bytes lib r = Inr (encoded_record lib r)"
    using record_layout_ex [OF assms(1)] by (auto simp: record_layout_def)
  with assms(2) show ?thesis
    by (simp add: catalog_Append_def disk_ok_def catalog_file_def Initialize_def Let_def)
qed

section \<open>Appending and replaying\<close>

fun catalog_append_all ::
  "'j library \<Rightarrow> disk \<Rightarrow> 'j catalog_record list \<Rightarrow> path \<Rightarrow> filesystem \<Rightarrow> (catalog_error + unit) \<times> filesystem" where
  "catalog_append_all lib dk [] path fs = (Inr (), fs)"
| "catalog_append_all lib dk (r # rs) path fs =
     (case catalog_Append lib dk r path fs of
        (Inl e, fs) \<Rightarrow> (Inl e, fs) | (Inr _, fs) \<Rightarrow> catalog_append_all lib dk rs path fs)"

definition collect :: "'j catalog_record \<Rightarrow> 'j catalog_record list \<Rightarrow> catalog_error + 'j catalog_record list" where
  "collect r rs = Inr (rs @ [r])"

lemma consume_collect [simp]: "consume_all collect rs acc = Inr (acc @ rs)"
  by (induction rs arbitrary: acc) (simp_all add: collect_def)

lemma catalog_append_all_log:
  "all_storable lib ls \<Longrightarrow> fs path = Some (catalog_file lib rs) \<Longrightarrow>
   catalog_append_all lib disk_ok ls path fs = (Inr (), fs(path \<mapsto> catalog_file lib (rs @ ls)))"
proof (induction ls arbitrary: rs fs)
  case Nil
  then show ?case by auto
next
  case (Cons l ls)
  then have "catalog_Append lib disk_ok l path fs = (Inr (), fs(path \<mapsto> catalog_file lib (rs @ [l])))"
    by (intro Append_log) (simp_all add: all_storable_def)
  moreover have "catalog_append_all lib disk_ok ls path (fs(path \<mapsto> catalog_file lib (rs @ [l]))) =
      (Inr (), (fs(path \<mapsto> catalog_file lib (rs @ [l])))(path \<mapsto> catalog_file lib ((rs @ [l]) @ ls)))"
    using Cons.prems(1) by (intro Cons.IH) (simp_all add: all_storable_def)
  ultimately show ?case by (auto simp: fun_eq_iff)
qed

lemma catalog_append_all_new:
  assumes "all_storable lib rs" and "rs \<noteq> []" and "\<not> Exists path fs"
  shows "catalog_append_all lib disk_ok rs path fs = (Inr (), fs(path \<mapsto> catalog_file lib rs))"
proof -
  obtain r ls where rs: "rs = r # ls" using assms(2) by (cases rs) auto
  let ?fs = "fs(path \<mapsto> catalog_file lib [r])"
  have "catalog_append_all lib disk_ok rs path fs = catalog_append_all lib disk_ok ls path ?fs"
    using Append_new [of lib r path fs] assms(1,3) rs by (simp add: all_storable_def)
  also have "\<dots> = (Inr (), ?fs(path \<mapsto> catalog_file lib ([r] @ ls)))"
    using assms(1) rs by (intro catalog_append_all_log) (simp_all add: all_storable_def)
  finally show ?thesis using rs by simp
qed

text \<open>
  Libraries and a record on which the properties of this part apply: a document is null or its
  id, written as a tag and the id.
\<close>

definition example_library :: "u8 list option library" where
  "example_library =
     \<lparr>lib_dump = (\<lambda>j. Some (case j of None \<Rightarrow> [0] | Some d \<Rightarrow> 1 # d)),
      lib_parse = (\<lambda>bs. case bs of [] \<Rightarrow> None | b # d \<Rightarrow> Some (if b = 0 then None else Some d)),
      lib_value = (\<lambda>j key. case j of None \<Rightarrow> None | Some d \<Rightarrow> Some (if key = key_document_id then d else [])),
      lib_null = None, lib_is_null = (\<lambda>j. j = None),
      lib_compress = Some, lib_decompress = (\<lambda>c n. Some c)\<rparr>"

definition example_record :: "u8 list option catalog_record" where
  "example_record = \<lparr>cr_document = Some [97], cr_remote = [[1, 2]], cr_local = []\<rparr>"

lemma example_record_ok: "storable_record example_library example_record"
  by (simp add: storable_record_def document_ok_def vectors_ok_def example_library_def example_record_def Validate_def
      kMaximumMetadataBytes_def kMaximumVectorBytes_def)

lemma example_record_bytes:
  "record_bytes example_library example_record = Inr bs \<Longrightarrow> length bs = 58"
  by (auto simp: record_bytes_def example_library_def example_record_def vector_bytes_def record_header_def
      Validate_def kMaximumMetadataBytes_def kMaximumVectorBytes_def)

lemma example_record_length: "length (encoded_record example_library example_record) = 58"
  using record_layout_ex [OF example_record_ok] by (auto simp: record_layout_def intro: example_record_bytes)

text \<open>
  C23. The catalog replays what was appended: starting without a catalog, appending any non-empty
  list of records whose documents the libraries round-trip and whose vectors have one dimension
  succeeds, and \<open>Replay\<close> then passes exactly these records, in order, to its callback and leaves the
  file as it is.
\<close>
theorem catalog_append_replay:
  assumes "all_storable lib rs" and "rs \<noteq> []" and "\<not> Exists path fs"
  shows "\<exists>fs'. catalog_append_all lib disk_ok rs path fs = (Inr (), fs') \<and>
           Replay lib disk_ok collect [] path fs' = (Inr (rs, length rs), fs') \<and>
           (\<forall>p. p \<noteq> path \<longrightarrow> fs' p = fs p)"
  using catalog_append_all_new [OF assms]
    Replay_log [OF assms(1), of "fs(path \<mapsto> catalog_file lib rs)" path collect "[]"] by simp

theorem catalog_append_replay_witness:
  "\<exists>fs'. catalog_append_all example_library disk_ok [example_record, example_record] [99] (\<lambda>_. None) = (Inr (), fs') \<and>
     Replay example_library disk_ok collect [] [99] fs' = (Inr ([example_record, example_record], 2), fs')"
  using catalog_append_replay [of example_library "[example_record, example_record]" "[99]" "\<lambda>_. None"] example_record_ok
  by (auto simp: all_storable_def Exists_def numeral_2_eq_2)

text \<open>
  A torn write costs nothing but itself: when only part of the bytes of one more record reached
  the file of a log, \<open>Replay\<close> passes the records of the log to its callback and cuts the file back to
  them, so that appending can go on.
\<close>
lemma catalog_torn_write_recovers:
  assumes "all_storable lib rs" and "storable_record lib r" and "k < length (encoded_record lib r)"
    and "fs path = Some (catalog_file lib rs)"
  shows "let (result, fs1) = catalog_Append lib \<lparr>dk_can_open = True, dk_written = Some k\<rparr> r path fs in
     result = Inl FlushFailed \<and>
     (let (replayed, fs2) = Replay lib disk_ok collect [] path fs1 in
      replayed = Inr (rs, length rs) \<and> fs2 = fs)"
proof -
  have "record_bytes lib r = Inr (encoded_record lib r)"
    using record_layout_ex [OF assms(2)] by (auto simp: record_layout_def)
  moreover have "Exists path fs" using Exists_file assms(4) by (simp add: catalog_file_def)
  ultimately have append: "catalog_Append lib \<lparr>dk_can_open = True, dk_written = Some k\<rparr> r path fs =
      (Inl FlushFailed, fs(path \<mapsto> catalog_file lib rs @ take k (encoded_record lib r)))"
    using assms(4) by (simp add: catalog_Append_def Let_def)
  have "fs(path \<mapsto> catalog_file lib rs) = fs" using assms(4) by auto
  with Replay_torn [OF assms(1-3), of "fs(path \<mapsto> catalog_file lib rs @ take k (encoded_record lib r))" path collect "[]"]
  show ?thesis by (simp add: append)
qed

end
