(* ===== verification/CatalogCrash.thy ===== *)
theory CatalogCrash
  imports CatalogLog
begin

text \<open>
  Crashes and damage: the runs of a process that appends to the catalog, crashes at any byte and
  starts again, and what \<open>Replay\<close> does with bytes that are not those that were written.
\<close>

section \<open>Runs with crashes\<close>

text \<open>
  The file system, the records written completely so far, whether the process runs, and the records
  it knows: those it replayed when it started and those it appended since.
\<close>

record 'j catalog_state =
  cs_fs :: filesystem
  cs_log :: "'j catalog_record list"
  cs_up :: bool
  cs_loaded :: "'j catalog_record list"

inductive catalog_step :: "'j library \<Rightarrow> path \<Rightarrow> 'j catalog_state \<Rightarrow> 'j catalog_state \<Rightarrow> bool" for lib path where
  start: "\<not> cs_up s \<Longrightarrow> Replay lib disk_ok collect [] path (cs_fs s) = (Inr (rs, n), fs) \<Longrightarrow>
     catalog_step lib path s (s\<lparr>cs_fs := fs, cs_up := True, cs_loaded := rs\<rparr>)"
| append: "cs_up s \<Longrightarrow> storable_record lib r \<Longrightarrow> catalog_Append lib disk_ok r path (cs_fs s) = (Inr (), fs) \<Longrightarrow>
     catalog_step lib path s (s\<lparr>cs_fs := fs, cs_log := cs_log s @ [r], cs_loaded := cs_loaded s @ [r]\<rparr>)"
| crash_record: "cs_up s \<Longrightarrow> storable_record lib r \<Longrightarrow> k < length (encoded_record lib r) \<Longrightarrow>
     catalog_Append lib \<lparr>dk_can_open = True, dk_written = Some k\<rparr> r path (cs_fs s) = (Inl FlushFailed, fs) \<Longrightarrow>
     catalog_step lib path s (s\<lparr>cs_fs := fs, cs_up := False\<rparr>)"
| crash_header: "cs_up s \<Longrightarrow> \<not> Exists path (cs_fs s) \<Longrightarrow> k < length file_header \<Longrightarrow>
     catalog_step lib path s (s\<lparr>cs_fs := (cs_fs s)(path \<mapsto> take k file_header), cs_up := False\<rparr>)"
| stop: "cs_up s \<Longrightarrow> catalog_step lib path s (s\<lparr>cs_up := False\<rparr>)"

inductive catalog_reach :: "'j library \<Rightarrow> path \<Rightarrow> 'j catalog_state \<Rightarrow> bool" for lib path where
  init: "\<not> Exists path fs \<Longrightarrow> catalog_reach lib path \<lparr>cs_fs = fs, cs_log = [], cs_up = False, cs_loaded = []\<rparr>"
| step: "catalog_reach lib path s \<Longrightarrow> catalog_step lib path s t \<Longrightarrow> catalog_reach lib path t"

text \<open>The file is the log, with a torn tail only while the process is down.\<close>

definition torn_tail :: "'j library \<Rightarrow> u8 list \<Rightarrow> bool" where
  "torn_tail lib tail \<longleftrightarrow> tail = [] \<or> (\<exists>r k. storable_record lib r \<and> k < length (encoded_record lib r) \<and> tail = take k (encoded_record lib r))"

definition catalog_inv :: "'j library \<Rightarrow> path \<Rightarrow> 'j catalog_state \<Rightarrow> bool" where
  "catalog_inv lib path s \<longleftrightarrow>
     all_storable lib (cs_log s) \<and> (cs_up s \<longrightarrow> cs_loaded s = cs_log s) \<and>
     (if Exists path (cs_fs s)
      then \<exists>tail. cs_fs s path = Some (catalog_file lib (cs_log s) @ tail) \<and> torn_tail lib tail \<and> (cs_up s \<longrightarrow> tail = [])
      else cs_log s = [])"

lemma Replay_inv:
  assumes "catalog_inv lib path s"
  shows "\<exists>fs. Replay lib disk_ok collect [] path (cs_fs s) = (Inr (cs_log s, length (cs_log s)), fs) \<and>
           (if Exists path (cs_fs s) then fs path = Some (catalog_file lib (cs_log s)) else fs = cs_fs s)"
proof (cases "Exists path (cs_fs s)")
  case False
  with assms show ?thesis by (simp add: catalog_inv_def Replay_def)
next
  case True
  then obtain tail where tail: "cs_fs s path = Some (catalog_file lib (cs_log s) @ tail)" "torn_tail lib tail"
    and log: "all_storable lib (cs_log s)"
    using assms by (auto simp: catalog_inv_def)
  show ?thesis
  proof (cases "tail = []")
    case True
    with tail(1) Replay_log [OF log, of "cs_fs s" path collect "[]"] \<open>Exists path (cs_fs s)\<close> show ?thesis by simp
  next
    case False
    with tail(2) obtain r k where "storable_record lib r" "k < length (encoded_record lib r)" "tail = take k (encoded_record lib r)"
      by (auto simp: torn_tail_def)
    with tail(1) Replay_torn [OF log, of r k "cs_fs s" path collect "[]"] True show ?thesis by simp
  qed
qed

lemma Exists_catalog: "fs path = Some (catalog_file lib rs @ tail) \<Longrightarrow> Exists path fs"
  by (simp add: Exists_def catalog_file_def)

lemma catalog_inv_step:
  assumes step: "catalog_step lib path s t" and inv: "catalog_inv lib path s"
  shows "catalog_inv lib path t"
  using step
proof cases
  case (start rs n fs)
  with Replay_inv [OF inv] inv show ?thesis
    using Exists_catalog [of fs path lib "cs_log s" "[]"]
    by (auto simp: catalog_inv_def torn_tail_def split: if_splits)
next
  case (append r fs)
  have now: "fs = (cs_fs s)(path \<mapsto> catalog_file lib (cs_log s @ [r]))"
  proof (cases "Exists path (cs_fs s)")
    case True
    with inv append(2) have "cs_fs s path = Some (catalog_file lib (cs_log s))" by (auto simp: catalog_inv_def)
    from Append_log [of lib r "cs_fs s" path "cs_log s", OF append(3) this] append(4) show ?thesis by simp
  next
    case False
    with inv have "cs_log s = []" by (simp add: catalog_inv_def)
    with Append_new [of lib r path "cs_fs s", OF append(3) False] append(4) show ?thesis by simp
  qed
  then have "Exists path fs" by (intro Exists_catalog [of _ _ lib _ "[]"]) simp
  with now inv append(1-3) show ?thesis by (simp add: catalog_inv_def torn_tail_def all_storable_def)
next
  case (crash_record r k fs)
  have bytes: "record_bytes lib r = Inr (encoded_record lib r)"
    using record_layout_ex [OF crash_record(3)] by (auto simp: record_layout_def)
  have now: "fs = (cs_fs s)(path \<mapsto> catalog_file lib (cs_log s) @ take k (encoded_record lib r))"
  proof (cases "Exists path (cs_fs s)")
    case True
    with inv crash_record(2) have "cs_fs s path = Some (catalog_file lib (cs_log s))" by (auto simp: catalog_inv_def)
    with crash_record(5) bytes True show ?thesis by (simp add: catalog_Append_def Let_def)
  next
    case False
    with inv have "cs_log s = []" by (simp add: catalog_inv_def)
    with crash_record(5) bytes False show ?thesis by (simp add: catalog_Append_def Initialize_def catalog_file_def Let_def)
  qed
  then have "Exists path fs" by (intro Exists_catalog) simp
  with now inv crash_record(1-4) show ?thesis by (auto simp: catalog_inv_def torn_tail_def)
next
  case (crash_header k)
  then have "cs_log s = []" using inv by (simp add: catalog_inv_def)
  moreover have "\<not> Exists path ((cs_fs s)(path \<mapsto> take k file_header))" using crash_header(4) by (simp add: Exists_def)
  ultimately show ?thesis using inv crash_header(1) by (simp add: catalog_inv_def all_storable_def)
next
  case stop
  with inv show ?thesis by (auto simp: catalog_inv_def)
qed

lemma catalog_reach_inv:
  assumes "catalog_reach lib path s"
  shows "catalog_inv lib path s"
  using assms
proof (induction rule: catalog_reach.induct)
  case (init fs)
  then show ?case by (simp add: catalog_inv_def all_storable_def)
next
  case (step s t)
  show ?case by (rule catalog_inv_step [OF step.hyps(2) step.IH])
qed

text \<open>
  C5. The catalog is durable: in every run of appends, clean stops, crashes after any number of bytes
  of a record or of the file header, and restarts, the running process knows exactly the records
  that were written completely, in order; and whenever the process is started again \<open>Replay\<close>
  succeeds and gives exactly these.
\<close>
theorem catalog_durable:
  assumes "catalog_reach lib path s"
  shows "(cs_up s \<longrightarrow> cs_loaded s = cs_log s) \<and>
     (\<exists>fs. Replay lib disk_ok collect [] path (cs_fs s) = (Inr (cs_log s, length (cs_log s)), fs))"
  using Replay_inv [OF catalog_reach_inv [OF assms]] catalog_reach_inv [OF assms] by (auto simp: catalog_inv_def)

theorem catalog_durable_witness:
  "\<exists>s fs. catalog_reach example_library [99] s \<and> \<not> cs_up s \<and> cs_log s = [example_record] \<and>
     cs_fs s [99] = Some (catalog_file example_library [example_record] @ take 50 (encoded_record example_library example_record)) \<and>
     Replay example_library disk_ok collect [] [99] (cs_fs s) = (Inr ([example_record], 1), fs)"
proof -
  let ?lib = example_library and ?r = example_record
  let ?s0 = "\<lparr>cs_fs = (\<lambda>_. None), cs_log = [], cs_up = False, cs_loaded = []\<rparr> :: u8 list option catalog_state"
  let ?s1 = "?s0\<lparr>cs_up := True\<rparr>"
  let ?f2 = "(\<lambda>_. None)([99] \<mapsto> catalog_file ?lib [?r])"
  let ?s2 = "?s1\<lparr>cs_fs := ?f2, cs_log := [?r], cs_loaded := [?r]\<rparr>"
  let ?f3 = "?f2([99] \<mapsto> catalog_file ?lib [?r] @ take 50 (encoded_record ?lib ?r))"
  let ?s3 = "?s2\<lparr>cs_fs := ?f3, cs_up := False\<rparr>"
  have none: "\<not> Exists [99] (\<lambda>_. None)" by (simp add: Exists_def)
  have bytes: "record_bytes ?lib ?r = Inr (encoded_record ?lib ?r)"
    using record_layout_ex [OF example_record_ok] by (auto simp: record_layout_def)
  have "catalog_reach ?lib [99] ?s0" by (rule catalog_reach.init [OF none])
  moreover have "catalog_step ?lib [99] ?s0 ?s1"
    using catalog_step.start [of ?s0 ?lib "[99]" "[]" 0 "\<lambda>_. None"] none by (simp add: Replay_def)
  moreover have "catalog_step ?lib [99] ?s1 ?s2"
    using catalog_step.append [of ?s1 ?lib ?r "[99]" ?f2] Append_new [OF example_record_ok none] example_record_ok by simp
  moreover have "catalog_step ?lib [99] ?s2 ?s3"
    using catalog_step.crash_record [of ?s2 ?lib ?r 50 "[99]" ?f3] example_record_ok bytes example_record_length
      Exists_catalog [of ?f2 "[99]" ?lib "[?r]" "[]"]
    by (simp add: catalog_Append_def)
  ultimately have "catalog_reach ?lib [99] ?s3" by (meson catalog_reach.step)
  with catalog_durable [OF this] show ?thesis by (intro exI [of _ ?s3]) simp
qed

section \<open>Damage\<close>

lemma record_header_cut:
  assumes "storable_record lib r" and "48 \<le> j" and "j < length (encoded_record lib r)"
  obtains cs ms rc rn lc ln where "cs \<le> kMaximumMetadataBytes" "ms \<le> kMaximumMetadataBytes"
    "shape_ok rc rn" "shape_ok lc ln" "length (drop 48 (encoded_record lib r)) = cs + 4 * unat rn * unat rc + 4 * unat ln * unat lc"
    "(encoded_record lib r)[j := b] = record_header cs ms (rc, rn) (lc, ln)
       (HashBytes catalog_hash_seed (drop 48 (encoded_record lib r))) @ (drop 48 (encoded_record lib r))[j - 48 := b]"
proof -
  obtain m c rc rn lc ln where lay: "record_layout lib r m c rc rn lc ln" using record_layout_ex [OF assms(1)] by blast
  let ?p = "c @ vector_bytes (cr_remote r) @ vector_bytes (cr_local r)"
  let ?h = "record_header (length c) (length m) (rc, rn) (lc, ln) (HashBytes catalog_hash_seed ?p)"
  have e: "encoded_record lib r = ?h @ ?p" using lay by (simp add: record_layout_def)
  then have p: "drop 48 (encoded_record lib r) = ?p" by simp
  have "(?h @ ?p)[j := b] = ?h @ ?p[j - 48 := b]" using assms(2) by (simp add: list_update_append)
  with lay that [of "length c" "length m" rc rn lc ln] p e show ?thesis by (simp add: record_layout_def)
qed

lemma damaged_payload:
  assumes "length bs = cs + 4 * unat rn * unat rc + 4 * unat ln * unat lc" and "shape_ok rc rn" and "shape_ok lc ln"
    and "HashBytes catalog_hash_seed bs \<noteq> h"
  shows "read_payload lib cs ms (rc, rn) (lc, ln) h (bs @ rest) = Broken ChecksumMismatch"
proof -
  let ?r = "4 * unat rn * unat rc" and ?l = "4 * unat ln * unat lc"
  define c rv lv where "c = take cs bs" and "rv = take ?r (drop cs bs)" and "lv = drop ?r (drop cs bs)"
  have bs: "bs = c @ rv @ lv" by (simp only: c_def rv_def lv_def append_take_drop_id)
  have len: "length c = cs" "length rv = ?r" "length lv = ?l" using assms(1) by (simp_all add: c_def rv_def lv_def)
  obtain rvs where r: "ReadVectors (rv @ lv @ rest) rc rn (HashBytes catalog_hash_seed c) =
      Inr (rvs, lv @ rest, HashBytes (HashBytes catalog_hash_seed c) rv)"
    using ReadVectors_long [OF assms(2), of "rv @ lv @ rest" "HashBytes catalog_hash_seed c"] len(2) by auto
  obtain lvs where l: "ReadVectors (lv @ rest) lc ln (HashBytes (HashBytes catalog_hash_seed c) rv) =
      Inr (lvs, rest, HashBytes (HashBytes (HashBytes catalog_hash_seed c) rv) lv)"
    using ReadVectors_long [OF assms(3), of "lv @ rest" "HashBytes (HashBytes catalog_hash_seed c) rv"] len(3) by auto
  have "HashBytes (HashBytes (HashBytes catalog_hash_seed c) rv) lv \<noteq> h"
    using assms(4) by (simp add: bs HashBytes_append)
  then show ?thesis
    by (simp add: bs read_payload_def take_bytes_app len(1) catalog_HashBytes_eq r l)
qed

text \<open>
  C24. Damage to the contents of a record is noticed: when one byte behind the header of a record, of
  its compressed document or of its vectors, has another value, whatever follows in the file,
  \<open>Replay\<close> throws the checksum error after the records before it and leaves the file alone.
\<close>
theorem catalog_detects_damage:
  assumes "all_storable lib rs" and "storable_record lib r" and "48 \<le> j" and "j < length (encoded_record lib r)"
    and "b \<noteq> encoded_record lib r ! j"
    and "fs path = Some (catalog_file lib rs @ (encoded_record lib r)[j := b] @ rest)"
  shows "Replay lib disk_ok collect [] path fs = (Inl ChecksumMismatch, fs)"
proof -
  let ?p = "drop 48 (encoded_record lib r)"
  obtain cs ms rc rn lc ln where c: "cs \<le> kMaximumMetadataBytes" "ms \<le> kMaximumMetadataBytes"
    "shape_ok rc rn" "shape_ok lc ln" "length ?p = cs + 4 * unat rn * unat rc + 4 * unat ln * unat lc"
    and bytes: "(encoded_record lib r)[j := b] = record_header cs ms (rc, rn) (lc, ln)
       (HashBytes catalog_hash_seed ?p) @ ?p[j - 48 := b]"
    using record_header_cut [OF assms(2-4)] by blast
  have "HashBytes catalog_hash_seed (?p[j - 48 := b]) \<noteq> HashBytes catalog_hash_seed ?p"
    using assms(3-5) by (intro HashBytes_update_differs) simp_all
  then have "read_record lib ((encoded_record lib r)[j := b] @ rest) = Broken ChecksumMismatch"
    using c by (simp add: bytes read_record_header damaged_payload)
  then have "replay_loop lib collect ((encoded_record lib r)[j := b] @ rest) g s n = Inl ChecksumMismatch" for g s n
    by (simp add: replay_loop.simps [of lib collect "(encoded_record lib r)[j := b] @ rest"])
  then have loop: "replay_loop lib collect (log_bytes (encoded_record lib) rs @ (encoded_record lib r)[j := b] @ rest) 16 [] 0 =
      Inl ChecksumMismatch"
    using cat.replay_log [of rs lib collect "(encoded_record lib r)[j := b] @ rest" 16 "[]" 0] assms(1)
    by (simp add: all_storable_def)
  have "fs path = Some (file_header @ log_bytes (encoded_record lib) rs @ (encoded_record lib r)[j := b] @ rest)"
    using assms(6) by (simp add: catalog_file_def)
  from Replay_file [of fs path _ lib collect "[]", OF this] show ?thesis by (simp add: loop)
qed

theorem catalog_detects_damage_witness:
  "let bs = encoded_record example_library example_record;
       fs = (\<lambda>_. Some (catalog_file example_library [] @ bs[50 := bs ! 50 + 1] @ bs))
   in Replay example_library disk_ok collect [] [99] fs = (Inl ChecksumMismatch, fs)"
  unfolding Let_def
  by (rule catalog_detects_damage [OF _ example_record_ok])
     (simp_all add: all_storable_def example_record_length)

text \<open>
  C35. Defect: damage to a size in a record's header is not noticed but deletes data.  When the header
  claims vectors longer than the rest of the file (and within the 16 GiB limit), \<open>Replay\<close> takes the
  record and everything behind it, complete records included, for a torn tail and cuts them off the
  file without an error.
\<close>
theorem catalog_bad_size_deletes:
  assumes "all_storable lib rs" and "cs \<le> kMaximumMetadataBytes" and "ms \<le> kMaximumMetadataBytes"
    and "shape_ok count dimension" and "cs \<le> length rest" and "length rest < cs + 4 * unat dimension * unat count"
    and "fs path = Some (catalog_file lib rs @ record_header cs ms (count, dimension) local h @ rest)"
  shows "Replay lib disk_ok collect [] path fs = (Inr (rs, length rs), fs(path \<mapsto> catalog_file lib rs))"
proof -
  let ?tail = "record_header cs ms (count, dimension) local h @ rest"
  have "length (drop cs rest) < 4 * unat dimension * unat count" using assms(5,6) by simp
  then have "read_record lib ?tail = Tail"
    using assms(5) by (simp add: read_record_header [OF assms(2,3)] read_payload_def take_bytes_def ReadVectors_short [OF assms(4)])
  then have "replay_loop lib collect ?tail g s n = Inr (s, n, g)" for g s n
    by (simp add: replay_loop.simps [of lib collect ?tail])
  then have loop: "replay_loop lib collect (log_bytes (encoded_record lib) rs @ ?tail) 16 [] 0 =
      Inr (rs, length rs, 16 + length (log_bytes (encoded_record lib) rs))"
    using cat.replay_log [of rs lib collect ?tail 16 "[]" 0] assms(1) by (simp add: all_storable_def)
  have "fs path = Some (file_header @ log_bytes (encoded_record lib) rs @ ?tail)"
    using assms(7) by (simp add: catalog_file_def)
  from Replay_file [of fs path _ lib collect "[]", OF this] show ?thesis by (simp add: loop catalog_file_def)
qed

theorem catalog_bad_size_deletes_witness:
  "let fs = (\<lambda>_. Some (catalog_file example_library [example_record] @ record_header 0 0 (1, 15) (0, 0) 0 @
              encoded_record example_library example_record))
   in Replay example_library disk_ok collect [] [99] fs =
      (Inr ([example_record], 1), fs([99] \<mapsto> catalog_file example_library [example_record]))"
proof -
  have "shape_ok 1 15" by (simp add: shape_ok_def kMaximumVectorBytes_def)
  then show ?thesis
    using catalog_bad_size_deletes [of example_library "[example_record]" 0 0 1 15 "encoded_record example_library example_record"
        "\<lambda>_. Some (catalog_file example_library [example_record] @ record_header 0 0 (1, 15) (0, 0) 0 @
              encoded_record example_library example_record)" "[99]" "(0, 0)" 0] example_record_ok
    by (simp add: all_storable_def example_record_length Let_def)
qed

end
