(* ===== verification/CatalogCompact.thy ===== *)
theory CatalogCompact
  imports CatalogCrash
begin

text \<open>
  Compacting keeps the last version of every document that is not deleted: the new file shows the
  same documents, with one record each.  Its generation switch is not safe against a crash.
\<close>

section \<open>Versions\<close>

definition doc_id :: "'j library \<Rightarrow> 'j catalog_record \<Rightarrow> u8 list option" where
  "doc_id lib r = lib_value lib (cr_document r) key_document_id"

text \<open>The records the engine writes: a document id, an operation or none, and no null document.\<close>

definition catalogued :: "'j library \<Rightarrow> 'j catalog_record \<Rightarrow> bool" where
  "catalogued lib r \<longleftrightarrow>
     (case doc_id lib r of None \<Rightarrow> False | Some d \<Rightarrow> d \<noteq> []) \<and> is_delete lib (cr_document r) \<noteq> None \<and>
     \<not> lib_is_null lib (cr_document r)"

fun last_versions :: "'j library \<Rightarrow> 'j catalog_record list \<Rightarrow> 'j catalog_record list" where
  "last_versions lib [] = []"
| "last_versions lib (r # rs) =
     (if \<exists>q\<in>set rs. doc_id lib q = doc_id lib r then last_versions lib rs else r # last_versions lib rs)"

definition kept_records :: "'j library \<Rightarrow> 'j catalog_record list \<Rightarrow> 'j catalog_record list" where
  "kept_records lib rs = filter (\<lambda>r. is_delete lib (cr_document r) = Some False) (last_versions lib rs)"

text \<open>The documents a log of records shows: the last record of each, unless it deletes.\<close>

definition catalog_view :: "'j library \<Rightarrow> 'j catalog_record list \<Rightarrow> u8 list \<Rightarrow> 'j catalog_record option" where
  "catalog_view lib rs d =
     (case find (\<lambda>r. doc_id lib r = Some d) (rev rs) of
        None \<Rightarrow> None
      | Some r \<Rightarrow> if is_delete lib (cr_document r) = Some False then Some r else None)"

lemma find_app: "find P (xs @ ys) = (case find P xs of None \<Rightarrow> find P ys | Some x \<Rightarrow> Some x)"
  by (induction xs) auto

lemma find_SomeD: "find P xs = Some x \<Longrightarrow> x \<in> set xs \<and> P x"
  by (induction xs) (auto split: if_splits)

lemma find_rev_Cons:
  "find P (rev (x # xs)) = (if \<exists>y\<in>set xs. P y then find P (rev xs) else if P x then Some x else None)"
  by (auto simp: find_app find_None_iff split: option.split dest!: find_SomeD)

lemma set_last_versions: "set (last_versions lib rs) \<subseteq> set rs"
  by (induction rs) auto

lemma last_versions_id: "\<exists>q\<in>set rs. doc_id lib q = d \<Longrightarrow> \<exists>q\<in>set (last_versions lib rs). doc_id lib q = d"
  by (induction rs) auto

lemma distinct_last_versions: "distinct (map (doc_id lib) (last_versions lib rs))"
  by (induction rs) (use set_last_versions in fastforce)+

lemma find_last_versions:
  "find (\<lambda>r. doc_id lib r = d) (rev (last_versions lib rs)) = find (\<lambda>r. doc_id lib r = d) (rev rs)"
proof (induction rs)
  case Nil
  then show ?case by simp
next
  case (Cons r rs)
  show ?case
  proof (cases "\<exists>q\<in>set rs. doc_id lib q = doc_id lib r")
    case True
    with Cons show ?thesis by (auto simp: find_rev_Cons find_None_iff simp del: rev.simps)
  next
    case False
    have "(\<exists>q\<in>set (last_versions lib rs). doc_id lib q = d) \<longleftrightarrow> (\<exists>q\<in>set rs. doc_id lib q = d)"
      using set_last_versions [of lib rs] last_versions_id [of rs lib d] by blast
    with Cons False show ?thesis by (simp add: find_rev_Cons del: rev.simps)
  qed
qed

lemma find_filter_distinct:
  "distinct (map f xs) \<Longrightarrow> find (\<lambda>x. f x = d) (filter P xs) =
     (case find (\<lambda>x. f x = d) xs of None \<Rightarrow> None | Some x \<Rightarrow> if P x then Some x else None)"
proof (induction xs)
  case Nil
  then show ?case by simp
next
  case (Cons x xs)
  have "find (\<lambda>y. f y = f x) (filter P xs) = None" using Cons.prems by (auto simp: find_None_iff image_iff)
  with Cons show ?case by auto
qed

lemma kept_records_view: "catalog_view lib (kept_records lib rs) = catalog_view lib rs"
proof
  fix d
  let ?P = "\<lambda>r. is_delete lib (cr_document r) = Some False"
  have "distinct (map (doc_id lib) (rev (last_versions lib rs)))"
    using distinct_last_versions [of lib rs] by (simp add: rev_map [symmetric])
  then have "find (\<lambda>r. doc_id lib r = Some d) (rev (kept_records lib rs)) =
      (case find (\<lambda>r. doc_id lib r = Some d) (rev rs) of None \<Rightarrow> None | Some x \<Rightarrow> if ?P x then Some x else None)"
    by (simp add: kept_records_def rev_filter find_filter_distinct find_last_versions)
  then show "catalog_view lib (kept_records lib rs) d = catalog_view lib rs d"
    by (simp add: catalog_view_def split: option.split)
qed

section \<open>The records that are replayed\<close>

fun nulled :: "'j library \<Rightarrow> 'j catalog_record list \<Rightarrow> 'j catalog_record list" where
  "nulled lib [] = []"
| "nulled lib (r # rs) =
     (if \<exists>q\<in>set rs. doc_id lib q = doc_id lib r then r\<lparr>cr_document := lib_null lib\<rparr> else r) # nulled lib rs"

lemma length_nulled [simp]: "length (nulled lib rs) = length rs"
  by (induction rs) auto

lemma nulled_snoc:
  "nulled lib (rs @ [r]) =
     map2 (\<lambda>q n. if doc_id lib q = doc_id lib r then n\<lparr>cr_document := lib_null lib\<rparr> else n) rs (nulled lib rs) @ [r]"
  by (induction rs) auto

lemma consume_all_snoc:
  "consume_all c (rs @ [r]) s = (case consume_all c rs s of Inl e \<Rightarrow> Inl e | Inr s' \<Rightarrow> c r s')"
  by (induction rs arbitrary: s) (auto split: sum.split)

text \<open>The index of the last record of each document.\<close>

definition latest_ok :: "'j library \<Rightarrow> 'j catalog_record list \<Rightarrow> (u8 list \<Rightarrow> nat option) \<Rightarrow> bool" where
  "latest_ok lib rs latest \<longleftrightarrow>
     (\<forall>d. case latest d of
        None \<Rightarrow> \<forall>q\<in>set rs. doc_id lib q \<noteq> Some d
      | Some k \<Rightarrow> k < length rs \<and> doc_id lib (rs ! k) = Some d \<and>
          (\<forall>j<length rs. k < j \<longrightarrow> doc_id lib (rs ! j) \<noteq> Some d))"

lemma nulled_nth_old:
  "i < j \<Longrightarrow> j < length rs \<Longrightarrow> doc_id lib (rs ! j) = doc_id lib (rs ! i) \<Longrightarrow>
   (nulled lib rs ! i)\<lparr>cr_document := lib_null lib\<rparr> = nulled lib rs ! i"
proof (induction rs arbitrary: i j)
  case Nil
  then show ?case by simp
next
  case (Cons r rs)
  obtain k where k: "j = Suc k" "k < length rs" using Cons.prems(1,2) by (cases j) auto
  show ?case
  proof (cases i)
    case 0
    with Cons.prems k have "\<exists>q\<in>set rs. doc_id lib q = doc_id lib r" by (intro bexI [of _ "rs ! k"]) auto
    with 0 show ?thesis by simp
  next
    case (Suc l)
    with Cons k show ?thesis by simp
  qed
qed

lemma compact_replay:
  assumes "\<forall>r\<in>set rs. catalogued lib r"
  shows "\<exists>latest. consume_all (compact_record lib) rs ((\<lambda>_. None), []) = Inr (latest, nulled lib rs) \<and> latest_ok lib rs latest"
  using assms
proof (induction rs rule: rev_induct)
  case Nil
  then show ?case by (simp add: latest_ok_def)
next
  case (snoc r rs)
  then obtain latest where IH: "consume_all (compact_record lib) rs ((\<lambda>_. None), []) = Inr (latest, nulled lib rs)"
    "latest_ok lib rs latest" by auto
  obtain d where d: "doc_id lib r = Some d" "d \<noteq> []" using snoc.prems by (auto simp: catalogued_def split: option.splits)
  let ?upd = "case latest d of None \<Rightarrow> nulled lib rs
    | Some k \<Rightarrow> (nulled lib rs)[k := (nulled lib rs ! k)\<lparr>cr_document := lib_null lib\<rparr>]"
  let ?map = "map2 (\<lambda>q n. if doc_id lib q = doc_id lib r then n\<lparr>cr_document := lib_null lib\<rparr> else n) rs (nulled lib rs)"
  have "?upd = ?map"
  proof (rule nth_equalityI)
    show "length ?upd = length ?map" by (simp split: option.split)
    fix i
    assume "i < length ?upd"
    then have i: "i < length rs" by (simp split: option.splits)
    show "?upd ! i = ?map ! i"
    proof (cases "latest d")
      case None
      then have "doc_id lib (rs ! i) \<noteq> doc_id lib r" using IH(2) d i by (auto simp: latest_ok_def dest: spec [of _ d])
      with None i show ?thesis by simp
    next
      case (Some k)
      then have k: "k < length rs" "doc_id lib (rs ! k) = Some d" "\<forall>j<length rs. k < j \<longrightarrow> doc_id lib (rs ! j) \<noteq> Some d"
        using IH(2) by (auto simp: latest_ok_def dest: spec [of _ d])
      consider "i = k" | "i < k" | "k < i" by linarith
      then show ?thesis
        using Some i k d nulled_nth_old [of i k rs lib] by cases auto
    qed
  qed
  moreover have "compact_record lib r (latest, nulled lib rs) = Inr (latest(d \<mapsto> length rs), ?upd @ [r])"
    using d by (simp add: compact_record_def doc_id_def Let_def split: option.split)
  moreover have "latest_ok lib (rs @ [r]) (latest(d \<mapsto> length rs))"
  proof (unfold latest_ok_def, rule allI)
    fix e
    have "case latest e of None \<Rightarrow> \<forall>q\<in>set rs. doc_id lib q \<noteq> Some e
      | Some k \<Rightarrow> k < length rs \<and> doc_id lib (rs ! k) = Some e \<and> (\<forall>j<length rs. k < j \<longrightarrow> doc_id lib (rs ! j) \<noteq> Some e)"
      using IH(2) by (simp add: latest_ok_def)
    with d show "case (latest(d \<mapsto> length rs)) e of None \<Rightarrow> \<forall>q\<in>set (rs @ [r]). doc_id lib q \<noteq> Some e
      | Some k \<Rightarrow> k < length (rs @ [r]) \<and> doc_id lib ((rs @ [r]) ! k) = Some e \<and>
          (\<forall>j<length (rs @ [r]). k < j \<longrightarrow> doc_id lib ((rs @ [r]) ! j) \<noteq> Some e)"
      by (cases "e = d"; cases "latest e") (auto simp: nth_append less_Suc_eq)
  qed
  ultimately show ?case using IH(1) by (simp add: consume_all_snoc nulled_snoc)
qed

section \<open>Compacting\<close>

lemma kept_nulled:
  assumes "\<forall>r\<in>set rs. catalogued lib r" and "lib_is_null lib (lib_null lib)"
  shows "filter (\<lambda>r. \<not> lib_is_null lib (cr_document r) \<and> is_delete lib (cr_document r) = Some False) (nulled lib rs) =
         kept_records lib rs"
    and "\<forall>r\<in>set (nulled lib rs). lib_is_null lib (cr_document r) \<or> is_delete lib (cr_document r) \<noteq> None"
  using assms by (induction rs) (auto simp: kept_records_def catalogued_def)

lemma append_kept_eq:
  assumes "\<forall>r\<in>set rs. lib_is_null lib (cr_document r) \<or> is_delete lib (cr_document r) \<noteq> None"
  shows "append_kept lib dk t rs n fs =
    (let ks = filter (\<lambda>r. \<not> lib_is_null lib (cr_document r) \<and> is_delete lib (cr_document r) = Some False) rs in
     case catalog_append_all lib dk ks t fs of
       (Inl e, fs) \<Rightarrow> (Inl e, fs)
     | (Inr _, fs) \<Rightarrow> (Inr (n + length ks), fs))"
  using assms
proof (induction rs arbitrary: n fs)
  case Nil
  then show ?case by simp
next
  case (Cons r rs)
  then show ?case
    by (cases "lib_is_null lib (cr_document r)"; cases "is_delete lib (cr_document r)")
       (auto simp: Let_def split: bool.split sum.split prod.split)
qed

lemma kept_subset: "set (kept_records lib rs) \<subseteq> set rs"
  using set_last_versions [of lib rs] by (auto simp: kept_records_def)

lemma inspect_consume:
  assumes "\<forall>r\<in>set rs. catalogued lib r"
  shows "\<exists>s'. consume_all (inspect_record lib) rs s = Inr s'"
  using assms
proof (induction rs arbitrary: s)
  case Nil
  then show ?case by simp
next
  case (Cons r rs)
  then obtain d b where "doc_id lib r = Some d" "d \<noteq> []" "is_delete lib (cr_document r) = Some b"
    by (auto simp: catalogued_def split: option.splits)
  then have "\<exists>s'. inspect_record lib r s = Inr s'" by (simp add: inspect_record_def doc_id_def)
  with Cons show ?case by auto
qed

lemma write_generation_ok:
  assumes rs: "all_storable lib rs" "\<forall>r\<in>set rs. catalogued lib r" "lib_is_null lib (lib_null lib)"
  shows "write_generation lib disk_ok t (nulled lib rs) fs =
    (Inr (length (kept_records lib rs)), fs(t \<mapsto> catalog_file lib (kept_records lib rs)))"
proof -
  let ?ks = "kept_records lib rs" and ?fs = "fs(t \<mapsto> catalog_file lib (kept_records lib rs))"
  have ks: "all_storable lib ?ks" "\<forall>r\<in>set ?ks. catalogued lib r"
    using rs kept_subset [of lib rs] by (auto simp: all_storable_def)
  have gone: "\<not> Exists t (fs(t := None))" by (simp add: Exists_def)
  have "append_kept lib disk_ok t (nulled lib rs) 0 (fs(t := None)) =
      (case catalog_append_all lib disk_ok ?ks t (fs(t := None)) of
         (Inl e, fs) \<Rightarrow> (Inl e, fs) | (Inr _, fs) \<Rightarrow> (Inr (length ?ks), fs))"
    using append_kept_eq [OF kept_nulled(2) [OF rs(2,3)]] kept_nulled(1) [OF rs(2,3)]
    by (simp add: Let_def split: sum.split prod.split)
  also have "\<dots> = (Inr (length ?ks), if ?ks = [] then fs(t := None) else ?fs)"
    using catalog_append_all_new [OF ks(1) _ gone] by auto
  finally have kept: "append_kept lib disk_ok t (nulled lib rs) 0 (fs(t := None)) =
      (Inr (length ?ks), if ?ks = [] then fs(t := None) else ?fs)" .
  have new: "(if \<not> Exists t (if ?ks = [] then fs(t := None) else ?fs)
      then Initialize disk_ok t (if ?ks = [] then fs(t := None) else ?fs)
      else (Inr (), if ?ks = [] then fs(t := None) else ?fs)) = (Inr (), ?fs)"
    using gone Exists_catalog [of ?fs t lib ?ks "[]"] by (simp add: Initialize_def disk_ok_def catalog_file_def)
  let ?s = "\<lparr>is_live = [], is_documents = 0, is_tombstones = 0\<rparr>"
  obtain s' where "consume_all (inspect_record lib) ?ks ?s = Inr s'" using inspect_consume [OF ks(2)] by blast
  then have "Replay lib disk_ok (inspect_record lib) ?s t ?fs = (Inr (s', length ?ks), ?fs)"
    using Replay_log [OF ks(1), of ?fs t "inspect_record lib" ?s] by simp
  then have "\<exists>res. Inspect lib disk_ok t ?fs = (Inr res, ?fs)" by (simp add: Inspect_def)
  then show ?thesis unfolding write_generation_def kept by (auto simp: new)
qed

lemma suffixed_distinct:
  "suffixed path dot_compacting \<noteq> path" "suffixed path dot_previous \<noteq> path"
  "suffixed path dot_compacting \<noteq> suffixed path dot_previous"
  by (simp_all add: suffixed_def dot_compacting_def dot_previous_def)

text \<open>
  C6. Compacting keeps exactly the documents: on a log of records with document ids, \<open>Compact\<close>
  succeeds and the new file is the log of the last record of each document that is not deleted, in
  order; it shows the same documents as the old one, no document twice, the counts it reports are
  those of the two logs, and no other file but its two auxiliary ones is touched.
\<close>
theorem catalog_compact_keeps_documents:
  assumes "all_storable lib rs" and "\<forall>r\<in>set rs. catalogued lib r" and "lib_is_null lib (lib_null lib)"
    and "fs path = Some (catalog_file lib rs)"
  shows "\<exists>res fs'. Compact lib disk_ok path fs = (Inr (Some res), fs') \<and>
     fs' path = Some (catalog_file lib (kept_records lib rs)) \<and>
     catalog_view lib (kept_records lib rs) = catalog_view lib rs \<and>
     distinct (map (doc_id lib) (kept_records lib rs)) \<and>
     co_records_before res = length rs \<and> co_records_after res = length (kept_records lib rs) \<and>
     (\<forall>p. p \<notin> {path, suffixed path dot_compacting, suffixed path dot_previous} \<longrightarrow> fs' p = fs p)"
proof -
  let ?t = "suffixed path dot_compacting" and ?p = "suffixed path dot_previous" and ?ks = "kept_records lib rs"
  obtain latest where "consume_all (compact_record lib) rs ((\<lambda>_. None), []) = Inr (latest, nulled lib rs)"
    using compact_replay [OF assms(2)] by blast
  then have replay: "Replay lib disk_ok (compact_record lib) ((\<lambda>_. None), []) path fs = (Inr ((latest, nulled lib rs), length rs), fs)"
    using Replay_log [OF assms(1), of fs path "compact_record lib"] assms(4) by simp
  have "Exists path fs" using assms(4) Exists_catalog [of fs path lib rs "[]"] by simp
  with replay write_generation_ok [OF assms(1-3), of ?t fs] suffixed_distinct [of path]
  have "\<exists>res. Compact lib disk_ok path fs =
      (Inr (Some res), (fs(path \<mapsto> catalog_file lib ?ks))(?t := None, ?p := None)) \<and>
      co_records_before res = length rs \<and> co_records_after res = length ?ks"
    by (auto simp: Compact_def switch_generation_def rename_file_def Let_def fun_eq_iff)
  moreover have "distinct (map (doc_id lib) ?ks)"
    using distinct_last_versions [of lib rs] by (simp add: kept_records_def distinct_map_filter)
  ultimately show ?thesis
    using kept_records_view [of lib rs] suffixed_distinct [of path] by auto
qed

theorem catalog_compact_keeps_documents_witness:
  "\<exists>res fs'. Compact example_library disk_ok [99]
       (\<lambda>_. Some (catalog_file example_library [example_record, example_record])) = (Inr (Some res), fs') \<and>
     fs' [99] = Some (catalog_file example_library [example_record]) \<and> co_records_before res = 2 \<and> co_records_after res = 1"
proof -
  have "catalogued example_library example_record"
    by (simp add: catalogued_def doc_id_def is_delete_def example_library_def example_record_def)
  moreover have "is_delete example_library (cr_document example_record) = Some False"
    by (simp add: is_delete_def example_library_def example_record_def key_document_id_def key_operation_def op_delete_def)
  then have "kept_records example_library [example_record, example_record] = [example_record]"
    by (simp add: kept_records_def)
  moreover have "lib_is_null example_library (lib_null example_library)" by (simp add: example_library_def)
  ultimately show ?thesis
    using catalog_compact_keeps_documents [of example_library "[example_record, example_record]"
        "\<lambda>_. Some (catalog_file example_library [example_record, example_record])" "[99]"] example_record_ok
    by (auto simp: all_storable_def)
qed

text \<open>
  C34. Defect: the generation switch of \<open>Compact\<close> is not crash safe.  After its second step the catalog
  is no longer at its path: a process that starts then replays no record, without an error, and the
  next append begins a new catalog, whose next compaction removes the old one.
\<close>
theorem catalog_switch_loses_all:
  assumes "storable_record lib r" and "fs path = Some bs"
  shows "let crashed = switch_generation path fs ! 1 in
     Replay lib disk_ok collect [] path crashed = (Inr ([], 0), crashed) \<and>
     (\<exists>fs'. catalog_Append lib disk_ok r path crashed = (Inr (), fs') \<and> fs' path = Some (catalog_file lib [r]) \<and>
        fs' (suffixed path dot_previous) = Some bs \<and>
        last (switch_generation path fs') (suffixed path dot_previous) = None)"
proof -
  let ?c = "switch_generation path fs ! 1" and ?p = "suffixed path dot_previous"
  have c: "?c path = None" "?c ?p = Some bs"
    using assms(2) suffixed_distinct [of path] by (simp_all add: switch_generation_def rename_file_def Let_def)
  then have new: "\<not> Exists path ?c" by (simp add: Exists_def)
  have gone: "last (switch_generation path f) ?p = None" for f
    by (simp add: switch_generation_def Let_def)
  from new have "Replay lib disk_ok collect [] path ?c = (Inr ([], 0), ?c)" by (simp add: Replay_def)
  with Append_new [OF assms(1) new] c(2) gone suffixed_distinct(2) [of path] show ?thesis by (simp add: Let_def)
qed

theorem catalog_switch_loses_all_witness:
  "Replay example_library disk_ok collect [] [99] (switch_generation [99] (\<lambda>_. Some [7]) ! 1) =
     (Inr ([], 0), switch_generation [99] (\<lambda>_. Some [7]) ! 1)"
  using catalog_switch_loses_all [OF example_record_ok, of "\<lambda>_. Some [7]" "[99]" "[7]"] by (simp add: Let_def)

end
