(* ===== verification/Aggregate.thy ===== *)
theory Aggregate
  imports Parallel Projection
begin

text \<open>
  \<open>engine/src/aggregate.cpp\<close> and \<open>simd_aggregate.cpp\<close>: count, sum, minimum and maximum of a
  column, of the rows a mask or a predicate selects, of a compressed view, with threads that share
  the rows of a column, and with threads that share the segments of a table.

  The switch over the type repeats one loop body for each numeric type; here the body is
  \<open>aggregate_row\<close> and the type decides what \<open>numeric_at\<close> reads.  A null \<open>out\<close> pointer is \<open>None\<close>; what
  an operation returns is what \<open>*out\<close> holds afterwards.  A parallel call has one thread for each
  list of work, whose partial result is \<open>None\<close> once it read out of bounds.
\<close>

section \<open>State\<close>

record aggregate_result =
  ag_count :: u64
  ag_sum :: f64
  ag_min :: f64
  ag_max :: f64
  ag_has_value :: bool

definition aggregate_new :: aggregate_result where
  "aggregate_new = \<lparr>ag_count = 0, ag_sum = 0, ag_min = 0, ag_max = 0, ag_has_value = False\<rparr>"

text \<open>The parts of the loop bodies: the extremes, the count, the sum.\<close>

definition track_range :: "f64 \<Rightarrow> aggregate_result \<Rightarrow> aggregate_result" where
  "track_range value r =
     (if \<not> ag_has_value r then r\<lparr>ag_min := value, ag_max := value, ag_has_value := True\<rparr>
      else r\<lparr>ag_min := (if f64_lt value (ag_min r) then value else ag_min r),
             ag_max := (if f64_gt value (ag_max r) then value else ag_max r)\<rparr>)"

definition add_count :: "aggregate_result \<Rightarrow> aggregate_result" where
  "add_count r = r\<lparr>ag_count := ag_count r + 1\<rparr>"

definition add_sum :: "f64 \<Rightarrow> aggregate_result \<Rightarrow> aggregate_result" where
  "add_sum value r = add_count (r\<lparr>ag_sum := f64_add (ag_sum r) value\<rparr>)"

definition add_range :: "f64 \<Rightarrow> aggregate_result \<Rightarrow> aggregate_result" where
  "add_range value r = add_count (track_range value r)"

definition add_value :: "f64 \<Rightarrow> aggregate_result \<Rightarrow> aggregate_result" where
  "add_value value r = add_count (track_range value (r\<lparr>ag_sum := f64_add (ag_sum r) value\<rparr>))"

section \<open>One column\<close>

definition masked_out :: "mask option \<Rightarrow> nat \<Rightarrow> bool" where
  "masked_out sel i = (case sel of None \<Rightarrow> False | Some m \<Rightarrow> \<not> mask_Get m i)"

definition numeric_at :: "field_vector \<Rightarrow> nat \<Rightarrow> f64 ub" where
  "numeric_at f i =
     (case fv_type f of
        kInt32 \<Rightarrow> map_option f64_of_i32 (at i (fv_i32 f))
      | kInt64 \<Rightarrow> map_option f64_of_i64 (at i (fv_i64 f))
      | kFloat64 \<Rightarrow> at i (fv_f64 f)
      | kBool \<Rightarrow> map_option (\<lambda>v. f64_of_int (if v \<noteq> 0 then 1 else 0)) (at i (fv_bool f))
      | kDictInt32 \<Rightarrow>
          do { v \<leftarrow> at i (fv_dict_ids f); v \<leftarrow> dict_Value_ub (fv_dictionary f) v; Some (f64_of_i32 v) }
      | _ \<Rightarrow> None)"

definition aggregate_row ::
  "(f64 \<Rightarrow> aggregate_result \<Rightarrow> aggregate_result) \<Rightarrow> field_vector \<Rightarrow> mask option \<Rightarrow> nat \<Rightarrow>
   aggregate_result \<Rightarrow> aggregate_result ub" where
  "aggregate_row add f sel i r =
     (if masked_out sel i then Some r
      else if fv_HasNulls f \<and> \<not> fv_IsValid f i then Some r
      else map_option (\<lambda>value. add value r) (numeric_at f i))"

definition aggregate_rows ::
  "(f64 \<Rightarrow> aggregate_result \<Rightarrow> aggregate_result) \<Rightarrow> field_vector \<Rightarrow> mask option \<Rightarrow> aggregate_result ub" where
  "aggregate_rows add f sel =
     (if has_numeric_stats (fv_type f) then for_ub 0 (fv_size f) (aggregate_row add f sel) aggregate_new
      else Some aggregate_new)"

definition AggregateDouble ::
  "f64 list option \<Rightarrow> nat \<Rightarrow> mask option \<Rightarrow> aggregate_result option \<Rightarrow> aggregate_result option ub" where
  "AggregateDouble data cnt sel out =
     (case (out, data) of
        (Some _, Some vs) \<Rightarrow>
          map_option Some
            (for_ub 0 cnt (\<lambda>i r. if masked_out sel i then Some r
                                   else map_option (\<lambda>value. add_value value r) (at i vs)) aggregate_new)
      | _ \<Rightarrow> Some out)"

definition AggregateField ::
  "field_vector \<Rightarrow> mask option \<Rightarrow> aggregate_result option \<Rightarrow> aggregate_result option ub" where
  "AggregateField f sel out =
     (case out of
        None \<Rightarrow> Some None
      | Some _ \<Rightarrow>
          if fv_type f = kFloat64 \<and> \<not> fv_HasNulls f
          then AggregateDouble (fv_DataFloat64 f) (fv_size f) sel (Some aggregate_new)
          else map_option Some (aggregate_rows add_value f sel))"

definition AggregateCount ::
  "field_vector \<Rightarrow> mask option \<Rightarrow> aggregate_result option \<Rightarrow> aggregate_result option ub" where
  "AggregateCount f sel out =
     (case out of
        None \<Rightarrow> Some None
      | Some _ \<Rightarrow>
          Some (Some (for_loop 0 (fv_size f)
            (\<lambda>i r. if masked_out sel i then r
                   else if fv_HasNulls f \<and> \<not> fv_IsValid f i then r
                   else add_count r) aggregate_new)))"

definition AggregateSum ::
  "field_vector \<Rightarrow> mask option \<Rightarrow> aggregate_result option \<Rightarrow> aggregate_result option ub" where
  "AggregateSum f sel out =
     (case out of None \<Rightarrow> Some None | Some _ \<Rightarrow> map_option Some (aggregate_rows add_sum f sel))"

definition AggregateMinMax ::
  "field_vector \<Rightarrow> mask option \<Rightarrow> aggregate_result option \<Rightarrow> aggregate_result option ub" where
  "AggregateMinMax f sel out =
     (case out of None \<Rightarrow> Some None | Some _ \<Rightarrow> map_option Some (aggregate_rows add_range f sel))"

definition AggregateMixed ::
  "field_vector \<Rightarrow> mask option \<Rightarrow> aggregate_result option \<Rightarrow> aggregate_result option ub" where
  "AggregateMixed f sel out = AggregateField f sel out"

text \<open>The kernels of \<open>simd_aggregate.cpp\<close>.\<close>

definition AggregateCountScalar :: "field_vector \<Rightarrow> mask option \<Rightarrow> aggregate_result option \<Rightarrow> aggregate_result option ub" where
  "AggregateCountScalar = AggregateCount"

definition AggregateSumScalar :: "field_vector \<Rightarrow> mask option \<Rightarrow> aggregate_result option \<Rightarrow> aggregate_result option ub" where
  "AggregateSumScalar = AggregateSum"

definition AggregateMinMaxScalar :: "field_vector \<Rightarrow> mask option \<Rightarrow> aggregate_result option \<Rightarrow> aggregate_result option ub" where
  "AggregateMinMaxScalar = AggregateMinMax"

definition AggregateMixedScalar :: "field_vector \<Rightarrow> mask option \<Rightarrow> aggregate_result option \<Rightarrow> aggregate_result option ub" where
  "AggregateMixedScalar = AggregateMixed"

definition AggregateDoubleScalar ::
  "f64 list option \<Rightarrow> nat \<Rightarrow> mask option \<Rightarrow> aggregate_result option \<Rightarrow> aggregate_result option ub" where
  "AggregateDoubleScalar = AggregateDouble"

section \<open>The rows of a predicate\<close>

definition aggregate_predicate ::
  "(field_vector \<Rightarrow> mask option \<Rightarrow> aggregate_result option \<Rightarrow> aggregate_result option ub) \<Rightarrow>
   field_vector \<Rightarrow> 'p predicate_fn option \<Rightarrow> 'p \<Rightarrow> aggregate_result option \<Rightarrow>
   'p \<times> aggregate_result option ub" where
  "aggregate_predicate aggregate f predicate pc out =
     (case (out, predicate) of
        (Some _, Some _) \<Rightarrow>
          (let (pc, m) = BuildMaskLoop (fv_size f) predicate pc (Some (mask_make (fv_size f)))
           in (pc, aggregate f m out))
      | _ \<Rightarrow> (pc, Some out))"

definition AggregateSumPredicate ::
  "field_vector \<Rightarrow> 'p predicate_fn option \<Rightarrow> 'p \<Rightarrow> aggregate_result option \<Rightarrow> 'p \<times> aggregate_result option ub" where
  "AggregateSumPredicate = aggregate_predicate AggregateSum"

definition AggregateCountPredicate ::
  "field_vector \<Rightarrow> 'p predicate_fn option \<Rightarrow> 'p \<Rightarrow> aggregate_result option \<Rightarrow> 'p \<times> aggregate_result option ub" where
  "AggregateCountPredicate = aggregate_predicate AggregateCount"

definition AggregateMinMaxPredicate ::
  "field_vector \<Rightarrow> 'p predicate_fn option \<Rightarrow> 'p \<Rightarrow> aggregate_result option \<Rightarrow> 'p \<times> aggregate_result option ub" where
  "AggregateMinMaxPredicate = aggregate_predicate AggregateMinMax"

definition AggregateMixedPredicate ::
  "field_vector \<Rightarrow> 'p predicate_fn option \<Rightarrow> 'p \<Rightarrow> aggregate_result option \<Rightarrow> 'p \<times> aggregate_result option ub" where
  "AggregateMixedPredicate = aggregate_predicate AggregateMixed"

section \<open>Compressed columns\<close>

definition AggregateCompressed ::
  "compressed_view \<Rightarrow> mask option \<Rightarrow> aggregate_result option \<Rightarrow> aggregate_result option ub" where
  "AggregateCompressed column sel out =
     (case (out, cv_data column) of
        (Some _, Some _) \<Rightarrow>
          if has_numeric_stats (cv_type column) then
            map_option Some
              (for_ub 0 (cv_row_count column)
                 (\<lambda>i r. if masked_out sel i then Some r
                        else map_option (\<lambda>v. case v of None \<Rightarrow> r | Some value \<Rightarrow> add_value value r)
                               (ReadNumericValue column i)) aggregate_new)
          else Some (Some aggregate_new)
      | _ \<Rightarrow> Some out)"

definition NeedsLz4Decode :: "compressed_view list \<Rightarrow> bool" where
  "NeedsLz4Decode columns = list_ex (\<lambda>col. cv_kind col = CkLz4) columns"

text \<open>A buffer of \<open>raw_size\<close> bytes filled by the decoder: \<open>None\<close> inside is a failed decode.\<close>

definition decode_buffer :: "u8 list option \<Rightarrow> nat \<Rightarrow> nat \<Rightarrow> u8 list option ub" where
  "decode_buffer data data_size raw_size =
     (if raw_size > 0 then
        do { data \<leftarrow> data;
             (ok, buffer) \<leftarrow> DecodeLz4Literal data data_size (Some (replicate raw_size 0)) raw_size;
             Some (if ok then buffer else None) }
      else Some (Some []))"

definition readable_column :: "compressed_view \<Rightarrow> compressed_view option ub" where
  "readable_column col =
     (if cv_kind col = CkLz4 then
        do { data \<leftarrow> decode_buffer (cv_data col) (cv_data_size col) (cv_raw_data_size col);
             case data of
               None \<Rightarrow> Some None
             | Some data \<Rightarrow>
                 do { aux \<leftarrow> decode_buffer (cv_aux col) (cv_aux_size col) (cv_raw_aux_size col);
                      Some (map_option (\<lambda>aux. col\<lparr>cv_kind := CkNone,
                              cv_data := (if data = [] then None else Some data),
                              cv_data_size := cv_raw_data_size col,
                              cv_aux := (if aux = [] then None else Some aux),
                              cv_aux_size := cv_raw_aux_size col\<rparr>) aux) } }
      else Some (Some col))"

fun BuildReadableColumns :: "compressed_view list \<Rightarrow> compressed_view list option ub" where
  "BuildReadableColumns [] = Some (Some [])"
| "BuildReadableColumns (col # cols) =
     do { view \<leftarrow> readable_column col;
          case view of
            None \<Rightarrow> Some None
          | Some view \<Rightarrow> do { views \<leftarrow> BuildReadableColumns cols; Some (map_option ((#) view) views) } }"

section \<open>Merging\<close>

definition AccumulateAggregate :: "aggregate_result \<Rightarrow> aggregate_result \<Rightarrow> aggregate_result" where
  "AccumulateAggregate src dest =
     (let dest = dest\<lparr>ag_count := ag_count dest + ag_count src, ag_sum := f64_add (ag_sum dest) (ag_sum src)\<rparr>
      in if ag_has_value src then
           if \<not> ag_has_value dest then dest\<lparr>ag_min := ag_min src, ag_max := ag_max src, ag_has_value := True\<rparr>
           else dest\<lparr>ag_min := (if f64_lt (ag_min src) (ag_min dest) then ag_min src else ag_min dest),
                     ag_max := (if f64_gt (ag_max src) (ag_max dest) then ag_max src else ag_max dest)\<rparr>
         else dest)"

definition merge_partials :: "aggregate_result ub list \<Rightarrow> aggregate_result ub" where
  "merge_partials parts =
     fold (\<lambda>part r. do { r \<leftarrow> r; part \<leftarrow> part; Some (AccumulateAggregate part r) }) parts (Some aggregate_new)"

section \<open>Threads\<close>

record agg_thread =
  at_work :: "nat list"
  at_partial :: "aggregate_result ub"

text \<open>One step of a thread: the next row of its chunk, or the next segment of its schedule.\<close>

definition agg_thread_step ::
  "(nat \<Rightarrow> aggregate_result \<Rightarrow> aggregate_result ub) \<Rightarrow> unit \<Rightarrow> agg_thread \<Rightarrow> (unit \<times> agg_thread) option" where
  "agg_thread_step body p th =
     (case (at_work th, at_partial th) of
        (i # rest, Some r) \<Rightarrow> Some (p, th\<lparr>at_work := rest, at_partial := body i r\<rparr>)
      | _ \<Rightarrow> None)"

definition run_threads ::
  "(nat \<Rightarrow> aggregate_result \<Rightarrow> aggregate_result ub) \<Rightarrow> nat list list \<Rightarrow> aggregate_result ub \<Rightarrow> bool" where
  "run_threads body works out \<longleftrightarrow>
     (\<exists>p ths. par_run (agg_thread_step body)
             ((), map (\<lambda>work. \<lparr>at_work = work, at_partial = Some aggregate_new\<rparr>) works) (p, ths) \<and>
           all_done (agg_thread_step body) (p, ths) \<and> out = merge_partials (map at_partial ths))"

definition field_chunk :: "field_vector \<Rightarrow> nat \<Rightarrow> nat \<Rightarrow> nat list" where
  "field_chunk f thread_count t =
     (let cnt = fv_size f;
          chunk = (cnt + thread_count - 1) div thread_count;
          start = t * chunk;
          stop = (if start + chunk > cnt then cnt else start + chunk)
      in if has_numeric_stats (fv_type f) then [start..<stop] else [])"

definition AggregateFieldParallel ::
  "field_vector \<Rightarrow> mask option \<Rightarrow> nat \<Rightarrow> aggregate_result option \<Rightarrow> aggregate_result option ub \<Rightarrow> bool" where
  "AggregateFieldParallel f sel thread_count out res \<longleftrightarrow>
     (case out of
        None \<Rightarrow> res = Some None
      | Some _ \<Rightarrow>
          if thread_count \<le> 1 \<or> fv_size f < thread_count then res = AggregateField f sel out
          else \<exists>r. run_threads (aggregate_row add_value f sel)
                      (map (field_chunk f thread_count) [0..<thread_count]) r \<and>
                    res = map_option Some r)"

section \<open>Segments\<close>

definition aggregate_segment :: "nat \<Rightarrow> segment \<Rightarrow> aggregate_result \<Rightarrow> aggregate_result ub" where
  "aggregate_segment field_index sg r =
     (if field_index \<ge> length (sg_fields sg) then Some r
      else if sg_sealed sg \<and> sg_compressed_columns sg \<noteq> [] then
        do { working \<leftarrow> (if NeedsLz4Decode (sg_compressed_columns sg)
                        then BuildReadableColumns (sg_compressed_columns sg)
                        else Some (Some (sg_compressed_columns sg)));
             case working of
               None \<Rightarrow> Some r
             | Some working \<Rightarrow>
                 do { column \<leftarrow> at field_index working;
                      seg_result \<leftarrow> AggregateCompressed column None (Some aggregate_new);
                      Some (AccumulateAggregate (the seg_result) r) } }
      else
        do { field \<leftarrow> at field_index (sg_fields sg);
             seg_result \<leftarrow> AggregateField field None (Some aggregate_new);
             Some (AccumulateAggregate (the seg_result) r) })"

definition AggregateSegmentsParallel ::
  "segment list \<Rightarrow> nat \<Rightarrow> nat \<Rightarrow> aggregate_result option \<Rightarrow> aggregate_result option ub \<Rightarrow> bool" where
  "AggregateSegmentsParallel segments field_index thread_count out res \<longleftrightarrow>
     (case out of
        None \<Rightarrow> res = Some None
      | Some _ \<Rightarrow>
          if thread_count \<le> 1 \<or> length segments < thread_count then
            res = map_option Some (fold (\<lambda>sg r. r \<bind> aggregate_segment field_index sg) segments (Some aggregate_new))
          else \<exists>r. run_threads (\<lambda>idx. aggregate_segment field_index (segments ! idx))
                      (ScheduleSegments (length segments) thread_count) r \<and>
                    res = map_option Some r)"

end
