(* ===== verification/AggregateProps.thy ===== *)
theory AggregateProps
  imports Aggregate
begin

text \<open>
  What the aggregates of a column are: those of the numbers of its selected cells, in row order.
\<close>

section \<open>The aggregates of a list of numbers\<close>

text \<open>The smaller of two doubles, the first one when neither is smaller.\<close>

definition fmin :: "f64 \<Rightarrow> f64 \<Rightarrow> f64" where
  "fmin a b = (if f64_lt b a then b else a)"

definition fmax :: "f64 \<Rightarrow> f64 \<Rightarrow> f64" where
  "fmax a b = (if f64_gt b a then b else a)"

definition fold1 :: "('a \<Rightarrow> 'a \<Rightarrow> 'a) \<Rightarrow> 'a \<Rightarrow> 'a list \<Rightarrow> 'a" where
  "fold1 g z vs = (case vs of [] \<Rightarrow> z | v # ws \<Rightarrow> foldl g v ws)"

definition summary :: "f64 list \<Rightarrow> aggregate_result" where
  "summary vs =
     \<lparr>ag_count = of_nat (length vs), ag_sum = foldl f64_add 0 vs,
      ag_min = fold1 fmin 0 vs, ag_max = fold1 fmax 0 vs, ag_has_value = (vs \<noteq> [])\<rparr>"

definition no_nan :: "f64 list \<Rightarrow> bool" where
  "no_nan vs = list_all (\<lambda>v. \<not> f64_nan v) vs"

lemma fold1_snoc: "fold1 g z (vs @ [v]) = (if vs = [] then v else g (fold1 g z vs) v)"
  by (cases vs) (simp_all add: fold1_def)

lemma summary_Nil: "summary [] = aggregate_new"
  by (simp add: summary_def aggregate_new_def fold1_def)

lemma summary_snoc: "summary (vs @ [v]) = add_value v (summary vs)"
  by (simp add: summary_def fold1_snoc add_value_def add_count_def track_range_def fmin_def fmax_def)

lemma fold_add_value: "fold add_value vs aggregate_new = summary vs"
  by (induction vs rule: rev_induct) (simp_all add: summary_Nil summary_snoc)

lemma fold_add_sum:
  "fold add_sum vs aggregate_new =
   aggregate_new\<lparr>ag_count := of_nat (length vs), ag_sum := ag_sum (summary vs)\<rparr>"
  by (induction vs rule: rev_induct) (simp_all add: summary_def add_sum_def add_count_def aggregate_new_def)

lemma fold_add_range: "fold add_range vs aggregate_new = (summary vs)\<lparr>ag_sum := 0\<rparr>"
proof (induction vs rule: rev_induct)
  case Nil
  then show ?case by (simp add: summary_Nil aggregate_new_def)
next
  case (snoc v vs)
  then show ?case by (simp add: summary_snoc add_range_def add_value_def add_count_def track_range_def)
qed

text \<open>Away from NaN these are the extremes.\<close>

definition extreme :: "(f64 \<Rightarrow> f64 \<Rightarrow> bool) \<Rightarrow> f64 list \<Rightarrow> f64 \<Rightarrow> bool" where
  "extreme le vs m \<longleftrightarrow> m \<in> set vs \<and> (\<forall>v\<in>set vs. le m v)"

lemma summary_extremes:
  assumes "no_nan vs" and "vs \<noteq> []"
  shows "extreme f64_le vs (ag_min (summary vs)) \<and> extreme f64_ge vs (ag_max (summary vs))"
  using assms
proof (induction vs rule: rev_induct)
  case Nil
  then show ?case by simp
next
  case (snoc v vs)
  show ?case
  proof (cases "vs = []")
    case True
    with snoc(2) show ?thesis by (simp add: summary_def fold1_def extreme_def f64_le_refl no_nan_def)
  next
    case False
    then have "extreme f64_le vs (ag_min (summary vs))" "extreme f64_ge vs (ag_max (summary vs))"
      using snoc by (simp_all add: no_nan_def)
    moreover from this have "\<not> f64_nan (ag_min (summary vs))" "\<not> f64_nan (ag_max (summary vs))" "\<not> f64_nan v"
      using snoc(2) by (auto simp: extreme_def no_nan_def list_all_iff)
    ultimately show ?thesis
      using False by (auto simp: summary_def fold1_snoc fmin_def fmax_def extreme_def f64_cmp_defs)
  qed
qed

section \<open>The numbers of a column\<close>

definition cell_number :: "cell \<Rightarrow> f64 option" where
  "cell_number c =
     (case c of
        CInt32 v \<Rightarrow> Some (f64_of_i32 v)
      | CInt64 v \<Rightarrow> Some (f64_of_i64 v)
      | CFloat64 v \<Rightarrow> Some v
      | CBool b \<Rightarrow> Some (f64_of_int (if b \<noteq> 0 then 1 else 0))
      | CDict v \<Rightarrow> Some (f64_of_i32 v)
      | _ \<Rightarrow> None)"

text \<open>The numbers of the rows \<open>P\<close> selects, in row order.\<close>

definition picked :: "(nat \<Rightarrow> bool) \<Rightarrow> cell list \<Rightarrow> f64 list" where
  "picked P cs = List.map_filter (\<lambda>i. if P i then cell_number (cs ! i) else None) [0..<length cs]"

definition row_taken :: "field_vector \<Rightarrow> mask option \<Rightarrow> nat \<Rightarrow> bool" where
  "row_taken f sel i \<longleftrightarrow> \<not> masked_out sel i \<and> fv_IsValid f i"

definition taken :: "field_vector \<Rightarrow> mask option \<Rightarrow> nat list \<Rightarrow> f64 list" where
  "taken f sel is = map (field_f64 f) (filter (row_taken f sel) is)"

lemma no_nulls_valid: "\<not> fv_HasNulls f \<Longrightarrow> fv_IsValid f i"
  by (simp add: fv_HasNulls_def fv_IsValid_def)

lemma numeric_at_inv:
  assumes "fv_inv f" and "has_numeric_stats (fv_type f)" and "i < fv_size f" and "fv_IsValid f i"
  shows "numeric_at f i = Some (field_f64 f i)"
proof -
  have "fv_data_len f = fv_size f" using assms(1) by (simp add: fv_inv_def)
  moreover have "fv_type f = kDictInt32 \<Longrightarrow> unat (fv_dict_ids f ! i) < length (dict_values (fv_dictionary f))"
    using dict_ids_ok [OF assms(1) _ assms(3,4)] .
  ultimately show ?thesis
    using assms(2,3)
    by (cases "fv_type f")
       (auto simp: numeric_at_def field_f64_def at_def fv_data_len_def has_numeric_stats_def dict_Value_ub_def
         fv_DictionaryValue_def)
qed

lemma cell_number_nth:
  assumes "fv_inv f" and "i < fv_size f"
  shows "cell_number (fv_cells f ! i) =
    (if has_numeric_stats (fv_type f) \<and> fv_IsValid f i then Some (field_f64 f i) else None)"
proof (cases "fv_IsValid f i")
  case False
  then show ?thesis using fv_cells_nth [OF assms] by (simp add: cell_number_def)
next
  case True
  have len: "fv_data_len f = fv_size f" using assms(1) by (simp add: fv_inv_def)
  have dict: "fv_type f = kDictInt32 \<Longrightarrow> unat (fv_dict_ids f ! i) < length (dict_values (fv_dictionary f))"
    using dict_ids_ok [OF assms(1) _ assms(2) True] .
  have "length (fv_values f) = fv_size f" using fv_values_len [OF len] .
  then show ?thesis
    using True len dict assms(2) fv_cells_nth [OF assms]
    by (cases "fv_type f")
       (auto simp: cell_number_def fv_values_def field_f64_def fv_data_len_def has_numeric_stats_def dict_cell_def
         fv_DictionaryValue_def)
qed

lemma picked_column:
  assumes "fv_inv f"
  shows "picked P (fv_cells f) =
    (if has_numeric_stats (fv_type f)
     then map (field_f64 f) (filter (\<lambda>i. P i \<and> fv_IsValid f i) [0..<fv_size f]) else [])"
proof -
  have "List.map_filter (\<lambda>i. if P i then cell_number (fv_cells f ! i) else None) is =
      (if has_numeric_stats (fv_type f) then map (field_f64 f) (filter (\<lambda>i. P i \<and> fv_IsValid f i) is) else [])"
    if "\<forall>i\<in>set is. i < fv_size f" for "is"
    using that by (induction "is") (simp_all add: List.map_filter_simps cell_number_nth [OF assms] split: if_splits)
  then show ?thesis by (simp add: picked_def fv_cells_len [OF assms])
qed

lemma taken_picked:
  "fv_inv f \<Longrightarrow> has_numeric_stats (fv_type f) \<Longrightarrow>
   taken f sel [0..<fv_size f] = picked (\<lambda>i. \<not> masked_out sel i) (fv_cells f)"
  by (simp add: picked_column taken_def row_taken_def [abs_def])

section \<open>The loops\<close>

lemma aggregate_row_taken:
  assumes "fv_inv f" and "has_numeric_stats (fv_type f)" and "i < fv_size f"
  shows "aggregate_row add f sel i r = Some (if row_taken f sel i then add (field_f64 f i) r else r)"
  using numeric_at_inv [OF assms] no_nulls_valid [of f i] by (auto simp: aggregate_row_def row_taken_def)

lemma aggregate_fold:
  assumes "fv_inv f" and "has_numeric_stats (fv_type f)" and "\<forall>i\<in>set is. i < fv_size f"
  shows "fold (\<lambda>i r. r \<bind> aggregate_row add f sel i) is (Some r) = Some (fold add (taken f sel is) r)"
  using assms(3)
  by (induction "is" arbitrary: r) (simp_all add: taken_def aggregate_row_taken [OF assms(1,2)])

lemma aggregate_rows_picked:
  assumes "fv_inv f"
  shows "aggregate_rows add f sel = Some (fold add (picked (\<lambda>i. \<not> masked_out sel i) (fv_cells f)) aggregate_new)"
proof (cases "has_numeric_stats (fv_type f)")
  case True
  then show ?thesis
    using aggregate_fold [OF assms True, of "[0..<fv_size f]" add sel aggregate_new]
    by (simp add: aggregate_rows_def for_ub_def taken_picked [OF assms])
next
  case False
  then show ?thesis by (simp add: aggregate_rows_def picked_column [OF assms])
qed

lemma AggregateDouble_rows:
  assumes "fv_inv f" and "fv_type f = kFloat64" and "\<not> fv_HasNulls f"
  shows "AggregateDouble (fv_DataFloat64 f) (fv_size f) sel (Some r0) = map_option Some (aggregate_rows add_value f sel)"
proof -
  have n: "has_numeric_stats (fv_type f)" using assms(2) by (simp add: has_numeric_stats_def)
  have "(if masked_out sel i then Some r else map_option (\<lambda>value. add_value value r) (at i (fv_f64 f))) =
      aggregate_row add_value f sel i r" if "i < fv_size f" for i r
    using assms(2,3) by (simp add: aggregate_row_def numeric_at_def)
  then have "for_ub 0 (fv_size f) (\<lambda>i r. if masked_out sel i then Some r
        else map_option (\<lambda>value. add_value value r) (at i (fv_f64 f))) aggregate_new =
      for_ub 0 (fv_size f) (aggregate_row add_value f sel) aggregate_new"
    by (intro for_ub_cong) simp
  then show ?thesis using assms(2) n by (simp add: AggregateDouble_def fv_DataFloat64_def aggregate_rows_def)
qed

lemma AggregateField_picked:
  assumes "fv_inv f"
  shows "AggregateField f sel (Some r0) = Some (Some (summary (picked (\<lambda>i. \<not> masked_out sel i) (fv_cells f))))"
  using AggregateDouble_rows [OF assms, of sel aggregate_new]
  by (simp add: AggregateField_def aggregate_rows_picked [OF assms] fold_add_value)

lemma sint_scast_32: "sint (scast (w :: u32) :: u64) = sint w"
  by (simp add: sint_up_scast is_up)

lemma field_f64_int: "is_encodable (fv_type f) \<Longrightarrow> field_f64 f i = f64_of_int (sint (field_i64 f i))"
  by (auto simp: is_encodable_def field_f64_def field_i64_def sint_scast_32)

lemma example_column_picked:
  "picked (\<lambda>_. True) (fv_cells example_column) = [f64_of_int 7, f64_of_int 300]"
proof -
  have "is_encodable (fv_type example_column)" by (simp add: example_column_cells is_encodable_def)
  note number = field_f64_int [OF this]
  have rows: "[0..<3] = [0, Suc 0, 2 :: nat]" by (simp add: upt_rec numeral_3_eq_3 numeral_2_eq_2)
  show ?thesis
    by (simp add: picked_column [OF example_column_inv(1)] example_column_cells has_numeric_stats_def rows number)
qed

text \<open>
  Aggregating a column gives the count, the sum in row order and the extremes of the numbers
  of its selected cells: for every column that satisfies the class invariant \<open>AggregateField\<close> stays in
  bounds, skips nulls and columns without numbers, and when no number is NaN the minimum and maximum
  are elements that bound all others.
\<close>
theorem AggregateField_correct:
  assumes "fv_inv f"
  shows "AggregateField f sel (Some r0) = Some (Some (summary (picked (\<lambda>i. \<not> masked_out sel i) (fv_cells f)))) \<and>
     (let vs = picked (\<lambda>i. \<not> masked_out sel i) (fv_cells f) in
      no_nan vs \<and> vs \<noteq> [] \<longrightarrow>
        extreme f64_le vs (ag_min (summary vs)) \<and> extreme f64_ge vs (ag_max (summary vs)))"
  using AggregateField_picked [OF assms] summary_extremes by (simp add: Let_def)

theorem AggregateField_correct_witness:
  "\<exists>r. AggregateField example_column None (Some aggregate_new) = Some (Some r) \<and> ag_count r = 2"
  using AggregateField_correct [OF example_column_inv(1), of None aggregate_new]
  by (simp add: masked_out_def example_column_picked summary_def)

end
