(* ===== verification/AggregateThreads.thy ===== *)
theory AggregateThreads
  imports AggregateProps
begin

text \<open>
  The other aggregates of a column, and the aggregation of a column by threads: it has one outcome,
  and this is the sequential result as far as merging partial results allows.
\<close>

section \<open>Counts, sums and extremes alone\<close>

lemma AggregateCount_rows:
  assumes "fv_inv f"
  shows "AggregateCount f sel (Some r0) = Some (Some (aggregate_new\<lparr>ag_count :=
    of_nat (length (filter (\<lambda>i. \<not> masked_out sel i \<and> fv_IsValid f i) [0..<fv_size f]))\<rparr>))"
proof -
  let ?step = "\<lambda>i r. if masked_out sel i then r else if fv_HasNulls f \<and> \<not> fv_IsValid f i then r else add_count r"
  have "for_loop 0 n ?step aggregate_new = aggregate_new\<lparr>ag_count :=
      of_nat (length (filter (\<lambda>i. \<not> masked_out sel i \<and> fv_IsValid f i) [0..<n]))\<rparr>" for n
    by (induction n) (auto simp: for_loop_Suc add_count_def aggregate_new_def no_nulls_valid)
  then show ?thesis by (simp add: AggregateCount_def)
qed

lemma map_filter_cong:
  assumes "xs = ys" and "\<And>x. x \<in> set ys \<Longrightarrow> g x = h x"
  shows "List.map_filter g xs = List.map_filter h ys"
proof -
  have "List.map_filter g ys = List.map_filter h ys"
    using assms(2) by (induction ys) (auto simp: List.map_filter_simps split: option.split)
  with assms(1) show ?thesis by simp
qed

lemma picked_cong: "(\<And>i. i < length cs \<Longrightarrow> P i = Q i) \<Longrightarrow> picked P cs = picked Q cs"
  unfolding picked_def by (intro map_filter_cong refl) simp

lemma predicate_mask:
  assumes "fv_inv f"
  obtains m where "aggregate_predicate aggregate f (Some p) pc (Some r0) =
      (fst (pred_run p (fv_size f) pc), aggregate f (Some m) (Some r0))"
    and "\<And>i. i < fv_size f \<Longrightarrow> masked_out (Some m) i \<longleftrightarrow> i \<notin> set (snd (pred_run p (fv_size f) pc))"
proof -
  let ?m = "snd (mask_loop p (fv_size f) pc (mask_Resize (mask_make (fv_size f)) (fv_size f)))"
  have "fst (mask_loop p (fv_size f) pc (mask_Resize (mask_make (fv_size f)) (fv_size f))) =
      fst (pred_run p (fv_size f) pc)"
    "\<forall>i<fv_size f. mask_Get ?m i \<longleftrightarrow> i \<in> set (snd (pred_run p (fv_size f) pc))"
    using mask_loop_run [of "mask_Resize (mask_make (fv_size f)) (fv_size f)" "fv_size f" p pc] by simp_all
  then show ?thesis
    by (intro that [of ?m]) (simp_all add: aggregate_predicate_def BuildMaskLoop_run masked_out_def)
qed

text \<open>What each aggregate is for the rows \<open>P\<close>: of their numbers, except for the count.\<close>

definition sum_result :: "(nat \<Rightarrow> bool) \<Rightarrow> field_vector \<Rightarrow> aggregate_result" where
  "sum_result P f =
     (let vs = picked P (fv_cells f) in aggregate_new\<lparr>ag_count := of_nat (length vs), ag_sum := ag_sum (summary vs)\<rparr>)"

definition count_result :: "(nat \<Rightarrow> bool) \<Rightarrow> field_vector \<Rightarrow> aggregate_result" where
  "count_result P f = aggregate_new\<lparr>ag_count := of_nat (length (filter (\<lambda>i. P i \<and> fv_IsValid f i) [0..<fv_size f]))\<rparr>"

definition range_result :: "(nat \<Rightarrow> bool) \<Rightarrow> field_vector \<Rightarrow> aggregate_result" where
  "range_result P f = (summary (picked P (fv_cells f)))\<lparr>ag_sum := 0\<rparr>"

definition mixed_result :: "(nat \<Rightarrow> bool) \<Rightarrow> field_vector \<Rightarrow> aggregate_result" where
  "mixed_result P f = summary (picked P (fv_cells f))"

lemma masked_aggregates:
  assumes "fv_inv f" and "\<And>i. i < fv_size f \<Longrightarrow> P i \<longleftrightarrow> \<not> masked_out sel i"
  shows "AggregateField f sel (Some r0) = Some (Some (mixed_result P f))"
    and "AggregateMixed f sel (Some r0) = Some (Some (mixed_result P f))"
    and "AggregateSum f sel (Some r0) = Some (Some (sum_result P f))"
    and "AggregateMinMax f sel (Some r0) = Some (Some (range_result P f))"
    and "AggregateCount f sel (Some r0) = Some (Some (count_result P f))"
proof -
  have vs: "picked (\<lambda>i. \<not> masked_out sel i) (fv_cells f) = picked P (fv_cells f)"
    by (rule picked_cong) (simp add: assms(2) fv_cells_len [OF assms(1)])
  have "filter (\<lambda>i. \<not> masked_out sel i \<and> fv_IsValid f i) [0..<fv_size f] = filter (\<lambda>i. P i \<and> fv_IsValid f i) [0..<fv_size f]"
    by (rule filter_cong) (simp_all add: assms(2))
  then show "AggregateCount f sel (Some r0) = Some (Some (count_result P f))"
    using AggregateCount_rows [OF assms(1), of sel r0] by (simp add: count_result_def)
  show "AggregateField f sel (Some r0) = Some (Some (mixed_result P f))"
    using AggregateField_picked [OF assms(1), of sel r0] by (simp add: vs mixed_result_def)
  then show "AggregateMixed f sel (Some r0) = Some (Some (mixed_result P f))" by (simp add: AggregateMixed_def)
  show "AggregateSum f sel (Some r0) = Some (Some (sum_result P f))" "AggregateMinMax f sel (Some r0) = Some (Some (range_result P f))"
    by (simp_all add: AggregateSum_def AggregateMinMax_def aggregate_rows_picked [OF assms(1)] fold_add_sum fold_add_range vs
        sum_result_def range_result_def Let_def)
qed

lemma predicate_aggregate:
  assumes "fv_inv f" and "\<And>m. (\<And>i. i < fv_size f \<Longrightarrow> i \<in> set (snd (pred_run p (fv_size f) pc)) \<longleftrightarrow> \<not> masked_out (Some m) i) \<Longrightarrow>
      aggregate f (Some m) (Some r0) = r"
  shows "aggregate_predicate aggregate f (Some p) pc (Some r0) = (fst (pred_run p (fv_size f) pc), r)"
proof -
  obtain m where m: "aggregate_predicate aggregate f (Some p) pc (Some r0) =
      (fst (pred_run p (fv_size f) pc), aggregate f (Some m) (Some r0))"
    "\<And>i. i < fv_size f \<Longrightarrow> masked_out (Some m) i \<longleftrightarrow> i \<notin> set (snd (pred_run p (fv_size f) pc))"
    using predicate_mask [OF assms(1), of aggregate p pc r0] by blast
  have "aggregate f (Some m) (Some r0) = r" by (rule assms(2)) (simp add: m(2))
  with m(1) show ?thesis by simp
qed

text \<open>
  C40. The specialised aggregates are parts of one result: with any mask, \<open>AggregateField\<close> and
  \<open>AggregateMixed\<close> summarise the numbers of the selected rows, \<open>AggregateSum\<close> has their count and sum,
  \<open>AggregateMinMax\<close> their count and extremes, and \<open>AggregateCount\<close> counts the selected rows that are not
  null, also in columns without numbers.  Each of the four predicate versions runs its predicate
  once over all rows, in order, and gives that aggregate of the rows it accepts.
\<close>
theorem Aggregate_variants_agree:
  assumes "fv_inv f"
  shows "(let P = (\<lambda>i. \<not> masked_out sel i) in
       AggregateField f sel (Some r0) = Some (Some (mixed_result P f)) \<and>
       AggregateMixed f sel (Some r0) = Some (Some (mixed_result P f)) \<and>
       AggregateSum f sel (Some r0) = Some (Some (sum_result P f)) \<and>
       AggregateMinMax f sel (Some r0) = Some (Some (range_result P f)) \<and>
       AggregateCount f sel (Some r0) = Some (Some (count_result P f))) \<and>
     (let (pc', accepted) = pred_run p (fv_size f) pc; P = (\<lambda>i. i \<in> set accepted) in
       AggregateMixedPredicate f (Some p) pc (Some r0) = (pc', Some (Some (mixed_result P f))) \<and>
       AggregateSumPredicate f (Some p) pc (Some r0) = (pc', Some (Some (sum_result P f))) \<and>
       AggregateMinMaxPredicate f (Some p) pc (Some r0) = (pc', Some (Some (range_result P f))) \<and>
       AggregateCountPredicate f (Some p) pc (Some r0) = (pc', Some (Some (count_result P f))))"
proof -
  let ?run = "pred_run p (fv_size f) pc"
  note versions = AggregateMixedPredicate_def AggregateSumPredicate_def AggregateMinMaxPredicate_def AggregateCountPredicate_def
  have "AggregateMixedPredicate f (Some p) pc (Some r0) = (fst ?run, Some (Some (mixed_result (\<lambda>i. i \<in> set (snd ?run)) f)))"
    "AggregateSumPredicate f (Some p) pc (Some r0) = (fst ?run, Some (Some (sum_result (\<lambda>i. i \<in> set (snd ?run)) f)))"
    "AggregateMinMaxPredicate f (Some p) pc (Some r0) = (fst ?run, Some (Some (range_result (\<lambda>i. i \<in> set (snd ?run)) f)))"
    "AggregateCountPredicate f (Some p) pc (Some r0) = (fst ?run, Some (Some (count_result (\<lambda>i. i \<in> set (snd ?run)) f)))"
    unfolding versions by (rule predicate_aggregate [OF assms] masked_aggregates [OF assms] | assumption)+
  then show ?thesis
    using masked_aggregates [OF assms, of "\<lambda>i. \<not> masked_out sel i" sel r0] by (simp add: Let_def split: prod.split)
qed

theorem Aggregate_variants_agree_witness:
  "\<exists>r. AggregateMinMax example_column None (Some aggregate_new) = Some (Some r) \<and> ag_count r = 2 \<and> ag_min r = f64_of_int 7"
proof -
  have "fmin (f64_of_int 7) (f64_of_int 300) = f64_of_int 7" by (simp add: fmin_def f64_of_int_cmp)
  then show ?thesis
    using Aggregate_variants_agree [OF example_column_inv(1), of None aggregate_new "\<lambda>i pc. (True, pc)" "()"]
    by (simp add: Let_def masked_out_def example_column_picked range_result_def summary_def fold1_def split: prod.splits)
qed

section \<open>Partial results\<close>

text \<open>What one thread makes of its work.\<close>

definition work_result ::
  "(nat \<Rightarrow> aggregate_result \<Rightarrow> aggregate_result ub) \<Rightarrow> agg_thread \<Rightarrow> aggregate_result ub" where
  "work_result body th = fold (\<lambda>i r. r \<bind> body i) (at_work th) (at_partial th)"

lemma fold_bind_None: "fold (\<lambda>i r. r \<bind> g i) is None = None"
  by (induction "is") simp_all

interpretation agg_threads:
  thread_program "agg_thread_step body" "length \<circ> at_work" "\<lambda>_ _. True" "\<lambda>_. work_result body" at_partial
  for body
proof unfold_locales
  fix p p' and s s' :: agg_thread
  assume s: "agg_thread_step body p s = Some (p', s')"
  then show "p' = p" "(length \<circ> at_work) s' < (length \<circ> at_work) s" "work_result body s' = work_result body s"
    by (auto simp: agg_thread_step_def work_result_def split: list.splits option.splits)
next
  fix p and s :: agg_thread
  assume "agg_thread_step body p s = None"
  then show "work_result body s = at_partial s"
    by (auto simp: agg_thread_step_def work_result_def fold_bind_None split: list.splits option.splits)
qed simp_all

lemma run_threads_outcome:
  "run_threads body works out \<longleftrightarrow>
   out = merge_partials (map (\<lambda>work. fold (\<lambda>i r. r \<bind> body i) work (Some aggregate_new)) works)"
proof -
  let ?ths = "map (\<lambda>work. \<lparr>at_work = work, at_partial = Some aggregate_new\<rparr>) works"
  have "work_result body \<circ> (\<lambda>work. \<lparr>at_work = work, at_partial = Some aggregate_new\<rparr>) =
      (\<lambda>work. fold (\<lambda>i r. r \<bind> body i) work (Some aggregate_new))"
    by (rule ext) (simp add: work_result_def)
  then show ?thesis
    using agg_threads.outcome [where ths = ?ths and p = "()" and body = body and out = out and g = "\<lambda>_. merge_partials"] by (simp add: run_threads_def)
qed

definition merged :: "f64 list list \<Rightarrow> aggregate_result" where
  "merged vss = fold AccumulateAggregate (map summary vss) aggregate_new"

lemma merge_partials_Some: "merge_partials (map Some rs) = Some (fold AccumulateAggregate rs aggregate_new)"
proof -
  have "fold (\<lambda>part r. do { r \<leftarrow> r; part \<leftarrow> part; Some (AccumulateAggregate part r) }) (map Some rs) (Some r) =
      Some (fold AccumulateAggregate rs r)" for r
    by (induction rs arbitrary: r) simp_all
  then show ?thesis by (simp add: merge_partials_def)
qed

lemma fmin_assoc:
  "\<not> f64_nan a \<Longrightarrow> \<not> f64_nan b \<Longrightarrow> \<not> f64_nan c \<Longrightarrow> fmin (fmin a b) c = fmin a (fmin b c)"
  and fmax_assoc:
  "\<not> f64_nan a \<Longrightarrow> \<not> f64_nan b \<Longrightarrow> \<not> f64_nan c \<Longrightarrow> fmax (fmax a b) c = fmax a (fmax b c)"
  by (auto simp: fmin_def fmax_def f64_lt_def)

lemma fmin_nan: "\<not> f64_nan a \<Longrightarrow> \<not> f64_nan b \<Longrightarrow> \<not> f64_nan (fmin a b)"
  and fmax_nan: "\<not> f64_nan a \<Longrightarrow> \<not> f64_nan b \<Longrightarrow> \<not> f64_nan (fmax a b)"
  by (simp_all add: fmin_def fmax_def)

lemma foldl_assoc:
  assumes "\<And>x y z. P x \<Longrightarrow> P y \<Longrightarrow> P z \<Longrightarrow> g (g x y) z = g x (g y z)" and "\<And>x y. P x \<Longrightarrow> P y \<Longrightarrow> P (g x y)"
  shows "P a \<Longrightarrow> P b \<Longrightarrow> list_all P cs \<Longrightarrow> foldl g (g a b) cs = g a (foldl g b cs)"
  using assms by (induction cs arbitrary: b) (simp_all)

lemma fold1_append:
  assumes "\<And>x y z. P x \<Longrightarrow> P y \<Longrightarrow> P z \<Longrightarrow> g (g x y) z = g x (g y z)" and "\<And>x y. P x \<Longrightarrow> P y \<Longrightarrow> P (g x y)"
    and "list_all P vs" and "list_all P ws" and "ws \<noteq> []"
  shows "fold1 g z (vs @ ws) = (if vs = [] then fold1 g z ws else g (fold1 g z vs) (fold1 g z ws))"
proof (cases vs)
  case Nil
  then show ?thesis by simp
next
  case (Cons v vs')
  obtain w ws' where ws: "ws = w # ws'" using assms(5) by (cases ws) auto
  have "P (foldl g v vs')" if "P v" "list_all P vs'" for v vs'
    using that by (induction vs' arbitrary: v) (simp_all add: assms(2))
  then show ?thesis
    using foldl_assoc [where P = P and g = g, OF assms(1,2)] assms(3,4) Cons ws by (simp add: fold1_def)
qed

lemma no_nan_append [simp]: "no_nan (vs @ ws) \<longleftrightarrow> no_nan vs \<and> no_nan ws"
  by (simp add: no_nan_def)

lemma Accumulate_summary:
  assumes "no_nan vs" and "no_nan ws"
  shows "AccumulateAggregate (summary ws) ((summary vs)\<lparr>ag_sum := s\<rparr>) =
    (summary (vs @ ws))\<lparr>ag_sum := f64_add s (foldl f64_add 0 ws)\<rparr>"
proof (cases "ws = []")
  case True
  then show ?thesis by (simp add: AccumulateAggregate_def summary_def)
next
  case False
  have "fold1 fmin 0 (vs @ ws) = (if vs = [] then fold1 fmin 0 ws else fmin (fold1 fmin 0 vs) (fold1 fmin 0 ws))"
    "fold1 fmax 0 (vs @ ws) = (if vs = [] then fold1 fmax 0 ws else fmax (fold1 fmax 0 vs) (fold1 fmax 0 ws))"
    using False assms unfolding no_nan_def
    by (intro fold1_append [where P = "\<lambda>v. \<not> f64_nan v"] fmin_assoc fmax_assoc fmin_nan fmax_nan; simp)+
  then show ?thesis using False by (simp add: AccumulateAggregate_def summary_def Let_def fmin_def fmax_def)
qed

text \<open>Merging gives the aggregates of all numbers together, but for the order of the additions.\<close>

lemma merged_concat:
  "no_nan (concat vss) \<Longrightarrow>
   merged vss = (summary (concat vss))\<lparr>ag_sum := foldl f64_add 0 (map (foldl f64_add 0) vss)\<rparr>"
proof (induction vss rule: rev_induct)
  case Nil
  then show ?case by (simp add: merged_def summary_Nil aggregate_new_def)
next
  case (snoc vs vss)
  then show ?case by (simp add: merged_def Accumulate_summary)
qed

section \<open>Exact sums\<close>

lemma f64_eqI:
  assumes "f64_mag x = f64_mag y" and "f64_neg x = f64_neg y"
  shows "x = y"
proof (rule bit_word_eqI)
  fix n
  assume n: "n < LENGTH(64)"
  have "unat (take_bit 63 x) = unat (take_bit 63 y)"
    using assms(1) by (simp only: f64_mag_def unsigned_take_bit_eq flip: take_bit_eq_mod)
  then have "take_bit 63 x = take_bit 63 y" by (simp only: word_unat_eq_iff)
  then have "bit (take_bit 63 x) n = bit (take_bit 63 y) n" by simp
  then show "bit x n = bit y n"
    using assms(2) n by (cases "n = 63") (auto simp: bit_simps f64_neg_def)
qed

lemma f64_negate_of_int: "b \<noteq> 0 \<Longrightarrow> f64_negate (f64_of_int (- b)) = f64_of_int b"
  by (rule f64_eqI) auto

lemma f64_add_zero:
  assumes "small_int a"
  shows "f64_add (f64_of_int a) (f64_of_int 0) = f64_of_int a"
proof (cases "a = 0")
  case True
  then show ?thesis
    by (simp add: f64_add_def f64_of_int_not_inf Let_def f64_smant_def f64_mant_def)
       (simp add: f64_of_int_def f64_of_ratio_def f64_pack_def)
next
  case False
  have z: "f64_smant (f64_of_int 0) = 0" by (simp add: f64_smant_def f64_mant_def)
  have "f64_sub (f64_of_int a) (f64_of_int 0) = f64_of_int a" using f64_sub_of_int [OF assms, of 0] by simp
  moreover have "f64_smant (f64_of_int a) \<noteq> 0"
    using f64_scaled_of_int [OF assms order_refl] False by auto
  ultimately show ?thesis
    using f64_of_int_not_inf [OF assms] f64_of_int_not_inf [of 0]
    by (simp add: f64_sub_def f64_add_def Let_def z)
qed

lemma f64_add_of_int:
  assumes "small_int a" and "small_int b"
  shows "f64_add (f64_of_int a) (f64_of_int b) = f64_of_int (a + b)"
proof (cases "b = 0")
  case False
  then show ?thesis using f64_sub_of_int [of a "- b"] assms by (simp add: f64_sub_def f64_negate_of_int)
next
  case True
  then show ?thesis using f64_add_zero [OF assms(1)] by simp
qed

definition exact_sum :: "int list \<Rightarrow> bool" where
  "exact_sum xs \<longleftrightarrow> (\<Sum>x\<leftarrow>xs. \<bar>x\<bar>) < 2 ^ 53"

lemma foldl_add_exact:
  "\<bar>a\<bar> + (\<Sum>x\<leftarrow>xs. \<bar>x\<bar>) < 2 ^ 53 \<Longrightarrow>
   foldl f64_add (f64_of_int a) (map f64_of_int xs) = f64_of_int (a + sum_list xs)"
proof (induction xs arbitrary: a)
  case Nil
  then show ?case by simp
next
  case (Cons x xs)
  have nn: "0 \<le> (\<Sum>x\<leftarrow>xs. \<bar>x\<bar>)" by (rule sum_list_nonneg) auto
  then have "small_int a" "small_int x" "\<bar>a + x\<bar> + (\<Sum>x\<leftarrow>xs. \<bar>x\<bar>) < 2 ^ 53" using Cons.prems by auto
  then show ?case using Cons.IH [of "a + x"] by (simp add: f64_add_of_int add.assoc)
qed

lemma f64_of_int_0: "f64_of_int 0 = 0"
  by (simp add: f64_of_int_def f64_of_ratio_def f64_pack_def)

lemma sum_exact: "exact_sum xs \<Longrightarrow> foldl f64_add 0 (map f64_of_int xs) = f64_of_int (sum_list xs)"
  using foldl_add_exact [of 0 xs] by (simp add: exact_sum_def f64_of_int_0)

lemma exact_sum_append: "exact_sum (xs @ ys) \<Longrightarrow> exact_sum xs \<and> exact_sum ys"
proof -
  assume "exact_sum (xs @ ys)"
  moreover have "0 \<le> (\<Sum>x\<leftarrow>xs. \<bar>x\<bar>)" "0 \<le> (\<Sum>x\<leftarrow>ys. \<bar>x\<bar>)" by (rule sum_list_nonneg; auto)+
  ultimately show ?thesis unfolding exact_sum_def map_append sum_list_append by linarith
qed

lemma abs_sum_list: "\<bar>sum_list xs\<bar> \<le> (\<Sum>x\<leftarrow>xs. \<bar>x\<bar> :: int)"
  by (induction xs) auto

lemma sums_exact:
  "exact_sum (concat xss) \<Longrightarrow>
   foldl f64_add 0 (map (foldl f64_add 0) (map (map f64_of_int) xss)) = f64_of_int (sum_list (concat xss))"
proof (induction xss rule: rev_induct)
  case Nil
  then show ?case by (simp add: f64_of_int_0)
next
  case (snoc xs xss)
  then have e: "exact_sum (concat xss)" "exact_sum xs" using exact_sum_append [of "concat xss" xs] by auto
  have "small_int (sum_list (concat xss))" "small_int (sum_list xs)"
    using e abs_sum_list [of "concat xss"] abs_sum_list [of xs] by (auto simp: exact_sum_def)
  then show ?case using snoc.IH [OF e(1)] sum_exact [OF e(2)] by (simp add: f64_add_of_int)
qed

lemma no_nan_ints [simp]: "no_nan (map f64_of_int xs)"
  by (simp add: no_nan_def list_all_iff)

lemma merged_exact:
  assumes "exact_sum (concat xss)"
  shows "merged (map (map f64_of_int) xss) = summary (map f64_of_int (concat xss))"
proof -
  have "merged (map (map f64_of_int) xss) = (summary (map f64_of_int (concat xss)))\<lparr>ag_sum := f64_of_int (sum_list (concat xss))\<rparr>"
    using merged_concat [of "map (map f64_of_int) xss"] sums_exact [OF assms] by (simp add: map_concat [symmetric])
  then show ?thesis using sum_exact [OF assms] by (simp add: summary_def)
qed

section \<open>Threads on the rows of a column\<close>

lemma concat_chunks:
  assumes "n \<le> k * c"
  shows "concat (map (\<lambda>t. [t * c..<min (t * c + c) n]) [0..<k]) = [0..<n]"
proof -
  have "concat (map (\<lambda>t. [t * c..<min (t * c + c) n]) [0..<k]) = [0..<min (k * c) n]"
  proof (induction k)
    case 0
    then show ?case by simp
  next
    case (Suc k)
    have "[0..<min (k * c) n] @ [k * c..<min (k * c + c) n] = [0..<min (k * c + c) n]"
      using upt_add_eq_append [of 0 "k * c" "min (k * c + c) n - k * c"] by (cases "k * c \<le> n") (auto simp: min_def)
    with Suc show ?case by (simp add: add.commute)
  qed
  with assms show ?thesis by (simp add: min_def)
qed

lemma field_chunks:
  assumes "has_numeric_stats (fv_type f)" and "0 < k"
  shows "concat (map (field_chunk f k) [0..<k]) = [0..<fv_size f]"
proof -
  let ?c = "(fv_size f + k - 1) div k"
  have "fv_size f \<le> k * ?c"
  proof -
    have "fv_size f + k - 1 < k + k * ?c" using dividend_less_times_div [OF assms(2)] .
    then show ?thesis by simp
  qed
  note c = concat_chunks [OF this]
  have "field_chunk f k = (\<lambda>t. [t * ?c..<min (t * ?c + ?c) (fv_size f)])"
    using assms(1) by (auto simp: field_chunk_def Let_def min_def)
  with c show ?thesis by simp
qed

lemma concat_map_split:
  "concat vss = map g xs \<Longrightarrow> \<exists>xss. vss = map (map g) xss \<and> concat xss = xs"
proof (induction vss arbitrary: xs)
  case Nil
  then show ?case by (intro exI [of _ "[]"]) simp
next
  case (Cons vs vss)
  let ?n = "length vs"
  have "take ?n (vs @ concat vss) = map g (take ?n xs)" "drop ?n (vs @ concat vss) = map g (drop ?n xs)"
    using Cons.prems by (simp_all add: take_map drop_map)
  then have "vs = map g (take ?n xs)" "concat vss = map g (drop ?n xs)" by simp_all
  moreover from Cons.IH [OF this(2)] obtain xss where "vss = map (map g) xss" "concat xss = drop ?n xs" by blast
  ultimately show ?case by (intro exI [of _ "take ?n xs # xss"]) simp
qed

abbreviation chunk_numbers :: "field_vector \<Rightarrow> mask option \<Rightarrow> nat \<Rightarrow> f64 list list" where
  "chunk_numbers f sel k \<equiv> map (taken f sel) (map (field_chunk f k) [0..<k])"

lemma AggregateFieldParallel_merged:
  assumes "fv_inv f" and "1 < k" and "k \<le> fv_size f"
  shows "AggregateFieldParallel f sel k (Some r0) res \<longleftrightarrow> res = Some (Some (merged (chunk_numbers f sel k)))"
proof -
  let ?works = "map (field_chunk f k) [0..<k]"
  have "fold (\<lambda>i r. r \<bind> aggregate_row add_value f sel i) work (Some aggregate_new) = Some (summary (taken f sel work))"
    if w: "work \<in> set ?works" for work
  proof (cases "has_numeric_stats (fv_type f)")
    case True
    have "set work \<subseteq> set (concat ?works)" using w by auto
    then have "\<forall>i\<in>set work. i < fv_size f" using field_chunks [OF True, of k] assms(2) by auto
    from aggregate_fold [OF assms(1) True this] show ?thesis by (simp add: fold_add_value)
  next
    case False
    then have "work = []" using w by (auto simp: field_chunk_def Let_def)
    then show ?thesis by (simp add: taken_def summary_Nil)
  qed
  then have "map (\<lambda>work. fold (\<lambda>i r. r \<bind> aggregate_row add_value f sel i) work (Some aggregate_new)) ?works =
      map (\<lambda>work. Some (summary (taken f sel work))) ?works"
    by (intro map_cong refl) blast
  then have "merge_partials (map (\<lambda>work. fold (\<lambda>i r. r \<bind> aggregate_row add_value f sel i) work (Some aggregate_new)) ?works) =
      Some (merged (chunk_numbers f sel k))"
    using merge_partials_Some [of "map summary (chunk_numbers f sel k)"] by (simp only: merged_def map_map o_def)
  then show ?thesis
    using assms(2,3) by (simp add: AggregateFieldParallel_def run_threads_outcome)
qed

lemma concat_chunk_numbers:
  assumes "fv_inv f" and "0 < k"
  shows "concat (chunk_numbers f sel k) = picked (\<lambda>i. \<not> masked_out sel i) (fv_cells f)"
proof (cases "has_numeric_stats (fv_type f)")
  case True
  have "concat (map (taken f sel) works) = taken f sel (concat works)" for works
    by (induction works) (simp_all add: taken_def)
  then show ?thesis
    using field_chunks [OF True assms(2)] taken_picked [OF assms(1) True] by metis
next
  case False
  then have "map (field_chunk f k) [0..<k] = map (\<lambda>_. []) [0..<k]" by (auto simp: field_chunk_def Let_def)
  then show ?thesis using False picked_column [OF assms(1)] by (simp add: taken_def concat_eq_Nil_conv)
qed

text \<open>
  C14. Aggregating a column with threads: when no selected number is NaN, all interleavings of any
  number of threads end with one result; it has the count and the extremes of the sequential
  \<open>AggregateField\<close>, and its sum too when the numbers are integers whose absolute values add up to less
  than \<open>2 ^ 53\<close> (in general the additions are grouped differently).
\<close>
theorem AggregateFieldParallel_deterministic:
  assumes "fv_inv f" and "vs = picked (\<lambda>i. \<not> masked_out sel i) (fv_cells f)" and "no_nan vs"
  shows "\<exists>r. (\<forall>res. AggregateFieldParallel f sel k (Some r0) res \<longleftrightarrow> res = Some (Some r)) \<and>
     r\<lparr>ag_sum := 0\<rparr> = (summary vs)\<lparr>ag_sum := 0\<rparr> \<and>
     (\<forall>xs. vs = map f64_of_int xs \<and> exact_sum xs \<longrightarrow> r = summary vs)"
proof (cases "k \<le> 1 \<or> fv_size f < k")
  case True
  then show ?thesis
    using AggregateField_picked [OF assms(1), of sel r0] assms(2)
    by (intro exI [of _ "summary vs"]) (auto simp: AggregateFieldParallel_def)
next
  case False
  then have k: "1 < k" "k \<le> fv_size f" by auto
  define vss where "vss = chunk_numbers f sel k"
  have vss: "AggregateFieldParallel f sel k (Some r0) res \<longleftrightarrow> res = Some (Some (merged vss))" for res
    unfolding vss_def by (rule AggregateFieldParallel_merged [OF assms(1) k])
  have picked: "concat vss = vs"
    using concat_chunk_numbers [OF assms(1), of k sel] k(1) assms(2) by (simp add: vss_def)
  have "merged vss = summary vs" if xs: "vs = map f64_of_int xs" "exact_sum xs" for xs
  proof -
    obtain xss where "vss = map (map f64_of_int) xss" "concat xss = xs"
      using concat_map_split [of vss f64_of_int xs] picked xs(1) by auto
    with merged_exact [of xss] xs show ?thesis by simp
  qed
  moreover have "(merged vss)\<lparr>ag_sum := 0\<rparr> = (summary vs)\<lparr>ag_sum := 0\<rparr>"
    using merged_concat [of vss] picked assms(3) by simp
  ultimately show ?thesis using vss by blast
qed

theorem AggregateFieldParallel_deterministic_witness:
  "\<exists>r. AggregateFieldParallel example_column None 2 (Some aggregate_new) (Some (Some r)) \<and>
     r = summary [f64_of_int 7, f64_of_int 300]"
proof -
  have vs: "[f64_of_int 7, f64_of_int 300] = picked (\<lambda>i. \<not> masked_out None i) (fv_cells example_column)"
    by (simp add: masked_out_def example_column_picked)
  have "no_nan [f64_of_int 7, f64_of_int 300]" by (simp add: no_nan_def)
  from AggregateFieldParallel_deterministic [OF example_column_inv(1) vs this, of 2 aggregate_new] obtain r where
    "AggregateFieldParallel example_column None 2 (Some aggregate_new) (Some (Some r))"
    and all: "\<forall>xs. [f64_of_int 7, f64_of_int 300] = map f64_of_int xs \<and> exact_sum xs \<longrightarrow>
       r = summary [f64_of_int 7, f64_of_int 300]" by blast
  moreover have "r = summary [f64_of_int 7, f64_of_int 300]"
    using spec [OF all, of "[7, 300]"] by (simp add: exact_sum_def)
  ultimately show ?thesis by (intro exI [of _ r] conjI)
qed

text \<open>
  C39. Defect: with a NaN the parallel aggregates depend on the number of threads.  In a column with
  the rows \<open>a, b, NaN, c\<close> where \<open>c\<close> is the smallest number, \<open>AggregateField\<close> finds the minimum \<open>c\<close>, but
  with two threads the second one starts at the NaN, keeps it as its minimum, and the merge drops
  it: every outcome has the minimum of \<open>a\<close> and \<open>b\<close>.
\<close>
theorem AggregateFieldParallel_loses_minimum:
  assumes "fv_inv f" and "fv_cells f = [CFloat64 a, CFloat64 b, CFloat64 n, CFloat64 c]"
    and "f64_nan n" and "f64_lt c a" and "f64_lt c b"
  shows "(\<exists>r. AggregateField f None (Some r0) = Some (Some r) \<and> ag_min r = c) \<and>
     (\<forall>res. AggregateFieldParallel f None 2 (Some r0) res \<longrightarrow> (\<exists>r. res = Some (Some r) \<and> ag_min r = fmin a b))"
proof -
  have size: "fv_size f = 4" using fv_cells_len [OF assms(1)] assms(2) by simp
  have "cell_number (fv_cells f ! i) = (if has_numeric_stats (fv_type f) \<and> fv_IsValid f i then Some (field_f64 f i) else None)"
    if "i < 4" for i
    using cell_number_nth [OF assms(1), of i] that size by simp
  from this [of 0] this [of 1] this [of 2] this [of 3]
  have num: "has_numeric_stats (fv_type f)" and row: "row_taken f None 0 \<and> field_f64 f 0 = a"
    "row_taken f None 1 \<and> field_f64 f 1 = b" "row_taken f None 2 \<and> field_f64 f 2 = n" "row_taken f None 3 \<and> field_f64 f 3 = c"
    by (auto simp: assms(2) cell_number_def row_taken_def masked_out_def split: if_splits)
  have "map (field_chunk f 2) [0..<2] = [[0, 1], [2, 3]]"
    using num size by (simp add: field_chunk_def Let_def upt_rec)
  then have "chunk_numbers f None 2 = [[a, b], [n, c]]"
    using row by (simp add: taken_def)
  moreover have "ag_min (merged [[a, b], [n, c]]) = fmin a b"
    using assms(3) by (simp add: merged_def AccumulateAggregate_def aggregate_new_def summary_def fold1_def Let_def fmin_def)
  ultimately have "AggregateFieldParallel f None 2 (Some r0) res \<Longrightarrow> \<exists>r. res = Some (Some r) \<and> ag_min r = fmin a b" for res
    using AggregateFieldParallel_merged [OF assms(1), of 2 None r0 res] size by simp
  moreover have "picked (\<lambda>i. \<not> masked_out None i) (fv_cells f) = [a, b, n, c]"
    by (simp add: assms(2) picked_def masked_out_def upt_rec List.map_filter_simps cell_number_def)
  then have "AggregateField f None (Some r0) = Some (Some (summary [a, b, n, c]))"
    using AggregateField_picked [OF assms(1), of None r0] by simp
  moreover have "ag_min (summary [a, b, n, c]) = c"
    using assms(3-5) by (simp add: summary_def fold1_def fmin_def)
  ultimately show ?thesis by blast
qed

lemma fv_append_float:
  "fv_inv f \<Longrightarrow> fv_type f = kFloat64 \<Longrightarrow>
   fv_inv (snd (fv_AppendFloat64 f x)) \<and> fv_type (snd (fv_AppendFloat64 f x)) = kFloat64 \<and>
   fv_cells (snd (fv_AppendFloat64 f x)) = fv_cells f @ [CFloat64 x]"
  using fv_AppendFloat64_correct [of f x] by (auto simp: fv_extends_def)

theorem AggregateFieldParallel_loses_minimum_witness:
  "\<exists>f r. AggregateField f None (Some aggregate_new) = Some (Some r) \<and> ag_min r = f64_of_int 1 \<and>
     \<not> AggregateFieldParallel f None 2 (Some aggregate_new) (Some (Some r))"
proof -
  let ?new = "fv_new [97] kFloat64" and ?x = "\<lambda>f x. snd (fv_AppendFloat64 f x)"
  let ?f = "?x (?x (?x (?x ?new (f64_of_int 5)) (f64_of_int 7)) f64_quiet_nan) (f64_of_int 1)"
  have "fv_inv ?new \<and> fv_type ?new = kFloat64 \<and> fv_cells ?new = []"
    by (simp add: fv_new_inv) (simp add: fv_new_def fv_cells_def fv_values_def)
  then have f: "fv_inv ?f" "fv_cells ?f = [CFloat64 (f64_of_int 5), CFloat64 (f64_of_int 7), CFloat64 f64_quiet_nan, CFloat64 (f64_of_int 1)]"
    using fv_append_float by simp_all
  have nan: "f64_nan f64_quiet_nan" by (simp add: f64_nan_def f64_mag_def f64_inf_mag_def f64_quiet_nan_def)
  have min: "fmin (f64_of_int 5) (f64_of_int 7) \<noteq> f64_of_int 1"
    using f64_of_int_cmp [of 1 5] f64_of_int_cmp [of 7 5] by (auto simp: fmin_def f64_lt_def)
  from AggregateFieldParallel_loses_minimum [OF f nan, of aggregate_new] show ?thesis
    using min by (fastforce simp: f64_of_int_cmp)
qed

end
