(* ===== verification/AggregateSegments.thy ===== *)
theory AggregateSegments
  imports AggregateThreads
begin

text \<open>
  Aggregates over segments, sealed or not: compressed views have the numbers of the columns they
  were built from, and for integer columns the result is that of all their cells, whatever the
  number of threads and their interleaving.
\<close>

section \<open>Numbers of a view\<close>

lemma uncompressed_data:
  "fv_type f = kInt32 \<Longrightarrow> cv_data (MakeUncompressedView f) = Some (le_array 4 (fv_i32 f))"
  "fv_type f = kInt64 \<Longrightarrow> cv_data (MakeUncompressedView f) = Some (le_array 8 (fv_i64 f))"
  "fv_type f = kFloat64 \<Longrightarrow> cv_data (MakeUncompressedView f) = Some (le_array 8 (fv_f64 f))"
  "fv_type f = kBool \<Longrightarrow> cv_data (MakeUncompressedView f) = Some (fv_bool f)"
  "fv_type f = kDictInt32 \<Longrightarrow> cv_data (MakeUncompressedView f) = Some (le_array 4 (fv_dict_ids f))"
  "fv_type f = kDictInt32 \<Longrightarrow> cv_dict (MakeUncompressedView f) = Some (fv_dictionary f)"
  by (simp_all add: MakeUncompressedView_def Let_def fv_Dictionary_def)

lemma numeric_plain:
  assumes "fv_inv f" and "has_numeric_stats (fv_type f)" and "i < fv_size f"
  shows "ReadNumericValue (MakeUncompressedView f) i =
    Some (if fv_IsValid f i then Some (field_f64 f i) else None)"
proof (cases "fv_IsValid f i")
  case False
  then show ?thesis
    using uncompressed_view_valid [of f i] assms(1,3) by (simp add: ReadNumericValue_def fv_inv_def)
next
  case True
  have len: "fv_data_len f = fv_size f" and v: "view_IsValid (MakeUncompressedView f) i"
    using assms(1,3) True uncompressed_view_valid [of f i] by (simp_all add: fv_inv_def)
  have dict: "fv_type f = kDictInt32 \<Longrightarrow> unat (fv_dict_ids f ! i) < length (dict_values (fv_dictionary f))"
    using dict_ids_ok [OF assms(1) _ assms(3) True] .
  consider "fv_type f = kInt32" | "fv_type f = kInt64" | "fv_type f = kFloat64" | "fv_type f = kBool" | "fv_type f = kDictInt32"
    using assms(2) by (auto simp: has_numeric_stats_def)
  then show ?thesis
    using True v len dict assms(3)
    by cases (simp_all add: ReadNumericValue_def uncompressed_data rd_ptr_def rd_le_array_eq
        rd_1 [simplified] fv_data_len_def field_f64_def dict_Value_ub_def fv_DictionaryValue_def)
qed

lemma numeric_encoded:
  "cv_kind v \<in> {CkDictionary, CkBitPacked, CkForDelta} \<Longrightarrow>
   ReadNumericValue v i = map_option (map_option f64_of_i64) (ReadInt64Value v i)"
  by (auto simp: ReadNumericValue_def ReadInt64Value_def ReadInt64ValueInternal_def split: Option.bind_split)

lemma encoded_data:
  assumes "fv_inv f" and "is_encodable (fv_type f)" and "0 < fv_size f" and "fv_size f < 2 ^ 32"
    and "kind = CkBitPacked \<Longrightarrow> deltas_fit f 16" and "kind = CkForDelta \<Longrightarrow> deltas_fit f 32"
    and "encode_integers kind f = Some (k, d, a)" and "k \<in> {CkDictionary, CkBitPacked, CkForDelta}"
  shows "d \<noteq> []"
proof -
  have k: "k \<noteq> CkNone" using assms(8) by auto
  note kind = encode_integers_kind [OF assms(7) k]
  have view: "cv_data (encoded_view f k d a w) = ptr_of d" "cv_row_count (encoded_view f k d a w) = fv_size f" for w
    by (simp_all add: encoded_view_def)
  consider "k = CkDictionary" | "k = CkBitPacked" | "k = CkForDelta" using assms(8) by auto
  then show ?thesis
  proof cases
    case 1
    then have "dict_rep (encoded_view f CkDictionary d a (validity_copy f)) (field_i64 f)"
      using EncodeDictionary_rep [OF assms(1,2,4)] kind(1,2) by auto
    then show ?thesis using assms(3) view 1 by (auto simp: dict_rep_def ptr_of_def split: if_splits)
  next
    case 2
    then have "bitpack_rep (encoded_view f CkBitPacked d a (validity_copy f)) (field_i64 f)"
      using EncodeBitpack_rep [OF assms(1,2) assms(5)] kind(1,3) by auto
    then obtain base bits where "ReadBitpackHeader (encoded_view f k d a (validity_copy f)) = Some (base, bits)"
      "fv_size f * unat bits \<le> 8 * length d"
      using view 2 by (auto simp: bitpack_rep_def ptr_of_def split: if_splits)
    then show ?thesis using ReadBitpackHeader_bits assms(3) by force
  next
    case 3
    then have "delta_rep (encoded_view f CkForDelta d a (validity_copy f)) (field_i64 f)"
      using EncodeForDelta_rep [OF assms(1,2) assms(6)] kind(1,4) by auto
    then show ?thesis using assms(3) view 3 by (auto simp: delta_rep_def ptr_of_def split: if_splits)
  qed
qed

text \<open>A column of integers: not of doubles, with boolean cells 0 or 1.\<close>

definition integer_column :: "field_vector \<Rightarrow> bool" where
  "integer_column f \<longleftrightarrow>
     fv_inv f \<and> has_numeric_stats (fv_type f) \<and> fv_type f \<noteq> kFloat64 \<and> 0 < fv_size f \<and> fv_size f < 2 ^ 32 \<and> bool_cells_ok f"

lemma integer_column_type: "integer_column f \<Longrightarrow> is_encodable (fv_type f) \<or> fv_type f = kDictInt32"
  by (auto simp: integer_column_def has_numeric_stats_def is_encodable_def)

lemma encode_dict_kind:
  "fv_type f = kDictInt32 \<Longrightarrow> encode_column kind f = Some (k, d, a) \<Longrightarrow> k \<in> {CkNone, CkLz4, CkRle} \<and> (k = CkRle \<longrightarrow> kind = CkRle)"
  by (cases kind) (auto simp: encode_column_def Let_def split: if_splits Option.bind_splits)

definition numeric_view :: "compressed_view \<Rightarrow> field_vector \<Rightarrow> bool" where
  "numeric_view v f \<longleftrightarrow>
     cv_data v \<noteq> None \<and> cv_type v = fv_type f \<and> cv_row_count v = fv_size f \<and>
     (\<forall>i<fv_size f. ReadNumericValue v i = Some (if fv_IsValid f i then Some (field_f64 f i) else None))"

lemma numeric_view_plain:
  assumes "fv_inv f" and "has_numeric_stats (fv_type f)"
  shows "numeric_view (MakeUncompressedView f) f"
proof -
  have "cv_data (MakeUncompressedView f) \<noteq> None"
    using assms(2) by (auto simp: has_numeric_stats_def uncompressed_data)
  moreover have "cv_type (MakeUncompressedView f) = fv_type f" "cv_row_count (MakeUncompressedView f) = fv_size f" by simp_all
  ultimately show ?thesis using numeric_plain [OF assms] by (simp add: numeric_view_def)
qed

lemma numeric_built:
  assumes f: "integer_column f" and b: "build_column cfg (chosen_kind cfg f) f = Some b"
    and exact: "is_encodable (fv_type f) \<Longrightarrow> exact_ints f"
  shows "numeric_view (bc_view b) f"
proof -
  have inv: "fv_inv f" and num: "has_numeric_stats (fv_type f)" and rows: "0 < fv_size f" "fv_size f < 2 ^ 32"
    using f by (auto simp: integer_column_def)
  obtain k d a where e: "encode_column (chosen_kind cfg f) f = Some (k, d, a)"
    using encode_column_total [of f "chosen_kind cfg f"] inv by (metis fv_inv_def prod_cases3)
  have lz4: "bc_kind b \<noteq> CkLz4" using kept_not_lz4 [OF b inv] rows(1) num by (auto simp: has_numeric_stats_def)
  consider "bc_view b = MakeUncompressedView f"
    | "k \<noteq> CkNone" "k \<noteq> CkLz4" "bc_view b = encoded_view f k d a (validity_copy f)"
    using build_column_kind [OF e b] lz4 by auto
  then show ?thesis
  proof cases
    case 1
    then show ?thesis using numeric_view_plain [OF inv num] by simp
  next
    case 2
    have enc: "is_encodable (fv_type f)"
      using integer_column_type [OF f] encode_dict_kind [OF _ e] 2(1,2) ChooseCompression_not_rle by auto
    then have fit: "chosen_kind cfg f = CkBitPacked \<Longrightarrow> deltas_fit f 16" "chosen_kind cfg f = CkForDelta \<Longrightarrow> deltas_fit f 32"
      using ChooseCompression_int_fits [OF enc, of cfg] exact by (auto simp: exact_ints_def)
    have faithful: "view_faithful (bc_view b) f"
      using build_column_faithful [OF inv enc rows _ ChooseCompression_not_rle fit b] f by (simp add: integer_column_def)
    have ints: "encode_integers (chosen_kind cfg f) f = Some (k, d, a)"
      using e enc by (auto simp: is_encodable_def encode_column_def)
    have "k = chosen_kind cfg f" using encode_integers_kind(1) [OF ints 2(1)] .
    then have k: "k \<in> {CkDictionary, CkBitPacked, CkForDelta}"
      using 2(1,2) ChooseCompression_not_rle [of cfg "column_ComputeStats f" "fv_type f"] by (cases k) simp_all
    have "d \<noteq> []" using encoded_data [OF inv enc rows fit ints k] .
    moreover have "ReadNumericValue (bc_view b) i = Some (if fv_IsValid f i then Some (field_f64 f i) else None)"
      if "i < fv_size f" for i
      using numeric_encoded [of "bc_view b" i] faithful k that field_f64_int [OF enc]
      by (simp add: 2(3) view_faithful_def encoded_view_def)
    ultimately show ?thesis by (simp add: numeric_view_def 2(3) encoded_view_def ptr_of_def)
  qed
qed

lemma AggregateCompressed_view:
  assumes "numeric_view v f" and "fv_inv f" and "has_numeric_stats (fv_type f)"
  shows "AggregateCompressed v None (Some r0) = Some (Some (summary (picked (\<lambda>_. True) (fv_cells f))))"
proof -
  have v: "cv_data v \<noteq> None" "cv_type v = fv_type f" "cv_row_count v = fv_size f"
    "\<And>i. i < fv_size f \<Longrightarrow> ReadNumericValue v i = Some (if fv_IsValid f i then Some (field_f64 f i) else None)"
    using assms(1) by (auto simp: numeric_view_def)
  have row: "map_option (\<lambda>v. case v of None \<Rightarrow> r | Some number \<Rightarrow> add_value number r) (ReadNumericValue v i) =
      aggregate_row add_value f None i r" if "i < fv_size f" for i r
    using v(4) [OF that] aggregate_row_taken [OF assms(2,3) that] by (simp add: row_taken_def masked_out_def)
  have "for_ub 0 (fv_size f) (\<lambda>i r. map_option (\<lambda>v. case v of None \<Rightarrow> r | Some number \<Rightarrow> add_value number r)
        (ReadNumericValue v i)) aggregate_new =
      for_ub 0 (fv_size f) (aggregate_row add_value f None) aggregate_new"
    by (rule for_ub_cong) (simp add: row)
  then show ?thesis
    using v(1,2,3) assms(3) aggregate_rows_picked [OF assms(2), of add_value None]
    by (auto simp: AggregateCompressed_def masked_out_def aggregate_rows_def fold_add_value)
qed

section \<open>The integers of a column\<close>

definition cell_integer :: "cell \<Rightarrow> int option" where
  "cell_integer c =
     (case c of
        CInt32 v \<Rightarrow> Some (sint v)
      | CInt64 v \<Rightarrow> Some (sint v)
      | CBool b \<Rightarrow> Some (if b \<noteq> 0 then 1 else 0)
      | CDict v \<Rightarrow> Some (sint v)
      | _ \<Rightarrow> None)"

definition column_integers :: "field_vector \<Rightarrow> int list" where
  "column_integers f = List.map_filter cell_integer (fv_cells f)"

lemma map_filter_map: "List.map_filter g (map h xs) = List.map_filter (\<lambda>x. g (h x)) xs"
  by (induction xs) (simp_all add: List.map_filter_simps split: option.split)

lemma map_filter_map_option: "List.map_filter (\<lambda>x. map_option h (g x)) xs = map h (List.map_filter g xs)"
  by (induction xs) (simp_all add: List.map_filter_simps split: option.split)

lemma picked_all: "picked (\<lambda>_. True) cs = List.map_filter cell_number cs"
  using map_filter_map [of cell_number "(!) cs" "[0..<length cs]"] by (simp add: picked_def map_nth)

lemma cell_number_integer: "\<forall>x. c \<noteq> CFloat64 x \<Longrightarrow> cell_number c = map_option f64_of_int (cell_integer c)"
  by (cases c) (simp_all add: cell_number_def cell_integer_def)

lemma no_float_cells:
  assumes "fv_inv f" and "fv_type f \<noteq> kFloat64" and "c \<in> set (fv_cells f)"
  shows "c \<noteq> CFloat64 x"
proof -
  obtain i where i: "i < fv_size f" "c = fv_cells f ! i"
    using assms(1,3) by (metis fv_cells_len in_set_conv_nth)
  have len: "length (fv_values f) = fv_size f" using assms(1) fv_values_len [of f] by (simp add: fv_inv_def)
  have "fv_values f ! i \<noteq> CFloat64 x"
    using i(1) len assms(2) by (cases "fv_type f") (auto simp: fv_values_def dict_cell_def)
  then show ?thesis using fv_cells_nth [OF assms(1) i(1)] i(2) by simp
qed

lemma picked_integers:
  assumes "fv_inv f" and "fv_type f \<noteq> kFloat64"
  shows "picked (\<lambda>_. True) (fv_cells f) = map f64_of_int (column_integers f)"
proof -
  have "List.map_filter cell_number (fv_cells f) = List.map_filter (\<lambda>c. map_option f64_of_int (cell_integer c)) (fv_cells f)"
    using no_float_cells [OF assms] by (intro map_filter_cong refl cell_number_integer) blast
  then show ?thesis by (simp add: picked_all map_filter_map_option column_integers_def)
qed

lemma cell_integer_nth:
  assumes "fv_inv f" and "is_encodable (fv_type f)" and "i < fv_size f"
  shows "cell_integer (fv_cells f ! i) = (if fv_IsValid f i then Some (sint (field_i64 f i)) else None)"
proof -
  have "length (fv_values f) = fv_size f" using assms(1) fv_values_len [of f] by (simp add: fv_inv_def)
  then show ?thesis
    using assms(2,3) fv_cells_nth [OF assms(1,3)]
    by (auto simp: is_encodable_def fv_values_def cell_integer_def field_i64_def sint_scast_32)
qed

lemma exact_ints_sum:
  assumes "fv_inv f" and "is_encodable (fv_type f)" and "exact_sum (column_integers f)"
  shows "exact_ints f"
  unfolding exact_ints_def
proof (intro allI impI)
  fix i
  assume i: "i < fv_size f" "fv_IsValid f i"
  then have "cell_integer (fv_cells f ! i) = Some (sint (field_i64 f i))"
    using cell_integer_nth [OF assms(1,2)] by simp
  then have mem: "sint (field_i64 f i) \<in> set (column_integers f)"
    using i(1) fv_cells_len [OF assms(1)] nth_mem [of i "fv_cells f"]
    by (force simp: column_integers_def List.map_filter_def)
  have "\<bar>sint (field_i64 f i)\<bar> \<le> (\<Sum>x\<leftarrow>column_integers f. \<bar>x\<bar>)"
    by (rule member_le_sum_list) (use mem in auto)
  with assms(3) show "small_int (sint (field_i64 f i))" unfolding exact_sum_def by linarith
qed

text \<open>The aggregates of integers do not depend on their order.\<close>

lemma fmin_ints: "small_int a \<Longrightarrow> small_int b \<Longrightarrow> fmin (f64_of_int a) (f64_of_int b) = f64_of_int (min a b)"
  and fmax_ints: "small_int a \<Longrightarrow> small_int b \<Longrightarrow> fmax (f64_of_int a) (f64_of_int b) = f64_of_int (max a b)"
  by (auto simp: fmin_def fmax_def f64_of_int_cmp min_def max_def)

lemma exact_sum_small: "exact_sum xs \<Longrightarrow> x \<in> set xs \<Longrightarrow> small_int x"
proof -
  assume e: "exact_sum xs" and x: "x \<in> set xs"
  have "\<bar>x\<bar> \<le> (\<Sum>x\<leftarrow>xs. \<bar>x\<bar>)" by (rule member_le_sum_list) (use x in auto)
  with e show ?thesis unfolding exact_sum_def by linarith
qed

lemma extremes_ints:
  "\<forall>x\<in>set xs. small_int x \<Longrightarrow> xs \<noteq> [] \<Longrightarrow>
   fold1 fmin 0 (map f64_of_int xs) = f64_of_int (Min (set xs)) \<and> fold1 fmax 0 (map f64_of_int xs) = f64_of_int (Max (set xs))"
proof (induction xs rule: rev_induct)
  case Nil
  then show ?case by simp
next
  case (snoc x xs)
  show ?case
  proof (cases "xs = []")
    case True
    then show ?thesis by (simp add: fold1_def)
  next
    case False
    then have "Min (set xs) \<in> set xs" "Max (set xs) \<in> set xs" by simp_all
    then have "small_int (Min (set xs))" "small_int (Max (set xs))" "small_int x" using snoc.prems(1) by auto
    then show ?thesis
      using False snoc by (simp add: fold1_snoc fmin_ints fmax_ints min.commute max.commute)
  qed
qed

lemma exact_sum_mset: "mset xs = mset ys \<Longrightarrow> exact_sum xs = exact_sum ys"
  unfolding exact_sum_def by (metis mset_map sum_mset_sum_list)

lemma summary_mset:
  assumes "exact_sum xs" and "mset xs = mset ys"
  shows "summary (map f64_of_int xs) = summary (map f64_of_int ys)"
proof -
  have e: "exact_sum ys" using exact_sum_mset [OF assms(2)] assms(1) by simp
  have "set xs = set ys" "length xs = length ys" "sum_list xs = sum_list ys"
    using assms(2) mset_eq_setD [of xs ys] mset_eq_length [of xs ys] sum_mset_sum_list [of xs] sum_mset_sum_list [of ys] by auto
  moreover have "xs = [] \<longleftrightarrow> ys = []" using \<open>length xs = length ys\<close> by auto
  ultimately show ?thesis
    using sum_exact [OF assms(1)] sum_exact [OF e] extremes_ints [of xs] extremes_ints [of ys]
      exact_sum_small [OF assms(1)] exact_sum_small [OF e]
    by (cases "xs = []") (simp_all add: summary_def)
qed

end
