(* ===== verification/AggregateTable.thy ===== *)
theory AggregateTable
  imports AggregateSegments
begin

text \<open>
  \<open>AggregateSegmentsParallel\<close> over the segments of a table: the aggregates of an integer column are
  those of its cells, however its segments are encoded and however the threads interleave.
\<close>

section \<open>One segment\<close>

text \<open>A segment that was built from columns of which \<open>f\<close> is the one at index \<open>k\<close>.\<close>

definition built_with :: "nat \<Rightarrow> segment \<Rightarrow> field_vector \<Rightarrow> bool" where
  "built_with k sg f \<longleftrightarrow>
     (\<exists>cfg cap n flds. segment_new cfg cap n flds = Some sg \<and> (\<forall>g\<in>set flds. fv_inv g) \<and>
        k < length flds \<and> flds ! k = f \<and> f64_lt 0 (cfg_min_ratio cfg)) \<and> integer_column f"

lemma built_kind:
  assumes "build_column cfg kind f = Some b" and "fv_inv f"
  shows "cv_kind (bc_view b) = bc_kind b"
proof -
  obtain k d a where e: "encode_column kind f = Some (k, d, a)"
    using encode_column_total [of f kind] assms(2) by (metis fv_inv_def prod_cases3)
  from build_column_kind [OF e assms(1)] show ?thesis by (auto simp: encoded_view_def)
qed

lemma aggregate_segment_column:
  assumes "built_with k sg f" and "exact_sum (column_integers f)"
  shows "aggregate_segment k sg r = Some (AccumulateAggregate (summary (map f64_of_int (column_integers f))) r)"
proof -
  obtain cfg cap n flds where sg: "segment_new cfg cap n flds = Some sg" "\<forall>g\<in>set flds. fv_inv g"
    "k < length flds" "flds ! k = f" "f64_lt 0 (cfg_min_ratio cfg)" and f: "integer_column f"
    using assms(1) by (auto simp: built_with_def)
  have inv: "fv_inv f" and num: "has_numeric_stats (fv_type f)" "fv_type f \<noteq> kFloat64"
    using f by (simp_all add: integer_column_def)
  have l: "loaded_from cfg cap n flds sg" using segment_new_loaded [OF sg(2,1)] .
  then have len: "length (sg_fields sg) = length flds" by (simp add: loaded_from_def)
  note ints = picked_integers [OF inv num(2)]
  show ?thesis
  proof (cases "sg_sealed sg")
    case False
    then have "sg_fields sg = flds" "sg_compressed_columns sg = []" using l by (simp_all add: loaded_from_def)
    then show ?thesis
      using sg(3,4) False AggregateField_picked [OF inv, of None aggregate_new]
      by (simp add: aggregate_segment_def at_def masked_out_def ints)
  next
    case True
    have cols: "length (sg_compressed_columns sg) = length flds" using l True by (simp add: loaded_from_def)
    have "cv_kind c \<noteq> CkLz4" if c: "c \<in> set (sg_compressed_columns sg)" for c
    proof -
      obtain i where i: "i < length flds" "c = sg_compressed_columns sg ! i"
        using c cols unfolding in_set_conv_nth by auto
      from loaded_from_column [OF l True i(1)] obtain b where
        b: "build_column cfg (chosen_kind cfg (flds ! i)) (flds ! i) = Some b" "sg_compressed_columns sg ! i = bc_view b" .
      have "fv_inv (flds ! i)" using sg(2) i(1) by simp
      with kept_not_lz4 [OF b(1)] built_kind [OF b(1)] sg(5) b(2) i(2) show ?thesis by simp
    qed
    then have "\<not> NeedsLz4Decode (sg_compressed_columns sg)" by (auto simp: NeedsLz4Decode_def list_ex_iff)
    moreover from loaded_from_column [OF l True sg(3)] obtain b where
      "build_column cfg (chosen_kind cfg (flds ! k)) (flds ! k) = Some b" "sg_compressed_columns sg ! k = bc_view b" .
    note b = this [unfolded sg(4)]
    moreover have "numeric_view (bc_view b) f"
      using numeric_built [OF f b(1)] exact_ints_sum [OF inv _ assms(2)] by blast
    moreover have "sg_compressed_columns sg \<noteq> []" using cols sg(3) by auto
    ultimately show ?thesis
      using AggregateCompressed_view [OF _ inv num(1), of "bc_view b" aggregate_new] True sg(3) len cols
      by (simp add: aggregate_segment_def at_def ints)
  qed
qed

section \<open>All segments\<close>

lemma fold_segments:
  assumes "\<And>i r. i \<in> set work \<Longrightarrow> body i r = Some (AccumulateAggregate (summary (g i)) r)"
  shows "fold (\<lambda>i r. r \<bind> body i) work (Some r) = Some (fold AccumulateAggregate (map summary (map g work)) r)"
  using assms by (induction work arbitrary: r) simp_all

lemma ScheduleSegments_mset:
  assumes "0 < k"
  shows "mset (concat (ScheduleSegments n k)) = mset [0..<n]"
proof -
  have "filter (\<lambda>i. i mod k < k) [0..<n] = [0..<n]" using assms by (simp add: filter_id_conv)
  then show ?thesis unfolding ScheduleSegments_rows [OF assms] mset_filter_mod by simp
qed

lemma mset_concat_perm: "mset xs = mset ys \<Longrightarrow> mset (concat (map g xs)) = mset (concat (map g ys))"
proof -
  have "mset (concat (map g zs)) = \<Sum>\<^sub># (image_mset (\<lambda>x. mset (g x)) (mset zs))" for zs
    by (induction zs) simp_all
  then show "mset xs = mset ys \<Longrightarrow> ?thesis" by simp
qed

lemma concat_map_concat: "concat (map g (concat xss)) = concat (map (\<lambda>xs. concat (map g xs)) xss)"
  by (induction xss) simp_all

lemma exact_sum_part: "exact_sum (concat xss) \<Longrightarrow> xs \<in> set xss \<Longrightarrow> exact_sum xs"
  by (induction xss) (auto dest: exact_sum_append)

text \<open>Threads over lists of segments whose results are known.\<close>

lemma run_segments:
  assumes "\<And>i r. i \<in> set (concat works) \<Longrightarrow> body i r = Some (AccumulateAggregate (summary (map f64_of_int (ints i))) r)"
    and "exact_sum (concat (map ints (concat works)))"
  shows "run_threads body works out \<longleftrightarrow> out = Some (summary (map f64_of_int (concat (map ints (concat works)))))"
proof -
  let ?sums = "map (\<lambda>work. concat (map ints work)) works"
  have exact: "exact_sum (concat ?sums)" using assms(2) by (simp only: concat_map_concat)
  have "fold (\<lambda>i r. r \<bind> body i) work (Some aggregate_new) = Some (summary (map f64_of_int (concat (map ints work))))"
    if "work \<in> set works" for work
  proof -
    have "exact_sum (concat (map ints work))" using exact_sum_part [OF exact] that by simp
    moreover have "fold (\<lambda>i r. r \<bind> body i) work (Some aggregate_new) = Some (merged (map (map f64_of_int) (map ints work)))"
      using fold_segments [of work body "\<lambda>i. map f64_of_int (ints i)" aggregate_new] assms(1) that
      by (auto simp: merged_def o_def)
    ultimately show ?thesis using merged_exact [of "map ints work"] by simp
  qed
  then have "map (\<lambda>work. fold (\<lambda>i r. r \<bind> body i) work (Some aggregate_new)) works =
      map (\<lambda>work. Some (summary (map f64_of_int (concat (map ints work))))) works"
    by (intro map_cong refl)
  then have "merge_partials (map (\<lambda>work. fold (\<lambda>i r. r \<bind> body i) work (Some aggregate_new)) works) =
      Some (merged (map (map f64_of_int) ?sums))"
    using merge_partials_Some [of "map (\<lambda>work. summary (map f64_of_int (concat (map ints work)))) works"]
    by (simp only: merged_def map_map o_def)
  then show ?thesis
    using merged_exact [OF exact] by (simp only: run_threads_outcome concat_map_concat)
qed

lemma segments_schedule:
  assumes "list_all2 (built_with k) segments columns" and "exact_sum (concat (map column_integers columns))"
    and "1 < threads"
  shows "run_threads (\<lambda>idx. aggregate_segment k (segments ! idx)) (ScheduleSegments (length segments) threads) out \<longleftrightarrow>
     out = Some (summary (map f64_of_int (concat (map column_integers columns))))"
proof -
  let ?n = "length segments" and ?ints = "\<lambda>i. column_integers (columns ! i)"
  let ?works = "ScheduleSegments ?n threads" and ?all = "concat (map column_integers columns)"
  have n: "length columns = ?n" using list_all2_lengthD [OF assms(1)] by simp
  have works: "mset (concat ?works) = mset [0..<?n]" using ScheduleSegments_mset [of threads ?n] assms(3) by simp
  have "map ?ints [0..<?n] = map column_integers columns"
    using n by (intro nth_equalityI) simp_all
  then have perm: "mset (concat (map ?ints (concat ?works))) = mset ?all"
    using mset_concat_perm [OF works, of ?ints] by simp
  have exact: "exact_sum (concat (map ?ints (concat ?works)))" using exact_sum_mset [OF perm] assms(2) by simp
  have "aggregate_segment k (segments ! i) r = Some (AccumulateAggregate (summary (map f64_of_int (?ints i))) r)"
    if "i \<in> set (concat ?works)" for i r
  proof -
    have i: "i < ?n" using mset_eq_setD [OF works] that by auto
    have "column_integers (columns ! i) \<in> set (map column_integers columns)" using i n by simp
    from exact_sum_part [OF assms(2) this] show ?thesis
      by (rule aggregate_segment_column [OF list_all2_nthD [OF assms(1) i]])
  qed
  from run_segments [of ?works "\<lambda>idx. aggregate_segment k (segments ! idx)" ?ints out, OF this exact]
  show ?thesis using summary_mset [OF exact perm] by simp
qed

lemma segments_in_order:
  assumes "list_all2 (built_with k) segments columns" and "exact_sum (concat (map column_integers columns))"
  shows "fold (\<lambda>sg r. r \<bind> aggregate_segment k sg) segments (Some aggregate_new) =
     Some (summary (map f64_of_int (concat (map column_integers columns))))"
proof -
  have "fold (\<lambda>sg r. r \<bind> aggregate_segment k sg) segments (Some r) =
      Some (fold AccumulateAggregate (map summary (map (map f64_of_int) (map column_integers columns))) r)" for r
    using assms
  proof (induction segments columns arbitrary: r rule: list_all2_induct)
    case Nil
    then show ?case by simp
  next
    case (Cons sg segments f columns)
    have "exact_sum (column_integers f)" "exact_sum (concat (map column_integers columns))"
      using exact_sum_append [of "column_integers f" "concat (map column_integers columns)"] Cons.prems by simp_all
    with aggregate_segment_column [OF Cons.hyps(1)] Cons.IH show ?case by simp
  qed
  then show ?thesis using merged_exact [OF assms(2)] by (simp add: merged_def)
qed

text \<open>
  C13. Aggregating an integer, boolean or dictionary column over the segments of a table gives the
  count, the exact sum, the minimum and the maximum of all its cells that are not null: for non-empty
  segments built from well-formed columns with any configuration of positive least ratio, sealed with
  any encodings or not, for any number of threads and any interleaving of them, as long as the
  absolute values add up to less than \<open>2 ^ 53\<close>.
\<close>
theorem AggregateSegmentsParallel_exact:
  assumes "list_all2 (built_with k) segments columns" and "exact_sum (concat (map column_integers columns))"
  shows "AggregateSegmentsParallel segments k threads (Some r0) res \<longleftrightarrow>
     res = Some (Some (summary (map f64_of_int (concat (map column_integers columns)))))"
  using segments_in_order [OF assms] segments_schedule [OF assms, of threads]
  by (auto simp: AggregateSegmentsParallel_def)

lemma example_column_integers: "column_integers example_column = [7, 300]"
proof -
  note inv = example_column_inv
  have len: "length (fv_cells example_column) = 3" using fv_cells_len [OF inv(1)] by (simp add: example_column_cells)
  have "cell_integer (fv_cells example_column ! i) =
      (if fv_IsValid example_column i then Some (sint (field_i64 example_column i)) else None)" if "i < 3" for i
    using cell_integer_nth [OF inv, of i] that by (simp add: example_column_cells)
  from this [of 0] this [of 1] this [of 2]
  have "cell_integer (fv_cells example_column ! 0) = Some 7" "cell_integer (fv_cells example_column ! Suc 0) = None"
    "cell_integer (fv_cells example_column ! 2) = Some 300"
    by (simp_all add: example_column_cells)
  moreover have "[0..<3] = [0, Suc 0, 2]" by (simp add: upt_rec numeral_3_eq_3 numeral_2_eq_2)
  then have "[fv_cells example_column ! 0, fv_cells example_column ! Suc 0, fv_cells example_column ! 2] = fv_cells example_column"
    using map_nth [of "fv_cells example_column"] len by simp
  from arg_cong [OF this, of "List.map_filter cell_integer"] have "column_integers example_column =
      List.map_filter cell_integer [fv_cells example_column ! 0, fv_cells example_column ! Suc 0, fv_cells example_column ! 2]"
    by (simp add: column_integers_def)
  ultimately show ?thesis by (simp add: List.map_filter_simps)
qed

theorem AggregateSegmentsParallel_exact_witness:
  "\<exists>sg. segment_new g_compression_config 3 0 [example_column] = Some sg \<and> sg_sealed sg \<and>
     AggregateSegmentsParallel [sg, sg] 0 2 (Some aggregate_new) (Some (Some (summary (map f64_of_int [7, 300, 7, 300]))))"
proof -
  obtain sg where sg: "segment_new g_compression_config 3 0 [example_column] = Some sg"
    "loaded_from g_compression_config 3 0 [example_column] sg"
    using segment_new_built [of "[example_column]" g_compression_config 3 0] example_column_inv(1) by auto
  have "f64_lt 0 (cfg_min_ratio g_compression_config)"
    by (simp add: g_compression_config_def kCompressionMinRatio_def f64_lt_def f64_nan_def f64_mag_def
        f64_inf_mag_def f64_key_def f64_neg_def)
  moreover have "integer_column example_column"
    using example_column_inv by (simp add: integer_column_def example_column_cells has_numeric_stats_def bool_cells_ok_def)
  ultimately have b: "built_with 0 sg example_column"
    unfolding built_with_def using sg(1) example_column_inv(1)
    by (intro conjI exI [of _ g_compression_config] exI [of _ 3] exI [of _ 0] exI [of _ "[example_column]"]) simp_all
  have "sg_sealed sg" using sg(2) by (simp add: loaded_from_def ResolveRowCount_def example_column_cells)
  moreover have "AggregateSegmentsParallel [sg, sg] 0 2 (Some aggregate_new) (Some (Some (summary (map f64_of_int [7, 300, 7, 300]))))"
    using AggregateSegmentsParallel_exact [of 0 "[sg, sg]" "[example_column, example_column]" 2 aggregate_new] b
    by (simp add: example_column_integers exact_sum_def)
  ultimately show ?thesis using sg(1) by blast
qed

end
