(* ===== verification/Document.thy ===== *)
theory Document
  imports Prelude
begin

text \<open>
  \<open>rag_cpp/src/document.cpp\<close>: plain text, Markdown and HTML are parsed into blocks of the source
  text, and the blocks are grouped into the chunks that are embedded and searched.  A
  \<open>std::string\<close> is a \<open>string\<close>, a list of bytes; the character classes are those of the C locale.

  Offsets are natural numbers: an offset that is added to is below the size of the text (a text as
  long as \<open>target_chars\<close> or \<open>maximum_chars\<close> is cut by the first step), so no sum leaves \<open>size_t\<close>.
  \<open>SIZE_MAX\<close> as "no paragraph" and "no chunk" is \<open>None\<close>.  The regular expressions are written out as
  the matchers they stand for.
\<close>

section \<open>State\<close>

datatype document_error = UnsupportedFormat string | InvalidBudget | TooManyChunks | BadMode

record document_block =
  bk_type :: string
  bk_text :: string
  bk_section_path :: string
  bk_start :: nat
  bk_end :: nat
  bk_page :: nat
  bk_heading_level :: nat

record normalized_document =
  nd_format :: string
  nd_parser_version :: string
  nd_title :: string
  nd_source_text :: string
  nd_blocks :: "document_block list"

record chunk_plan =
  ck_start :: nat
  ck_end :: nat
  ck_page_start :: nat
  ck_page_end :: nat
  ck_section_path :: string
  ck_strategy :: string
  ck_contextual_header :: string

record chunking_options =
  co_mode :: string
  co_target_chars :: nat
  co_minimum_chars :: nat
  co_maximum_chars :: nat
  co_overlap_chars :: nat
  co_maximum_chunks :: nat

section \<open>Strings\<close>

definition newline :: char where
  "newline = CHR 0x0A"

definition isspace :: "char \<Rightarrow> bool" where
  "isspace c \<longleftrightarrow> c = CHR '' '' \<or> 9 \<le> (of_char c :: nat) \<and> (of_char c :: nat) \<le> 13"

definition isdigit :: "char \<Rightarrow> bool" where
  "isdigit c \<longleftrightarrow> 48 \<le> (of_char c :: nat) \<and> (of_char c :: nat) \<le> 57"

definition tolower :: "char \<Rightarrow> char" where
  "tolower c = (if 65 \<le> (of_char c :: nat) \<and> (of_char c :: nat) \<le> 90 then char_of ((of_char c :: nat) + 32) else c)"

definition Lower :: "string \<Rightarrow> string" where
  "Lower s = map tolower s"

definition Trim :: "string \<Rightarrow> string" where
  "Trim s = rev (dropWhile isspace (rev (dropWhile isspace s)))"

text \<open>\<open>substr\<close> with a start inside the string, \<open>rfind(p, 0) == 0\<close>, \<open>find(p, pos)\<close> and \<open>rfind(c, pos)\<close>.\<close>

definition substr :: "string \<Rightarrow> nat \<Rightarrow> nat \<Rightarrow> string" where
  "substr s pos n = take n (drop pos s)"

definition starts_with :: "string \<Rightarrow> string \<Rightarrow> bool" where
  "starts_with p s \<longleftrightarrow> take (length p) s = p"

fun find_from :: "string \<Rightarrow> string \<Rightarrow> nat \<Rightarrow> nat option" where
  "find_from p [] pos = (if p = [] then Some pos else None)"
| "find_from p (c # s) pos = (if starts_with p (c # s) then Some pos else find_from p s (Suc pos))"

definition find_str :: "string \<Rightarrow> string \<Rightarrow> nat \<Rightarrow> nat option" where
  "find_str s p pos = (if pos \<le> length s then find_from p (drop pos s) pos else None)"

definition rfind_char :: "string \<Rightarrow> char \<Rightarrow> nat \<Rightarrow> nat option" where
  "rfind_char s c pos =
     (case filter (\<lambda>i. s ! i = c) [0..<min (Suc pos) (length s)] of [] \<Rightarrow> None | i # is \<Rightarrow> Some (last (i # is)))"

definition DetectFormat :: "string \<Rightarrow> document_error + string" where
  "DetectFormat requested =
     (let format = Lower requested in
      if format \<in> {[], ''auto'', ''text'', ''txt'', ''plain''} then Inr ''text''
      else if format \<in> {''md'', ''markdown'', ''text/markdown''} then Inr ''markdown''
      else if format \<in> {''html'', ''htm'', ''text/html''} then Inr ''html''
      else Inl (UnsupportedFormat requested))"

definition JoinSections :: "string list \<Rightarrow> string" where
  "JoinSections sections =
     fold (\<lambda>section out. if section = [] then out
                         else (if out = [] then out else out @ '' > '') @ section) sections []"

section \<open>Markdown lines\<close>

text \<open>\<open>^\s{0,3}#{1,6}\s+\<close>\<close>

definition heading_line :: "string \<Rightarrow> bool" where
  "heading_line line =
     (let hashes = dropWhile isspace line; rest = dropWhile (\<lambda>c. c = CHR ''#'') hashes;
          level = length hashes - length rest
      in length line - length hashes \<le> 3 \<and> 1 \<le> level \<and> level \<le> 6 \<and> rest \<noteq> [] \<and> isspace (hd rest))"

text \<open>\<open>^\s*(?:[-*+]\s+|\d+[.)]\s+)\<close>\<close>

definition list_line :: "string \<Rightarrow> bool" where
  "list_line line =
     (let item = dropWhile isspace line; rest = dropWhile isdigit item in
      (case item of c # d # _ \<Rightarrow> c \<in> {CHR ''-'', CHR ''*'', CHR ''+''} \<and> isspace d | _ \<Rightarrow> False) \<or>
      rest \<noteq> item \<and> (case rest of c # d # _ \<Rightarrow> c \<in> {CHR ''.'', CHR '')''} \<and> isspace d | _ \<Rightarrow> False))"

text \<open>\<open>^\s*\|.*\|\s*$\<close>, where a dot is no line terminator.\<close>

definition table_line :: "string \<Rightarrow> bool" where
  "table_line line =
     (let row = Trim line in
      length row \<ge> 2 \<and> hd row = CHR ''|'' \<and> last row = CHR ''|'' \<and> list_all (\<lambda>c. c \<noteq> newline \<and> c \<noteq> CHR 0x0D) row)"

text \<open>What follows an opening bracket: \<open>[^\]]*\]\([^)]+\)\<close>, or with \<open>[^\]]+\<close>.\<close>

definition link_rest :: "bool \<Rightarrow> string \<Rightarrow> bool" where
  "link_rest label s =
     (let close = dropWhile (\<lambda>c. c \<noteq> CHR '']'') s in
      (label \<longrightarrow> length close < length s) \<and>
      (case close of
         _ # p # target \<Rightarrow>
           p = CHR ''('' \<and> (let rest = dropWhile (\<lambda>c. c \<noteq> CHR '')'') target in rest \<noteq> [] \<and> length rest < length target)
       | _ \<Rightarrow> False))"

fun caption_line :: "string \<Rightarrow> bool" where
  "caption_line (c # d # s) \<longleftrightarrow> c = CHR ''!'' \<and> d = CHR ''['' \<and> link_rest False s \<or> caption_line (d # s)"
| "caption_line s \<longleftrightarrow> False"

fun citation_line :: "string \<Rightarrow> bool" where
  "citation_line (c # s) \<longleftrightarrow> c = CHR ''['' \<and> link_rest True s \<or> citation_line s"
| "citation_line [] \<longleftrightarrow> False"

definition MarkdownType :: "string \<Rightarrow> bool \<Rightarrow> string" where
  "MarkdownType line code =
     (let trimmed = Trim line in
      if code then ''code''
      else if heading_line line then ''heading''
      else if list_line line then ''list_item''
      else if table_line line then ''table_row''
      else if starts_with ''[^'' trimmed \<and> find_str trimmed '']:'' 0 \<noteq> None then ''footnote''
      else if caption_line line then ''caption''
      else if citation_line line then ''citation''
      else ''paragraph'')"

section \<open>Blocks\<close>

definition PushBlock ::
  "string \<Rightarrow> nat \<Rightarrow> nat \<Rightarrow> string \<Rightarrow> nat \<Rightarrow> string \<Rightarrow> normalized_document \<Rightarrow> normalized_document" where
  "PushBlock type start stop section level text doc =
     (if stop \<le> start then doc
      else
        let text = (if text = [] then substr (nd_source_text doc) start (stop - start) else text) in
        if Trim text = [] then doc
        else doc\<lparr>nd_blocks := nd_blocks doc @
               [\<lparr>bk_type = type, bk_text = text, bk_section_path = section, bk_start = start, bk_end = stop,
                 bk_page = 0, bk_heading_level = level\<rparr>]\<rparr>)"

text \<open>The variables of \<open>ParseLines\<close>.\<close>

record parse_state =
  ps_document :: normalized_document
  ps_sections :: "string list"
  ps_code :: bool
  ps_position :: nat
  ps_paragraph_start :: "nat option"
  ps_paragraph_end :: nat

definition flush_paragraph :: "parse_state \<Rightarrow> parse_state" where
  "flush_paragraph s =
     (case ps_paragraph_start s of
        None \<Rightarrow> s
      | Some start \<Rightarrow>
          s\<lparr>ps_document := PushBlock ''paragraph'' start (ps_paragraph_end s) (JoinSections (ps_sections s)) 0 []
                             (ps_document s),
            ps_paragraph_start := None\<rparr>)"

text \<open>One past the line feed of the line at a position, or the end of the text.\<close>

definition line_end :: "string \<Rightarrow> nat \<Rightarrow> nat" where
  "line_end text position =
     (case find_str text [newline] position of None \<Rightarrow> length text | Some i \<Rightarrow> Suc i)"

lemma find_from_bound: "p \<noteq> [] \<Longrightarrow> find_from p s pos = Some i \<Longrightarrow> pos \<le> i \<and> i < pos + length s"
  by (induction p s pos rule: find_from.induct) (auto split: if_splits)

lemma line_end_bound: "position < length text \<Longrightarrow> position < line_end text position \<and> line_end text position \<le> length text"
  by (auto simp: line_end_def find_str_def split: option.split dest: find_from_bound [rotated])

text \<open>The end of the first line from \<open>scan\<close> on that starts with a code fence.\<close>

definition fence :: string where "fence = ''```''"

function close_fence :: "string \<Rightarrow> nat \<Rightarrow> nat option" where
  "close_fence text scan =
     (if scan < length text then
        if starts_with fence (Trim (substr text scan (line_end text scan - scan))) then Some (line_end text scan)
        else close_fence text (line_end text scan)
      else None)"
  by pat_completeness auto
termination
  by (relation "measure (\<lambda>(text, scan). length text - scan)") (auto dest: line_end_bound)

declare close_fence.simps [simp del]

text \<open>\<open>sections\<close> after a heading: cut to the level above it, padded, and extended.\<close>

definition enter_section :: "nat \<Rightarrow> string \<Rightarrow> string list \<Rightarrow> string list" where
  "enter_section level label sections =
     (let sections = (if length sections \<ge> level then take (level - 1) sections else sections)
      in sections @ replicate (level - 1 - length sections) [] @ [label])"

definition parse_heading :: "string \<Rightarrow> parse_state \<Rightarrow> parse_state" where
  "parse_heading trimmed s =
     (let rest = dropWhile (\<lambda>c. c = CHR ''#'') trimmed; level = length trimmed - length rest; label = Trim rest;
          doc = ps_document s
      in s\<lparr>ps_sections := enter_section level label (ps_sections s),
           ps_document := (if nd_title doc = [] \<and> level = 1 then doc\<lparr>nd_title := label\<rparr> else doc)\<rparr>)"

definition parse_line :: "bool \<Rightarrow> parse_state \<Rightarrow> parse_state" where
  "parse_line markdown s =
     (let text = nd_source_text (ps_document s); position = ps_position s; stop = line_end text position;
          line = substr text position (stop - position); trimmed = Trim line
      in if markdown \<and> starts_with fence trimmed \<and> \<not> ps_code s then
           let s = flush_paragraph s;
               (code, code_end) = (case close_fence text stop of None \<Rightarrow> (True, stop) | Some e \<Rightarrow> (False, e))
           in s\<lparr>ps_code := code, ps_position := code_end,
                ps_document := PushBlock ''code'' position code_end (JoinSections (ps_sections s)) 0 [] (ps_document s)\<rparr>
         else
           let s = (if markdown \<and> starts_with fence trimmed then (flush_paragraph s)\<lparr>ps_code := False\<rparr> else s);
               type = (if markdown then MarkdownType line (ps_code s) else ''paragraph'');
               s = (if trimmed = [] then flush_paragraph s
                    else if markdown \<and> type \<noteq> ''paragraph'' then
                      let s = flush_paragraph s;
                          level = (if type = ''heading'' then length trimmed - length (dropWhile (\<lambda>c. c = CHR ''#'') trimmed) else 0);
                          s = (if type = ''heading'' then parse_heading trimmed s else s)
                      in s\<lparr>ps_document := PushBlock type position stop (JoinSections (ps_sections s)) level [] (ps_document s)\<rparr>
                    else s\<lparr>ps_paragraph_start := (case ps_paragraph_start s of None \<Rightarrow> Some position | Some p \<Rightarrow> Some p),
                           ps_paragraph_end := stop\<rparr>)
           in s\<lparr>ps_position := stop\<rparr>)"

subsection \<open>The loop over the lines\<close>

lemma PushBlock_source [simp]: "nd_source_text (PushBlock type start stop section level text doc) = nd_source_text doc"
  by (simp add: PushBlock_def Let_def)

lemma flush_paragraph_frame [simp]:
  "nd_source_text (ps_document (flush_paragraph s)) = nd_source_text (ps_document s)"
  "ps_position (flush_paragraph s) = ps_position s" "ps_code (flush_paragraph s) = ps_code s"
  "ps_sections (flush_paragraph s) = ps_sections s" "ps_paragraph_start (flush_paragraph s) = None"
  by (simp_all add: flush_paragraph_def split: option.split)

lemma parse_heading_frame [simp]:
  "nd_source_text (ps_document (parse_heading trimmed s)) = nd_source_text (ps_document s)"
  "nd_blocks (ps_document (parse_heading trimmed s)) = nd_blocks (ps_document s)"
  "ps_position (parse_heading trimmed s) = ps_position s" "ps_code (parse_heading trimmed s) = ps_code s"
  "ps_paragraph_start (parse_heading trimmed s) = ps_paragraph_start s"
  by (simp_all add: parse_heading_def Let_def)

lemma close_fence_bound: "close_fence src scan = Some e \<Longrightarrow> scan < e \<and> e \<le> length src"
proof (induction src scan rule: close_fence.induct)
  case (1 src scan)
  show ?case
  proof (cases "scan < length src")
    case True
    note line_end_bound [OF True]
    then show ?thesis
      using 1 True by (auto simp: close_fence.simps [of src scan] split: if_splits)
  next
    case False
    then show ?thesis using 1(2) by (simp add: close_fence.simps [of src scan])
  qed
qed

lemma parse_line_progress:
  fixes s :: parse_state
  assumes "ps_position s < length (nd_source_text (ps_document s))"
  shows "nd_source_text (ps_document (parse_line markdown s)) = nd_source_text (ps_document s)"
    and "ps_position s < ps_position (parse_line markdown s)"
    and "ps_position (parse_line markdown s) \<le> length (nd_source_text (ps_document s))"
  using line_end_bound [OF assms] close_fence_bound [of "nd_source_text (ps_document s)" "line_end (nd_source_text (ps_document s)) (ps_position s)"]
  by (auto simp: parse_line_def Let_def split: option.split)

function parse_loop :: "bool \<Rightarrow> parse_state \<Rightarrow> parse_state" where
  "parse_loop markdown s =
     (if ps_position s < length (nd_source_text (ps_document s)) then parse_loop markdown (parse_line markdown s) else s)"
  by pat_completeness auto
termination
proof (relation "measure (\<lambda>(_, s). length (nd_source_text (ps_document s)) - ps_position s)")
  show "wf (measure (\<lambda>(_ :: bool, s). length (nd_source_text (ps_document s)) - ps_position s))" by simp
  fix markdown and s :: parse_state
  assume "ps_position s < length (nd_source_text (ps_document s))"
  from parse_line_progress [OF this, of markdown] this
  show "((markdown, parse_line markdown s), markdown, s)
      \<in> measure (\<lambda>(_ :: bool, s). length (nd_source_text (ps_document s)) - ps_position s)" by simp
qed

declare parse_loop.simps [simp del]

definition ParseLines :: "string \<Rightarrow> bool \<Rightarrow> string \<Rightarrow> normalized_document" where
  "ParseLines text markdown title =
     ps_document (flush_paragraph (parse_loop markdown
       \<lparr>ps_document = \<lparr>nd_format = (if markdown then ''markdown'' else ''text''), nd_parser_version = ''mimic-structure-1'',
                        nd_title = title, nd_source_text = text, nd_blocks = []\<rparr>,
        ps_sections = [], ps_code = False, ps_position = 0, ps_paragraph_start = None, ps_paragraph_end = 0\<rparr>))"

section \<open>HTML\<close>

text \<open>One pass of \<open>DecodeHtml\<close>: every occurrence of an entity, from left to right.\<close>

function replace_all :: "string \<Rightarrow> string \<Rightarrow> string \<Rightarrow> string" where
  "replace_all encoded decoded s =
     (case s of
        [] \<Rightarrow> []
      | c # rest \<Rightarrow>
          if encoded \<noteq> [] \<and> starts_with encoded s then decoded @ replace_all encoded decoded (drop (length encoded) s)
          else c # replace_all encoded decoded rest)"
  by pat_completeness auto
termination
  by (relation "measure (\<lambda>(_, _, s). length s)") (auto simp: starts_with_def)

declare replace_all.simps [simp del]

text \<open>\<open>regex_replace\<close> of \<open><[^>]*>\<close> by a space.\<close>

function strip_tags :: "string \<Rightarrow> string" where
  "strip_tags s =
     (case s of
        [] \<Rightarrow> []
      | c # rest \<Rightarrow>
          let close = dropWhile (\<lambda>c. c \<noteq> CHR ''>'') rest in
          if c = CHR ''<'' \<and> close \<noteq> [] then CHR '' '' # strip_tags (tl close)
          else c # strip_tags rest)"
  by pat_completeness auto
termination
proof (relation "measure length")
  fix s c rest x
  assume "s = c # rest" "x = dropWhile (\<lambda>c. c \<noteq> CHR ''>'') rest"
  moreover have "length (dropWhile (\<lambda>c. c \<noteq> CHR ''>'') rest) \<le> length rest" by (rule length_dropWhile_le)
  ultimately show "(tl x, s) \<in> measure length" by simp
qed simp_all

declare strip_tags.simps [simp del]

definition entities :: "(string \<times> string) list" where
  "entities = [(''&amp;'', ''&''), (''&lt;'', ''<''), (''&gt;'', ''>''), (''&quot;'', [CHR 0x22]), (''&#39;'', [CHR 0x27])]"

definition DecodeHtml :: "string \<Rightarrow> string" where
  "DecodeHtml s = Trim (strip_tags (fold (\<lambda>(encoded, decoded) s. replace_all encoded decoded s) entities s))"

text \<open>
  The element of \<open>ParseHtml\<close>, \<open><(h[1-6]|p|...)[^>]*>[\s\S]*?</\1\s*>\<close> without regard to case.  The
  alternatives are tried in order: after a tag the opening bracket ends at the first \<open>>\<close>, and the
  element at the first closing tag of this name; an alternative without one is given up.
\<close>

definition html_tags :: "string list" where
  "html_tags = [''h1'', ''h2'', ''h3'', ''h4'', ''h5'', ''h6'', ''p'', ''li'', ''pre'', ''code'', ''table'', ''tr'',
     ''caption'', ''figcaption'', ''blockquote'', ''aside'', ''footer'']"

fun close_tag :: "string \<Rightarrow> string \<Rightarrow> nat \<Rightarrow> nat option" where
  "close_tag tag [] n = None"
| "close_tag tag (c # s) n =
     (let rest = dropWhile isspace (drop (Suc (length tag)) s) in
      if c = CHR ''<'' \<and> take 1 s = ''/'' \<and> Lower (take (length tag) (drop 1 s)) = Lower tag \<and> take 1 rest = ''>''
      then Some (n + Suc (length s) - length rest + 1)
      else close_tag tag s (Suc n))"

text \<open>The length of the element that starts a string, and its tag as it is written.\<close>

definition match_tag :: "string \<Rightarrow> string \<Rightarrow> (string \<times> nat) option" where
  "match_tag s tag =
     (let name = take (length tag) (tl s); close = dropWhile (\<lambda>c. c \<noteq> CHR ''>'') (drop (length tag) (tl s)) in
      if hd s = CHR ''<'' \<and> Lower name = tag \<and> close \<noteq> []
      then map_option (Pair name) (close_tag name (tl close) (length s - length (tl close)))
      else None)"

definition match_element :: "string \<Rightarrow> (string \<times> nat) option" where
  "match_element s =
     (if s = [] then None else case List.map_filter (match_tag s) html_tags of [] \<Rightarrow> None | m # _ \<Rightarrow> Some m)"

lemma close_tag_bound: "close_tag tag s n = Some e \<Longrightarrow> n < e \<and> e \<le> n + length s"
proof (induction tag s n rule: close_tag.induct)
  case (2 tag c s n)
  have "length (dropWhile isspace (drop (Suc (length tag)) s)) \<le> length s"
    using length_dropWhile_le [of isspace "drop (Suc (length tag)) s"] by simp
  then show ?case
    using 2 by (cases "dropWhile isspace (drop (Suc (length tag)) s)") (auto simp: Let_def split: if_splits)
qed simp

lemma match_element_bound: "match_element s = Some (name, n) \<Longrightarrow> 0 < n \<and> n \<le> length s"
proof -
  assume m: "match_element s = Some (name, n)"
  then have "(name, n) \<in> set (List.map_filter (match_tag s) html_tags)"
    by (auto simp: match_element_def split: if_splits list.splits)
  then obtain tag where "match_tag s tag = Some (name, n)" by (auto simp: List.map_filter_def)
  then obtain close where c: "close_tag name (tl close) (length s - length (tl close)) = Some n"
    "length (tl close) \<le> length s"
    using length_dropWhile_le [of "\<lambda>c. c \<noteq> CHR ''>''" "drop (length tag) (tl s)"]
    by (fastforce simp: match_tag_def Let_def split: if_splits)
  from close_tag_bound [OF c(1)] c(2) show ?thesis by auto
qed

text \<open>The matches of the iterator: start, end and tag.\<close>

function html_elements :: "string \<Rightarrow> nat \<Rightarrow> (nat \<times> nat \<times> string) list" where
  "html_elements s position =
     (if s = [] then []
      else case match_element s of
             None \<Rightarrow> html_elements (tl s) (Suc position)
           | Some (name, n) \<Rightarrow> (position, position + n, name) # html_elements (drop n s) (position + n))"
  by pat_completeness auto
termination
  by (relation "measure (\<lambda>(s, _). length s)") (auto dest!: match_element_bound)

declare html_elements.simps [simp del]

definition html_type :: "string \<Rightarrow> string" where
  "html_type tag =
     (if hd tag = CHR ''h'' \<and> length tag = 2 then ''heading''
      else if tag = ''li'' then ''list_item''
      else if tag = ''pre'' \<or> tag = ''code'' then ''code''
      else if tag = ''table'' \<or> tag = ''tr'' then ''table''
      else if tag = ''caption'' \<or> tag = ''figcaption'' then ''caption''
      else if tag = ''footer'' then ''footnote''
      else if tag = ''blockquote'' then ''citation''
      else ''paragraph'')"

definition html_block ::
  "nat \<times> nat \<times> string \<Rightarrow> normalized_document \<times> string list \<Rightarrow> normalized_document \<times> string list" where
  "html_block match s =
     (case (match, s) of
        ((start, stop, name), (doc, sections)) \<Rightarrow>
          let tag = Lower name; type = html_type tag;
              level = (if type = ''heading'' then (of_char (tag ! 1) :: nat) - 48 else 0);
              decoded = DecodeHtml (substr (nd_source_text doc) start (stop - start));
              (doc, sections) =
                (if type = ''heading'' then
                   (if nd_title doc = [] \<and> level = 1 then doc\<lparr>nd_title := decoded\<rparr> else doc,
                    enter_section level decoded sections)
                 else (doc, sections))
          in (PushBlock type start stop (JoinSections sections) level decoded doc, sections))"

definition ParseHtml :: "string \<Rightarrow> string \<Rightarrow> normalized_document" where
  "ParseHtml text supplied_title =
     (let doc = fst (fold html_block (html_elements text 0)
            (\<lparr>nd_format = ''html'', nd_parser_version = ''mimic-html-1'', nd_title = supplied_title,
              nd_source_text = text, nd_blocks = []\<rparr>, []))
      in if nd_blocks doc = []
         then (ParseLines (DecodeHtml text) False supplied_title)\<lparr>nd_format := ''html'', nd_parser_version := ''mimic-html-1''\<rparr>
         else doc)"

definition ParseDocument :: "string \<Rightarrow> string \<Rightarrow> string \<Rightarrow> document_error + normalized_document" where
  "ParseDocument text format title =
     (case DetectFormat format of
        Inl e \<Rightarrow> Inl e
      | Inr selected \<Rightarrow>
          Inr (if selected = ''markdown'' then ParseLines text True title
               else if selected = ''html'' then ParseHtml text title
               else ParseLines text False title))"

end
