(* ===== verification/DocumentProps.thy ===== *)
theory DocumentProps
  imports Document
begin

text \<open>
  Parsing loses nothing: the blocks of a text are in order and disjoint, and every character that is
  not white space is in one of them.
\<close>

section \<open>Blocks of a text\<close>

definition block_ok :: "string \<Rightarrow> document_block \<Rightarrow> bool" where
  "block_ok text b \<longleftrightarrow> bk_start b < bk_end b \<and> bk_end b \<le> length text"

definition blocks_ok :: "string \<Rightarrow> document_block list \<Rightarrow> bool" where
  "blocks_ok text bs \<longleftrightarrow>
     list_all (block_ok text) bs \<and> sorted_wrt (\<lambda>b c. bk_end b \<le> bk_start c) bs"

definition in_block :: "nat \<Rightarrow> document_block \<Rightarrow> bool" where
  "in_block i b \<longleftrightarrow> bk_start b \<le> i \<and> i < bk_end b"

definition exact_text :: "string \<Rightarrow> document_block \<Rightarrow> bool" where
  "exact_text text b \<longleftrightarrow> bk_text b = substr text (bk_start b) (bk_end b - bk_start b)"

lemma no_fence [simp]: "\<not> starts_with fence []"
  by (simp add: starts_with_def fence_def)

lemma dropWhile_all: "(\<forall>c\<in>set (dropWhile P s). P c) \<longleftrightarrow> (\<forall>c\<in>set s. P c)"
  by (induction s) auto

lemma Trim_Nil: "Trim s = [] \<longleftrightarrow> (\<forall>c\<in>set s. isspace c)"
  using dropWhile_all [of isspace s] by (simp add: Trim_def)

lemma substr_space:
  assumes "\<forall>c\<in>set (substr text start n). isspace c" and "start \<le> i" and "i < start + n" and "i < length text"
  shows "isspace (text ! i)"
proof -
  have "substr text start n ! (i - start) = text ! i" "i - start < length (substr text start n)"
    using assms(2-4) by (auto simp: substr_def)
  then show ?thesis using assms(1) nth_mem by metis
qed

text \<open>What a block that is offered adds.\<close>

lemma PushBlock_cases:
  assumes "start < stop"
  obtains (space) "PushBlock type start stop sec level [] doc = doc"
      "\<forall>c\<in>set (substr (nd_source_text doc) start (stop - start)). isspace c"
    | (block) b where "nd_blocks (PushBlock type start stop sec level [] doc) = nd_blocks doc @ [b]"
      "bk_start b = start" "bk_end b = stop" "exact_text (nd_source_text doc) b"
proof (cases "Trim (substr (nd_source_text doc) start (stop - start)) = []")
  case True
  then show ?thesis using assms space by (simp add: PushBlock_def Trim_Nil)
next
  case False
  then show ?thesis using assms block by (simp add: PushBlock_def exact_text_def)
qed

text \<open>The blocks cover the text up to \<open>hi\<close>.\<close>

definition covers_upto :: "normalized_document \<Rightarrow> nat \<Rightarrow> bool" where
  "covers_upto doc hi \<longleftrightarrow>
     (let text = nd_source_text doc in
      blocks_ok text (nd_blocks doc) \<and> list_all (exact_text text) (nd_blocks doc) \<and> hi \<le> length text \<and>
      list_all (\<lambda>b. bk_end b \<le> hi) (nd_blocks doc) \<and>
      (\<forall>i<hi. \<not> isspace (text ! i) \<longrightarrow> list_ex (in_block i) (nd_blocks doc)))"

lemma covers_push:
  assumes "covers_upto doc start" and "start < stop" and "stop \<le> length (nd_source_text doc)"
  shows "covers_upto (PushBlock type start stop sec level [] doc) stop"
  using assms(2)
proof (cases rule: PushBlock_cases [where type = type and sec = sec and level = level and doc = doc])
  case space
  have "isspace (nd_source_text doc ! i)" if "start \<le> i" "i < stop" for i
    using substr_space [OF space(2), of i] that assms(3) by simp
  then show ?thesis
    using assms space(1) unfolding covers_upto_def Let_def list_all_iff by (metis le_trans less_imp_le not_le)
next
  case (block b)
  let ?text = "nd_source_text doc" and ?doc = "PushBlock type start stop sec level [] doc"
  have old: "blocks_ok ?text (nd_blocks doc)" "list_all (exact_text ?text) (nd_blocks doc)"
    "list_all (\<lambda>b. bk_end b \<le> start) (nd_blocks doc)"
    and cov: "\<And>i. i < start \<Longrightarrow> \<not> isspace (?text ! i) \<Longrightarrow> list_ex (in_block i) (nd_blocks doc)"
    using assms(1) by (simp_all add: covers_upto_def Let_def)
  have "blocks_ok ?text (nd_blocks doc @ [b])"
    using old block assms(2,3) by (auto simp: blocks_ok_def block_ok_def sorted_wrt_append list_all_iff)
  moreover have "list_ex (in_block i) (nd_blocks doc @ [b])" if "i < stop" "\<not> isspace (?text ! i)" for i
    using cov [OF _ that(2)] that(1) block(2,3) by (cases "i < start") (auto simp: in_block_def)
  moreover have "list_all (\<lambda>b. bk_end b \<le> stop) (nd_blocks doc @ [b])"
    using old(3) block(3) assms(2) by (auto simp: list_all_iff)
  ultimately show ?thesis
    using old(2) block(1,4) assms(3) by (simp add: covers_upto_def Let_def)
qed

lemma covers_spaces:
  assumes "covers_upto doc lo" and "lo \<le> hi" and "hi \<le> length (nd_source_text doc)"
    and "\<And>i. lo \<le> i \<Longrightarrow> i < hi \<Longrightarrow> isspace (nd_source_text doc ! i)"
  shows "covers_upto doc hi"
  using assms unfolding covers_upto_def Let_def list_all_iff by (metis le_trans not_le)

section \<open>The invariant of \<open>ParseLines\<close>\<close>

definition parse_inv :: "parse_state \<Rightarrow> bool" where
  "parse_inv s \<longleftrightarrow>
     ps_position s \<le> length (nd_source_text (ps_document s)) \<and>
     (case ps_paragraph_start s of
        None \<Rightarrow> covers_upto (ps_document s) (ps_position s)
      | Some p \<Rightarrow> p < ps_paragraph_end s \<and> ps_paragraph_end s = ps_position s \<and> covers_upto (ps_document s) p)"

lemma flush_inv: "parse_inv s \<Longrightarrow> covers_upto (ps_document (flush_paragraph s)) (ps_position s)"
  using covers_push by (auto simp: parse_inv_def flush_paragraph_def split: option.splits)

lemma covers_heading: "covers_upto (ps_document (parse_heading trimmed s)) hi = covers_upto (ps_document s) hi"
  by (simp add: covers_upto_def)

text \<open>A line that is blank, a line that is a block of its own, and a line of a paragraph.\<close>

lemma blank_line_covers:
  assumes "parse_inv s" and "Trim (substr (nd_source_text (ps_document s)) (ps_position s) (stop - ps_position s)) = []"
    and "ps_position s < stop" and "stop \<le> length (nd_source_text (ps_document s))"
  shows "covers_upto (ps_document (flush_paragraph s)) stop"
proof (rule covers_spaces [OF flush_inv [OF assms(1)]])
  fix i assume "ps_position s \<le> i" "i < stop"
  then show "isspace (nd_source_text (ps_document (flush_paragraph s)) ! i)"
    using substr_space [of "nd_source_text (ps_document s)" "ps_position s" "stop - ps_position s" i] assms(2,4)
    by (simp add: Trim_Nil)
qed (use assms in simp_all)

lemma block_line_covers:
  assumes "parse_inv s" and "ps_position s < stop" and "stop \<le> length (nd_source_text (ps_document s))"
  shows "covers_upto (PushBlock type (ps_position s) stop sec level []
    (ps_document (if heading then parse_heading trimmed (flush_paragraph s) else flush_paragraph s))) stop"
  by (rule covers_push) (use assms flush_inv [OF assms(1)] in \<open>simp_all add: covers_heading\<close>)

lemma parse_line_inv:
  fixes s :: parse_state
  assumes inv: "parse_inv s" and more: "ps_position s < length (nd_source_text (ps_document s))"
  shows "parse_inv (parse_line markdown s)"
proof -
  let ?text = "nd_source_text (ps_document s)" and ?pos = "ps_position s"
  define stop where "stop = line_end ?text ?pos"
  define line where "line = substr ?text ?pos (stop - ?pos)"
  have stop: "?pos < stop" "stop \<le> length ?text" using line_end_bound [OF more] by (simp_all add: stop_def)
  note flushed = flush_inv [OF inv]
  show ?thesis
  proof (cases "markdown \<and> starts_with fence (Trim line) \<and> \<not> ps_code s")
    case True
    define e where "e = (case close_fence ?text stop of None \<Rightarrow> stop | Some e \<Rightarrow> e)"
    have "?pos < e" "e \<le> length ?text"
      using stop close_fence_bound [of ?text stop] by (auto simp: e_def split: option.split)
    from covers_push [OF flushed, of e "''code''" "JoinSections (ps_sections s)" 0] this
    have "covers_upto (PushBlock ''code'' ?pos e (JoinSections (ps_sections s)) 0 [] (ps_document (flush_paragraph s))) e" by simp
    moreover have "ps_document (parse_line markdown s) =
        PushBlock ''code'' ?pos e (JoinSections (ps_sections s)) 0 [] (ps_document (flush_paragraph s))"
      "ps_position (parse_line markdown s) = e" "ps_paragraph_start (parse_line markdown s) = None"
      using True unfolding parse_line_def Let_def stop_def [symmetric] line_def [symmetric] e_def
      by (simp_all split: option.split)
    ultimately show ?thesis using \<open>e \<le> length ?text\<close> by (simp add: parse_inv_def)
  next
    case plain: False
    define t where "t = (if markdown \<and> starts_with fence (Trim line) then (flush_paragraph s)\<lparr>ps_code := False\<rparr> else s)"
    have t: "parse_inv t" "ps_position t = ?pos" "nd_source_text (ps_document t) = ?text"
      using inv flushed stop by (auto simp: t_def parse_inv_def)
    define type where "type = (if markdown then MarkdownType line (ps_code t) else ''paragraph'')"
    let ?h = "if type = ''heading'' then parse_heading (Trim line) (flush_paragraph t) else flush_paragraph t"
    define u where "u = (if Trim line = [] then flush_paragraph t
        else if markdown \<and> type \<noteq> ''paragraph'' then
          ?h\<lparr>ps_document := PushBlock type ?pos stop (JoinSections (ps_sections ?h))
               (if type = ''heading'' then length (Trim line) - length (dropWhile (\<lambda>c. c = CHR ''#'') (Trim line)) else 0)
               [] (ps_document ?h)\<rparr>
        else t\<lparr>ps_paragraph_start := (case ps_paragraph_start t of None \<Rightarrow> Some ?pos | Some p \<Rightarrow> Some p),
               ps_paragraph_end := stop\<rparr>)"
    have "parse_line markdown s = u\<lparr>ps_position := stop\<rparr>"
      unfolding parse_line_def Let_def stop_def [symmetric] line_def [symmetric] if_not_P [OF plain]
        t_def [symmetric] type_def [symmetric] u_def ..
    moreover have "(case ps_paragraph_start u of None \<Rightarrow> covers_upto (ps_document u) stop
        | Some p \<Rightarrow> p < ps_paragraph_end u \<and> ps_paragraph_end u = stop \<and> covers_upto (ps_document u) p) \<and>
      nd_source_text (ps_document u) = ?text"
    proof -
      consider "Trim line = []" | "Trim line \<noteq> []" "markdown \<and> type \<noteq> ''paragraph''"
        | "Trim line \<noteq> []" "\<not> (markdown \<and> type \<noteq> ''paragraph'')" by blast
      then show ?thesis
      proof cases
        case 1
        then show ?thesis
          using blank_line_covers [OF t(1), of stop] stop by (simp add: u_def t(2,3) line_def)
      next
        case 2
        then show ?thesis
          using block_line_covers [OF t(1), of stop type _ _ "type = ''heading''" "Trim line"] stop
          by (cases "type = ''heading''") (simp_all add: u_def t(2,3))
      next
        case 3
        then have "u = t\<lparr>ps_paragraph_start := (case ps_paragraph_start t of None \<Rightarrow> Some ?pos | Some p \<Rightarrow> Some p),
               ps_paragraph_end := stop\<rparr>" by (simp only: u_def if_False)
        then show ?thesis using t stop by (simp add: parse_inv_def split: option.splits)
      qed
    qed
    ultimately show ?thesis using stop by (cases "ps_paragraph_start u") (simp_all add: parse_inv_def)
  qed
qed

lemma parse_loop_inv:
  fixes s :: parse_state
  shows "parse_inv s \<Longrightarrow> parse_inv (parse_loop markdown s) \<and>
   nd_source_text (ps_document (parse_loop markdown s)) = nd_source_text (ps_document s) \<and>
   ps_position (parse_loop markdown s) = length (nd_source_text (ps_document s))"
proof (induction markdown s rule: parse_loop.induct)
  case (1 markdown s)
  show ?case
  proof (cases "ps_position s < length (nd_source_text (ps_document s))")
    case True
    then show ?thesis
      using 1(1) [OF True parse_line_inv [OF 1(2) True]] parse_line_progress(1) [OF True, of markdown]
      by (simp add: parse_loop.simps [of markdown s])
  next
    case False
    then show ?thesis using 1(2) by (simp add: parse_loop.simps [of markdown s] parse_inv_def)
  qed
qed

lemma ParseLines_covers:
  "nd_source_text (ParseLines text markdown title) = text \<and> covers_upto (ParseLines text markdown title) (length text)"
proof -
  let ?s = "\<lparr>ps_document = \<lparr>nd_format = (if markdown then ''markdown'' else ''text''), nd_parser_version = ''mimic-structure-1'',
                        nd_title = title, nd_source_text = text, nd_blocks = []\<rparr>,
        ps_sections = [], ps_code = False, ps_position = 0, ps_paragraph_start = None, ps_paragraph_end = 0\<rparr>"
  have "parse_inv ?s" by (simp add: parse_inv_def covers_upto_def blocks_ok_def Let_def)
  from parse_loop_inv [OF this, of markdown] flush_inv [of "parse_loop markdown ?s"] show ?thesis
    by (simp add: ParseLines_def)
qed

section \<open>HTML\<close>

text \<open>What the regular expression and the order of the steps of \<open>DecodeHtml\<close> do to some documents.  The
  alternative \<open>p\<close> comes before \<open>pre\<close> and is not closed by a word boundary, so a code block before a
  paragraph is taken for the start of that paragraph.\<close>

lemma html_pre_swallowed:
  "map (\<lambda>b. (bk_type b, bk_start b, bk_end b)) (nd_blocks (ParseHtml ''<pre>x = 1</pre><p>last</p>'' [])) =
   [(''paragraph'', 0, 27)]"
  by code_simp

text \<open>An empty element becomes a block whose text is its markup.\<close>

lemma html_empty_element: "map bk_text (nd_blocks (ParseHtml ''<p></p>'' [])) = [''<p></p>'']"
  by code_simp

text \<open>Entities are decoded before the tags are removed, so text between escaped brackets is lost.\<close>

lemma html_escaped_brackets: "DecodeHtml ''1 &lt; 2 and 3 &gt; 2'' = ''1   2''"
  by code_simp

end
