(* ===== verification/Chunks.thy ===== *)
theory Chunks
  imports Document
begin

text \<open>
  \<open>PlanChunks\<close> of \<open>rag_cpp/src/document.cpp\<close>: chunks of a text by size, or of its blocks.
\<close>

section \<open>Chunks of a text\<close>

definition BoundaryBefore :: "string \<Rightarrow> nat \<Rightarrow> nat \<Rightarrow> nat \<Rightarrow> nat" where
  "BoundaryBefore text start desired minimum =
     (if desired \<ge> length text then length text
      else
        case List.map_filter (\<lambda>marker. case rfind_char text marker desired of
                 None \<Rightarrow> None | Some at \<Rightarrow> if at + 1 \<ge> start + minimum then Some (at + 1) else None)
               [newline, CHR ''.'', CHR '';'', CHR '' ''] of
          [] \<Rightarrow> desired
        | at # _ \<Rightarrow> at)"

definition valid_budget :: "chunking_options \<Rightarrow> bool" where
  "valid_budget opts \<longleftrightarrow>
     \<not> (co_target_chars opts < 80 \<or> co_maximum_chars opts < co_target_chars opts \<or>
        co_minimum_chars opts > co_target_chars opts \<or> co_maximum_chunks opts = 0)"

definition next_start :: "chunking_options \<Rightarrow> nat \<Rightarrow> nat" where
  "next_start opts stop = (if stop > co_overlap_chars opts then stop - co_overlap_chars opts else stop)"

definition fast_chunk :: "nat \<Rightarrow> nat \<Rightarrow> chunk_plan" where
  "fast_chunk start stop =
     \<lparr>ck_start = start, ck_end = stop, ck_page_start = 0, ck_page_end = 0, ck_section_path = [],
      ck_strategy = ''fast-v1'', ck_contextual_header = []\<rparr>"

definition fast_end :: "string \<Rightarrow> chunking_options \<Rightarrow> nat \<Rightarrow> nat" where
  "fast_end text opts start =
     (let stop = min (length text) (start + co_target_chars opts) in
      if stop < length text then
        case rfind_char text (CHR '' '') stop of
          None \<Rightarrow> stop
        | Some boundary \<Rightarrow> if boundary > start + 80 then boundary else stop
      else stop)"

function fast_chunks ::
  "string \<Rightarrow> chunking_options \<Rightarrow> nat \<Rightarrow> chunk_plan list \<Rightarrow> document_error + chunk_plan list" where
  "fast_chunks text opts start chunks =
     (if start < length text then
        let stop = fast_end text opts start; chunks' = chunks @ [fast_chunk start stop] in
        if stop = length text then Inr chunks'
        else if length chunks' \<ge> co_maximum_chunks opts then Inl TooManyChunks
        else fast_chunks text opts (next_start opts stop) chunks'
      else Inr chunks)"
  by pat_completeness auto
termination
  by (relation "measure (\<lambda>(_, opts, _, chunks). co_maximum_chunks opts - length chunks)") auto

declare fast_chunks.simps [simp del]

section \<open>Chunks of blocks\<close>

record plan_state =
  pl_chunk_start :: "nat option"
  pl_chunk_end :: nat
  pl_section :: string
  pl_chunks :: "chunk_plan list"

definition flush_chunk :: "chunking_options \<Rightarrow> plan_state \<Rightarrow> document_error + plan_state" where
  "flush_chunk opts s =
     (case pl_chunk_start s of
        None \<Rightarrow> Inr s
      | Some start \<Rightarrow>
          let chunks = pl_chunks s @
                [\<lparr>ck_start = start, ck_end = pl_chunk_end s, ck_page_start = 0, ck_page_end = 0,
                  ck_section_path = pl_section s, ck_strategy = co_mode opts @ ''-adaptive-v1'', ck_contextual_header = []\<rparr>]
          in if length chunks > co_maximum_chunks opts then Inl TooManyChunks
             else Inr (s\<lparr>pl_chunk_start := None, pl_chunks := chunks\<rparr>))"

text \<open>The loop over a block that is too large for one chunk.\<close>

definition dense_chunk :: "chunking_options \<Rightarrow> document_block \<Rightarrow> nat \<Rightarrow> nat \<Rightarrow> chunk_plan" where
  "dense_chunk opts block start stop =
     \<lparr>ck_start = start, ck_end = stop, ck_page_start = bk_page block, ck_page_end = bk_page block,
      ck_section_path = bk_section_path block, ck_strategy = co_mode opts @ ''-dense-v1'', ck_contextual_header = []\<rparr>"

function dense_chunks ::
  "string \<Rightarrow> chunking_options \<Rightarrow> document_block \<Rightarrow> nat \<Rightarrow> chunk_plan list \<Rightarrow> document_error + chunk_plan list" where
  "dense_chunks text opts block start chunks =
     (if start < bk_end block then
        let desired = min (bk_end block) (start + co_maximum_chars opts);
            stop = BoundaryBefore text start desired (co_minimum_chars opts);
            chunks' = chunks @ [dense_chunk opts block start stop]
        in if length chunks' > co_maximum_chunks opts then Inl TooManyChunks
           else if stop = bk_end block then Inr chunks'
           else dense_chunks text opts block (next_start opts stop) chunks'
      else Inr chunks)"
  by pat_completeness auto
termination
  by (relation "measure (\<lambda>(_, opts, _, _, chunks). Suc (co_maximum_chunks opts) - length chunks)") auto

declare dense_chunks.simps [simp del]

definition plan_block ::
  "string \<Rightarrow> chunking_options \<Rightarrow> document_block \<Rightarrow> plan_state \<Rightarrow> document_error + plan_state" where
  "plan_block text opts block s =
     (case (case pl_chunk_start s of
              None \<Rightarrow> Inr s
            | Some start \<Rightarrow>
                if bk_type block = ''heading'' \<or> bk_end block - start > co_target_chars opts then flush_chunk opts s else Inr s) of
        Inl e \<Rightarrow> Inl e
      | Inr s \<Rightarrow>
          if bk_end block - bk_start block > co_maximum_chars opts then
            (case flush_chunk opts s of
               Inl e \<Rightarrow> Inl e
             | Inr s \<Rightarrow>
                 (case dense_chunks text opts block (bk_start block) (pl_chunks s) of
                    Inl e \<Rightarrow> Inl e | Inr chunks \<Rightarrow> Inr (s\<lparr>pl_chunks := chunks\<rparr>)))
          else
            let start = (case pl_chunk_start s of None \<Rightarrow> bk_start block | Some start \<Rightarrow> start);
                section = (case pl_chunk_start s of None \<Rightarrow> bk_section_path block | Some _ \<Rightarrow> pl_section s);
                s = s\<lparr>pl_chunk_start := Some start, pl_section := section, pl_chunk_end := bk_end block\<rparr>
            in if bk_end block - start \<ge> co_target_chars opts \<or> bk_type block = ''table'' \<or> bk_type block = ''code''
               then flush_chunk opts s else Inr s)"

fun plan_blocks ::
  "string \<Rightarrow> chunking_options \<Rightarrow> document_block list \<Rightarrow> plan_state \<Rightarrow> document_error + plan_state" where
  "plan_blocks text opts [] s = Inr s"
| "plan_blocks text opts (block # blocks) s =
     (case plan_block text opts block s of Inl e \<Rightarrow> Inl e | Inr s \<Rightarrow> plan_blocks text opts blocks s)"

text \<open>A last chunk that is too small is joined to the one before it.\<close>

definition join_last :: "chunking_options \<Rightarrow> chunk_plan list \<Rightarrow> chunk_plan list" where
  "join_last opts chunks =
     (if length chunks > 1 \<and> ck_end (last chunks) - ck_start (last chunks) < co_minimum_chars opts then
        let k = length chunks - 2 in
        butlast (chunks[k := (chunks ! k)\<lparr>ck_end := ck_end (last chunks)\<rparr>])
      else chunks)"

definition PlanChunks :: "normalized_document \<Rightarrow> chunking_options \<Rightarrow> document_error + chunk_plan list" where
  "PlanChunks doc opts =
     (if \<not> valid_budget opts then Inl InvalidBudget
      else if co_mode opts = ''fast'' then fast_chunks (nd_source_text doc) opts 0 []
      else if co_mode opts \<noteq> ''structured'' \<and> co_mode opts \<noteq> ''semantic'' then Inl BadMode
      else
        case plan_blocks (nd_source_text doc) opts (nd_blocks doc)
               \<lparr>pl_chunk_start = None, pl_chunk_end = 0, pl_section = [], pl_chunks = []\<rparr> of
          Inl e \<Rightarrow> Inl e
        | Inr s \<Rightarrow>
            (case flush_chunk opts s of
               Inl e \<Rightarrow> Inl e | Inr s \<Rightarrow> Inr (join_last opts (pl_chunks s))))"

end
