(* ===== verification/ChunkProps.thy ===== *)
theory ChunkProps
  imports Chunks
begin

text \<open>
  Fast mode of \<open>PlanChunks\<close>: what a plan covers when it is made, when one is made, and the texts for
  which none is.
\<close>

section \<open>Boundaries\<close>

definition covered :: "chunk_plan list \<Rightarrow> nat \<Rightarrow> bool" where
  "covered chunks i \<longleftrightarrow> (\<exists>c\<in>set chunks. ck_start c \<le> i \<and> i < ck_end c)"

lemma covered_append [simp]:
  "covered [] i \<longleftrightarrow> False" "covered (cs @ ds) i \<longleftrightarrow> covered cs i \<or> covered ds i"
  "covered (c # cs) i \<longleftrightarrow> ck_start c \<le> i \<and> i < ck_end c \<or> covered cs i"
  by (auto simp: covered_def)

lemma rfind_char_Some:
  assumes "rfind_char s c pos = Some i"
  shows "i \<le> pos" and "i < length s" and "s ! i = c"
proof -
  let ?is = "filter (\<lambda>i. s ! i = c) [0..<min (Suc pos) (length s)]"
  have "?is \<noteq> []" "i = last ?is" using assms by (auto simp: rfind_char_def split: list.splits)
  then have "i \<in> set ?is" using last_in_set by metis
  then show "i \<le> pos" "i < length s" "s ! i = c" by auto
qed

lemma last_filter_upt:
  assumes "p < n" and "P p" and "\<And>i. p < i \<Longrightarrow> i < n \<Longrightarrow> \<not> P i"
  shows "filter P [0..<n] \<noteq> [] \<and> last (filter P [0..<n]) = p"
proof -
  have "[0..<n] = [0..<p] @ p # [Suc p..<n]"
    using assms(1) upt_add_eq_append [of 0 p "n - p"] by (simp add: upt_conv_Cons)
  moreover have "filter P [Suc p..<n] = []" using assms(3) by (simp add: filter_empty_conv)
  ultimately show ?thesis using assms(2) by simp
qed

lemma rfind_char_last:
  assumes "p \<le> pos" and "p < length s" and "s ! p = c" and "\<And>i. p < i \<Longrightarrow> i \<le> pos \<Longrightarrow> i < length s \<Longrightarrow> s ! i \<noteq> c"
  shows "rfind_char s c pos = Some p"
proof -
  have "p < min (Suc pos) (length s)" "\<And>i. p < i \<Longrightarrow> i < min (Suc pos) (length s) \<Longrightarrow> s ! i \<noteq> c"
    using assms by auto
  from last_filter_upt [of p _ "\<lambda>i. s ! i = c", OF this(1) assms(3) this(2)] show ?thesis
    unfolding rfind_char_def by (cases "filter (\<lambda>i. s ! i = c) [0..<min (Suc pos) (length s)]") simp_all
qed

lemma fast_end_bounds:
  assumes "valid_budget opts" and "start < length src"
  shows "start < fast_end src opts start" and "fast_end src opts start \<le> start + co_target_chars opts"
    and "fast_end src opts start \<le> length src"
    and "fast_end src opts start = length src \<or> start + 80 \<le> fast_end src opts start"
  using assms rfind_char_Some(1) [of src "CHR '' ''" "start + co_target_chars opts"]
  by (auto simp: fast_end_def valid_budget_def min_def Let_def split: option.splits)

lemma next_start_le: "next_start opts stop \<le> stop"
  by (simp add: next_start_def)

section \<open>Coverage of a fast plan\<close>

definition fast_inv :: "string \<Rightarrow> chunking_options \<Rightarrow> chunk_plan list \<Rightarrow> bool" where
  "fast_inv src opts chunks \<longleftrightarrow>
     list_all (\<lambda>c. ck_start c < ck_end c \<and> ck_end c - ck_start c \<le> co_target_chars opts \<and> ck_end c \<le> length src) chunks \<and>
     length chunks \<le> co_maximum_chunks opts"

lemma fast_chunks_covers:
  assumes "valid_budget opts" and "fast_chunks src opts start chunks = Inr result"
    and "fast_inv src opts chunks" and "length chunks < co_maximum_chunks opts" and "start \<le> length src"
    and "\<And>i. i < start \<Longrightarrow> covered chunks i"
  shows "fast_inv src opts result \<and> (\<forall>i<length src. covered result i)"
  using assms
proof (induction src opts start chunks rule: fast_chunks.induct)
  case (1 src opts start chunks)
  show ?case
  proof (cases "start < length src")
    case True
    define stop where "stop = fast_end src opts start"
    let ?chunks = "chunks @ [fast_chunk start stop]"
    note stop = fast_end_bounds [OF 1(2) True, folded stop_def]
    have inv: "fast_inv src opts ?chunks"
      using 1(4,5) stop by (simp add: fast_inv_def fast_chunk_def)
    have cov: "covered ?chunks i" if "i < stop" for i
      using 1(7) that stop by (cases "i < start") (auto simp: fast_chunk_def)
    note step = 1(3) [unfolded fast_chunks.simps [of src opts start chunks] Let_def, folded stop_def]
    show ?thesis
    proof (cases "stop = length src")
      case True
      then show ?thesis using inv cov step stop by auto
    next
      case False
      then have more: "length ?chunks < co_maximum_chunks opts"
        "fast_chunks src opts (next_start opts stop) ?chunks = Inr result"
        using step True by (auto split: if_splits)
      show ?thesis
        using 1(1) [OF True stop_def refl False _ 1(2) more(2) inv more(1)] more(1) stop(3) next_start_le [of opts stop] cov
        by simp
    qed
  next
    case False
    then have "result = chunks" "start = length src"
      using 1(3) [unfolded fast_chunks.simps [of src opts start chunks]] 1(6) by auto
    then show ?thesis using 1(4,7) by simp
  qed
qed

section \<open>When a fast plan is made\<close>

text \<open>With an overlap below 80 every chunk starts after the one before it, so a text is cut into few
  enough chunks.\<close>

lemma fast_chunks_returns:
  assumes "valid_budget opts" and "co_overlap_chars opts < 80"
    and "length src \<le> start + (co_maximum_chunks opts - length chunks) * (80 - co_overlap_chars opts)"
  shows "\<exists>result. fast_chunks src opts start chunks = Inr result"
  using assms
proof (induction src opts start chunks rule: fast_chunks.induct)
  case (1 src opts start chunks)
  show ?case
  proof (cases "start < length src")
    case True
    define stop where "stop = fast_end src opts start"
    let ?chunks = "chunks @ [fast_chunk start stop]" and ?step = "80 - co_overlap_chars opts"
    note stop = fast_end_bounds [OF 1(2) True, folded stop_def]
    note unfold = fast_chunks.simps [of src opts start chunks] Let_def stop_def [symmetric]
    show ?thesis
    proof (cases "stop = length src")
      case True
      then show ?thesis using stop unfolding unfold by auto
    next
      case False
      then have far: "start + 80 \<le> stop" "stop < length src" using stop by auto
      have room: "0 < co_maximum_chunks opts - length chunks" using 1(4) True by (cases "co_maximum_chunks opts - length chunks") auto
      then obtain k where k: "co_maximum_chunks opts - length chunks = Suc k" using gr0_implies_Suc by blast
      then have k': "co_maximum_chunks opts - length ?chunks = k" by simp
      have next_far: "start + ?step \<le> next_start opts stop" using far 1(3) by (simp add: next_start_def)
      have "length src \<le> next_start opts stop + (co_maximum_chunks opts - length ?chunks) * ?step"
        using 1(4) next_far unfolding k k' by simp
      moreover have more: "\<not> co_maximum_chunks opts \<le> length ?chunks"
        using 1(4) far unfolding k by (cases k) (use k' in auto)
      ultimately have "\<exists>result. fast_chunks src opts (next_start opts stop) ?chunks = Inr result"
        using 1(1) [OF True stop_def refl False _ 1(2,3)] by simp
      then show ?thesis using True False more unfolding unfold by simp
    qed
  next
    case False
    then show ?thesis by (simp add: fast_chunks.simps [of src opts start chunks])
  qed
qed

section \<open>Texts that are never cut\<close>

text \<open>A word longer than a chunk after a space.  Every chunk from before the space ends there, and the
  next one starts the overlap before it.\<close>

lemma fast_end_space:
  assumes "p < length src" and "src ! p = CHR '' ''" and "\<And>i. p < i \<Longrightarrow> i \<le> p + co_target_chars opts \<Longrightarrow> src ! i \<noteq> CHR '' ''"
    and "p + co_target_chars opts < length src" and "start + 80 < p" and "p \<le> start + co_target_chars opts"
  shows "fast_end src opts start = p"
proof -
  have "rfind_char src (CHR '' '') (start + co_target_chars opts) = Some p"
    by (rule rfind_char_last) (use assms in auto)
  then show ?thesis using assms by (simp add: fast_end_def Let_def)
qed

lemma fast_chunks_stuck:
  assumes "\<And>start. start \<in> {s, p - co_overlap_chars opts} \<Longrightarrow> fast_end src opts start = p"
    and "p < length src" and "co_overlap_chars opts < p"
    and "start = s \<or> start = p - co_overlap_chars opts" and "start < length src"
  shows "fast_chunks src opts start chunks = Inl TooManyChunks"
  using assms
proof (induction src opts start chunks rule: fast_chunks.induct)
  case (1 src opts start chunks)
  have stop: "fast_end src opts start = p" using 1(2,5) by auto
  have step: "next_start opts p = p - co_overlap_chars opts" using 1(4) by (simp add: next_start_def)
  show ?case
    using 1(1) [OF 1(6) refl refl] 1(2-) unfolding stop step fast_chunks.simps [of src opts start chunks] Let_def
    by auto
qed

section \<open>Properties\<close>

text \<open>C27. A plan in fast mode covers the whole text: every position is in a chunk, every chunk is
  non-empty, inside the text and at most \<open>target_chars\<close> long, and there are at most
  \<open>maximum_chunks\<close> of them.\<close>

theorem fast_plan_covers:
  assumes "co_mode opts = ''fast''" and "PlanChunks doc opts = Inr chunks"
  shows "(\<forall>i<length (nd_source_text doc). \<exists>c\<in>set chunks. ck_start c \<le> i \<and> i < ck_end c) \<and>
    (\<forall>c\<in>set chunks. ck_start c < ck_end c \<and> ck_end c - ck_start c \<le> co_target_chars opts \<and>
      ck_end c \<le> length (nd_source_text doc)) \<and>
    length chunks \<le> co_maximum_chunks opts"
proof -
  have "valid_budget opts" "fast_chunks (nd_source_text doc) opts 0 [] = Inr chunks" "0 < co_maximum_chunks opts"
    using assms by (auto simp: PlanChunks_def valid_budget_def split: if_splits)
  from fast_chunks_covers [OF this(1,2)] this(3) show ?thesis
    by (simp add: fast_inv_def covered_def list_all_iff)
qed

lemma fast_plan_covers_witness:
  "\<exists>c\<in>set [fast_chunk 0 3]. ck_start c \<le> 2 \<and> 2 < ck_end c \<and> ck_end c \<le> 3"
proof -
  let ?opts = "\<lparr>co_mode = ''fast'', co_target_chars = 80, co_minimum_chars = 40, co_maximum_chars = 90,
    co_overlap_chars = 20, co_maximum_chunks = 5\<rparr>"
  and ?doc = "ParseLines ''a b'' False []"
  have src: "nd_source_text ?doc = ''a b''" by code_simp
  have "PlanChunks ?doc ?opts = Inr [fast_chunk 0 3]" by code_simp
  from fast_plan_covers [OF _ this] src show ?thesis by simp
qed

text \<open>C28. With an overlap below 80 characters fast mode makes a plan for every text of up to
  \<open>maximum_chunks * (80 - overlap_chars)\<close> characters.\<close>

theorem fast_plan_made:
  assumes "co_mode opts = ''fast''" and "valid_budget opts" and "co_overlap_chars opts < 80"
    and "length (nd_source_text doc) \<le> co_maximum_chunks opts * (80 - co_overlap_chars opts)"
  shows "\<exists>chunks. PlanChunks doc opts = Inr chunks"
  using fast_chunks_returns [OF assms(2,3), of "nd_source_text doc" 0 "[]"] assms by (simp add: PlanChunks_def)

lemma fast_plan_made_witness:
  "\<exists>chunks. PlanChunks (ParseLines (replicate 200 (CHR ''x'')) False []) \<lparr>co_mode = ''fast'', co_target_chars = 100,
     co_minimum_chars = 40, co_maximum_chars = 100, co_overlap_chars = 20, co_maximum_chunks = 5\<rparr> = Inr chunks"
proof (rule fast_plan_made)
  have "nd_source_text (ParseLines (replicate 200 (CHR ''x'')) False []) = replicate 200 (CHR ''x'')" by code_simp
  then show "length (nd_source_text (ParseLines (replicate 200 (CHR ''x'')) False []))
      \<le> co_maximum_chunks \<lparr>co_mode = ''fast'', co_target_chars = 100, co_minimum_chars = 40,
           co_maximum_chars = 100, co_overlap_chars = 20, co_maximum_chunks = 5\<rparr> * (80 - co_overlap_chars
        \<lparr>co_mode = ''fast'', co_target_chars = 100, co_minimum_chars = 40, co_maximum_chars = 100,
           co_overlap_chars = 20, co_maximum_chunks = 5\<rparr>)" by simp
qed (simp_all add: valid_budget_def)

text \<open>C36. With an overlap of more than 80 characters, as in the default configuration, a document in which
  a word longer than a chunk follows the last space of its first chunk is refused in fast mode, whatever
  \<open>maximum_chunks\<close> is: every chunk ends at that space, and the next one starts before it again.\<close>

theorem fast_plan_stuck:
  assumes "co_mode opts = ''fast''" and "valid_budget opts" and "80 < co_overlap_chars opts"
    and "co_overlap_chars opts < p" and "p \<le> co_target_chars opts" and "nd_source_text doc ! p = CHR '' ''"
    and "p + co_target_chars opts < length (nd_source_text doc)"
    and "\<And>i. p < i \<Longrightarrow> i \<le> p + co_target_chars opts \<Longrightarrow> nd_source_text doc ! i \<noteq> CHR '' ''"
  shows "PlanChunks doc opts = Inl TooManyChunks"
proof -
  have "fast_end (nd_source_text doc) opts start = p" if "start \<in> {0, p - co_overlap_chars opts}" for start
    by (rule fast_end_space) (use assms that in auto)
  then have "fast_chunks (nd_source_text doc) opts 0 [] = Inl TooManyChunks"
    by (rule fast_chunks_stuck) (use assms in auto)
  then show ?thesis using assms by (simp add: PlanChunks_def)
qed

lemma fast_plan_stuck_witness:
  "PlanChunks \<lparr>nd_format = ''text'', nd_parser_version = [], nd_title = [],
       nd_source_text = replicate 1000 (CHR ''x'') @ '' '' @ replicate 2000 (CHR ''x''), nd_blocks = []\<rparr>
     \<lparr>co_mode = ''fast'', co_target_chars = 1600, co_minimum_chars = 240, co_maximum_chars = 2400,
      co_overlap_chars = 200, co_maximum_chunks = 10000\<rparr> = Inl TooManyChunks"
  by (rule fast_plan_stuck [where p = 1000]) (simp_all add: valid_budget_def nth_append)

end
