(* ===== verification/PlanProps.thy ===== *)
theory PlanProps
  imports ChunkProps DocumentProps
begin

text \<open>
  Structured and semantic mode of \<open>PlanChunks\<close>: with an overlap below the minimal chunk size no
  character of a block is lost, and the sizes of the chunks are bounded.
\<close>

section \<open>Chunks of a block that is too large\<close>

definition chunk_ok :: "string \<Rightarrow> chunking_options \<Rightarrow> nat \<Rightarrow> chunk_plan \<Rightarrow> bool" where
  "chunk_ok src opts hi c \<longleftrightarrow>
     ck_start c < ck_end c \<and> ck_end c \<le> length src \<and> ck_start c < hi \<and> ck_end c \<le> ck_start c + co_maximum_chars opts + 1"

definition plan_ok :: "string \<Rightarrow> chunking_options \<Rightarrow> nat \<Rightarrow> chunk_plan list \<Rightarrow> bool" where
  "plan_ok src opts hi chunks \<longleftrightarrow>
     list_all (chunk_ok src opts hi) chunks \<and> sorted (map ck_start chunks) \<and> length chunks \<le> co_maximum_chunks opts"

lemma plan_ok_mono: "plan_ok src opts lo chunks \<Longrightarrow> lo \<le> hi \<Longrightarrow> plan_ok src opts hi chunks"
  by (auto simp: plan_ok_def chunk_ok_def list_all_iff)

lemma plan_ok_snoc:
  assumes "plan_ok src opts lo chunks" and "lo \<le> hi" and "chunk_ok src opts hi c"
    and "\<And>d. d \<in> set chunks \<Longrightarrow> ck_start d \<le> ck_start c" and "length chunks < co_maximum_chunks opts"
  shows "plan_ok src opts hi (chunks @ [c])"
  using plan_ok_mono [OF assms(1,2)] assms(3-) by (simp add: plan_ok_def sorted_append)

lemma BoundaryBefore_bounds:
  assumes "start < desired" and "desired \<le> length src" and "0 < minimum"
  shows "start < BoundaryBefore src start desired minimum"
    and "BoundaryBefore src start desired minimum \<le> desired + 1"
    and "BoundaryBefore src start desired minimum \<le> length src"
    and "BoundaryBefore src start desired minimum = desired \<or> start + minimum \<le> BoundaryBefore src start desired minimum"
proof -
  let ?b = "BoundaryBefore src start desired minimum"
  have "?b = desired \<or> (\<exists>m at. rfind_char src m desired = Some at \<and> start + minimum \<le> at + 1 \<and> ?b = at + 1)"
  proof (cases "length src \<le> desired")
    case True
    then show ?thesis using assms by (simp add: BoundaryBefore_def)
  next
    case False
    define found where "found = List.map_filter (\<lambda>marker. case rfind_char src marker desired of
        None \<Rightarrow> None | Some at \<Rightarrow> if at + 1 \<ge> start + minimum then Some (at + 1) else None) [newline, CHR ''.'', CHR '';'', CHR '' '']"
    have b: "?b = (case found of [] \<Rightarrow> desired | at # _ \<Rightarrow> at)"
      using False by (simp add: BoundaryBefore_def found_def)
    show ?thesis
    proof (cases found)
      case Nil
      then show ?thesis using b by simp
    next
      case (Cons at rest)
      then have "at \<in> set found" by simp
      then have "\<exists>m pos. rfind_char src m desired = Some pos \<and> start + minimum \<le> pos + 1 \<and> at = pos + 1"
        unfolding found_def by (auto simp: List.map_filter_def split: option.splits if_splits)
      then show ?thesis using b Cons by simp
    qed
  qed
  then show "start < ?b" "?b \<le> desired + 1" "?b \<le> length src" "?b = desired \<or> start + minimum \<le> ?b"
    using assms rfind_char_Some(1,2) by fastforce+
qed

definition good_overlap :: "chunking_options \<Rightarrow> bool" where
  "good_overlap opts \<longleftrightarrow> valid_budget opts \<and> co_overlap_chars opts < co_minimum_chars opts"

lemma dense_chunks_covers:
  assumes "good_overlap opts" and "dense_chunks src opts block start chunks = Inr result"
    and "bk_end block \<le> length src" and "plan_ok src opts (bk_end block) chunks"
    and "\<And>c. c \<in> set chunks \<Longrightarrow> ck_start c \<le> start"
    and "\<And>i. bk_start block \<le> i \<Longrightarrow> i < start \<Longrightarrow> covered chunks i"
    and "bk_end block \<le> start \<Longrightarrow> chunks \<noteq> [] \<and> bk_end block \<le> ck_end (last chunks)"
  shows "plan_ok src opts (bk_end block) result \<and> (\<forall>i. covered chunks i \<longrightarrow> covered result i) \<and>
    (\<forall>i. in_block i block \<longrightarrow> covered result i) \<and> result \<noteq> [] \<and> bk_end block \<le> ck_end (last result)"
  using assms
proof (induction src opts block start chunks rule: dense_chunks.induct)
  case (1 src opts block start chunks)
  show ?case
  proof (cases "start < bk_end block")
    case True
    define desired where "desired = min (bk_end block) (start + co_maximum_chars opts)"
    define stop where "stop = BoundaryBefore src start desired (co_minimum_chars opts)"
    let ?chunks = "chunks @ [dense_chunk opts block start stop]"
    have budget: "80 \<le> co_maximum_chars opts" "co_minimum_chars opts \<le> co_maximum_chars opts" "0 < co_minimum_chars opts"
      "co_overlap_chars opts < co_minimum_chars opts"
      using 1(2) by (auto simp: good_overlap_def valid_budget_def)
    have desired: "start < desired" "desired \<le> bk_end block" "desired \<le> start + co_maximum_chars opts" "desired \<le> length src"
      using True budget(1) 1(4) by (auto simp: desired_def)
    note stop = BoundaryBefore_bounds [OF desired(1,4) budget(3), folded stop_def]
    note step = 1(3) [unfolded dense_chunks.simps [of src opts block start chunks] Let_def, folded desired_def, folded stop_def]
    have room: "length ?chunks \<le> co_maximum_chunks opts" using step True by (auto split: if_splits)
    have ok: "plan_ok src opts (bk_end block) ?chunks"
      using room True stop desired 1(6) by (intro plan_ok_snoc [OF 1(5)]) (auto simp: chunk_ok_def dense_chunk_def)
    have cov: "covered ?chunks i" if "bk_start block \<le> i" "i < stop" for i
      using 1(7) [of i] that by (cases "i < start") (auto simp: dense_chunk_def)
    show ?thesis
    proof (cases "stop = bk_end block")
      case True
      then have "result = ?chunks" using step \<open>start < bk_end block\<close> room by auto
      then show ?thesis using ok cov True by (auto simp: in_block_def dense_chunk_def)
    next
      case False
      have far: "start + co_overlap_chars opts < stop"
        using stop(4) False budget by (auto simp: desired_def min_def split: if_splits)
      then have "start < next_start opts stop" by (simp add: next_start_def)
      note le = next_start_le [of opts stop]
      have rec: "dense_chunks src opts block (next_start opts stop) ?chunks = Inr result"
        using step True False room by auto
      have "plan_ok src opts (bk_end block) result \<and> (\<forall>i. covered ?chunks i \<longrightarrow> covered result i) \<and>
        (\<forall>i. in_block i block \<longrightarrow> covered result i) \<and> result \<noteq> [] \<and> bk_end block \<le> ck_end (last result)"
      proof (rule 1(1) [OF True desired_def stop_def refl _ False 1(2) rec 1(4) ok])
        show "\<not> co_maximum_chunks opts < length ?chunks" using room by simp
        show "ck_start c \<le> next_start opts stop" if "c \<in> set ?chunks" for c
          using that 1(6) \<open>start < next_start opts stop\<close> by (force simp: dense_chunk_def)
        show "covered ?chunks i" if "bk_start block \<le> i" "i < next_start opts stop" for i
          using cov [OF that(1)] that(2) le by simp
        show "?chunks \<noteq> [] \<and> bk_end block \<le> ck_end (last ?chunks)" if "bk_end block \<le> next_start opts stop"
          using that le by (simp add: dense_chunk_def)
      qed
      then show ?thesis by simp
    qed
  next
    case False
    then have "result = chunks" using 1(3) [unfolded dense_chunks.simps [of src opts block start chunks]] by simp
    then show ?thesis using 1(5,7,8) False by (simp add: in_block_def)
  qed
qed

section \<open>The loop over the blocks\<close>

text \<open>\<open>seen\<close> holds the positions of the blocks so far, which end at \<open>hi\<close>.\<close>

definition plan_inv :: "string \<Rightarrow> chunking_options \<Rightarrow> nat set \<Rightarrow> nat \<Rightarrow> plan_state \<Rightarrow> bool" where
  "plan_inv src opts seen hi s \<longleftrightarrow>
     plan_ok src opts hi (pl_chunks s) \<and> seen \<subseteq> {..<hi} \<and> hi \<le> length src \<and>
     (case pl_chunk_start s of
        None \<Rightarrow> (hi = 0 \<or> pl_chunks s \<noteq> [] \<and> hi \<le> ck_end (last (pl_chunks s))) \<and> (\<forall>i\<in>seen. covered (pl_chunks s) i)
      | Some p \<Rightarrow>
          p < hi \<and> pl_chunk_end s = hi \<and> hi - p \<le> co_maximum_chars opts \<and> (\<forall>c\<in>set (pl_chunks s). ck_start c \<le> p) \<and>
          (\<forall>i\<in>seen. covered (pl_chunks s) i \<or> p \<le> i))"

lemma flush_chunk_inv:
  assumes inv: "plan_inv src opts seen hi s" and run: "flush_chunk opts s = Inr s'"
  shows "plan_inv src opts seen hi s' \<and> pl_chunk_start s' = None"
proof (cases "pl_chunk_start s")
  case None
  then show ?thesis using assms by (simp add: flush_chunk_def)
next
  case (Some p)
  define c where "c = \<lparr>ck_start = p, ck_end = pl_chunk_end s, ck_page_start = 0, ck_page_end = 0,
    ck_section_path = pl_section s, ck_strategy = co_mode opts @ ''-adaptive-v1'', ck_contextual_header = []\<rparr>"
  have c: "ck_start c = p" "ck_end c = hi" using inv Some by (simp_all add: c_def plan_inv_def)
  have s': "s' = s\<lparr>pl_chunk_start := None, pl_chunks := pl_chunks s @ [c]\<rparr>" "length (pl_chunks s) < co_maximum_chunks opts"
    using run Some by (auto simp: flush_chunk_def c_def Let_def split: if_splits)
  have "plan_ok src opts hi (pl_chunks s @ [c])"
    using inv Some s'(2) c by (intro plan_ok_snoc [of src opts hi]) (auto simp: plan_inv_def chunk_ok_def)
  then show ?thesis using inv Some s'(1) c by (auto simp: plan_inv_def)
qed

lemma plan_inv_flushed:
  "plan_inv src opts seen hi s \<and> pl_chunk_start s = None \<longleftrightarrow>
   pl_chunk_start s = None \<and> plan_ok src opts hi (pl_chunks s) \<and> seen \<subseteq> {..<hi} \<and> hi \<le> length src \<and>
   (hi = 0 \<or> pl_chunks s \<noteq> [] \<and> hi \<le> ck_end (last (pl_chunks s))) \<and> (\<forall>i\<in>seen. covered (pl_chunks s) i)"
  by (auto simp: plan_inv_def)

lemma plan_block_inv:
  assumes opts: "good_overlap opts" and inv: "plan_inv src opts seen hi s"
    and block: "hi \<le> bk_start b" "bk_start b < bk_end b" "bk_end b \<le> length src"
    and run: "plan_block src opts b s = Inr s'"
  shows "plan_inv src opts (seen \<union> {i. in_block i b}) (bk_end b) s'"
proof -
  have target: "co_target_chars opts \<le> co_maximum_chars opts" using opts by (simp add: good_overlap_def valid_budget_def)
  obtain t where t: "plan_inv src opts seen hi t"
    "case pl_chunk_start t of None \<Rightarrow> True | Some p \<Rightarrow> bk_end b - p \<le> co_target_chars opts"
    and run_t: "(if bk_end b - bk_start b > co_maximum_chars opts then
            (case flush_chunk opts t of
               Inl e \<Rightarrow> Inl e
             | Inr s \<Rightarrow>
                 (case dense_chunks src opts b (bk_start b) (pl_chunks s) of
                    Inl e \<Rightarrow> Inl e | Inr chunks \<Rightarrow> Inr (s\<lparr>pl_chunks := chunks\<rparr>)))
          else
            let start = (case pl_chunk_start t of None \<Rightarrow> bk_start b | Some start \<Rightarrow> start);
                sec = (case pl_chunk_start t of None \<Rightarrow> bk_section_path b | Some _ \<Rightarrow> pl_section t);
                s = t\<lparr>pl_chunk_start := Some start, pl_section := sec, pl_chunk_end := bk_end b\<rparr>
            in if bk_end b - start \<ge> co_target_chars opts \<or> bk_type b = ''table'' \<or> bk_type b = ''code''
               then flush_chunk opts s else Inr s) = Inr s'"
    using run flush_chunk_inv [OF inv] inv unfolding plan_block_def
    by (cases "pl_chunk_start s") (auto split: if_splits sum.splits)
  show ?thesis
  proof (cases "bk_end b - bk_start b > co_maximum_chars opts")
    case True
    then obtain u chunks where u: "flush_chunk opts t = Inr u"
      and dense: "dense_chunks src opts b (bk_start b) (pl_chunks u) = Inr chunks"
      and s': "s' = u\<lparr>pl_chunks := chunks\<rparr>"
      using run_t by (auto split: sum.splits)
    from flush_chunk_inv [OF t(1) u] have ui: "plan_ok src opts hi (pl_chunks u)" "pl_chunk_start u = None"
      "\<forall>i\<in>seen. covered (pl_chunks u) i" "seen \<subseteq> {..<hi}"
      by (auto simp: plan_inv_def)
    have "plan_ok src opts (bk_end b) chunks \<and> (\<forall>i. covered (pl_chunks u) i \<longrightarrow> covered chunks i) \<and>
        (\<forall>i. in_block i b \<longrightarrow> covered chunks i) \<and> chunks \<noteq> [] \<and> bk_end b \<le> ck_end (last chunks)"
    proof (rule dense_chunks_covers [OF opts dense block(3)])
      show "plan_ok src opts (bk_end b) (pl_chunks u)" by (rule plan_ok_mono [OF ui(1)]) (use block in simp)
      show "ck_start c \<le> bk_start b" if "c \<in> set (pl_chunks u)" for c
        using ui(1) that block(1) by (force simp: plan_ok_def chunk_ok_def list_all_iff)
    qed (use block in simp_all)
    then show ?thesis using ui block s' by (auto simp: plan_inv_def in_block_def)
  next
    case False
    define start where "start = (case pl_chunk_start t of None \<Rightarrow> bk_start b | Some start \<Rightarrow> start)"
    define u where "u = t\<lparr>pl_chunk_start := Some start,
      pl_section := (case pl_chunk_start t of None \<Rightarrow> bk_section_path b | Some _ \<Rightarrow> pl_section t), pl_chunk_end := bk_end b\<rparr>"
    have ok: "plan_ok src opts (bk_end b) (pl_chunks t)" "\<forall>c\<in>set (pl_chunks t). ck_start c < hi" "seen \<subseteq> {..<hi}"
      using t(1) plan_ok_mono [of src opts hi _ "bk_end b"] block by (auto simp: plan_inv_def plan_ok_def chunk_ok_def list_all_iff)
    have start: "start \<le> bk_start b" "bk_end b - start \<le> co_maximum_chars opts" "\<forall>c\<in>set (pl_chunks t). ck_start c \<le> start"
      "\<forall>i\<in>seen. covered (pl_chunks t) i \<or> start \<le> i"
      using t block target False ok(2) by (auto simp: start_def plan_inv_def split: option.splits)
    have "plan_inv src opts (seen \<union> {i. in_block i b}) (bk_end b) u"
      using ok start block by (auto simp: plan_inv_def u_def in_block_def)
    moreover have "s' = u \<or> flush_chunk opts u = Inr s'"
      using run_t False unfolding Let_def start_def [symmetric] u_def [symmetric] by (auto split: if_splits)
    ultimately show ?thesis using flush_chunk_inv by blast
  qed
qed

lemma plan_blocks_inv:
  assumes "good_overlap opts" and "plan_inv src opts seen hi s" and "blocks_ok src bs"
    and "\<And>b. b \<in> set bs \<Longrightarrow> hi \<le> bk_start b" and "plan_blocks src opts bs s = Inr s'"
  shows "\<exists>hi'. plan_inv src opts (seen \<union> {i. \<exists>b\<in>set bs. in_block i b}) hi' s'"
  using assms(2-)
proof (induction bs arbitrary: seen hi s)
  case Nil
  then show ?case by auto
next
  case (Cons b bs)
  have block: "bk_start b < bk_end b" "bk_end b \<le> length src" "hi \<le> bk_start b"
    and rest: "blocks_ok src bs" "\<And>c. c \<in> set bs \<Longrightarrow> bk_end b \<le> bk_start c"
    using Cons.prems(2,3) by (simp_all add: blocks_ok_def block_ok_def)
  obtain t where t: "plan_block src opts b s = Inr t" "plan_blocks src opts bs t = Inr s'"
    using Cons.prems(4) by (auto split: sum.splits)
  from Cons.IH [OF plan_block_inv [OF assms(1) Cons.prems(1) block(3,1,2) t(1)] rest t(2)] show ?case
    by (simp add: Un_assoc Collect_disj_eq)
qed

section \<open>The last chunk\<close>

lemma join_last_snoc:
  "join_last opts (cs @ [c, l]) =
     (if ck_end l - ck_start l < co_minimum_chars opts then cs @ [c\<lparr>ck_end := ck_end l\<rparr>] else cs @ [c, l])"
  by (simp add: join_last_def nth_append list_update_append butlast_append)

lemma join_last_short: "length chunks \<le> 1 \<Longrightarrow> join_last opts chunks = chunks"
  by (simp add: join_last_def)

lemma join_last_covers:
  assumes ok: "plan_ok src opts hi chunks" and last: "chunks \<noteq> [] \<Longrightarrow> hi \<le> ck_end (last chunks)"
  shows "(\<forall>i<hi. covered chunks i \<longrightarrow> covered (join_last opts chunks) i) \<and>
    (\<forall>c\<in>set (join_last opts chunks). ck_start c < ck_end c \<and> ck_end c \<le> length src) \<and>
    (\<forall>c\<in>set (butlast (join_last opts chunks)). ck_end c - ck_start c \<le> co_maximum_chars opts + 1) \<and>
    sorted (map ck_start (join_last opts chunks)) \<and> length (join_last opts chunks) \<le> co_maximum_chunks opts"
proof (cases "length chunks \<le> 1")
  case True
  then show ?thesis
    using ok by (cases chunks) (auto simp: join_last_short plan_ok_def chunk_ok_def list_all_iff)
next
  case False
  then obtain cs c l where cs: "chunks = cs @ [c, l]"
    by (metis One_nat_def append.assoc append_Cons append_Nil le_SucI length_Suc_conv list.size(3) nat_le_linear not_less_eq_eq rev_exhaust length_append_singleton)
  show ?thesis
    using ok last unfolding cs join_last_snoc
    by (auto simp: plan_ok_def chunk_ok_def list_all_iff sorted_append butlast_append)
qed

section \<open>Properties\<close>

lemma ParseDocument_lines:
  assumes "ParseDocument src format title = Inr doc" and "DetectFormat format \<noteq> Inr ''html''"
  shows "nd_source_text doc = src \<and> covers_upto doc (length src)"
  using assms ParseLines_covers by (auto simp: ParseDocument_def split: sum.splits)

lemma PlanChunks_blocks:
  assumes "PlanChunks doc opts = Inr chunks" and "co_mode opts \<noteq> ''fast''"
    and "co_overlap_chars opts < co_minimum_chars opts" and "blocks_ok (nd_source_text doc) (nd_blocks doc)"
  shows "(\<forall>b\<in>set (nd_blocks doc). \<forall>i. in_block i b \<longrightarrow> covered chunks i) \<and>
    (\<forall>c\<in>set chunks. ck_start c < ck_end c \<and> ck_end c \<le> length (nd_source_text doc)) \<and>
    (\<forall>c\<in>set (butlast chunks). ck_end c - ck_start c \<le> co_maximum_chars opts + 1) \<and>
    sorted (map ck_start chunks) \<and> length chunks \<le> co_maximum_chunks opts"
proof -
  let ?src = "nd_source_text doc"
    and ?s = "\<lparr>pl_chunk_start = None, pl_chunk_end = 0, pl_section = [], pl_chunks = []\<rparr> :: plan_state"
  from assms(1,2) obtain t u where good: "valid_budget opts" and t: "plan_blocks ?src opts (nd_blocks doc) ?s = Inr t"
    and u: "flush_chunk opts t = Inr u" and chunks: "chunks = join_last opts (pl_chunks u)"
    by (auto simp: PlanChunks_def split: if_splits sum.splits)
  have opts: "good_overlap opts" using good assms(3) by (simp add: good_overlap_def)
  have "plan_inv ?src opts {} 0 ?s" by (simp add: plan_inv_def plan_ok_def)
  from plan_blocks_inv [OF opts this assms(4) _ t] obtain hi
    where "plan_inv ?src opts {i. \<exists>b\<in>set (nd_blocks doc). in_block i b} hi t" by auto
  from flush_chunk_inv [OF this u, unfolded plan_inv_flushed]
  have ok: "plan_ok ?src opts hi (pl_chunks u)" "{i. \<exists>b\<in>set (nd_blocks doc). in_block i b} \<subseteq> {..<hi}"
    and last: "hi = 0 \<or> pl_chunks u \<noteq> [] \<and> hi \<le> ck_end (last (pl_chunks u))"
    and cov: "\<forall>i\<in>{i. \<exists>b\<in>set (nd_blocks doc). in_block i b}. covered (pl_chunks u) i"
    by - (elim conjE, assumption)+
  have "pl_chunks u \<noteq> [] \<Longrightarrow> hi \<le> ck_end (last (pl_chunks u))" using last by auto
  from join_last_covers [OF ok(1) this] show ?thesis using ok(2) cov unfolding chunks by blast
qed

text \<open>A heading and two paragraphs, and a plan for them.\<close>

definition two_parts :: string where
  "two_parts = ''# T'' @ [newline] @ replicate 90 (CHR ''x'') @ [newline, newline] @ replicate 50 (CHR ''y'')"

definition small_budget :: chunking_options where
  "small_budget = \<lparr>co_mode = ''structured'', co_target_chars = 80, co_minimum_chars = 20, co_maximum_chars = 90,
     co_overlap_chars = 10, co_maximum_chunks = 5\<rparr>"

lemma two_parts_chunks:
  obtains doc chunks where "ParseDocument two_parts ''md'' [] = Inr doc" and "PlanChunks doc small_budget = Inr chunks"
    and "map (\<lambda>c. (ck_start c, ck_end c)) chunks = [(0, 4), (4, 95), (96, 146)]"
proof -
  have "case ParseDocument two_parts ''md'' [] of Inl _ \<Rightarrow> False
     | Inr doc \<Rightarrow> (case PlanChunks doc small_budget of Inl _ \<Rightarrow> False
         | Inr chunks \<Rightarrow> map (\<lambda>c. (ck_start c, ck_end c)) chunks = [(0, 4), (4, 95), (96, 146)])"
    by code_simp
  then show ?thesis using that by (auto split: sum.splits)
qed

lemma two_parts_facts: "DetectFormat ''md'' \<noteq> Inr ''html''" "co_mode small_budget \<noteq> ''fast''"
  "co_overlap_chars small_budget < co_minimum_chars small_budget" "length two_parts = 146"
  "100 < length two_parts \<and> \<not> isspace (two_parts ! 100)"
  by code_simp+

text \<open>C7. Ingestion of plain text and Markdown loses nothing: when the overlap is below the minimal chunk
  size, as in the default configuration, every character of the document that is not white space is in
  a chunk of the plan made in structured or semantic mode.\<close>

theorem ingestion_loses_nothing:
  assumes "ParseDocument src format title = Inr doc" and "DetectFormat format \<noteq> Inr ''html''"
    and "PlanChunks doc opts = Inr chunks" and "co_mode opts \<noteq> ''fast''"
    and "co_overlap_chars opts < co_minimum_chars opts" and "i < length src" and "\<not> isspace (src ! i)"
  shows "\<exists>c\<in>set chunks. ck_start c \<le> i \<and> i < ck_end c"
proof -
  have doc: "nd_source_text doc = src" "covers_upto doc (length src)" using ParseDocument_lines [OF assms(1,2)] by simp_all
  then have "blocks_ok (nd_source_text doc) (nd_blocks doc)" "list_ex (in_block i) (nd_blocks doc)"
    using assms(6,7) by (auto simp: covers_upto_def Let_def)
  with PlanChunks_blocks [OF assms(3-5)] show ?thesis by (auto simp: list_ex_iff covered_def)
qed

lemma ingestion_loses_nothing_witness:
  "\<exists>doc chunks. PlanChunks doc small_budget = Inr chunks \<and> (\<exists>c\<in>set chunks. ck_start c \<le> 100 \<and> 100 < ck_end c)"
proof -
  obtain doc chunks where p: "ParseDocument two_parts ''md'' [] = Inr doc" "PlanChunks doc small_budget = Inr chunks"
    by (rule two_parts_chunks)
  from ingestion_loses_nothing [OF p(1) two_parts_facts(1) p(2) two_parts_facts(2,3), of 100] two_parts_facts(5) p(2)
  show ?thesis by blast
qed

text \<open>C26. When the overlap is below the minimal chunk size, the chunks of the structured or semantic plan
  of a plain text or Markdown document are non-empty, inside the text and in order, all but the last, which
  may have been joined with the one before, are at most one character longer than \<open>maximum_chars\<close>, and
  there are at most \<open>maximum_chunks\<close> of them.\<close>

theorem structured_plan_bounds:
  assumes "ParseDocument src format title = Inr doc" and "DetectFormat format \<noteq> Inr ''html''"
    and "PlanChunks doc opts = Inr chunks" and "co_mode opts \<noteq> ''fast''"
    and "co_overlap_chars opts < co_minimum_chars opts"
  shows "(\<forall>c\<in>set chunks. ck_start c < ck_end c \<and> ck_end c \<le> length src) \<and>
    (\<forall>c\<in>set (butlast chunks). ck_end c - ck_start c \<le> co_maximum_chars opts + 1) \<and>
    sorted (map ck_start chunks) \<and> length chunks \<le> co_maximum_chunks opts"
proof -
  have "nd_source_text doc = src" "blocks_ok src (nd_blocks doc)"
    using ParseDocument_lines [OF assms(1,2)] by (auto simp: covers_upto_def Let_def)
  then show ?thesis using PlanChunks_blocks [OF assms(3-5)] by simp
qed

lemma structured_plan_bounds_witness:
  "\<exists>doc chunks. PlanChunks doc small_budget = Inr chunks \<and> length chunks = 3 \<and> ck_end (hd chunks) \<le> 146 \<and>
     sorted (map ck_start chunks)"
proof -
  obtain doc chunks where p: "ParseDocument two_parts ''md'' [] = Inr doc" "PlanChunks doc small_budget = Inr chunks"
    and chunks: "map (\<lambda>c. (ck_start c, ck_end c)) chunks = [(0, 4), (4, 95), (96, 146)]"
    by (rule two_parts_chunks)
  have "length chunks = 3" using arg_cong [OF chunks, of length] by simp
  then have "hd chunks \<in> set chunks" by (cases chunks) simp_all
  then have "ck_end (hd chunks) \<le> 146 \<and> sorted (map ck_start chunks)"
    using structured_plan_bounds [OF p(1) two_parts_facts(1) p(2) two_parts_facts(2,3)] two_parts_facts(4) by auto
  then show ?thesis using p(2) \<open>length chunks = 3\<close> by blast
qed

section \<open>A chunk that leaves its block\<close>

text \<open>\<open>BoundaryBefore\<close> looks for a line feed up to and including the desired end.\<close>

lemma BoundaryBefore_newline:
  assumes "desired < length src" and "src ! desired = newline" and "start + minimum \<le> desired + 1"
  shows "BoundaryBefore src start desired minimum = desired + 1"
proof -
  have "rfind_char src newline desired = Some desired" by (rule rfind_char_last) (use assms in auto)
  then show ?thesis using assms by (simp add: BoundaryBefore_def List.map_filter_def)
qed

lemma BoundaryBefore_near:
  assumes "desired < length src" and "desired + 1 < start + minimum"
  shows "BoundaryBefore src start desired minimum = desired"
proof -
  have "(case rfind_char src m desired of None \<Rightarrow> None | Some at \<Rightarrow> if at + 1 \<ge> start + minimum then Some (at + 1) else None) = None" for m
    using rfind_char_Some(1) [of src m desired] assms(2) by (fastforce split: option.splits)
  then show ?thesis using assms(1) by (simp add: BoundaryBefore_def List.map_filter_def)
qed

text \<open>The last chunk of a block that is too large and is followed by a line feed, as a paragraph
  before a blank line is, ends one character outside the block; the loop does not see that the block is
  done and adds a chunk that holds nothing but the end of the chunk before it.\<close>

theorem dense_chunk_overruns:
  assumes "valid_budget opts" and "1 < co_overlap_chars opts" and "co_overlap_chars opts < co_minimum_chars opts"
    and "bk_end block < length src" and "src ! bk_end block = newline"
    and "start + co_minimum_chars opts \<le> bk_end block + 1" and "bk_end block \<le> start + co_maximum_chars opts"
    and "length chunks + 2 \<le> co_maximum_chunks opts" and "start < bk_end block"
  shows "dense_chunks src opts block start chunks =
    Inr (chunks @ [dense_chunk opts block start (bk_end block + 1),
      dense_chunk opts block (bk_end block + 1 - co_overlap_chars opts) (bk_end block)])"
proof -
  define again where "again = bk_end block + 1 - co_overlap_chars opts"
  let ?chunks = "chunks @ [dense_chunk opts block start (bk_end block + 1)]"
  have maximum: "co_minimum_chars opts \<le> co_maximum_chars opts" using assms(1) by (simp add: valid_budget_def)
  have step: "next_start opts (bk_end block + 1) = again" "again < bk_end block" "bk_end block \<le> again + co_maximum_chars opts"
    "bk_end block + 1 < again + co_minimum_chars opts"
    using assms maximum by (simp_all add: again_def next_start_def)
  have "BoundaryBefore src start (bk_end block) (co_minimum_chars opts) = bk_end block + 1"
    by (rule BoundaryBefore_newline) (use assms in simp_all)
  moreover have "min (bk_end block) (start + co_maximum_chars opts) = bk_end block" using assms(7) by simp
  ultimately have first: "dense_chunks src opts block start chunks = dense_chunks src opts block again ?chunks"
    using assms(8,9) step(1) by (simp add: dense_chunks.simps [of src opts block start chunks] Let_def)
  have "BoundaryBefore src again (bk_end block) (co_minimum_chars opts) = bk_end block"
    by (rule BoundaryBefore_near) (use assms(4) step in simp_all)
  then have "dense_chunks src opts block again ?chunks = Inr (?chunks @ [dense_chunk opts block again (bk_end block)])"
    using assms(8) step(2,3) by (subst dense_chunks.simps) (simp add: Let_def)
  then show ?thesis using first by (simp add: again_def)
qed

lemma dense_chunk_overruns_witness:
  "dense_chunks (replicate 101 (CHR ''x'') @ [newline, newline] @ replicate 20 (CHR ''y'')) small_budget
     \<lparr>bk_type = ''paragraph'', bk_text = [], bk_section_path = [], bk_start = 0, bk_end = 102, bk_page = 0, bk_heading_level = 0\<rparr>
     80 [] =
   Inr [dense_chunk small_budget
     \<lparr>bk_type = ''paragraph'', bk_text = [], bk_section_path = [], bk_start = 0, bk_end = 102, bk_page = 0, bk_heading_level = 0\<rparr> 80 103,
    dense_chunk small_budget
     \<lparr>bk_type = ''paragraph'', bk_text = [], bk_section_path = [], bk_start = 0, bk_end = 102, bk_page = 0, bk_heading_level = 0\<rparr> 93 102]"
  by (subst dense_chunk_overruns) (simp_all add: small_budget_def valid_budget_def nth_append)

end
