(* ===== verification/Float32.thy ===== *)
theory Float32
  imports Float64
begin

text \<open>
  The C++ \<open>float\<close>: IEEE 754 binary32 by its bit pattern, round to nearest even, with the operations
  the vector search uses: sums, products, fused multiply-add, differences, quotients and square roots.
  Like \<open>Float64\<close>, whose helpers on exact ratios it shares, this models the language.
\<close>

type_synonym f32 = u32

section \<open>Fields, classes and order\<close>

definition f32_neg :: "f32 \<Rightarrow> bool" where
  "f32_neg x = bit x 31"

definition f32_mag :: "f32 \<Rightarrow> nat" where
  "f32_mag x = unat x mod 2 ^ 31"

definition f32_inf_mag :: nat where
  "f32_inf_mag = 255 * 2 ^ 23"

definition f32_nan :: "f32 \<Rightarrow> bool" where
  "f32_nan x \<longleftrightarrow> f32_mag x > f32_inf_mag"

definition f32_inf :: "f32 \<Rightarrow> bool" where
  "f32_inf x \<longleftrightarrow> f32_mag x = f32_inf_mag"

definition f32_finite :: "f32 \<Rightarrow> bool" where
  "f32_finite x \<longleftrightarrow> f32_mag x < f32_inf_mag"

definition f32_key :: "f32 \<Rightarrow> int" where
  "f32_key x = (if f32_neg x then - int (f32_mag x) else int (f32_mag x))"

definition f32_lt :: "f32 \<Rightarrow> f32 \<Rightarrow> bool" where
  "f32_lt x y \<longleftrightarrow> \<not> f32_nan x \<and> \<not> f32_nan y \<and> f32_key x < f32_key y"

definition f32_eq :: "f32 \<Rightarrow> f32 \<Rightarrow> bool" where
  "f32_eq x y \<longleftrightarrow> \<not> f32_nan x \<and> \<not> f32_nan y \<and> f32_key x = f32_key y"

definition f32_le :: "f32 \<Rightarrow> f32 \<Rightarrow> bool" where
  "f32_le x y \<longleftrightarrow> \<not> f32_nan x \<and> \<not> f32_nan y \<and> f32_key x \<le> f32_key y"

lemma f32_finite_nan: "f32_finite x \<Longrightarrow> \<not> f32_nan x"
  by (simp add: f32_finite_def f32_nan_def)

lemma f32_finite_cmp:
  assumes "f32_finite x" and "f32_finite y"
  shows "f32_lt x y \<longleftrightarrow> f32_key x < f32_key y" and "f32_eq x y \<longleftrightarrow> f32_key x = f32_key y"
  using assms by (simp_all add: f32_lt_def f32_eq_def f32_finite_nan)

section \<open>Rounding\<close>

definition f32_round_mag :: "nat \<Rightarrow> nat \<Rightarrow> nat" where
  "f32_round_mag n d =
     (if n = 0 then 0
      else
        let sh = max (ratio_exponent n d - 23) (- 149);
            m = rne_div (pow_scale n (- sh)) (pow_scale d sh);
            bits = nat (sh + 149) * 2 ^ 23 + m
        in if bits \<ge> f32_inf_mag then f32_inf_mag else bits)"

definition f32_pack :: "bool \<Rightarrow> nat \<Rightarrow> f32" where
  "f32_pack s mag = of_nat (mag + (if s then 2 ^ 31 else 0))"

definition f32_of_ratio :: "bool \<Rightarrow> nat \<Rightarrow> nat \<Rightarrow> f32" where
  "f32_of_ratio s n d = f32_pack s (f32_round_mag n d)"

definition f32_of_int :: "int \<Rightarrow> f32" where
  "f32_of_int i = f32_of_ratio (i < 0) (nat \<bar>i\<bar>) 1"

section \<open>Arithmetic\<close>

definition f32_quiet_nan :: f32 where
  "f32_quiet_nan = 0x7FC00000"

definition f32_infinity :: "bool \<Rightarrow> f32" where
  "f32_infinity s = f32_pack s f32_inf_mag"

definition f32_expo :: "f32 \<Rightarrow> int" where
  "f32_expo x = (let e = f32_mag x div 2 ^ 23 in if e = 0 then - 149 else int e - 150)"

definition f32_mant :: "f32 \<Rightarrow> nat" where
  "f32_mant x =
     (let e = f32_mag x div 2 ^ 23; f = f32_mag x mod 2 ^ 23 in if e = 0 then f else f + 2 ^ 23)"

definition f32_smant :: "f32 \<Rightarrow> int" where
  "f32_smant x = (if f32_neg x then - int (f32_mant x) else int (f32_mant x))"

definition f32_negate :: "f32 \<Rightarrow> f32" where
  "f32_negate x = x XOR push_bit 31 1"

text \<open>The rounded sum of the finite numbers \<open>m * 2 ^ e\<close> and \<open>n * 2 ^ f\<close>; \<open>zneg\<close> is the sign of a zero sum.\<close>

definition f32_round_sum :: "bool \<Rightarrow> int \<Rightarrow> int \<Rightarrow> int \<Rightarrow> int \<Rightarrow> f32" where
  "f32_round_sum zneg m e n f =
     (let s = min e f; t = m * 2 ^ nat (e - s) + n * 2 ^ nat (f - s)
      in if t = 0 then (if zneg then f32_pack True 0 else 0)
         else f32_of_ratio (t < 0) (pow_scale (nat \<bar>t\<bar>) s) (pow_scale 1 (- s)))"

definition f32_add :: "f32 \<Rightarrow> f32 \<Rightarrow> f32" where
  "f32_add x y =
     (if f32_nan x \<or> f32_nan y then f32_quiet_nan
      else if f32_inf x then (if f32_inf y \<and> f32_neg x \<noteq> f32_neg y then f32_quiet_nan else x)
      else if f32_inf y then y
      else f32_round_sum (f32_neg x \<and> f32_neg y) (f32_smant x) (f32_expo x) (f32_smant y) (f32_expo y))"

definition f32_sub :: "f32 \<Rightarrow> f32 \<Rightarrow> f32" where
  "f32_sub x y = f32_add x (f32_negate y)"

definition f32_mul :: "f32 \<Rightarrow> f32 \<Rightarrow> f32" where
  "f32_mul x y =
     (let s = (f32_neg x \<noteq> f32_neg y) in
      if f32_nan x \<or> f32_nan y then f32_quiet_nan
      else if f32_inf x \<or> f32_inf y then
        (if f32_mag x = 0 \<or> f32_mag y = 0 then f32_quiet_nan else f32_infinity s)
      else
        let e = f32_expo x + f32_expo y
        in f32_of_ratio s (pow_scale (f32_mant x * f32_mant y) e) (pow_scale 1 (- e)))"

text \<open>\<open>x * y + z\<close> with one rounding.\<close>

definition f32_fma :: "f32 \<Rightarrow> f32 \<Rightarrow> f32 \<Rightarrow> f32" where
  "f32_fma x y z =
     (let s = (f32_neg x \<noteq> f32_neg y) in
      if f32_nan x \<or> f32_nan y \<or> f32_nan z then f32_quiet_nan
      else if f32_inf x \<or> f32_inf y then
        (if f32_mag x = 0 \<or> f32_mag y = 0 \<or> (f32_inf z \<and> f32_neg z \<noteq> s) then f32_quiet_nan else f32_infinity s)
      else if f32_inf z then z
      else f32_round_sum (s \<and> f32_neg z) (f32_smant x * f32_smant y) (f32_expo x + f32_expo y) (f32_smant z) (f32_expo z))"

definition f32_div :: "f32 \<Rightarrow> f32 \<Rightarrow> f32" where
  "f32_div x y =
     (let s = (f32_neg x \<noteq> f32_neg y) in
      if f32_nan x \<or> f32_nan y \<or> (f32_inf x \<and> f32_inf y) \<or> (f32_mag x = 0 \<and> f32_mag y = 0)
      then f32_quiet_nan
      else if f32_inf x \<or> f32_mag y = 0 then f32_infinity s
      else if f32_inf y then f32_pack s 0
      else
        let e = f32_expo x - f32_expo y
        in f32_of_ratio s (pow_scale (f32_mant x) e) (pow_scale (f32_mant y) (- e)))"

text \<open>
  The square root of \<open>m * 2 ^ e\<close>: the mantissa is shifted to more than 50 bits and an even exponent,
  the integer root has more bits than a \<open>float\<close>, and one further bit says whether it is exact, so
  rounding it rounds the true root.
\<close>

fun isqrt :: "nat \<Rightarrow> nat" where
  "isqrt n = (if n = 0 then 0 else let r = 2 * isqrt (n div 4) in if (r + 1) * (r + 1) \<le> n then r + 1 else r)"

declare isqrt.simps [simp del]

lemma isqrt_correct: "isqrt n * isqrt n \<le> n \<and> n < (isqrt n + 1) * (isqrt n + 1)"
proof (induction n rule: isqrt.induct)
  case (1 n)
  show ?case
  proof (cases "n = 0")
    case True
    then show ?thesis by (simp add: isqrt.simps [of 0])
  next
    case False
    define r where "r = isqrt (n div 4)"
    have r: "r * r \<le> n div 4" "n div 4 < (r + 1) * (r + 1)" using 1 [OF False] by (simp_all add: r_def)
    have "4 * (r * r) \<le> n" using r(1) by linarith
    moreover have "n < 4 * ((r + 1) * (r + 1))" using r(2) by linarith
    ultimately show ?thesis
      using False by (simp add: isqrt.simps [of n] r_def [symmetric] Let_def algebra_simps)
  qed
qed

definition f32_sqrt :: "f32 \<Rightarrow> f32" where
  "f32_sqrt x =
     (if f32_nan x then f32_quiet_nan
      else if f32_mag x = 0 then x
      else if f32_neg x then f32_quiet_nan
      else if f32_inf x then x
      else
        let e = f32_expo x; k = (if even e then 52 else 53); n = f32_mant x * 2 ^ nat k; r = isqrt n;
            t = 2 * r + (if r * r = n then 0 else 1); f = (e - k) div 2 - 1
        in f32_of_ratio False (pow_scale t f) (pow_scale 1 (- f)))"

section \<open>One\<close>

definition f32_one :: f32 where
  "f32_one = 0x3F800000"

lemma f32_one_fields:
  "f32_mag f32_one = 1065353216" "f32_neg f32_one = False" "f32_nan f32_one = False" "f32_inf f32_one = False"
  "f32_expo f32_one = - 23" "f32_mant f32_one = 8388608" "f32_smant f32_one = 8388608" "f32_finite f32_one = True"
proof -
  show mag: "f32_mag f32_one = 1065353216" by (simp add: f32_mag_def f32_one_def)
  show neg: "f32_neg f32_one = False" by (simp add: f32_neg_def f32_one_def)
  show "f32_nan f32_one = False" "f32_inf f32_one = False" "f32_expo f32_one = - 23" "f32_finite f32_one = True"
    by (simp_all add: f32_nan_def f32_inf_def f32_expo_def f32_finite_def mag f32_inf_mag_def)
  show "f32_mant f32_one = 8388608" by (simp add: f32_mant_def mag)
  then show "f32_smant f32_one = 8388608" by (simp add: f32_smant_def neg)
qed

lemma f32_zero_fields:
  "f32_mag 0 = 0" "f32_neg 0 = False" "f32_nan 0 = False" "f32_inf 0 = False" "f32_expo 0 = - 149" "f32_smant 0 = 0"
  "f32_finite 0 = True"
  by (simp_all add: f32_finite_def f32_mag_def f32_neg_def f32_nan_def f32_inf_def f32_expo_def f32_mant_def f32_smant_def f32_inf_mag_def)

lemma f32_mul_one: "f32_mul f32_one f32_one = f32_one"
proof -
  have "f32_round_mag 70368744177664 70368744177664 = 1065353216"
    by (simp add: f32_round_mag_def ratio_exponent_def pow_scale_def rne_div_def f32_inf_mag_def)
  then have "f32_mul f32_one f32_one = f32_pack False 1065353216"
    by (simp add: f32_mul_def f32_one_fields f32_of_ratio_def pow_scale_def)
  then show ?thesis by (simp add: f32_pack_def f32_one_def)
qed

lemma f32_add_zero_one: "f32_add 0 f32_one = f32_one"
proof -
  have "f32_round_mag 713623846352979940529142984724747568191373312 713623846352979940529142984724747568191373312 = 1065353216"
    by (simp add: f32_round_mag_def ratio_exponent_def pow_scale_def rne_div_def f32_inf_mag_def)
  then have "f32_add 0 f32_one = f32_pack False 1065353216"
    by (simp add: f32_add_def f32_zero_fields f32_one_fields f32_round_sum_def Let_def f32_of_ratio_def pow_scale_def)
  then show ?thesis by (simp add: f32_pack_def f32_one_def)
qed

lemma f32_minus_one: "f32_negate f32_one = 0xBF800000" "f32_finite 0xBF800000"
  by (simp_all add: f32_negate_def f32_one_def f32_finite_def f32_mag_def f32_inf_mag_def)

end
