(* ===== verification/TopK.thy ===== *)
theory TopK
  imports Main "HOL-Library.Multiset" "HOL-Library.Product_Lexorder"
begin

text \<open>
  The smallest \<open>k\<close> elements of a list by a key, kept in a list with the largest first: what a bounded
  heap holds after a run of offers, and how the heaps of several runs are merged.
\<close>

definition top_k :: "('a \<Rightarrow> 'k::linorder) \<Rightarrow> nat \<Rightarrow> 'a list \<Rightarrow> 'a list" where
  "top_k \<kappa> k xs = take k (sort_key \<kappa> xs)"

lemma set_top_k: "set (top_k \<kappa> k xs) \<subseteq> set xs"
  using set_take_subset [of k "sort_key \<kappa> xs"] by (simp add: top_k_def)

lemma length_top_k: "length (top_k \<kappa> k xs) = min k (length xs)"
  by (simp add: top_k_def min.commute)

lemma sorted_top_k: "sorted (map \<kappa> (top_k \<kappa> k xs))"
  by (simp add: top_k_def take_map [symmetric] sorted_wrt_take)

lemma top_k_mset:
  assumes "mset xs = mset ys" and "inj_on \<kappa> (set xs)"
  shows "top_k \<kappa> k xs = top_k \<kappa> k ys"
  using sort_key_inj_key_eq [of xs "sort_key \<kappa> ys" \<kappa>] assms by (simp add: top_k_def)

lemma take_insort: "take k (insort_key \<kappa> x xs) = take k (insort_key \<kappa> x (take k xs))"
proof (induction xs arbitrary: k)
  case Nil
  then show ?case by simp
next
  case (Cons y ys)
  have "take m (y # ys) = take m (y # take m ys)" for m by (cases m) (simp_all add: min_def)
  then show ?case using Cons by (cases k) simp_all
qed

lemma top_k_snoc:
  assumes "inj_on \<kappa> (set (xs @ [x]))"
  shows "top_k \<kappa> k (xs @ [x]) = take k (insort_key \<kappa> x (top_k \<kappa> k xs))"
proof -
  have "sort_key \<kappa> (xs @ [x]) = insort_key \<kappa> x (sort_key \<kappa> xs)"
    by (rule sort_key_inj_key_eq) (use assms in \<open>simp_all add: sorted_insort_key\<close>)
  then show ?thesis using take_insort [of k \<kappa> x "sort_key \<kappa> xs"] by (simp add: top_k_def)
qed

lemma top_k_sorted: "sorted (map \<kappa> xs) \<Longrightarrow> length xs \<le> k \<Longrightarrow> top_k \<kappa> k xs = xs"
  by (simp add: top_k_def sort_key_id_if_sorted)

lemma top_k_absorb:
  assumes "inj_on \<kappa> (set xs \<union> set ys)"
  shows "top_k \<kappa> k (top_k \<kappa> k xs @ ys) = top_k \<kappa> k (xs @ ys)"
  using assms
proof (induction ys rule: rev_induct)
  case Nil
  then show ?case by (simp add: top_k_sorted sorted_top_k length_top_k)
next
  case (snoc y ys)
  have "inj_on \<kappa> (set (xs @ ys @ [y]))" "inj_on \<kappa> (set (top_k \<kappa> k xs @ ys @ [y]))" "inj_on \<kappa> (set xs \<union> set ys)"
    using snoc.prems set_top_k [of \<kappa> k xs] by (auto intro: inj_on_subset)
  then show ?case
    using top_k_snoc [of \<kappa> "xs @ ys" y k] top_k_snoc [of \<kappa> "top_k \<kappa> k xs @ ys" y k] snoc.IH by simp
qed

text \<open>The parts of a list reduced one by one, in any order within a part.\<close>

lemma top_k_concat:
  assumes "inj_on \<kappa> (set (concat xss))" and "list_all2 (\<lambda>p xs. mset p = mset (top_k \<kappa> k xs)) parts xss"
  shows "top_k \<kappa> k (concat parts) = top_k \<kappa> k (concat xss)"
  using assms(2,1)
proof (induction parts xss rule: list_all2_induct)
  case Nil
  then show ?case by simp
next
  case (Cons p parts xs xss)
  have part: "set p \<subseteq> set xs" "mset p = mset (top_k \<kappa> k xs)"
    using Cons.hyps(1) set_top_k [of \<kappa> k xs] by (auto dest: mset_eq_setD)
  have parts: "set (concat parts) \<subseteq> set (concat xss)"
    using Cons.hyps(2) by (induction rule: list_all2_induct) (use set_top_k in \<open>fastforce dest!: mset_eq_setD\<close>)+
  have sub: "inj_on \<kappa> A" if "A \<subseteq> set xs \<union> set (concat xss)" for A
    by (rule inj_on_subset [OF _ that]) (use Cons.prems in simp)
  have whole: "set p \<union> set (concat parts) \<subseteq> set xs \<union> set (concat xss)" using part(1) parts by blast
  have "top_k \<kappa> k (p @ concat parts) = top_k \<kappa> k (top_k \<kappa> k xs @ concat parts)"
    using part(2) whole by (intro top_k_mset sub) auto
  also have "\<dots> = top_k \<kappa> k (xs @ concat parts)"
    using parts by (intro top_k_absorb sub) auto
  also have "\<dots> = top_k \<kappa> k (concat parts @ xs)"
    using parts by (intro top_k_mset sub) auto
  also have "\<dots> = top_k \<kappa> k (top_k \<kappa> k (concat parts) @ xs)"
    using parts by (intro top_k_absorb [symmetric] sub) auto
  also have "\<dots> = top_k \<kappa> k (top_k \<kappa> k (concat xss) @ xs)"
    using Cons.IH sub [of "set (concat xss)"] by simp
  also have "\<dots> = top_k \<kappa> k (concat xss @ xs)"
    by (intro top_k_absorb sub) auto
  also have "\<dots> = top_k \<kappa> k (xs @ concat xss)"
    by (intro top_k_mset sub) auto
  finally show ?case by simp
qed

section \<open>A bounded heap\<close>

text \<open>A heap with its largest element first, into which an element goes before the first that is not larger.\<close>

lemma push_rev:
  assumes "sorted (map \<kappa> s)" and "\<kappa> x \<notin> \<kappa> ` set s"
  shows "takeWhile (\<lambda>y. \<kappa> x < \<kappa> y) (rev s) @ x # dropWhile (\<lambda>y. \<kappa> x < \<kappa> y) (rev s) = rev (insort_key \<kappa> x s)"
  using assms
proof (induction s)
  case Nil
  then show ?case by simp
next
  case (Cons y ys)
  show ?case
  proof (cases "\<kappa> x < \<kappa> y")
    case True
    then have "\<forall>z\<in>set (rev ys @ [y]). \<kappa> x < \<kappa> z" using Cons.prems(1) by auto
    then have all: "takeWhile (\<lambda>y. \<kappa> x < \<kappa> y) (rev ys @ [y]) = rev ys @ [y]"
      "dropWhile (\<lambda>y. \<kappa> x < \<kappa> y) (rev ys @ [y]) = []" by (simp_all only: takeWhile_eq_all_conv dropWhile_eq_Nil_conv)
    have "insort_key \<kappa> x (y # ys) = x # y # ys" using True by (simp add: less_imp_le)
    then show ?thesis by (simp only: all rev.simps append_assoc append_Nil append_Cons append_Nil2)
  next
    case False
    then have "\<not> \<kappa> x \<le> \<kappa> y" using Cons.prems(2) by auto
    have "\<not> \<kappa> x < \<kappa> y" by (rule False)
    then have "takeWhile (\<lambda>y. \<kappa> x < \<kappa> y) (rev ys @ [y]) = takeWhile (\<lambda>y. \<kappa> x < \<kappa> y) (rev ys)"
      "dropWhile (\<lambda>y. \<kappa> x < \<kappa> y) (rev ys @ [y]) = dropWhile (\<lambda>y. \<kappa> x < \<kappa> y) (rev ys) @ [y]"
      by (simp_all add: takeWhile_tail dropWhile_append3)
    then show ?thesis using Cons \<open>\<not> \<kappa> x \<le> \<kappa> y\<close> by simp
  qed
qed

definition offer_key :: "('a \<Rightarrow> 'k::linorder) \<Rightarrow> nat \<Rightarrow> 'a \<Rightarrow> 'a list \<Rightarrow> 'a list" where
  "offer_key \<kappa> k x heap =
     (let push = (\<lambda>h. takeWhile (\<lambda>y. \<kappa> x < \<kappa> y) h @ x # dropWhile (\<lambda>y. \<kappa> x < \<kappa> y) h) in
      if length heap < k then push heap else if \<kappa> x < \<kappa> (hd heap) then push (tl heap) else heap)"

lemma offer_key_top_k:
  assumes k: "0 < k" and inj: "inj_on \<kappa> (set (xs @ [x]))" and new: "x \<notin> set xs"
  shows "offer_key \<kappa> k x (rev (top_k \<kappa> k xs)) = rev (top_k \<kappa> k (xs @ [x]))"
proof -
  let ?s = "top_k \<kappa> k xs"
  have new: "\<kappa> x \<notin> \<kappa> ` set ?s" using inj new set_top_k [of \<kappa> k xs] by (auto simp: inj_on_def)
  note sorted = sorted_top_k [of \<kappa> k xs] and snoc = top_k_snoc [OF inj, of k]
  show ?thesis
  proof (cases "length ?s < k")
    case True
    then have "length (insort_key \<kappa> x ?s) \<le> k" by simp
    then show ?thesis using push_rev [OF sorted new] True by (simp add: offer_key_def snoc)
  next
    case False
    then have len: "length ?s = k" by (simp add: length_top_k)
    then obtain t m where s: "?s = t @ [m]" using k by (cases ?s rule: rev_cases) auto
    then have t: "length t = k - 1" "sorted (map \<kappa> t)" "\<kappa> x \<notin> \<kappa> ` set t" "\<kappa> x \<noteq> \<kappa> m" "\<forall>y\<in>set t. \<kappa> y \<le> \<kappa> m"
      using len sorted new by (auto simp: sorted_append)
    show ?thesis
    proof (cases "\<kappa> x < \<kappa> m")
      case True
      then have "insort_key \<kappa> x ?s = insort_key \<kappa> x t @ [m]"
        unfolding s using t(5) by (induction t) auto
      then have "take k (insort_key \<kappa> x ?s) = insort_key \<kappa> x t" using t(1) k by simp
      then show ?thesis using push_rev [OF t(2,3)] True t(1) k by (simp add: offer_key_def snoc s Let_def)
    next
      case False
      then have "insort_key \<kappa> x ?s = ?s @ [x]"
        unfolding s using t(4,5) by (induction t) (auto simp: not_less)
      then have "take k (insort_key \<kappa> x ?s) = ?s" using len by simp
      then show ?thesis using False t(1) k by (simp add: offer_key_def snoc s Let_def)
    qed
  qed
qed

lemma fold_offer_key:
  assumes "0 < k" and "inj_on \<kappa> (set xs)" and "distinct xs"
  shows "fold (offer_key \<kappa> k) xs [] = rev (top_k \<kappa> k xs)"
  using assms(2,3)
proof (induction xs rule: rev_induct)
  case Nil
  then show ?case by (simp add: top_k_def)
next
  case (snoc x xs)
  then have "fold (offer_key \<kappa> k) xs [] = rev (top_k \<kappa> k xs)" by (auto intro: inj_on_subset)
  then show ?case using offer_key_top_k [OF assms(1), of \<kappa> xs x] snoc.prems by simp
qed

end
