(* ===== verification/VectorSearch.thy ===== *)
theory VectorSearch
  imports Float32 Projection Dataset
begin

text \<open>
  \<open>engine/src/vector_search.cpp\<close>: distances of float vectors, and the exact search for the nearest rows
  of a dataset with predicates on its other columns.

  A \<open>const float *\<close> is the list of the numbers it points to.  A column is passed through a scan because
  \<open>VectorFloat32\<close> fills the offset cache of its column, which is then dropped: it is a function of the
  column.  What depends on the machine is a parameter: whether the CPU has AVX2 and FMA, whether the
  compiler fuses the last products of \<open>DotAvx2\<close> into its sum, and the scores a GPU returns
  (\<open>vector_gpu.cpp\<close> calls Vulkan), where no candidate means every sealed row.
\<close>

section \<open>Distances\<close>

datatype vector_metric = kCosine | kDot | kL2Squared

record cpu_features =
  cpu_avx2 :: bool
  cpu_fused_tail :: bool

definition Dot :: "f32 list \<Rightarrow> f32 list \<Rightarrow> nat \<Rightarrow> f32" where
  "Dot a b n = for_loop 0 n (\<lambda>i sum. f32_add sum (f32_mul (a ! i) (b ! i))) 0"

text \<open>Lane \<open>l\<close> of the accumulator, the sum of the lanes, and the rest.\<close>

definition dot_lane :: "f32 list \<Rightarrow> f32 list \<Rightarrow> nat \<Rightarrow> nat \<Rightarrow> f32" where
  "dot_lane a b n l = for_loop 0 (n div 8) (\<lambda>k sum. f32_fma (a ! (8 * k + l)) (b ! (8 * k + l)) sum) 0"

definition DotAvx2 :: "bool \<Rightarrow> f32 list \<Rightarrow> f32 list \<Rightarrow> nat \<Rightarrow> f32" where
  "DotAvx2 fused a b n =
     (let lanes = map (dot_lane a b n) [0..<8] in
      for_loop (8 * (n div 8)) n
        (\<lambda>i sum. if fused then f32_fma (a ! i) (b ! i) sum else f32_add sum (f32_mul (a ! i) (b ! i)))
        (foldl f32_add (hd lanes) (tl lanes)))"

definition FastDot :: "cpu_features \<Rightarrow> f32 list \<Rightarrow> f32 list \<Rightarrow> nat \<Rightarrow> f32" where
  "FastDot cpu a b n = (if cpu_avx2 cpu then DotAvx2 (cpu_fused_tail cpu) a b n else Dot a b n)"

definition PreparedDistance :: "cpu_features \<Rightarrow> f32 list \<Rightarrow> f32 list \<Rightarrow> nat \<Rightarrow> vector_metric \<Rightarrow> f32 \<Rightarrow> f32" where
  "PreparedDistance cpu left right dimension metric query_norm_squared =
     (case metric of
        kDot \<Rightarrow> f32_negate (FastDot cpu left right dimension)
      | kCosine \<Rightarrow>
          let dot = FastDot cpu left right dimension; left_norm_squared = FastDot cpu left left dimension
          in if f32_le left_norm_squared 0 \<or> f32_le query_norm_squared 0 then f32_one
             else f32_sub f32_one (f32_div dot (f32_sqrt (f32_mul left_norm_squared query_norm_squared)))
      | kL2Squared \<Rightarrow>
          for_loop 0 dimension
            (\<lambda>i sum. let delta = f32_sub (left ! i) (right ! i) in f32_add sum (f32_mul delta delta)) 0)"

definition query_norm :: "cpu_features \<Rightarrow> f32 list \<Rightarrow> nat \<Rightarrow> vector_metric \<Rightarrow> f32" where
  "query_norm cpu query dimension metric = (if metric = kCosine then FastDot cpu query query dimension else 0)"

definition VectorDistance :: "cpu_features \<Rightarrow> f32 list \<Rightarrow> f32 list \<Rightarrow> nat \<Rightarrow> vector_metric \<Rightarrow> f32" where
  "VectorDistance cpu left right dimension metric =
     PreparedDistance cpu left right dimension metric (query_norm cpu right dimension metric)"

definition VectorDotProduct :: "cpu_features \<Rightarrow> f32 list \<Rightarrow> f32 list \<Rightarrow> nat \<Rightarrow> f32" where
  "VectorDotProduct cpu left right dimension = FastDot cpu left right dimension"

section \<open>Hits\<close>

record search_hit =
  hit_row :: nat
  hit_distance :: f32

definition Worse :: "search_hit \<Rightarrow> search_hit \<Rightarrow> bool" where
  "Worse a b =
     (if \<not> f32_eq (hit_distance a) (hit_distance b) then f32_lt (hit_distance a) (hit_distance b)
      else hit_row a < hit_row b)"

text \<open>A \<open>std::priority_queue\<close> with the order \<open>Worse\<close> is a list with its top first.\<close>

definition pq_push :: "search_hit \<Rightarrow> search_hit list \<Rightarrow> search_hit list" where
  "pq_push hit heap = takeWhile (Worse hit) heap @ hit # dropWhile (Worse hit) heap"

definition offer_hit :: "nat \<Rightarrow> search_hit \<Rightarrow> search_hit list \<Rightarrow> search_hit list" where
  "offer_hit limit hit heap =
     (if length heap < limit then pq_push hit heap
      else if f32_lt (hit_distance hit) (hit_distance (hd heap)) \<or>
              f32_eq (hit_distance hit) (hit_distance (hd heap)) \<and> hit_row hit < hit_row (hd heap)
           then pq_push hit (tl heap)
      else heap)"

text \<open>\<open>std::sort\<close> by distance and row.\<close>

fun hit_insert :: "search_hit \<Rightarrow> search_hit list \<Rightarrow> search_hit list" where
  "hit_insert x [] = [x]"
| "hit_insert x (y # ys) = (if Worse y x then y # hit_insert x ys else x # y # ys)"

definition hit_sort :: "search_hit list \<Rightarrow> search_hit list" where
  "hit_sort hits = foldr hit_insert hits []"

definition sorted_hits :: "search_hit list \<Rightarrow> search_hit list" where
  "sorted_hits heap = hit_sort (rev heap)"

section \<open>Predicates\<close>

record search_predicate =
  sp_field_index :: nat
  sp_op :: compare_op
  sp_value :: f64

definition search_Compare :: "f64 \<Rightarrow> compare_op \<Rightarrow> f64 \<Rightarrow> bool" where
  "search_Compare left op right =
     (case op of
        kEq \<Rightarrow> f64_eq left right
      | kNe \<Rightarrow> f64_ne left right
      | kLt \<Rightarrow> f64_lt left right
      | kLe \<Rightarrow> f64_le left right
      | kGt \<Rightarrow> f64_gt left right
      | kGe \<Rightarrow> f64_ge left right)"

definition ReadNumeric :: "field_vector \<Rightarrow> nat \<Rightarrow> f64 option ub" where
  "ReadNumeric field row =
     (if \<not> fv_IsValid field row then Some None
      else
        case fv_type field of
          kInt32 \<Rightarrow> do { v \<leftarrow> at row (fv_i32 field); Some (Some (f64_of_i32 v)) }
        | kInt64 \<Rightarrow> do { v \<leftarrow> at row (fv_i64 field); Some (Some (f64_of_i64 v)) }
        | kFloat64 \<Rightarrow> do { v \<leftarrow> at row (fv_f64 field); Some (Some v) }
        | kBool \<Rightarrow> do { v \<leftarrow> at row (fv_bool field); Some (Some (f64_of_int (if v \<noteq> 0 then 1 else 0))) }
        | kDictInt32 \<Rightarrow>
            do { v \<leftarrow> at row (fv_dict_ids field); v \<leftarrow> dict_Value_ub (fv_dictionary field) v; Some (Some (f64_of_i32 v)) }
        | _ \<Rightarrow> Some None)"

fun Matches ::
  "field_vector list \<Rightarrow> nat \<Rightarrow> compressed_view list option \<Rightarrow> search_predicate list \<Rightarrow> bool ub" where
  "Matches flds row compressed [] = Some True"
| "Matches flds row compressed (p # ps) =
     (if sp_field_index p \<ge> length flds then Some False
      else
        do { v \<leftarrow> (case compressed of
                 Some columns \<Rightarrow>
                   if sp_field_index p < length columns then ReadNumericValue (columns ! sp_field_index p) row
                   else ReadNumeric (flds ! sp_field_index p) row
               | None \<Rightarrow> ReadNumeric (flds ! sp_field_index p) row);
             case v of
               None \<Rightarrow> Some False
             | Some v \<Rightarrow>
                 if search_Compare v (sp_op p) (sp_value p) then Matches flds row compressed ps else Some False })"

section \<open>Scanning one part of the dataset\<close>

text \<open>A range-based \<open>for\<close> whose body can leave the bounds, and the rows that satisfy a test.\<close>

fun each_ub :: "('a \<Rightarrow> 's \<Rightarrow> 's ub) \<Rightarrow> 'a list \<Rightarrow> 's \<Rightarrow> 's ub" where
  "each_ub f [] s = Some s"
| "each_ub f (x # xs) s = do { s \<leftarrow> f x s; each_ub f xs s }"

fun filter_ub :: "('a \<Rightarrow> bool ub) \<Rightarrow> 'a list \<Rightarrow> 'a list ub" where
  "filter_ub p [] = Some []"
| "filter_ub p (x # xs) = do { b \<leftarrow> p x; ys \<leftarrow> filter_ub p xs; Some (if b then x # ys else ys) }"

fun map_ub :: "('a \<Rightarrow> 'b ub) \<Rightarrow> 'a list \<Rightarrow> 'b list ub" where
  "map_ub f [] = Some []"
| "map_ub f (x # xs) = do { y \<leftarrow> f x; ys \<leftarrow> map_ub f xs; Some (y # ys) }"

definition floats_at :: "u8 list \<Rightarrow> nat \<Rightarrow> nat \<Rightarrow> f32 list ub" where
  "floats_at bytes off n = do { bs \<leftarrow> read_mem off (4 * n) bytes; Some (le_words 4 n bs) }"

definition score_row ::
  "cpu_features \<Rightarrow> nat \<Rightarrow> f32 list \<Rightarrow> nat \<Rightarrow> nat \<Rightarrow> vector_metric \<Rightarrow> f32 \<Rightarrow> nat \<Rightarrow>
   field_vector \<times> search_hit list \<Rightarrow> (field_vector \<times> search_hit list) ub" where
  "score_row cpu base_row query dimension limit metric norm row s =
     (case s of (field, heap) \<Rightarrow>
        do { ((stored_dimension, p), field) \<leftarrow> fv_VectorFloat32 field row;
             case p of
               None \<Rightarrow> Some (field, heap)
             | Some off \<Rightarrow>
                 if stored_dimension \<noteq> dimension then Some (field, heap)
                 else
                   do { vector \<leftarrow> floats_at (fv_bytes field) off stored_dimension;
                        let hit = \<lparr>hit_row = base_row + row,
                                   hit_distance = PreparedDistance cpu vector query dimension metric norm\<rparr>
                        in Some (field, if f32_finite (hit_distance hit) then offer_hit limit hit heap else heap) } })"

definition SearchField ::
  "cpu_features \<Rightarrow> field_vector list \<Rightarrow> nat \<Rightarrow> nat \<Rightarrow> f32 list \<Rightarrow> nat \<Rightarrow> nat \<Rightarrow> vector_metric \<Rightarrow> f32 \<Rightarrow>
   compressed_view list option \<Rightarrow> search_predicate list \<Rightarrow> nat list option \<Rightarrow> search_hit list \<Rightarrow> search_hit list ub" where
  "SearchField cpu flds vector_field base_row query dimension limit metric norm compressed predicates precomputed heap =
     do { field \<leftarrow> at vector_field flds;
          candidates \<leftarrow> (case precomputed of
              Some candidates \<Rightarrow> Some candidates
            | None \<Rightarrow>
                if predicates = [] then Some [0..<fv_size field]
                else filter_ub (\<lambda>row. Matches flds row compressed predicates) [0..<fv_size field]);
          (_, heap) \<leftarrow> each_ub (score_row cpu base_row query dimension limit metric norm) candidates (field, heap);
          Some heap }"

fun row_matches :: "dataset \<Rightarrow> nat \<Rightarrow> search_predicate list \<Rightarrow> segment list \<Rightarrow> nat \<Rightarrow> bool ub" where
  "row_matches ds row_id predicates [] base =
     (if row_id < base + ActiveRowCount ds then Matches (ds_active_fields ds) (row_id - base) None predicates
      else Some False)"
| "row_matches ds row_id predicates (sg # segments) base =
     (if row_id < base + sg_row_count sg
      then Matches (sg_fields sg) (row_id - base) (Some (sg_compressed_columns sg)) predicates
      else row_matches ds row_id predicates segments (base + sg_row_count sg))"

definition VectorRowMatchesPredicates :: "dataset \<Rightarrow> nat \<Rightarrow> search_predicate list \<Rightarrow> bool ub" where
  "VectorRowMatchesPredicates ds row_id predicates = row_matches ds row_id predicates (ds_segments ds) 0"

section \<open>CPU or GPU\<close>

text \<open>The environment variables the routing reads, and the state of its calibration.\<close>

datatype route = RouteAuto | RouteCpu | RouteGpu

record routing_state =
  rt_crossover_elements :: nat
  rt_max_tested_elements :: nat
  rt_calibrated :: bool

definition size_max :: nat where
  "size_max = 2 ^ 64 - 1"

definition IsAutoMode :: "string option \<Rightarrow> bool" where
  "IsAutoMode backend \<longleftrightarrow> backend = None \<or> backend = Some ''auto''"

definition WantsGpu :: "route \<Rightarrow> string option \<Rightarrow> nat \<Rightarrow> routing_state \<Rightarrow> nat \<Rightarrow> nat \<Rightarrow> bool" where
  "WantsGpu override backend minimum st candidates dimension =
     (if override = RouteCpu then False
      else if override = RouteGpu then True
      else
        let mode = (case backend of None \<Rightarrow> ''auto'' | Some m \<Rightarrow> m);
            threshold = (if minimum = 0 then rt_crossover_elements st else minimum)
        in if mode = ''cpu'' \<or> mode = ''off'' then False
           else if mode = ''vulkan'' \<or> mode = ''gpu'' then True
           else candidates \<noteq> 0 \<and> dimension \<le> size_max div candidates \<and> candidates * dimension \<ge> threshold)"

text \<open>The calibration, given whether the field could be loaded and the two timed searches: their success
  and whether the GPU took less than 90\% of the time.\<close>

definition CalibrateGpuCrossover ::
  "route \<Rightarrow> string option \<Rightarrow> nat \<Rightarrow> nat \<Rightarrow> bool \<Rightarrow> bool \<Rightarrow> bool \<Rightarrow> bool \<Rightarrow> routing_state \<Rightarrow> routing_state" where
  "CalibrateGpuCrossover override backend dimension sealed_rows preloaded cpu_ok gpu_ok gpu_faster st =
     (if override \<noteq> RouteAuto \<or> \<not> IsAutoMode backend \<or> sealed_rows < 16384 \<or> dimension = 0 then st
      else
        let elements = (if sealed_rows > size_max div dimension then size_max else sealed_rows * dimension) in
        if rt_calibrated st \<and> elements \<le> (rt_max_tested_elements st * 2) mod 2 ^ 64 then st
        else if \<not> preloaded then st
        else
          let tested = (sealed_rows * dimension) mod 2 ^ 64; gpu_wins = (cpu_ok \<and> gpu_ok \<and> gpu_faster)
          in st\<lparr>rt_calibrated := True,
                rt_max_tested_elements := max (rt_max_tested_elements st) tested,
                rt_crossover_elements := (if gpu_wins then tested
                                          else if tested > size_max div 2 then size_max else tested * 2)\<rparr>)"

text \<open>What a search gets from the routing: \<open>WantsGpu\<close> of the moment, and the outcome of loading the
  column and scoring the candidates on the GPU.\<close>

record gpu_access =
  gpu_wanted :: "nat \<Rightarrow> nat \<Rightarrow> bool"
  gpu_preloaded :: bool
  gpu_score :: "nat list \<Rightarrow> f32 list option"

section \<open>The search\<close>

fun gpu_candidate_rows :: "search_predicate list \<Rightarrow> segment list \<Rightarrow> nat \<Rightarrow> nat list ub" where
  "gpu_candidate_rows predicates [] base_row = Some []"
| "gpu_candidate_rows predicates (sg # segments) base_row =
     do { rows \<leftarrow> filter_ub (\<lambda>row. Matches (sg_fields sg) row (Some (sg_compressed_columns sg)) predicates) [0..<sg_row_count sg];
          rest \<leftarrow> gpu_candidate_rows predicates segments (base_row + sg_row_count sg);
          Some (map ((+) base_row) rows @ rest) }"

record work =
  wk_fields :: "field_vector list"
  wk_compressed :: "compressed_view list option"
  wk_base :: nat
  wk_candidates :: "nat list option"

text \<open>The part of a sorted list of rows from \<open>base\<close> to \<open>stop\<close>, which two \<open>lower_bound\<close>s delimit.\<close>

definition rows_between :: "nat list \<Rightarrow> nat \<Rightarrow> nat \<Rightarrow> nat list" where
  "rows_between rows base stop = takeWhile (\<lambda>r. r < stop) (dropWhile (\<lambda>r. r < base) rows)"

text \<open>The work list of the sealed segments, and the first row after them.\<close>

fun segment_work :: "nat list option \<Rightarrow> segment list \<Rightarrow> nat \<Rightarrow> work list" where
  "segment_work candidates [] base = []"
| "segment_work candidates (sg # segments) base =
     \<lparr>wk_fields = sg_fields sg, wk_compressed = Some (sg_compressed_columns sg), wk_base = base,
      wk_candidates = map_option (\<lambda>rows. map (\<lambda>r. r - base) (rows_between rows base (base + sg_row_count sg))) candidates\<rparr>
     # segment_work candidates segments (base + sg_row_count sg)"

definition active_work :: "dataset \<Rightarrow> nat \<Rightarrow> work list" where
  "active_work ds base =
     (if ActiveRowCount ds \<noteq> 0
      then [\<lparr>wk_fields = ds_active_fields ds, wk_compressed = None, wk_base = base, wk_candidates = None\<rparr>] else [])"

definition search_one ::
  "cpu_features \<Rightarrow> nat \<Rightarrow> f32 list \<Rightarrow> nat \<Rightarrow> nat \<Rightarrow> vector_metric \<Rightarrow> f32 \<Rightarrow> search_predicate list \<Rightarrow> work \<Rightarrow> search_hit list ub" where
  "search_one cpu field_index query dimension limit metric norm predicates item =
     SearchField cpu (wk_fields item) field_index (wk_base item) query dimension limit metric norm
       (wk_compressed item) predicates (wk_candidates item) []"

definition offer_all :: "nat \<Rightarrow> search_hit list \<Rightarrow> search_hit list \<Rightarrow> search_hit list" where
  "offer_all limit hits heap = fold (offer_hit limit) hits heap"

definition valid_query :: "dataset \<Rightarrow> f32 list \<Rightarrow> nat \<Rightarrow> search_predicate list \<Rightarrow> bool" where
  "valid_query ds query dimension predicates \<longleftrightarrow>
     (\<forall>i\<in>set [0..<dimension]. f32_finite (query ! i)) \<and>
     list_all (\<lambda>p. sp_field_index p < length (ds_fields ds)) predicates"

text \<open>\<open>None\<close> inside is the result \<open>false\<close>.  The work items are searched in parallel, each into its own
  slot of \<open>partial_hits\<close>.\<close>

definition VectorSearch ::
  "cpu_features \<Rightarrow> gpu_access \<Rightarrow> dataset \<Rightarrow> nat \<Rightarrow> f32 list \<Rightarrow> nat \<Rightarrow> nat \<Rightarrow> vector_metric \<Rightarrow> search_predicate list \<Rightarrow>
   search_hit list option ub" where
  "VectorSearch cpu gpu ds field_index query dimension limit metric predicates =
     (if dimension = 0 \<or> limit = 0 \<or> field_index \<ge> length (ds_fields ds) \<or>
         fv_type (ds_fields ds ! field_index) \<noteq> kVectorFloat32 \<or>
         (VectorDimension field_index ds \<noteq> 0 \<and> VectorDimension field_index ds \<noteq> dimension) \<or>
         \<not> valid_query ds query dimension predicates
      then Some None
      else
        let norm = query_norm cpu query dimension metric;
            sealed_rows = sum_list (map sg_row_count (ds_segments ds));
            gpu_may_run = (sealed_rows < 2 ^ 32 \<and> gpu_wanted gpu sealed_rows dimension)
        in do { gpu_candidates \<leftarrow> (if gpu_may_run \<and> predicates \<noteq> [] then gpu_candidate_rows predicates (ds_segments ds) 0
                                   else Some []);
                let gpu_candidate_count = (if predicates = [] then sealed_rows else length gpu_candidates);
                    distances = (if gpu_may_run \<and> gpu_wanted gpu gpu_candidate_count dimension \<and> gpu_preloaded gpu
                                 then gpu_score gpu gpu_candidates else None);
                    gpu_hits = (case distances of
                        None \<Rightarrow> []
                      | Some scores \<Rightarrow>
                          map (\<lambda>i. \<lparr>hit_row = (if gpu_candidates = [] then i else gpu_candidates ! i),
                                   hit_distance = scores ! i\<rparr>)
                            (filter (\<lambda>i. f32_finite (scores ! i)) [0..<length scores]));
                    precomputed = (if gpu_may_run \<and> predicates \<noteq> [] then Some gpu_candidates else None)
                in if list_ex (\<lambda>sg. field_index \<ge> length (sg_fields sg)) (ds_segments ds) then Some None
                   else
                     do { partial_hits \<leftarrow> map_ub (search_one cpu field_index query dimension limit metric norm predicates)
                            ((if distances = None then segment_work precomputed (ds_segments ds) 0 else []) @
                             active_work ds sealed_rows);
                          Some (Some (sorted_hits (offer_all limit (concat partial_hits) (offer_all limit gpu_hits [])))) } })"

text \<open>The search among given rows of the sealed segments; the active rows are all searched.\<close>

fun candidate_work ::
  "search_predicate list \<Rightarrow> nat list \<Rightarrow> segment list \<Rightarrow> nat \<Rightarrow> (work list \<times> nat list) ub" where
  "candidate_work predicates candidates [] base = Some ([], [])"
| "candidate_work predicates candidates (sg # segments) base =
     do { rows \<leftarrow> filter_ub (\<lambda>row. if predicates = [] then Some True
                 else Matches (sg_fields sg) row (Some (sg_compressed_columns sg)) predicates)
               (map (\<lambda>r. r - base) (rows_between candidates base (base + sg_row_count sg)));
          (items, filtered) \<leftarrow> candidate_work predicates candidates segments (base + sg_row_count sg);
          Some ((if rows = [] then []
                 else [\<lparr>wk_fields = sg_fields sg, wk_compressed = Some (sg_compressed_columns sg), wk_base = base,
                        wk_candidates = Some rows\<rparr>]) @ items,
                map ((+) base) rows @ filtered) }"

definition VectorSearchCandidates ::
  "cpu_features \<Rightarrow> gpu_access \<Rightarrow> dataset \<Rightarrow> nat \<Rightarrow> f32 list \<Rightarrow> nat \<Rightarrow> nat \<Rightarrow> vector_metric \<Rightarrow> nat list \<Rightarrow>
   search_predicate list \<Rightarrow> search_hit list option ub" where
  "VectorSearchCandidates cpu gpu ds field_index query dimension limit metric requested predicates =
     (if dimension = 0 \<or> limit = 0 \<or> field_index \<ge> length (ds_fields ds) \<or>
         fv_type (ds_fields ds ! field_index) \<noteq> kVectorFloat32 \<or>
         VectorDimension field_index ds \<noteq> dimension \<or> \<not> valid_query ds query dimension predicates
      then Some None
      else
        let norm = query_norm cpu query dimension metric;
            sealed_rows = sum_list (map sg_row_count (ds_segments ds));
            search = (\<lambda>items heap.
              do { partial \<leftarrow> map_ub (search_one cpu field_index query dimension limit metric norm predicates)
                     (items @ active_work ds sealed_rows);
                   Some (Some (sorted_hits (offer_all limit (concat partial) heap))) })
        in do { (items, filtered_global) \<leftarrow> candidate_work predicates (remdups_adj (sort requested)) (ds_segments ds) 0;
                if gpu_wanted gpu (length filtered_global) dimension \<and> gpu_preloaded gpu then
                  (case gpu_score gpu filtered_global of
                     None \<Rightarrow> Some None
                   | Some scores \<Rightarrow>
                       if length scores > length filtered_global then None
                       else
                         search [] (offer_all limit
                           (map (\<lambda>i. \<lparr>hit_row = filtered_global ! i, hit_distance = scores ! i\<rparr>)
                              (filter (\<lambda>i. f32_finite (scores ! i)) [0..<length scores])) []))
                else search items [] })"

end
