(* ===== verification/VectorRows.thy ===== *)
theory VectorRows
  imports VectorSearch TopK DatasetRead AggregateSegments
begin

text \<open>
  What the vector search sees of a column and of its predicates: the cells of the rows, whether the part
  of the dataset is active or sealed and however its columns are encoded.
\<close>

section \<open>Vectors\<close>

definition cell_vector :: "cell \<Rightarrow> f32 list option" where
  "cell_vector c =
     (case c of CBytes bs \<Rightarrow> if length bs mod 4 = 0 then Some (le_words 4 (length bs div 4) bs) else None | _ \<Rightarrow> None)"

lemma fv_VectorFloat32_cell:
  assumes inv: "fv_inv f" and t: "fv_type f = kVectorFloat32" and i: "i < fv_size f" and small: "length (fv_bytes f) < 2 ^ 32"
  shows "\<exists>p f'. fv_VectorFloat32 f i = Some (p, f') \<and> (f' = f \<or> f' = snd (fv_DataOffsets f)) \<and>
    (case cell_vector (fv_cells f ! i) of
       None \<Rightarrow> snd p = None
     | Some v \<Rightarrow> fst p = length v \<and> (\<exists>off. snd p = Some off \<and> floats_at (fv_bytes f) off (length v) = Some v))"
proof (cases "fv_IsValid f i")
  case False
  then show ?thesis using fv_cells_nth [OF inv i] by (simp add: fv_VectorFloat32_def cell_vector_def)
next
  case True
  define row where "row = take (unat (fv_lengths f ! i)) (drop (sum_lengths (take i (fv_lengths f))) (fv_bytes f))"
  have size: "length (fv_lengths f) = fv_size f" and sum: "sum_lengths (fv_lengths f) = length (fv_bytes f)"
    using inv t by (simp_all add: fv_inv_def fv_data_len_varlen varlen_ok_def)
  have cell: "fv_cells f ! i = CBytes row"
    using True i size fv_cells_nth [OF inv i] split_rows_nth [of i "fv_lengths f" "fv_bytes f"] t
    by (simp add: fv_values_varlen row_def)
  have bound: "sum_lengths (take i (fv_lengths f)) + unat (fv_lengths f ! i) \<le> length (fv_bytes f)"
    using sum_lengths_take_le [of "Suc i" "fv_lengths f"] i size sum by (simp add: take_Suc_conv_app_nth)
  then have len: "length row = unat (fv_lengths f ! i)" by (simp add: row_def)
  have offs: "fv_DataOffsets f = (Some (offsets_from 0 (fv_lengths f)), snd (fv_DataOffsets f))"
    using fv_DataOffsets_correct [OF inv] t by (metis is_varlen_simps(10) prod.collapse)
  have off: "unat (offsets_from 0 (fv_lengths f) ! i) = sum_lengths (take i (fv_lengths f))"
    using i small size sum by (intro unat_offsets_from) simp_all
  show ?thesis
  proof (cases "length row mod 4 = 0")
    case False
    then show ?thesis
      using True t i size len unfolding fv_VectorFloat32_def by (subst offs) (simp add: cell cell_vector_def)
  next
    case 4: True
    then have "4 * (length row div 4) = length row" by auto
    then have "floats_at (fv_bytes f) (sum_lengths (take i (fv_lengths f))) (length row div 4) = Some (le_words 4 (length row div 4) row)"
      using bound len by (simp add: floats_at_def read_mem_def row_def)
    then show ?thesis
      using True t i size len 4 off unfolding fv_VectorFloat32_def by (subst offs) (simp add: cell cell_vector_def)
  qed
qed

text \<open>The hit a row gives, if any.\<close>

definition row_hit ::
  "cpu_features \<Rightarrow> nat \<Rightarrow> f32 list \<Rightarrow> nat \<Rightarrow> vector_metric \<Rightarrow> f32 \<Rightarrow> cell list \<Rightarrow> nat \<Rightarrow> search_hit option" where
  "row_hit cpu base query dimension metric norm cells row =
     (case cell_vector (cells ! row) of
        None \<Rightarrow> None
      | Some v \<Rightarrow>
          let d = PreparedDistance cpu v query dimension metric norm
          in if length v = dimension \<and> f32_finite d then Some \<lparr>hit_row = base + row, hit_distance = d\<rparr> else None)"

definition vector_column :: "field_vector \<Rightarrow> bool" where
  "vector_column f \<longleftrightarrow> fv_inv f \<and> fv_type f = kVectorFloat32 \<and> length (fv_bytes f) < 2 ^ 32"

lemma vector_column_offsets: "vector_column f \<Longrightarrow> vector_column (snd (fv_DataOffsets f)) \<and>
   fv_cells (snd (fv_DataOffsets f)) = fv_cells f \<and> fv_size (snd (fv_DataOffsets f)) = fv_size f"
  using fv_DataOffsets_correct [of f] by (auto simp: vector_column_def fv_extends_def)

lemma score_row_hit:
  assumes "vector_column f" and "row < fv_size f"
  shows "\<exists>f'. score_row cpu base query dimension limit metric norm row (f, heap) =
      Some (f', (case row_hit cpu base query dimension metric norm (fv_cells f) row of None \<Rightarrow> heap | Some h \<Rightarrow> offer_hit limit h heap)) \<and>
    vector_column f' \<and> fv_cells f' = fv_cells f \<and> fv_size f' = fv_size f"
proof -
  obtain p f' where r: "fv_VectorFloat32 f row = Some (p, f')" "f' = f \<or> f' = snd (fv_DataOffsets f)"
    and v: "case cell_vector (fv_cells f ! row) of None \<Rightarrow> snd p = None
      | Some v \<Rightarrow> fst p = length v \<and> (\<exists>off. snd p = Some off \<and> floats_at (fv_bytes f) off (length v) = Some v)"
    using fv_VectorFloat32_cell [of f row] assms unfolding vector_column_def by blast
  have f': "vector_column f'" "fv_cells f' = fv_cells f" "fv_size f' = fv_size f" "fv_bytes f' = fv_bytes f"
    using r(2) assms(1) vector_column_offsets [OF assms(1)] by auto
  then show ?thesis
    using r(1) v by (cases p; cases "cell_vector (fv_cells f ! row)") (auto simp: score_row_def row_hit_def Let_def)
qed

lemma each_score_row:
  assumes "vector_column f" and "\<forall>r\<in>set rows. r < fv_size f"
  shows "\<exists>f'. each_ub (score_row cpu base query dimension limit metric norm) rows (f, heap) =
    Some (f', fold (offer_hit limit) (List.map_filter (row_hit cpu base query dimension metric norm (fv_cells f)) rows) heap)"
  using assms
proof (induction rows arbitrary: f heap)
  case Nil
  then show ?case by (simp add: List.map_filter_simps)
next
  case (Cons r rows)
  define h where "h = (case row_hit cpu base query dimension metric norm (fv_cells f) r of None \<Rightarrow> heap | Some h \<Rightarrow> offer_hit limit h heap)"
  from score_row_hit [OF Cons.prems(1), of r cpu base query dimension limit metric norm heap] Cons.prems(2)
  obtain g where g: "score_row cpu base query dimension limit metric norm r (f, heap) = Some (g, h)"
    "vector_column g" "fv_cells g = fv_cells f" "fv_size g = fv_size f" by (auto simp: h_def)
  from Cons.IH [OF g(2), of h] g(3,4) Cons.prems(2) show ?case
    by (auto simp: g(1) h_def List.map_filter_simps split: option.splits)
qed

lemma filter_ub_Some: "(\<And>x. x \<in> set xs \<Longrightarrow> p x = Some (q x)) \<Longrightarrow> filter_ub p xs = Some (filter q xs)"
  by (induction xs) simp_all

lemma map_ub_Some: "(\<And>x. x \<in> set xs \<Longrightarrow> f x = Some (g x)) \<Longrightarrow> map_ub f xs = Some (map g xs)"
  by (induction xs) simp_all

text \<open>A search of one part: \<open>cells i\<close> are the cells of its columns.\<close>

definition part_hits ::
  "cpu_features \<Rightarrow> f32 list \<Rightarrow> nat \<Rightarrow> vector_metric \<Rightarrow> f32 \<Rightarrow> nat \<Rightarrow> cell list \<Rightarrow> nat list \<Rightarrow> search_hit list" where
  "part_hits cpu query dimension metric norm base cells rows =
     List.map_filter (row_hit cpu base query dimension metric norm cells) rows"

lemma SearchField_hits:
  assumes "k < length flds" and "vector_column (flds ! k)"
    and "\<And>row. precomputed = None \<Longrightarrow> row < fv_size (flds ! k) \<Longrightarrow> Matches flds row compressed predicates = Some (sel row)"
    and "rows = (case precomputed of Some c \<Rightarrow> c | None \<Rightarrow> filter sel [0..<fv_size (flds ! k)])"
    and "\<forall>r\<in>set rows. r < fv_size (flds ! k)"
  shows "SearchField cpu flds k base query dimension limit metric norm compressed predicates precomputed heap =
    Some (fold (offer_hit limit) (part_hits cpu query dimension metric norm base (fv_cells (flds ! k)) rows) heap)"
proof -
  have "(case precomputed of
        Some candidates \<Rightarrow> Some candidates
      | None \<Rightarrow>
          if predicates = [] then Some [0..<fv_size (flds ! k)]
          else filter_ub (\<lambda>row. Matches flds row compressed predicates) [0..<fv_size (flds ! k)]) = Some rows"
  proof (cases precomputed)
    case None
    have "filter_ub (\<lambda>row. Matches flds row compressed predicates) [0..<fv_size (flds ! k)] = Some rows"
      using None assms(3,4) by (subst filter_ub_Some [of _ _ sel]) simp_all
    moreover have "predicates = [] \<Longrightarrow> rows = [0..<fv_size (flds ! k)]"
      using None assms(3,4) by (auto simp: filter_id_conv)
    ultimately show ?thesis using None by auto
  qed (use assms(4) in simp)
  moreover have "at k flds = Some (flds ! k)" using assms(1) by (simp add: at_def)
  moreover obtain f' where "each_ub (score_row cpu base query dimension limit metric norm) rows (flds ! k, heap) =
    Some (f', fold (offer_hit limit) (part_hits cpu query dimension metric norm base (fv_cells (flds ! k)) rows) heap)"
    using each_score_row [OF assms(2,5)] unfolding part_hits_def by blast
  ultimately show ?thesis by (simp add: SearchField_def)
qed

end
