(* ===== verification/VectorTopK.thy ===== *)
theory VectorTopK
  imports VectorRows
begin

text \<open>
  \<open>VectorSearch\<close> on the CPU gives the nearest rows of the whole table, sorted.
\<close>

section \<open>The heap of hits\<close>

definition hit_key :: "search_hit \<Rightarrow> int \<times> nat" where
  "hit_key h = (f32_key (hit_distance h), hit_row h)"

definition finite_hits :: "search_hit list \<Rightarrow> bool" where
  "finite_hits hits \<longleftrightarrow> (\<forall>h\<in>set hits. f32_finite (hit_distance h))"

lemma Worse_key:
  assumes "f32_finite (hit_distance a)" and "f32_finite (hit_distance b)"
  shows "Worse a b \<longleftrightarrow> hit_key a < hit_key b"
  using assms by (auto simp: Worse_def hit_key_def f32_finite_cmp less_prod_def)

lemma offer_hit_key:
  assumes "0 < k" and "f32_finite (hit_distance x)" and "finite_hits heap"
  shows "offer_hit k x heap = offer_key hit_key k x heap"
proof -
  have worse: "Worse x y \<longleftrightarrow> hit_key x < hit_key y" if "y \<in> set heap" for y
    using Worse_key assms that by (simp add: finite_hits_def)
  have push: "pq_push x h = takeWhile (\<lambda>y. hit_key x < hit_key y) h @ x # dropWhile (\<lambda>y. hit_key x < hit_key y) h"
    if "set h \<subseteq> set heap" for h
  proof -
    have "takeWhile (Worse x) h = takeWhile (\<lambda>y. hit_key x < hit_key y) h"
      "dropWhile (Worse x) h = dropWhile (\<lambda>y. hit_key x < hit_key y) h"
      using worse that by (auto intro!: takeWhile_cong dropWhile_cong)
    then show ?thesis by (simp add: pq_push_def)
  qed
  have tl: "set (tl heap) \<subseteq> set heap" by (cases heap) auto
  have top: "(f32_lt (hit_distance x) (hit_distance (hd heap)) \<or>
      f32_eq (hit_distance x) (hit_distance (hd heap)) \<and> hit_row x < hit_row (hd heap)) \<longleftrightarrow> hit_key x < hit_key (hd heap)"
    if "heap \<noteq> []"
    using assms(2,3) that by (auto simp: finite_hits_def hit_key_def f32_finite_cmp less_prod_def)
  show ?thesis
    using push [of heap] push [OF tl] top assms(1) by (cases "heap = []") (auto simp: offer_hit_def offer_key_def Let_def)
qed

lemma finite_top_k: "finite_hits hits \<Longrightarrow> finite_hits (rev (top_k hit_key k hits))"
  using set_top_k [of hit_key k hits] by (auto simp: finite_hits_def)

lemma hit_key_inj: "distinct (map hit_row hits) \<Longrightarrow> inj_on hit_key (set hits)"
  by (auto simp: inj_on_def hit_key_def distinct_map)

lemma fold_offer_hit:
  assumes "0 < k" and "finite_hits hits" and "distinct (map hit_row hits)"
  shows "offer_all k hits [] = rev (top_k hit_key k hits)"
proof -
  have "fold (offer_hit k) hits [] = fold (offer_key hit_key k) hits []"
    using assms(2,3)
  proof (induction hits rule: rev_induct)
    case (snoc x xs)
    then have IH: "fold (offer_hit k) xs [] = fold (offer_key hit_key k) xs []" and fin: "finite_hits xs"
      and dist: "distinct (map hit_row xs)" by (simp_all add: finite_hits_def)
    have "fold (offer_key hit_key k) xs [] = rev (top_k hit_key k xs)"
      by (rule fold_offer_key [OF assms(1) hit_key_inj [OF dist]]) (use dist in \<open>simp add: distinct_map\<close>)
    then show ?case
      using IH offer_hit_key [OF assms(1) _ finite_top_k [OF fin]] snoc.prems(1) by (simp add: finite_hits_def)
  qed simp
  then show ?thesis
    using fold_offer_key [OF assms(1) hit_key_inj [OF assms(3)]] assms(3) by (simp add: offer_all_def distinct_map)
qed

lemma hit_sort_sorted:
  assumes "finite_hits hits" and "sorted (map hit_key hits)" and "distinct (map hit_key hits)"
  shows "hit_sort hits = hits"
  using assms
proof (induction hits)
  case (Cons h hits)
  then have IH: "hit_sort hits = hits" by (simp add: finite_hits_def)
  have "\<not> Worse (hd hits) h" if "hits \<noteq> []"
  proof -
    have "hit_key h \<le> hit_key (hd hits)" using Cons.prems(2) that by (cases hits) simp_all
    then show ?thesis
      using Worse_key [of "hd hits" h] Cons.prems(1) that by (auto simp: finite_hits_def not_less)
  qed
  then show ?case using IH by (cases hits) (simp_all add: hit_sort_def)
qed (simp add: hit_sort_def)

lemma sorted_hits_top_k:
  assumes "finite_hits hits" and "distinct (map hit_row hits)"
  shows "sorted_hits (rev (top_k hit_key k hits)) = top_k hit_key k hits"
proof -
  have "distinct (sort_key hit_key hits)" using assms(2) by (simp add: distinct_map)
  then have "distinct (top_k hit_key k hits)" by (simp add: top_k_def)
  moreover have "inj_on hit_key (set (top_k hit_key k hits))"
    by (rule inj_on_subset [OF hit_key_inj [OF assms(2)] set_top_k])
  ultimately have "distinct (map hit_key (top_k hit_key k hits))" by (simp add: distinct_map)
  then show ?thesis
    using hit_sort_sorted [OF _ sorted_top_k [of hit_key k hits]] finite_top_k [OF assms(1), of k]
    by (simp add: sorted_hits_def finite_hits_def)
qed

lemma distinct_submset:
  assumes "mset xs \<subseteq># mset ys" and "distinct ys"
  shows "distinct xs"
proof -
  obtain zs where "mset ys = mset xs + zs" using assms(1) by (auto simp: mset_subset_eq_exists_conv)
  moreover obtain us where "mset us = zs" using ex_mset by blast
  ultimately have "mset ys = mset (xs @ us)" by simp
  then show ?thesis using mset_eq_imp_distinct_iff assms(2) by (metis distinct_append)
qed

text \<open>Several parts, each searched on its own, and their heaps merged.\<close>

lemma merge_parts:
  assumes "0 < k" and "finite_hits (concat parts)" and "distinct (map hit_row (concat parts))"
  shows "sorted_hits (offer_all k (concat (map (\<lambda>hits. offer_all k hits []) parts)) []) = top_k hit_key k (concat parts)"
proof -
  have part: "offer_all k hits [] = rev (top_k hit_key k hits)" if "hits \<in> set parts" for hits
    using that assms(2,3)
    by (intro fold_offer_hit [OF assms(1)]) (auto simp: finite_hits_def dest!: split_list)
  then have eq: "map (\<lambda>hits. offer_all k hits []) parts = map (\<lambda>hits. rev (top_k hit_key k hits)) parts" by simp
  let ?kept = "concat (map (\<lambda>hits. rev (top_k hit_key k hits)) parts)"
  have "mset ?kept \<subseteq># mset (concat parts)"
  proof (induction parts)
    case (Cons p ps)
    have "mset (top_k hit_key k p) \<subseteq># mset (sort_key hit_key p)"
      unfolding top_k_def by (metis append_take_drop_id mset_append mset_subset_eq_add_left)
    with Cons show ?case by (simp add: subset_mset.add_mono)
  qed simp
  then have kept: "set ?kept \<subseteq> set (concat parts)" "mset (map hit_row ?kept) \<subseteq># mset (map hit_row (concat parts))"
    using mset_subset_eqD by (force, metis image_mset_subseteq_mono mset_map)
  then have fin: "finite_hits ?kept" and dist: "distinct (map hit_row ?kept)"
    using assms(2) distinct_submset [OF kept(2) assms(3)] by (auto simp: finite_hits_def)
  have "top_k hit_key k ?kept = top_k hit_key k (concat parts)"
    by (rule top_k_concat [OF hit_key_inj [OF assms(3)]]) (simp add: list_all2_map1 list.rel_refl)
  then show ?thesis
    unfolding eq using fold_offer_hit [OF assms(1) fin dist] sorted_hits_top_k [OF assms(2,3)] by simp
qed

end
