(* ===== verification/VectorTable.thy ===== *)
theory VectorTable
  imports VectorTopK
begin

text \<open>
  The exact vector search over a dataset is the search over its table: predicates are those of the cells,
  and the result is the sorted list of the nearest rows.
\<close>

section \<open>Predicates on cells\<close>

definition cells_match :: "(nat \<Rightarrow> cell list) \<Rightarrow> search_predicate list \<Rightarrow> nat \<Rightarrow> bool" where
  "cells_match cells predicates row \<longleftrightarrow>
     list_all (\<lambda>p. case cell_number (cells (sp_field_index p) ! row) of
                    None \<Rightarrow> False
                  | Some v \<Rightarrow> search_Compare v (sp_op p) (sp_value p)) predicates"

lemma ReadNumeric_cell:
  assumes "fv_inv f" and "row < fv_size f"
  shows "ReadNumeric f row = Some (cell_number (fv_cells f ! row))"
proof (cases "has_numeric_stats (fv_type f) \<and> fv_IsValid f row")
  case True
  then have "numeric_at f row = Some (field_f64 f row)" using numeric_at_inv [OF assms(1) _ assms(2)] by simp
  moreover have "ReadNumeric f row = map_option Some (numeric_at f row)"
    using True by (cases "fv_type f")
      (auto simp: ReadNumeric_def numeric_at_def has_numeric_stats_def at_def split: Option.bind_split)
  ultimately show ?thesis using True cell_number_nth [OF assms] by simp
next
  case False
  then show ?thesis
    using cell_number_nth [OF assms] by (cases "fv_type f") (auto simp: ReadNumeric_def has_numeric_stats_def)
qed

text \<open>A column of numbers that is not encoded is kept: of doubles, when the least ratio of the
  configuration is above 1.\<close>

lemma float_column_plain:
  assumes b: "build_column cfg kind f = Some b" and inv: "fv_inv f" and t: "fv_type f = kFloat64"
    and rows: "0 < fv_size f" "fv_size f < 2 ^ 32" and ratio: "f64_lt (f64_of_int 1) (cfg_min_ratio cfg)"
  shows "bc_view b = MakeUncompressedView f"
proof -
  let ?raw = "fv_size f * 8" and ?v = "length (validity_copy f) * 8"
  obtain d where e: "encode_column kind f = Some (kind, d, [])"
    using encode_column_total [of f kind] inv t by (auto simp: fv_inv_def encode_column_def split: Option.bind_splits)
  have "bc_kind b \<noteq> CkLz4" using kept_not_lz4 [OF b inv] rows(1) t by simp
  moreover have False if k: "bc_kind b = kind" "kind \<noteq> CkNone" "kind \<noteq> CkLz4"
  proof -
    have "length d = ?raw" using e t k(3)
      by (auto simp: encode_column_def copy_out_def read_mem_def raw_data_bytes_def split: Option.bind_splits if_splits)
    moreover have "f64_div (f64_of_int (int ?raw)) (f64_of_int (int ?raw)) = f64_of_int 1"
      by (rule f64_div_self) (use rows in simp_all)
    ultimately have "keep_kind cfg f kind (length d + length [] + ?v) = CkNone"
      using rows(1) ratio t by (auto simp: keep_kind_def raw_data_bytes_def raw_aux_bytes_def is_varlen_def Let_def)
    then show False using b e k by (auto simp: build_column_def Let_def split: if_splits)
  qed
  ultimately show ?thesis using build_column_kind [OF e b] by auto
qed

text \<open>A column whose numbers a search sees: a double represents its integers, if they can be encoded.\<close>

definition predicate_column :: "compression_config \<Rightarrow> field_vector \<Rightarrow> bool" where
  "predicate_column cfg f \<longleftrightarrow>
     fv_inv f \<and> has_numeric_stats (fv_type f) \<and> 0 < fv_size f \<and> fv_size f < 2 ^ 32 \<and> bool_cells_ok f \<and>
     (is_encodable (fv_type f) \<longrightarrow> exact_ints f) \<and>
     (fv_type f = kFloat64 \<longrightarrow> f64_lt (f64_of_int 1) (cfg_min_ratio cfg))"

lemma predicate_view:
  assumes f: "predicate_column cfg f" and b: "build_column cfg (chosen_kind cfg f) f = Some b" and row: "row < fv_size f"
  shows "ReadNumericValue (bc_view b) row = Some (cell_number (fv_cells f ! row))"
proof -
  have inv: "fv_inv f" "has_numeric_stats (fv_type f)" using f by (simp_all add: predicate_column_def)
  have "numeric_view (bc_view b) f"
  proof (cases "fv_type f = kFloat64")
    case True
    then show ?thesis using float_column_plain [OF b] numeric_view_plain [OF inv] f by (simp add: predicate_column_def)
  next
    case False
    then show ?thesis using f by (intro numeric_built [OF _ b]) (simp_all add: predicate_column_def integer_column_def)
  qed
  then show ?thesis using row inv(2) cell_number_nth [OF inv(1) row] by (simp add: numeric_view_def)
qed

lemma Matches_cells:
  assumes "\<And>p. p \<in> set predicates \<Longrightarrow> sp_field_index p < length flds \<and>
      (case compressed of
         Some columns \<Rightarrow> if sp_field_index p < length columns then ReadNumericValue (columns ! sp_field_index p) row
                        else ReadNumeric (flds ! sp_field_index p) row
       | None \<Rightarrow> ReadNumeric (flds ! sp_field_index p) row) = Some (cell_number (cells (sp_field_index p) ! row))"
  shows "Matches flds row compressed predicates = Some (cells_match cells predicates row)"
  using assms
proof (induction predicates)
  case Nil
  then show ?case by (simp add: cells_match_def)
next
  case (Cons p ps)
  have rest: "Matches flds row compressed ps = Some (cells_match cells ps row)"
    by (rule Cons.IH) (use Cons.prems in simp)
  have first: "sp_field_index p < length flds"
    "(case compressed of
        Some columns \<Rightarrow> if sp_field_index p < length columns then ReadNumericValue (columns ! sp_field_index p) row
                       else ReadNumeric (flds ! sp_field_index p) row
      | None \<Rightarrow> ReadNumeric (flds ! sp_field_index p) row) = Some (cell_number (cells (sp_field_index p) ! row))"
    using Cons.prems [of p] by simp_all
  show ?case
    unfolding Matches.simps first(2) using first(1) rest
    by (cases "cell_number (cells (sp_field_index p) ! row)") (simp_all add: cells_match_def)
qed

section \<open>The parts of a dataset\<close>

lemma dataset_parts:
  assumes rep: "dataset_rep cfg ds cols"
  obtains chunks where "length chunks = length (ds_segments ds)"
    and "\<And>j. j < length chunks \<Longrightarrow> sealed_from cfg ds (chunks ! j) (ds_segments ds ! j) \<and> length (chunks ! j) = length (ds_fields ds)"
    and "\<And>j i r. j < length chunks \<Longrightarrow> i < length (ds_fields ds) \<Longrightarrow> r < ds_segment_capacity ds \<Longrightarrow>
        fv_cells (chunks ! j ! i) ! r = cols ! i ! (j * ds_segment_capacity ds + r)"
    and "\<And>i r. i < length (ds_fields ds) \<Longrightarrow> r < ActiveRowCount ds \<Longrightarrow>
        fv_cells (ds_active_fields ds ! i) ! r = cols ! i ! (length chunks * ds_segment_capacity ds + r)"
    and "\<And>j i. j < length chunks \<Longrightarrow> i < length (ds_fields ds) \<Longrightarrow> set (fv_cells (chunks ! j ! i)) \<subseteq> set (cols ! i)"
    and "\<And>i. i < length (ds_fields ds) \<Longrightarrow> length (cols ! i) = length chunks * ds_segment_capacity ds + ActiveRowCount ds"
proof -
  let ?cap = "ds_segment_capacity ds"
  obtain chunks where chunks: "list_all2 (sealed_from cfg ds) chunks (ds_segments ds)"
    and cols: "cols = table_columns ds chunks" and act: "active_ok ds"
    using rep by (auto simp: dataset_rep_def)
  have sealed: "sealed_from cfg ds (chunks ! j) (ds_segments ds ! j)" if "j < length chunks" for j
    using chunks that by (simp add: list_all2_conv_all_nth)
  have len: "length (chunks ! j) = length (ds_fields ds)" if "j < length chunks" for j
    using sealed [OF that] unfolding sealed_from_def by (metis length_map)
  have cells: "length (fv_cells (chunks ! j ! i)) = ?cap" if "j < length chunks" "i < length (ds_fields ds)" for i j
    using sealed [OF that(1)] that(2) len [OF that(1)] by (auto simp: sealed_from_def fv_cells_len)
  let ?col = "\<lambda>i. map (\<lambda>flds. fv_cells (flds ! i)) chunks"
  have all: "\<forall>xs\<in>set (?col i). length xs = ?cap" if "i < length (ds_fields ds)" for i
    using cells that by (auto simp: in_set_conv_nth)
  have column: "cols ! i = concat (?col i) @ fv_cells (ds_active_fields ds ! i)" if "i < length (ds_fields ds)" for i
    using that by (simp add: cols table_columns_def)
  have size: "length (concat (?col i)) = length chunks * ?cap" if "i < length (ds_fields ds)" for i
    using length_concat_same [OF all [OF that]] by simp
  have active: "length (fv_cells (ds_active_fields ds ! i)) = ActiveRowCount ds" if "i < length (ds_fields ds)" for i
    using act that active_length [OF act] by (auto simp: active_ok_def fv_cells_len)
  have row: "fv_cells (chunks ! j ! i) ! r = cols ! i ! (j * ?cap + r)"
    if "j < length chunks" "i < length (ds_fields ds)" "r < ?cap" for i j r
  proof -
    have "j * ?cap + r < Suc j * ?cap" using that by simp
    also have "\<dots> \<le> length chunks * ?cap" using that by (intro mult_le_mono1) simp
    finally have "cols ! i ! (j * ?cap + r) = concat (?col i) ! (j * ?cap + r)"
      using size [OF that(2)] column [OF that(2)] by (simp add: nth_append)
    then show ?thesis using concat_nth [OF all [OF that(2)], of j r] that by simp
  qed
  show thesis
  proof (rule that [of chunks])
    show "length chunks = length (ds_segments ds)" using chunks by (rule list_all2_lengthD)
    show "fv_cells (ds_active_fields ds ! i) ! r = cols ! i ! (length chunks * ?cap + r)"
      if "i < length (ds_fields ds)" "r < ActiveRowCount ds" for i r
      using column [OF that(1)] size [OF that(1)] by (simp add: nth_append)
    show "length (cols ! i) = length chunks * ?cap + ActiveRowCount ds" if "i < length (ds_fields ds)" for i
      using column [OF that] size [OF that] active [OF that] by simp
    show "set (fv_cells (chunks ! j ! i)) \<subseteq> set (cols ! i)" if "j < length chunks" "i < length (ds_fields ds)" for i j
      using that column [OF that(2)] by (auto intro!: bexI [of _ "chunks ! j"])
  qed (use sealed len row in simp_all)
qed

section \<open>The hits of a table\<close>

definition table_hit ::
  "cpu_features \<Rightarrow> f32 list \<Rightarrow> nat \<Rightarrow> vector_metric \<Rightarrow> search_predicate list \<Rightarrow> cell list list \<Rightarrow> nat \<Rightarrow> nat \<Rightarrow> search_hit option" where
  "table_hit cpu query dimension metric predicates cols k r =
     (if cells_match ((!) cols) predicates r
      then row_hit cpu 0 query dimension metric (query_norm cpu query dimension metric) (cols ! k) r else None)"

definition table_hits ::
  "cpu_features \<Rightarrow> f32 list \<Rightarrow> nat \<Rightarrow> vector_metric \<Rightarrow> search_predicate list \<Rightarrow> cell list list \<Rightarrow> nat \<Rightarrow> search_hit list" where
  "table_hits cpu query dimension metric predicates cols k =
     List.map_filter (table_hit cpu query dimension metric predicates cols k) [0..<length (cols ! k)]"

lemma table_hit_row:
  "table_hit cpu query dimension metric predicates cols k r = Some h \<Longrightarrow> hit_row h = r \<and> f32_finite (hit_distance h)"
  by (auto simp: table_hit_def row_hit_def Let_def split: if_splits option.splits)

lemma map_hit_rows:
  "(\<And>r h. g r = Some h \<Longrightarrow> hit_row h = r) \<Longrightarrow> map hit_row (List.map_filter g rs) = filter (\<lambda>r. g r \<noteq> None) rs"
  by (induction rs) (auto simp: List.map_filter_simps split: option.split)

lemma table_hits_ok:
  "finite_hits (table_hits cpu query dimension metric predicates cols k) \<and>
   distinct (map hit_row (table_hits cpu query dimension metric predicates cols k))"
proof -
  have "map hit_row (table_hits cpu query dimension metric predicates cols k) =
      filter (\<lambda>r. table_hit cpu query dimension metric predicates cols k r \<noteq> None) [0..<length (cols ! k)]"
    unfolding table_hits_def by (rule map_hit_rows) (use table_hit_row in blast)
  then show ?thesis
    using table_hit_row [of cpu query dimension metric predicates cols k]
    by (auto simp: finite_hits_def table_hits_def List.map_filter_def)
qed

lemma map_filter_filter: "List.map_filter g (filter p xs) = List.map_filter (\<lambda>x. if p x then g x else None) xs"
  by (induction xs) (auto simp: List.map_filter_simps split: option.split)

lemma map_filter_cong_set: "(\<And>x. x \<in> set xs \<Longrightarrow> g x = h x) \<Longrightarrow> List.map_filter g xs = List.map_filter h xs"
  by (induction xs) (auto simp: List.map_filter_simps split: option.split)

text \<open>A part of the dataset that holds the rows from \<open>base\<close> on.\<close>

lemma part_hits_table:
  assumes cells: "\<And>i r. i < n \<Longrightarrow> r < len \<Longrightarrow> cells i ! r = cols ! i ! (base + r)"
    and k: "k < n" and preds: "\<And>p. p \<in> set predicates \<Longrightarrow> sp_field_index p < n"
  shows "part_hits cpu query dimension metric (query_norm cpu query dimension metric) base (cells k) (filter (cells_match cells predicates) [0..<len]) =
    List.map_filter (table_hit cpu query dimension metric predicates cols k) [base..<base + len]"
proof -
  let ?norm = "query_norm cpu query dimension metric"
  have rows: "[base..<base + len] = map ((+) base) [0..<len]"
    by (rule nth_equalityI) simp_all
  have "cells_match cells predicates r = cells_match ((!) cols) predicates (base + r)"
    "row_hit cpu base query dimension metric ?norm (cells k) r = row_hit cpu 0 query dimension metric ?norm (cols ! k) (base + r)"
    if "r < len" for r
    using cells that k preds by (auto simp: cells_match_def row_hit_def list_all_iff Let_def split: option.split)
  then show ?thesis
    unfolding rows part_hits_def map_filter_filter map_filter_map
    by (intro map_filter_cong_set) (simp add: table_hit_def)
qed

lemma segment_work_nth:
  assumes "\<forall>sg\<in>set segments. sg_row_count sg = cap"
  shows "length (segment_work None segments base) = length segments \<and>
    (\<forall>j<length segments. segment_work None segments base ! j =
      \<lparr>wk_fields = sg_fields (segments ! j), wk_compressed = Some (sg_compressed_columns (segments ! j)),
       wk_base = base + j * cap, wk_candidates = None\<rparr>)"
  using assms
proof (induction segments arbitrary: base)
  case (Cons sg segments)
  let ?item = "\<lambda>sg b. \<lparr>wk_fields = sg_fields sg, wk_compressed = Some (sg_compressed_columns sg), wk_base = b, wk_candidates = None\<rparr>"
  have head: "segment_work None (sg # segments) base = ?item sg base # segment_work None segments (base + cap)"
    using Cons.prems by simp
  have IH: "length (segment_work None segments (base + cap)) = length segments"
    "\<And>j. j < length segments \<Longrightarrow> segment_work None segments (base + cap) ! j = ?item (segments ! j) (base + cap + j * cap)"
    using Cons.IH [of "base + cap"] Cons.prems by simp_all
  have "segment_work None (sg # segments) base ! j = ?item ((sg # segments) ! j) (base + j * cap)"
    if "j < length (sg # segments)" for j
    using that IH(2) unfolding head by (cases j) simp_all
  then show ?case using IH(1) unfolding head by simp
qed simp

section \<open>Searching a part\<close>

text \<open>A column of numbers that every part of the dataset shows: integers that a double represents, booleans
  that are 0 or 1, and doubles when the configuration does not keep encodings that save nothing.\<close>

definition visible_column :: "compression_config \<Rightarrow> field_type \<Rightarrow> cell list \<Rightarrow> bool" where
  "visible_column cfg t cells \<longleftrightarrow>
     has_numeric_stats t \<and> (\<forall>c\<in>set cells. cell_exact c) \<and> (t = kFloat64 \<longrightarrow> f64_lt (f64_of_int 1) (cfg_min_ratio cfg))"

text \<open>What a search asks of its dataset: predicates on such columns, and offsets of the vectors that fit 32 bits.\<close>

definition searchable :: "compression_config \<Rightarrow> dataset \<Rightarrow> cell list list \<Rightarrow> nat \<Rightarrow> search_predicate list \<Rightarrow> bool" where
  "searchable cfg ds cols k predicates \<longleftrightarrow>
     ds_segment_capacity ds < 2 ^ 32 \<and> k < length (ds_fields ds) \<and> fv_type (ds_fields ds ! k) = kVectorFloat32 \<and>
     (\<forall>sg\<in>set (ds_segments ds). length (fv_bytes (sg_fields sg ! k)) < 2 ^ 32) \<and>
     length (fv_bytes (ds_active_fields ds ! k)) < 2 ^ 32 \<and>
     (\<forall>p\<in>set predicates. sp_field_index p < length (ds_fields ds) \<and>
        visible_column cfg (fv_type (ds_fields ds ! sp_field_index p)) (cols ! sp_field_index p))"

lemma sealed_segment_facts:
  assumes sealed: "sealed_from cfg ds flds sg" and len: "length flds = length (ds_fields ds)" and cap: "0 < ds_segment_capacity ds"
  shows "sg_row_count sg = ds_segment_capacity ds \<and> length (sg_fields sg) = length (ds_fields ds) \<and>
    length (sg_compressed_columns sg) = length (ds_fields ds) \<and>
    (\<forall>i<length (ds_fields ds). fv_inv (flds ! i) \<and> fv_size (flds ! i) = ds_segment_capacity ds \<and>
       fv_type (flds ! i) = fv_type (ds_fields ds ! i) \<and>
       (\<exists>b. build_column cfg (chosen_kind cfg (flds ! i)) (flds ! i) = Some b \<and> sg_fields sg ! i = bc_field b \<and>
          sg_compressed_columns sg ! i = bc_view b))"
proof -
  let ?cap = "ds_segment_capacity ds"
  have inv: "\<forall>f\<in>set flds. fv_inv f \<and> fv_size f = ?cap" and types: "map fv_type flds = map fv_type (ds_fields ds)"
    and new: "segment_new cfg ?cap ?cap flds = Some sg" using sealed by (simp_all add: sealed_from_def)
  have l: "loaded_from cfg ?cap ?cap flds sg" using segment_new_loaded [OF _ new] inv by simp
  then have s: "sg_sealed sg" "sg_row_count sg = ?cap" using cap by (simp_all add: loaded_from_def ResolveRowCount_def capped_rows_def)
  have "fv_type (flds ! i) = fv_type (ds_fields ds ! i)" if "i < length (ds_fields ds)" for i
    using arg_cong [OF types, of "\<lambda>ts. ts ! i"] that len by simp
  moreover have "\<exists>b. build_column cfg (chosen_kind cfg (flds ! i)) (flds ! i) = Some b \<and> sg_fields sg ! i = bc_field b \<and>
      sg_compressed_columns sg ! i = bc_view b" if "i < length (ds_fields ds)" for i
    using loaded_from_column [OF l s(1), of i] that len by metis
  ultimately show ?thesis using l s inv len by (simp add: loaded_from_def)
qed

text \<open>The view of a readable column reads its cells.\<close>

lemma sealed_column_reads:
  assumes sealed: "sealed_from cfg ds flds sg" "length flds = length (ds_fields ds)"
    and cap: "0 < ds_segment_capacity ds" "ds_segment_capacity ds < 2 ^ 32" and i: "i < length (ds_fields ds)"
    and readable: "visible_column cfg (fv_type (ds_fields ds ! i)) cells" and sub: "set (fv_cells (flds ! i)) \<subseteq> set cells"
    and row: "row < ds_segment_capacity ds"
  shows "ReadNumericValue (sg_compressed_columns sg ! i) row = Some (cell_number (fv_cells (flds ! i) ! row))"
proof -
  let ?f = "flds ! i"
  from sealed_segment_facts [OF sealed cap(1)] i
  have f: "fv_inv ?f" "fv_size ?f = ds_segment_capacity ds" "fv_type ?f = fv_type (ds_fields ds ! i)"
    and "\<exists>b. build_column cfg (chosen_kind cfg ?f) ?f = Some b \<and> sg_compressed_columns sg ! i = bc_view b" by blast+
  then obtain b where b: "build_column cfg (chosen_kind cfg ?f) ?f = Some b" "sg_compressed_columns sg ! i = bc_view b" by blast
  have "\<forall>c\<in>set (fv_cells ?f). cell_exact c" using readable sub by (auto simp: visible_column_def)
  then have "is_encodable (fv_type ?f) \<longrightarrow> exact_ints ?f \<and> bool_cells_ok ?f" using cells_exact [OF f(1)] by blast
  moreover have "\<not> is_encodable (fv_type ?f) \<longrightarrow> bool_cells_ok ?f" by (auto simp: bool_cells_ok_def is_encodable_def)
  ultimately have "predicate_column cfg ?f"
    using readable f cap by (auto simp: predicate_column_def visible_column_def)
  then show ?thesis using predicate_view [OF _ b(1)] b(2) f(2) row by simp
qed

lemma vector_column_kept:
  assumes "fv_inv f" and "fv_type f = kVectorFloat32" and "build_column cfg (chosen_kind cfg f) f = Some b"
  shows "bc_field b = f"
proof -
  have kind: "chosen_kind cfg f = CkNone" using assms(2) by (intro varlen_never_encoded) (simp add: is_varlen_def)
  obtain k d a where e: "encode_column (chosen_kind cfg f) f = Some (k, d, a)"
    using encode_column_total [of f "chosen_kind cfg f"] assms(1) by (metis fv_inv_def prod_cases3)
  then have "k = CkNone" unfolding kind using assms(2) by (auto simp: encode_column_def split: Option.bind_splits)
  with build_column_kind [OF e assms(3)] show ?thesis by auto
qed

end
