(* ===== verification/TableRead.thy ===== *)
theory TableRead
  imports VectorTable
begin

text \<open>
  Reading a whole dataset: its sealed segments through their compressed views and its active rows
  through their columns, the way queries read them.
\<close>

text \<open>
  C2. What was appended is what is read: in a dataset that holds a table, every column of numbers reads
  as its cells, nulls included, in the sealed segments through their compressed views
  (\<open>ReadNumericValue\<close>) and in the active rows through the column (\<open>ReadNumeric\<close>), and the parts make up
  the column.  Integer and boolean columns also read as their integers (\<open>ReadInt64Value\<close>), and a
  predicate scan of the view of a segment selects exactly the rows whose cell satisfies the
  comparison.  The conditions are that integers are below \<open>2 ^ 53\<close> in absolute value and booleans 0 or 1,
  that segments have less than \<open>2 ^ 32\<close> rows, and, for a column of doubles, that the least ratio of the
  configuration is above 1, as it is by default.
\<close>

theorem dataset_reads_back:
  assumes rep: "dataset_rep cfg ds cols" and i: "i < length (ds_fields ds)" and cap: "ds_segment_capacity ds < 2 ^ 32"
    and visible: "visible_column cfg (fv_type (ds_fields ds ! i)) (cols ! i)"
  shows "let m = length (ds_segments ds); n = ds_segment_capacity ds;
             view = (\<lambda>s. sg_compressed_columns (ds_segments ds ! s) ! i)
         in length (cols ! i) = m * n + ActiveRowCount ds \<and>
            (\<forall>s<m. \<forall>r<n. ReadNumericValue (view s) r = Some (cell_number (cols ! i ! (s * n + r)))) \<and>
            (\<forall>r<ActiveRowCount ds. ReadNumeric (ds_active_fields ds ! i) r = Some (cell_number (cols ! i ! (m * n + r)))) \<and>
            (is_encodable (fv_type (ds_fields ds ! i)) \<longrightarrow>
              (\<forall>s<m. (\<forall>r<n. ReadInt64Value (view s) r = Some (cell_int (cols ! i ! (s * n + r)))) \<and>
                (\<forall>p k. no_null_check p \<longrightarrow>
                   (\<exists>k'. BuildMaskCompressed (view s) p (Some k) = Some (True, Some k') \<and>
                      (\<forall>r. mask_Get k' r \<longleftrightarrow>
                         r < n \<and> (\<exists>x. cell_int (cols ! i ! (s * n + r)) = Some x \<and> CompareInt64 x (cp_i64 p) (cp_op p)))))))"
proof -
  let ?n = "ds_segment_capacity ds"
  have act: "active_ok ds" using rep by (auto simp: dataset_rep_def)
  then have pos: "0 < ?n" by (auto simp: active_ok_def)
  obtain chunks where m: "length chunks = length (ds_segments ds)"
    and sealed: "\<And>j. j < length chunks \<Longrightarrow> sealed_from cfg ds (chunks ! j) (ds_segments ds ! j) \<and> length (chunks ! j) = length (ds_fields ds)"
    and rows: "\<And>j i r. j < length chunks \<Longrightarrow> i < length (ds_fields ds) \<Longrightarrow> r < ?n \<Longrightarrow> fv_cells (chunks ! j ! i) ! r = cols ! i ! (j * ?n + r)"
    and active: "\<And>i r. i < length (ds_fields ds) \<Longrightarrow> r < ActiveRowCount ds \<Longrightarrow>
      fv_cells (ds_active_fields ds ! i) ! r = cols ! i ! (length chunks * ?n + r)"
    and sub: "\<And>j i. j < length chunks \<Longrightarrow> i < length (ds_fields ds) \<Longrightarrow> set (fv_cells (chunks ! j ! i)) \<subseteq> set (cols ! i)"
    and size: "\<And>i. i < length (ds_fields ds) \<Longrightarrow> length (cols ! i) = length chunks * ?n + ActiveRowCount ds"
    by (rule dataset_parts [OF rep]) blast
  have "ReadNumericValue (sg_compressed_columns (ds_segments ds ! s) ! i) r = Some (cell_number (cols ! i ! (s * ?n + r)))"
    if "s < length (ds_segments ds)" "r < ?n" for s r
    using sealed_column_reads [of cfg ds "chunks ! s" "ds_segments ds ! s" i "cols ! i" r] sealed [of s] sub [of s i]
      rows [of s i r] that m i pos cap visible by simp
  moreover have "ReadNumeric (ds_active_fields ds ! i) r = Some (cell_number (cols ! i ! (length (ds_segments ds) * ?n + r)))"
    if "r < ActiveRowCount ds" for r
    using ReadNumeric_cell [of "ds_active_fields ds ! i" r] active_types [OF act i] active [OF i that] that m by simp
  ultimately show ?thesis
    using size [OF i] m sealed_reads_back [OF rep _ i _ cap] visible by (simp add: Let_def visible_column_def)
qed

theorem dataset_reads_back_witness:
  "\<exists>ds. length (ds_segments ds) = 1 \<and> dataset_rep g_compression_config ds [[CInt32 7, CNull, CInt32 300, CInt32 9]] \<and>
     ReadInt64Value (sg_compressed_columns (ds_segments ds ! 0) ! 0) 2 = Some (Some 300) \<and>
     ReadNumeric (ds_active_fields ds ! 0) 0 = Some (Some (f64_of_int 9))"
proof -
  obtain ds where ds: "dataset_rep g_compression_config ds [[CInt32 7, CNull, CInt32 300, CInt32 9]]"
    "length (ds_segments ds) = 1" "ds_segment_capacity ds = 3" "length (ds_fields ds) = 1"
    "fv_type (ds_fields ds ! 0) = kInt32" "ActiveRowCount ds = 1" by (rule example_dataset)
  have visible: "visible_column g_compression_config kInt32 [CInt32 7, CNull, CInt32 300, CInt32 9]"
    by (simp add: visible_column_def has_numeric_stats_def cell_exact_def)
  have "ReadInt64Value (sg_compressed_columns (ds_segments ds ! 0) ! 0) 2 = Some (Some 300)"
    "ReadNumeric (ds_active_fields ds ! 0) 0 = Some (Some (f64_of_int 9))"
    using dataset_reads_back [OF ds(1), of 0] ds visible by (simp_all add: Let_def is_encodable_def cell_int_def cell_number_def)
  then show ?thesis using ds by blast
qed

end
