(* ===== verification/VectorSearchProps.thy ===== *)
theory VectorSearchProps
  imports VectorTable
begin

text \<open>
  The searches of the parts of a dataset put together: \<open>VectorSearch\<close>, and the parts of
  \<open>VectorSearchCandidates\<close>.
\<close>

section \<open>One part\<close>

lemma search_part:
  assumes item: "wk_candidates item = None" "k < length (wk_fields item)" "vector_column (wk_fields item ! k)"
      "fv_size (wk_fields item ! k) = len"
    and matches: "\<And>row. row < len \<Longrightarrow>
      Matches (wk_fields item) row (wk_compressed item) predicates = Some (cells_match cells predicates row)"
    and cells: "cells k = fv_cells (wk_fields item ! k)"
      "\<And>i r. i < n \<Longrightarrow> r < len \<Longrightarrow> cells i ! r = cols ! i ! (wk_base item + r)"
    and n: "k < n" "\<And>p. p \<in> set predicates \<Longrightarrow> sp_field_index p < n"
  shows "search_one cpu k query dimension limit metric (query_norm cpu query dimension metric) predicates item =
    Some (offer_all limit (List.map_filter (table_hit cpu query dimension metric predicates cols k)
       [wk_base item..<wk_base item + len]) [])"
proof -
  have "search_one cpu k query dimension limit metric (query_norm cpu query dimension metric) predicates item =
      Some (fold (offer_hit limit) (part_hits cpu query dimension metric (query_norm cpu query dimension metric) (wk_base item)
        (cells k) (filter (cells_match cells predicates) [0..<len])) [])"
    unfolding search_one_def item(1) cells(1)
    by (rule SearchField_hits [OF item(2,3), where sel = "cells_match cells predicates"])
       (use matches item(4) in auto)
  also have "part_hits cpu query dimension metric (query_norm cpu query dimension metric) (wk_base item)
        (cells k) (filter (cells_match cells predicates) [0..<len]) =
      List.map_filter (table_hit cpu query dimension metric predicates cols k) [wk_base item..<wk_base item + len]"
    by (rule part_hits_table [OF cells(2) n])
  finally show ?thesis by (simp add: offer_all_def)
qed

lemma segment_matches:
  assumes s: "searchable cfg ds cols k predicates" and cap: "0 < ds_segment_capacity ds"
    and sealed: "sealed_from cfg ds flds sg" "length flds = length (ds_fields ds)"
    and sub: "\<And>i. i < length (ds_fields ds) \<Longrightarrow> set (fv_cells (flds ! i)) \<subseteq> set (cols ! i)"
    and row: "row < ds_segment_capacity ds"
  shows "Matches (sg_fields sg) row (Some (sg_compressed_columns sg)) predicates =
      Some (cells_match (\<lambda>i. fv_cells (flds ! i)) predicates row)"
proof (rule Matches_cells)
  have small: "ds_segment_capacity ds < 2 ^ 32"
    and p: "\<And>p. p \<in> set predicates \<Longrightarrow> sp_field_index p < length (ds_fields ds) \<and>
        visible_column cfg (fv_type (ds_fields ds ! sp_field_index p)) (cols ! sp_field_index p)"
    using s by (auto simp: searchable_def)
  from sealed_segment_facts [OF sealed cap] have len: "length (sg_fields sg) = length (ds_fields ds)"
    "length (sg_compressed_columns sg) = length (ds_fields ds)" by blast+
  fix p assume mem: "p \<in> set predicates"
  have "ReadNumericValue (sg_compressed_columns sg ! sp_field_index p) row = Some (cell_number (fv_cells (flds ! sp_field_index p) ! row))"
    by (rule sealed_column_reads [OF sealed cap small _ _ sub row]) (use p [OF mem] in simp_all)
  then show "sp_field_index p < length (sg_fields sg) \<and>
    (case Some (sg_compressed_columns sg) of
       Some columns \<Rightarrow> if sp_field_index p < length columns then ReadNumericValue (columns ! sp_field_index p) row
                      else ReadNumeric (sg_fields sg ! sp_field_index p) row
     | None \<Rightarrow> ReadNumeric (sg_fields sg ! sp_field_index p) row) = Some (cell_number (fv_cells (flds ! sp_field_index p) ! row))"
    using p [OF mem] len by simp
qed

lemma segment_vectors:
  assumes s: "searchable cfg ds cols k predicates" and cap: "0 < ds_segment_capacity ds"
    and sealed: "sealed_from cfg ds flds sg" "length flds = length (ds_fields ds)" and mem: "sg \<in> set (ds_segments ds)"
  shows "sg_fields sg ! k = flds ! k \<and> vector_column (flds ! k) \<and> fv_size (flds ! k) = ds_segment_capacity ds \<and>
    k < length (sg_fields sg) \<and> sg_row_count sg = ds_segment_capacity ds"
proof -
  have k: "k < length (ds_fields ds)" "fv_type (ds_fields ds ! k) = kVectorFloat32" "length (fv_bytes (sg_fields sg ! k)) < 2 ^ 32"
    using s mem by (auto simp: searchable_def)
  note facts = sealed_segment_facts [OF sealed cap]
  have "sg_fields sg ! k = flds ! k" using facts k(1,2) vector_column_kept by metis
  then show ?thesis using facts k by (simp add: vector_column_def)
qed

lemma search_segment:
  assumes s: "searchable cfg ds cols k predicates" and cap: "0 < ds_segment_capacity ds"
    and sealed: "sealed_from cfg ds flds sg" "length flds = length (ds_fields ds)" and mem: "sg \<in> set (ds_segments ds)"
    and rows: "\<And>i r. i < length (ds_fields ds) \<Longrightarrow> r < ds_segment_capacity ds \<Longrightarrow> fv_cells (flds ! i) ! r = cols ! i ! (base + r)"
    and sub: "\<And>i. i < length (ds_fields ds) \<Longrightarrow> set (fv_cells (flds ! i)) \<subseteq> set (cols ! i)"
  shows "search_one cpu k query dimension limit metric (query_norm cpu query dimension metric) predicates
      \<lparr>wk_fields = sg_fields sg, wk_compressed = Some (sg_compressed_columns sg), wk_base = base, wk_candidates = None\<rparr> =
    Some (offer_all limit (List.map_filter (table_hit cpu query dimension metric predicates cols k)
       [base..<base + ds_segment_capacity ds]) [])"
proof -
  let ?item = "\<lparr>wk_fields = sg_fields sg, wk_compressed = Some (sg_compressed_columns sg), wk_base = base, wk_candidates = None\<rparr>"
  have k: "k < length (ds_fields ds)" "\<And>p. p \<in> set predicates \<Longrightarrow> sp_field_index p < length (ds_fields ds)"
    using s by (auto simp: searchable_def)
  note vec = segment_vectors [OF s cap sealed mem] and matches = segment_matches [OF s cap sealed sub]
  show ?thesis
    using search_part [of ?item k "ds_segment_capacity ds" predicates "\<lambda>i. fv_cells (flds ! i)" "length (ds_fields ds)" cols cpu query dimension limit metric]
      vec matches rows k by simp
qed

lemma search_active:
  assumes s: "searchable cfg ds cols k predicates" and act: "active_ok ds"
    and rows: "\<And>i r. i < length (ds_fields ds) \<Longrightarrow> r < ActiveRowCount ds \<Longrightarrow> fv_cells (ds_active_fields ds ! i) ! r = cols ! i ! (base + r)"
  shows "search_one cpu k query dimension limit metric (query_norm cpu query dimension metric) predicates
      \<lparr>wk_fields = ds_active_fields ds, wk_compressed = None, wk_base = base, wk_candidates = None\<rparr> =
    Some (offer_all limit (List.map_filter (table_hit cpu query dimension metric predicates cols k)
       [base..<base + ActiveRowCount ds]) [])"
proof -
  let ?n = "length (ds_fields ds)"
  let ?item = "\<lparr>wk_fields = ds_active_fields ds, wk_compressed = None, wk_base = base, wk_candidates = None\<rparr>"
  have k: "k < ?n" "fv_type (ds_fields ds ! k) = kVectorFloat32" "length (fv_bytes (ds_active_fields ds ! k)) < 2 ^ 32"
    and p: "\<And>p. p \<in> set predicates \<Longrightarrow> sp_field_index p < ?n"
    using s by (auto simp: searchable_def)
  note f = active_types [OF act] and len = active_length [OF act]
  have matches: "Matches (ds_active_fields ds) row None predicates =
      Some (cells_match (\<lambda>i. fv_cells (ds_active_fields ds ! i)) predicates row)" if "row < ActiveRowCount ds" for row
    by (rule Matches_cells) (use p f len that ReadNumeric_cell in simp)
  show ?thesis
    using search_part [of ?item k "ActiveRowCount ds" predicates "\<lambda>i. fv_cells (ds_active_fields ds ! i)" ?n cols cpu query dimension limit metric]
      matches rows k p f len by (simp add: vector_column_def)
qed

section \<open>The whole search\<close>

lemma map_filter_upt_parts:
  "concat (map (\<lambda>j. List.map_filter g [j * c..<j * c + c]) [0..<m]) = List.map_filter g [0..<m * c]"
proof (induction m)
  case (Suc m)
  have "[0..<Suc m * c] = [0..<m * c] @ [m * c..<m * c + c]"
    using upt_add_eq_append [of 0 "m * c" c] by (simp add: add.commute)
  then show ?case using Suc by (simp add: List.map_filter_def)
qed simp

lemma map_ub_append:
  "map_ub f (xs @ ys) = do { us \<leftarrow> map_ub f xs; vs \<leftarrow> map_ub f ys; Some (us @ vs) }"
  by (induction xs) (auto split: Option.bind_split)

lemma map_filter_append_list: "List.map_filter g (xs @ ys) = List.map_filter g xs @ List.map_filter g ys"
  by (simp add: List.map_filter_def)

lemma map_ub_all2: "list_all2 (\<lambda>x y. f x = Some y) xs ys \<Longrightarrow> map_ub f xs = Some ys"
  by (induction rule: list_all2_induct) simp_all

lemma VectorSearch_hits:
  assumes rep: "dataset_rep cfg ds cols" and s: "searchable cfg ds cols k predicates"
    and q: "0 < dimension" "0 < limit" "VectorDimension k ds \<in> {0, dimension}" "valid_query ds query dimension predicates"
    and cpu_only: "\<And>rows. \<not> gpu_wanted gpu rows dimension"
  shows "VectorSearch cpu gpu ds k query dimension limit metric predicates =
    Some (Some (top_k hit_key limit (table_hits cpu query dimension metric predicates cols k)))"
proof -
  let ?n = "length (ds_fields ds)" and ?cap = "ds_segment_capacity ds" and ?A = "ActiveRowCount ds"
  let ?norm = "query_norm cpu query dimension metric"
  let ?g = "table_hit cpu query dimension metric predicates cols k"
  let ?search = "search_one cpu k query dimension limit metric ?norm predicates"
  let ?item = "\<lambda>j. \<lparr>wk_fields = sg_fields (ds_segments ds ! j), wk_compressed = Some (sg_compressed_columns (ds_segments ds ! j)),
       wk_base = j * ?cap, wk_candidates = None\<rparr>"
  have act: "active_ok ds" using rep by (auto simp: dataset_rep_def)
  then have cap: "0 < ?cap" by (auto simp: active_ok_def)
  have k: "k < ?n" "fv_type (ds_fields ds ! k) = kVectorFloat32" using s by (simp_all add: searchable_def)
  obtain chunks where m: "length chunks = length (ds_segments ds)"
    and sealed: "\<And>j. j < length chunks \<Longrightarrow> sealed_from cfg ds (chunks ! j) (ds_segments ds ! j) \<and> length (chunks ! j) = ?n"
    and rows: "\<And>j i r. j < length chunks \<Longrightarrow> i < ?n \<Longrightarrow> r < ?cap \<Longrightarrow> fv_cells (chunks ! j ! i) ! r = cols ! i ! (j * ?cap + r)"
    and active: "\<And>i r. i < ?n \<Longrightarrow> r < ?A \<Longrightarrow> fv_cells (ds_active_fields ds ! i) ! r = cols ! i ! (length chunks * ?cap + r)"
    and sub: "\<And>j i. j < length chunks \<Longrightarrow> i < ?n \<Longrightarrow> set (fv_cells (chunks ! j ! i)) \<subseteq> set (cols ! i)"
    and size: "\<And>i. i < ?n \<Longrightarrow> length (cols ! i) = length chunks * ?cap + ?A"
    by (rule dataset_parts [OF rep]) blast
  let ?m = "length chunks"
  have seg: "sg_row_count (ds_segments ds ! j) = ?cap \<and> length (sg_fields (ds_segments ds ! j)) = ?n" if "j < ?m" for j
    using sealed_segment_facts [of cfg ds "chunks ! j" "ds_segments ds ! j"] sealed [OF that] cap by simp
  then have counts: "\<forall>sg\<in>set (ds_segments ds). sg_row_count sg = ?cap \<and> length (sg_fields sg) = ?n"
    using m by (auto simp: in_set_conv_nth)
  then have sum: "sum_list (map sg_row_count (ds_segments ds)) = ?m * ?cap"
  proof -
    have "map sg_row_count (ds_segments ds) = replicate ?m ?cap" using counts m by (intro nth_equalityI) auto
    then show ?thesis by (simp add: sum_list_replicate)
  qed
  have items: "segment_work None (ds_segments ds) 0 = map ?item [0..<?m]"
    using segment_work_nth [of "ds_segments ds" ?cap 0] counts m by (intro nth_equalityI) auto
  have one: "?search (?item j) = Some (offer_all limit (List.map_filter ?g [j * ?cap..<j * ?cap + ?cap]) [])" if "j < ?m" for j
    using search_segment [OF s cap conjunct1 [OF sealed [OF that]] conjunct2 [OF sealed [OF that]], of "j * ?cap"]
      that rows [OF that] sub [OF that] m by simp
  define parts where "parts = map (\<lambda>j. List.map_filter ?g [j * ?cap..<j * ?cap + ?cap]) [0..<?m] @
    (if ?A \<noteq> 0 then [List.map_filter ?g [?m * ?cap..<?m * ?cap + ?A]] else [])"
  have "list_all2 (\<lambda>x y. ?search x = Some y) (active_work ds (?m * ?cap))
      (map (\<lambda>hits. offer_all limit hits []) (if ?A \<noteq> 0 then [List.map_filter ?g [?m * ?cap..<?m * ?cap + ?A]] else []))"
    using search_active [OF s act active] by (simp add: active_work_def)
  then have found: "map_ub ?search (segment_work None (ds_segments ds) 0 @ active_work ds (?m * ?cap)) =
      Some (map (\<lambda>hits. offer_all limit hits []) parts)"
    using one unfolding items parts_def map_append
    by (intro map_ub_all2 list_all2_appendI) (simp_all add: list_all2_conv_all_nth)
  have whole: "concat parts = table_hits cpu query dimension metric predicates cols k"
  proof -
    have "concat parts = List.map_filter ?g [0..<?m * ?cap] @ List.map_filter ?g [?m * ?cap..<?m * ?cap + ?A]"
      unfolding parts_def concat_append map_filter_upt_parts by (simp add: List.map_filter_def)
    also have "\<dots> = List.map_filter ?g [0..<?m * ?cap + ?A]"
      using upt_add_eq_append [of 0 "?m * ?cap" ?A] by (simp add: List.map_filter_def)
    finally show ?thesis by (simp add: table_hits_def size [OF k(1)])
  qed
  have merged: "sorted_hits (offer_all limit (concat (map (\<lambda>hits. offer_all limit hits []) parts)) []) =
      top_k hit_key limit (concat parts)"
    by (rule merge_parts [OF q(2)]) (use table_hits_ok [of cpu query dimension metric predicates cols k] in \<open>simp_all add: whole\<close>)
  have "\<not> list_ex (\<lambda>sg. k \<ge> length (sg_fields sg)) (ds_segments ds)" using counts k(1) by (auto simp: list_ex_iff)
  moreover have "offer_all limit [] [] = []" by (simp add: offer_all_def)
  ultimately show ?thesis
    using q k cpu_only found merged whole sum by (auto simp: VectorSearch_def)
qed

section \<open>The search among candidates\<close>

lemma distinct_unique_sorted: "sorted rows \<Longrightarrow> distinct (remdups_adj rows)"
  by (induction rows rule: remdups_adj.induct) auto

lemma rows_between_eq:
  assumes "sorted rows" and "distinct rows"
  shows "rows_between rows base (base + len) = filter (\<lambda>r. r \<in> set rows) [base..<base + len]"
proof (rule sorted_distinct_set_unique)
  have drop: "set (dropWhile (\<lambda>r. r < base) rows) = {r \<in> set rows. base \<le> r}" if "sorted rows" for rows :: "nat list"
    using that by (induction rows) auto
  have take: "set (takeWhile (\<lambda>r. r < stop) rows) = {r \<in> set rows. r < stop}" if "sorted rows" for rows :: "nat list" and stop
    using that by (induction rows) auto
  have "sorted (dropWhile (\<lambda>r. r < base) rows)" using assms(1) by (simp add: sorted_wrt_dropWhile)
  then show "sorted (rows_between rows base (base + len))" "set (rows_between rows base (base + len)) = set (filter (\<lambda>r. r \<in> set rows) [base..<base + len])"
    using drop [OF assms(1)] take by (auto simp: rows_between_def sorted_wrt_takeWhile)
  show "distinct (rows_between rows base (base + len))" using assms(2) by (simp add: rows_between_def)
qed (simp_all add: sorted_wrt_filter)

lemma rows_between_shift:
  assumes "sorted rows" and "distinct rows"
  shows "map (\<lambda>r. r - base) (rows_between rows base (base + len)) = filter (\<lambda>r. base + r \<in> set rows) [0..<len]"
proof -
  have "[base..<base + len] = map ((+) base) [0..<len]" by (rule nth_equalityI) simp_all
  then show ?thesis unfolding rows_between_eq [OF assms] by (simp add: filter_map comp_def)
qed

text \<open>A part that is searched for the rows of a list it was given.\<close>

lemma search_given:
  assumes item: "wk_candidates item = Some rows" "k < length (wk_fields item)" "vector_column (wk_fields item ! k)"
      "fv_size (wk_fields item ! k) = len" "\<forall>r\<in>set rows. r < len"
  shows "search_one cpu k query dimension limit metric norm predicates item =
    Some (offer_all limit (part_hits cpu query dimension metric norm (wk_base item) (fv_cells (wk_fields item ! k)) rows) [])"
proof -
  have "search_one cpu k query dimension limit metric norm predicates item =
      Some (fold (offer_hit limit) (part_hits cpu query dimension metric norm (wk_base item) (fv_cells (wk_fields item ! k)) rows) [])"
    unfolding search_one_def item(1)
    by (rule SearchField_hits [OF item(2,3), where sel = "\<lambda>_. True"]) (use item(4,5) in auto)
  then show ?thesis by (simp add: offer_all_def)
qed

text \<open>The hits of a table among requested rows below \<open>sealed\<close> and all rows from there on.\<close>

definition requested_hits ::
  "cpu_features \<Rightarrow> f32 list \<Rightarrow> nat \<Rightarrow> vector_metric \<Rightarrow> search_predicate list \<Rightarrow> nat list \<Rightarrow> nat \<Rightarrow> cell list list \<Rightarrow> nat \<Rightarrow> search_hit list" where
  "requested_hits cpu query dimension metric predicates requested sealed cols k =
     List.map_filter (\<lambda>r. if r < sealed \<and> r \<notin> set requested then None
                          else table_hit cpu query dimension metric predicates cols k r) [0..<length (cols ! k)]"

lemma requested_hits_filter:
  "requested_hits cpu query dimension metric predicates requested sealed cols k =
   filter (\<lambda>h. hit_row h < sealed \<longrightarrow> hit_row h \<in> set requested) (table_hits cpu query dimension metric predicates cols k)"
proof -
  have eq: "List.map_filter (\<lambda>r. if r < sealed \<and> r \<notin> set requested then None else g r) rs =
      filter (\<lambda>h. hit_row h < sealed \<longrightarrow> hit_row h \<in> set requested) (List.map_filter g rs)"
    if "\<And>r h. g r = Some h \<Longrightarrow> hit_row h = r" for g :: "nat \<Rightarrow> search_hit option" and rs
    using that by (induction rs) (auto simp: List.map_filter_simps split: option.split)
  show ?thesis unfolding requested_hits_def table_hits_def by (rule eq) (use table_hit_row in blast)
qed

lemma requested_hits_ok:
  "finite_hits (requested_hits cpu query dimension metric predicates requested sealed cols k) \<and>
   distinct (map hit_row (requested_hits cpu query dimension metric predicates requested sealed cols k))"
  using table_hits_ok [of cpu query dimension metric predicates cols k]
  unfolding requested_hits_filter by (auto simp: finite_hits_def distinct_map_filter)

text \<open>A sealed segment that holds the rows of the table from \<open>base\<close> on.\<close>

definition segment_rows :: "nat \<Rightarrow> cell list list \<Rightarrow> nat \<Rightarrow> search_predicate list \<Rightarrow> nat \<Rightarrow> segment \<Rightarrow> bool" where
  "segment_rows cap cols k predicates base sg \<longleftrightarrow>
     sg_row_count sg = cap \<and> k < length (sg_fields sg) \<and> vector_column (sg_fields sg ! k) \<and> fv_size (sg_fields sg ! k) = cap \<and>
     (\<forall>r<cap. fv_cells (sg_fields sg ! k) ! r = cols ! k ! (base + r) \<and>
        Matches (sg_fields sg) r (Some (sg_compressed_columns sg)) predicates = Some (cells_match ((!) cols) predicates (base + r)))"

lemma candidate_work_hits:
  assumes "sorted candidates" and "distinct candidates"
    and "\<And>j. j < length segments \<Longrightarrow> segment_rows cap cols k predicates (base + j * cap) (segments ! j)"
  shows "\<exists>items filtered parts. candidate_work predicates candidates segments base = Some (items, filtered) \<and>
    map_ub (search_one cpu k query dimension limit metric (query_norm cpu query dimension metric) predicates) items =
      Some (map (\<lambda>hits. offer_all limit hits []) parts) \<and>
    concat parts = List.map_filter (\<lambda>r. if r \<in> set candidates then table_hit cpu query dimension metric predicates cols k r else None)
      [base..<base + length segments * cap]"
  using assms(3)
proof (induction segments arbitrary: base)
  case Nil
  then show ?case by (simp add: List.map_filter_simps)
next
  case (Cons sg segments)
  let ?norm = "query_norm cpu query dimension metric"
  let ?search = "search_one cpu k query dimension limit metric ?norm predicates"
  let ?g = "\<lambda>r. if r \<in> set candidates then table_hit cpu query dimension metric predicates cols k r else None"
  have sg: "segment_rows cap cols k predicates base sg" using Cons.prems [of 0] by simp
  have "segment_rows cap cols k predicates (base + cap + j * cap) (segments ! j)" if "j < length segments" for j
    using Cons.prems [of "Suc j"] that by (simp add: add.assoc)
  from Cons.IH [OF this] obtain items filtered parts where
    rest: "candidate_work predicates candidates segments (base + cap) = Some (items, filtered)"
      "map_ub ?search items = Some (map (\<lambda>hits. offer_all limit hits []) parts)"
      "concat parts = List.map_filter ?g [base + cap..<base + cap + length segments * cap]" by blast
  define rows where "rows = filter (\<lambda>r. cells_match ((!) cols) predicates (base + r)) (filter (\<lambda>r. base + r \<in> set candidates) [0..<cap])"
  define here where "here = part_hits cpu query dimension metric ?norm base (fv_cells (sg_fields sg ! k)) rows"
  have count: "sg_row_count sg = cap" and bound: "\<forall>r\<in>set rows. r < cap" using sg by (auto simp: segment_rows_def rows_def)
  have "filter_ub (\<lambda>row. if predicates = [] then Some True else Matches (sg_fields sg) row (Some (sg_compressed_columns sg)) predicates)
      (map (\<lambda>r. r - base) (rows_between candidates base (base + sg_row_count sg))) = Some rows"
    unfolding count rows_between_shift [OF assms(1,2)] rows_def
    by (rule filter_ub_Some) (use sg in \<open>auto simp: segment_rows_def cells_match_def\<close>)
  then have work: "candidate_work predicates candidates (sg # segments) base =
      Some ((if rows = [] then [] else [\<lparr>wk_fields = sg_fields sg, wk_compressed = Some (sg_compressed_columns sg), wk_base = base,
          wk_candidates = Some rows\<rparr>]) @ items, map ((+) base) rows @ filtered)"
    using rest(1) by (simp add: count)
  have found: "?search \<lparr>wk_fields = sg_fields sg, wk_compressed = Some (sg_compressed_columns sg), wk_base = base,
      wk_candidates = Some rows\<rparr> = Some (offer_all limit here [])"
    by (subst search_given [where rows = rows and len = cap]) (use sg bound in \<open>auto simp: segment_rows_def here_def\<close>)
  have hits: "here = List.map_filter ?g [base..<base + cap]"
  proof -
    have shift: "[base..<base + cap] = map ((+) base) [0..<cap]" by (rule nth_equalityI) simp_all
    show ?thesis
      unfolding here_def part_hits_def rows_def map_filter_filter shift map_filter_map
      by (rule map_filter_cong_set) (use sg in \<open>auto simp: segment_rows_def table_hit_def row_hit_def Let_def split: option.split\<close>)
  qed
  have "[base..<base + length (sg # segments) * cap] = [base..<base + cap] @ [base + cap..<base + cap + length segments * cap]"
    using upt_add_eq_append [of base "base + cap" "length segments * cap"] by (simp add: add.assoc)
  then have whole: "List.map_filter ?g [base..<base + length (sg # segments) * cap] = here @ concat parts"
    by (simp add: hits rest(3) List.map_filter_def)
  show ?case
  proof (cases "rows = []")
    case True
    then have "here = []" by (simp add: here_def part_hits_def List.map_filter_simps)
    then show ?thesis using work rest(2) whole True by auto
  next
    case False
    then have "map_ub ?search ([\<lparr>wk_fields = sg_fields sg, wk_compressed = Some (sg_compressed_columns sg), wk_base = base,
          wk_candidates = Some rows\<rparr>] @ items) = Some (map (\<lambda>hits. offer_all limit hits []) (here # parts))"
      using found rest(2) by simp
    then show ?thesis using work whole False by (intro exI [of _ "here # parts"] exI conjI) auto
  qed
qed

lemma table_segments:
  assumes rep: "dataset_rep cfg ds cols" and s: "searchable cfg ds cols k predicates"
  shows "(\<forall>j<length (ds_segments ds). segment_rows (ds_segment_capacity ds) cols k predicates (j * ds_segment_capacity ds) (ds_segments ds ! j)) \<and>
    length (cols ! k) = length (ds_segments ds) * ds_segment_capacity ds + ActiveRowCount ds \<and>
    sum_list (map sg_row_count (ds_segments ds)) = length (ds_segments ds) * ds_segment_capacity ds \<and>
    map_ub (search_one cpu k query dimension limit metric (query_norm cpu query dimension metric) predicates)
      (active_work ds (length (ds_segments ds) * ds_segment_capacity ds)) =
    Some (map (\<lambda>hits. offer_all limit hits []) (if ActiveRowCount ds = 0 then []
      else [List.map_filter (table_hit cpu query dimension metric predicates cols k)
              [length (ds_segments ds) * ds_segment_capacity ds..<length (cols ! k)]]))"
proof -
  let ?n = "length (ds_fields ds)" and ?cap = "ds_segment_capacity ds" and ?A = "ActiveRowCount ds"
  have act: "active_ok ds" using rep by (auto simp: dataset_rep_def)
  then have cap: "0 < ?cap" by (auto simp: active_ok_def)
  have k: "k < ?n" "\<And>p. p \<in> set predicates \<Longrightarrow> sp_field_index p < ?n" using s by (auto simp: searchable_def)
  obtain chunks where m: "length chunks = length (ds_segments ds)"
    and sealed: "\<And>j. j < length chunks \<Longrightarrow> sealed_from cfg ds (chunks ! j) (ds_segments ds ! j) \<and> length (chunks ! j) = ?n"
    and rows: "\<And>j i r. j < length chunks \<Longrightarrow> i < ?n \<Longrightarrow> r < ?cap \<Longrightarrow> fv_cells (chunks ! j ! i) ! r = cols ! i ! (j * ?cap + r)"
    and active: "\<And>i r. i < ?n \<Longrightarrow> r < ?A \<Longrightarrow> fv_cells (ds_active_fields ds ! i) ! r = cols ! i ! (length chunks * ?cap + r)"
    and sub: "\<And>j i. j < length chunks \<Longrightarrow> i < ?n \<Longrightarrow> set (fv_cells (chunks ! j ! i)) \<subseteq> set (cols ! i)"
    and size: "\<And>i. i < ?n \<Longrightarrow> length (cols ! i) = length chunks * ?cap + ?A"
    by (rule dataset_parts [OF rep]) blast
  have segment: "segment_rows ?cap cols k predicates (j * ?cap) (ds_segments ds ! j)" if j: "j < length chunks" for j
  proof -
    note sl = conjunct1 [OF sealed [OF j]] conjunct2 [OF sealed [OF j]]
    have mem: "ds_segments ds ! j \<in> set (ds_segments ds)" using j m by simp
    have "cells_match (\<lambda>i. fv_cells (chunks ! j ! i)) predicates r = cells_match ((!) cols) predicates (j * ?cap + r)" if "r < ?cap" for r
      using rows [OF j _ that] k(2) by (auto simp: cells_match_def list_all_iff)
    then show ?thesis
      using segment_vectors [OF s cap sl mem] segment_matches [OF s cap sl sub [OF j]] rows [OF j k(1)] by (simp add: segment_rows_def)
  qed
  have "map sg_row_count (ds_segments ds) = replicate (length chunks) ?cap"
    using segment m by (intro nth_equalityI) (auto simp: segment_rows_def)
  then have "sum_list (map sg_row_count (ds_segments ds)) = length chunks * ?cap" by (simp add: sum_list_replicate)
  then show ?thesis
    using segment m size [OF k(1)] search_active [OF s act active, of cpu query dimension limit metric]
    by (simp add: active_work_def)
qed

end
