(* ===== verification/VectorResults.thy ===== *)
theory VectorResults
  imports VectorSearchProps
begin

text \<open>
  The properties of the vector search: it is exact on the CPU; and what it does when the GPU is forced
  and no row satisfies the predicates.
\<close>

section \<open>Exactness\<close>

text \<open>C4. \<open>VectorSearch\<close> on the CPU is exact on the whole table: over any mix of sealed, encoded segments and
  active rows, with any number of nulls, the result is the first \<open>limit\<close> of all rows that satisfy the
  predicates and have a vector of the dimension of the query at a finite distance, in order of distance
  and row.  The predicates are on columns of numbers: integers below \<open>2 ^ 53\<close> in absolute value, booleans
  that are 0 or 1, and doubles when the least ratio of the configuration is above 1, as by default; each
  part of the dataset has less than 4 GiB of vectors (\<open>searchable\<close>).\<close>

theorem VectorSearch_exact:
  assumes "dataset_rep cfg ds cols" and "searchable cfg ds cols k predicates"
    and "0 < dimension" and "0 < limit" and "VectorDimension k ds \<in> {0, dimension}" and "valid_query ds query dimension predicates"
    and "\<And>rows. \<not> gpu_wanted gpu rows dimension"
  shows "VectorSearch cpu gpu ds k query dimension limit metric predicates =
    Some (Some (take limit (sort_key hit_key (table_hits cpu query dimension metric predicates cols k))))"
  using VectorSearch_hits [OF assms] by (simp add: top_k_def)

text \<open>C15. \<open>VectorSearchCandidates\<close> on the CPU is the same search restricted to the requested rows of the
  sealed segments, whatever the order and repetitions of the request, and to all active rows, under the
  same conditions.\<close>

theorem VectorSearchCandidates_exact:
  assumes rep: "dataset_rep cfg ds cols" and s: "searchable cfg ds cols k predicates"
    and q: "0 < dimension" "0 < limit" "VectorDimension k ds = dimension" "valid_query ds query dimension predicates"
    and cpu_only: "\<And>rows. \<not> gpu_wanted gpu rows dimension"
  shows "VectorSearchCandidates cpu gpu ds k query dimension limit metric requested predicates =
    Some (Some (take limit (sort_key hit_key (filter
      (\<lambda>h. hit_row h < length (ds_segments ds) * ds_segment_capacity ds \<longrightarrow> hit_row h \<in> set requested)
      (table_hits cpu query dimension metric predicates cols k)))))"
proof -
  let ?cap = "ds_segment_capacity ds" and ?m = "length (ds_segments ds)" and ?norm = "query_norm cpu query dimension metric"
  let ?search = "search_one cpu k query dimension limit metric ?norm predicates"
  let ?c = "remdups_adj (sort requested)" and ?hit = "table_hit cpu query dimension metric predicates cols k"
  note t = table_segments [OF rep s, of cpu query dimension limit metric]
  have c: "sorted ?c" "distinct ?c" "set ?c = set requested" by (simp_all add: sorted_remdups_adj distinct_unique_sorted)
  obtain items filtered parts where w: "candidate_work predicates ?c (ds_segments ds) 0 = Some (items, filtered)"
    "map_ub ?search items = Some (map (\<lambda>hits. offer_all limit hits []) parts)"
    "concat parts = List.map_filter (\<lambda>r. if r \<in> set requested then ?hit r else None) [0..<?m * ?cap]"
    using candidate_work_hits [OF c(1,2), of "ds_segments ds" ?cap cols k predicates 0 cpu query dimension limit metric] t
    unfolding c(3) by auto
  define active where "active = (if ActiveRowCount ds = 0 then [] else [List.map_filter ?hit [?m * ?cap..<length (cols ! k)]])"
  have "map_ub ?search (active_work ds (?m * ?cap)) = Some (map (\<lambda>hits. offer_all limit hits []) active)"
    using t by (simp add: active_def)
  then have found: "map_ub ?search (items @ active_work ds (?m * ?cap)) = Some (map (\<lambda>hits. offer_all limit hits []) (parts @ active))"
    using w(2) by (simp add: map_ub_append)
  have "concat active = List.map_filter ?hit [?m * ?cap..<length (cols ! k)]"
    using t by (simp add: active_def List.map_filter_simps)
  moreover have "[0..<length (cols ! k)] = [0..<?m * ?cap] @ [?m * ?cap..<length (cols ! k)]"
    using upt_add_eq_append [of 0 "?m * ?cap" "ActiveRowCount ds"] t by simp
  moreover have "List.map_filter (\<lambda>r. if r < ?m * ?cap \<and> r \<notin> set requested then None else ?hit r) [0..<?m * ?cap] =
      List.map_filter (\<lambda>r. if r \<in> set requested then ?hit r else None) [0..<?m * ?cap]"
    "List.map_filter (\<lambda>r. if r < ?m * ?cap \<and> r \<notin> set requested then None else ?hit r) [?m * ?cap..<length (cols ! k)] =
      List.map_filter ?hit [?m * ?cap..<length (cols ! k)]"
    by (auto intro!: map_filter_cong_set)
  ultimately have whole: "concat (parts @ active) = requested_hits cpu query dimension metric predicates requested (?m * ?cap) cols k"
    using w(3) by (simp add: requested_hits_def map_filter_append_list)
  have merged: "sorted_hits (offer_all limit (concat (map (\<lambda>hits. offer_all limit hits []) (parts @ active))) []) =
      top_k hit_key limit (concat (parts @ active))"
    by (rule merge_parts [OF q(2)])
       (use requested_hits_ok [of cpu query dimension metric predicates requested "?m * ?cap" cols k] in \<open>simp_all only: whole\<close>)
  have "k < length (ds_fields ds)" "fv_type (ds_fields ds ! k) = kVectorFloat32" using s by (simp_all add: searchable_def)
  then show ?thesis
    using q cpu_only w(1) found merged whole t
    unfolding requested_hits_filter top_k_def by (simp add: VectorSearchCandidates_def)
qed

section \<open>A small dataset\<close>

definition number_column :: field_vector where
  "number_column = snd (fv_AppendInt32 (fv_new [] kInt32) 5)"

definition one_vector_column :: field_vector where
  "one_vector_column = snd (fv_AppendVectorFloat32 (fv_new [] kVectorFloat32) (Some [f32_one]) (length [f32_one]))"

definition small_cells :: "cell list list" where
  "small_cells = [[CInt32 5], [CBytes (le_array 4 [f32_one])]]"

definition small_dataset :: "segment \<Rightarrow> dataset" where
  "small_dataset sg = \<lparr>ds_name = [], ds_rows = 1, ds_fields = [fv_new [] kInt32, fv_new [] kVectorFloat32],
     ds_active_fields = [fv_new [] kInt32, fv_new [] kVectorFloat32], ds_segments = [sg], ds_segment_capacity = 1,
     ds_vector_dimensions = [0, 1]\<rparr>"

lemma small_columns:
  "fv_inv number_column \<and> fv_cells number_column = [CInt32 5] \<and> fv_type number_column = kInt32 \<and> fv_size number_column = 1 \<and>
   fv_inv one_vector_column \<and> fv_cells one_vector_column = [CBytes (le_array 4 [f32_one])] \<and>
   fv_type one_vector_column = kVectorFloat32 \<and> fv_size one_vector_column = 1 \<and> length (fv_bytes one_vector_column) = 4"
proof -
  have new: "fv_type (fv_new [] t) = t" "fv_size (fv_new [] t) = 0" for t by (simp_all add: fv_new_def)
  have "fv_extends (fv_new [] kInt32) [CInt32 5] number_column"
    using fv_AppendInt32_correct [OF fv_new_inv, of "[]" kInt32 5] by (simp add: new number_column_def)
  moreover have "fv_extends (fv_new [] kVectorFloat32) [CBytes (le_array 4 [f32_one])] one_vector_column"
    using fv_AppendVectorFloat32_correct [OF fv_new_inv, of "[]" kVectorFloat32 "[f32_one]"] by (simp add: new one_vector_column_def)
  moreover have "length (fv_bytes one_vector_column) = 4"
    by (simp add: one_vector_column_def fv_AppendVectorFloat32_def fv_AppendBytes_def fv_push_bytes_def Let_def fv_new_def)
  ultimately show ?thesis by (simp add: fv_extends_def new fv_new_cells)
qed

lemma small_dataset_ok:
  obtains sg where "dataset_rep g_compression_config (small_dataset sg) small_cells"
    and "\<And>ps. list_all (\<lambda>p. sp_field_index p = 0) ps \<Longrightarrow> searchable g_compression_config (small_dataset sg) small_cells 1 ps"
proof -
  let ?flds = "[number_column, one_vector_column]"
  note c = small_columns
  have inv: "\<forall>f\<in>set ?flds. fv_inv f" using c by simp
  obtain sg where sg: "segment_new g_compression_config 1 1 ?flds = Some sg"
    using segment_new_built [OF inv, of g_compression_config 1 1] by blast
  let ?ds = "small_dataset sg"
  have new: "fv_inv (fv_new [] t)" "fv_size (fv_new [] t) = 0" "fv_cells (fv_new [] t) = []" "fv_type (fv_new [] t) = t" "fv_name (fv_new [] t) = []" for t
    by (rule fv_new_inv) (simp_all add: fv_new_def fv_new_cells [unfolded fv_new_def])
  have sealed: "sealed_from g_compression_config ?ds ?flds sg" using sg c by (simp add: sealed_from_def small_dataset_def new)
  have act: "active_ok ?ds" by (simp add: active_ok_def small_dataset_def ActiveRowCount_def new)
  have "small_cells = table_columns ?ds [?flds]" using c by (simp add: table_columns_def small_dataset_def small_cells_def new)
  moreover have "dims_ok ?ds small_cells" by (auto simp: dims_ok_def small_dataset_def small_cells_def less_Suc_eq new)
  ultimately have rep: "dataset_rep g_compression_config ?ds small_cells"
    unfolding dataset_rep_def using sealed act
    by (intro conjI exI [of _ "[?flds]"]) (simp_all add: small_dataset_def ActiveRowCount_def new)
  have cap: "0 < ds_segment_capacity ?ds" and len: "length ?flds = length (ds_fields ?ds)" by (simp_all add: small_dataset_def)
  obtain b where b: "build_column g_compression_config (chosen_kind g_compression_config one_vector_column) one_vector_column = Some b"
    "sg_fields sg ! 1 = bc_field b"
    using sealed_segment_facts [OF sealed len cap] by (auto simp: small_dataset_def)
  have "sg_fields sg ! 1 = one_vector_column" using vector_column_kept [OF _ _ b(1)] b(2) c by simp
  then have "searchable g_compression_config ?ds small_cells 1 ps" if "list_all (\<lambda>p. sp_field_index p = 0) ps" for ps
    using that c by (auto simp: searchable_def visible_column_def small_dataset_def small_cells_def list_all_iff new has_numeric_stats_def cell_exact_def fv_new_def)
  then show ?thesis using rep that by blast
qed

section \<open>The searches of the small dataset\<close>

definition plain_cpu :: cpu_features where
  "plain_cpu = \<lparr>cpu_avx2 = False, cpu_fused_tail = False\<rparr>"

definition no_gpu :: gpu_access where
  "no_gpu = \<lparr>gpu_wanted = (\<lambda>_ _. False), gpu_preloaded = False, gpu_score = (\<lambda>_. None)\<rparr>"

lemma small_hits: "table_hits plain_cpu [f32_one] 1 kDot [] small_cells 1 = [\<lparr>hit_row = 0, hit_distance = 0xBF800000\<rparr>]"
proof -
  have "cell_vector (CBytes (le_array 4 [f32_one])) = Some [f32_one]"
    using le_words_le_array [of 4 "[f32_one]" "[]"] by (simp add: cell_vector_def)
  moreover have "FastDot plain_cpu [f32_one] [f32_one] 1 = f32_one"
    by (simp add: FastDot_def plain_cpu_def Dot_def for_loop_def f32_mul_one f32_add_zero_one)
  ultimately have "table_hit plain_cpu [f32_one] 1 kDot [] small_cells 1 0 = Some \<lparr>hit_row = 0, hit_distance = 0xBF800000\<rparr>"
    by (simp add: table_hit_def cells_match_def row_hit_def small_cells_def PreparedDistance_def f32_minus_one)
  moreover have "[0..<length (small_cells ! 1)] = [0]" by (simp add: small_cells_def)
  ultimately show ?thesis by (simp add: table_hits_def List.map_filter_simps)
qed

lemma small_query:
  "VectorDimension 1 (small_dataset sg) = 1" "valid_query (small_dataset sg) [f32_one] 1 []"
  "length (ds_segments (small_dataset sg)) * ds_segment_capacity (small_dataset sg) = 1"
  by (simp_all add: VectorDimension_def small_dataset_def valid_query_def f32_one_fields)

lemma VectorSearch_exact_witness:
  "\<exists>sg. VectorSearch plain_cpu no_gpu (small_dataset sg) 1 [f32_one] 1 3 kDot [] =
     Some (Some [\<lparr>hit_row = 0, hit_distance = 0xBF800000\<rparr>])"
proof -
  obtain sg where ds: "dataset_rep g_compression_config (small_dataset sg) small_cells"
    "searchable g_compression_config (small_dataset sg) small_cells 1 []" by (rule small_dataset_ok) simp
  have "VectorSearch plain_cpu no_gpu (small_dataset sg) 1 [f32_one] 1 3 kDot [] =
      Some (Some (take 3 (sort_key hit_key (table_hits plain_cpu [f32_one] 1 kDot [] small_cells 1))))"
    by (rule VectorSearch_exact [OF ds]) (simp_all add: VectorDimension_def small_dataset_def valid_query_def f32_one_fields no_gpu_def)
  then show ?thesis unfolding small_hits by auto
qed

lemma VectorSearchCandidates_exact_witness:
  "\<exists>sg. VectorSearchCandidates plain_cpu no_gpu (small_dataset sg) 1 [f32_one] 1 3 kDot [0, 0] [] =
     Some (Some [\<lparr>hit_row = 0, hit_distance = 0xBF800000\<rparr>])"
proof -
  obtain sg where ds: "dataset_rep g_compression_config (small_dataset sg) small_cells"
    "searchable g_compression_config (small_dataset sg) small_cells 1 []" by (rule small_dataset_ok) simp
  have "VectorSearchCandidates plain_cpu no_gpu (small_dataset sg) 1 [f32_one] 1 3 kDot [0, 0] [] =
      Some (Some (take 3 (sort_key hit_key (filter
        (\<lambda>h. hit_row h < length (ds_segments (small_dataset sg)) * ds_segment_capacity (small_dataset sg) \<longrightarrow> hit_row h \<in> set [0, 0])
        (table_hits plain_cpu [f32_one] 1 kDot [] small_cells 1)))))"
    by (rule VectorSearchCandidates_exact [OF ds]) (simp_all add: VectorDimension_def small_dataset_def valid_query_def f32_one_fields no_gpu_def)
  then show ?thesis unfolding small_hits by auto
qed

section \<open>Predicates that no row satisfies\<close>

lemma gpu_candidate_rows_none:
  assumes "\<And>j. j < length segments \<Longrightarrow> segment_rows cap cols k predicates (base + j * cap) (segments ! j)"
    and "\<And>r. base \<le> r \<Longrightarrow> r < base + length segments * cap \<Longrightarrow> \<not> cells_match ((!) cols) predicates r"
  shows "gpu_candidate_rows predicates segments offset = Some []"
  using assms
proof (induction segments arbitrary: base offset)
  case (Cons sg segments)
  have sg: "segment_rows cap cols k predicates base sg" using Cons.prems(1) [of 0] by simp
  have "filter_ub (\<lambda>row. Matches (sg_fields sg) row (Some (sg_compressed_columns sg)) predicates) [0..<sg_row_count sg] =
      Some (filter (\<lambda>_. False) [0..<sg_row_count sg])"
    by (rule filter_ub_Some) (use sg Cons.prems(2) in \<open>auto simp: segment_rows_def\<close>)
  moreover have "gpu_candidate_rows predicates segments (offset + sg_row_count sg) = Some []"
  proof (rule Cons.IH [of "base + cap"])
    show "segment_rows cap cols k predicates (base + cap + j * cap) (segments ! j)" if "j < length segments" for j
      using Cons.prems(1) [of "Suc j"] that by (simp add: add.assoc)
    show "\<not> cells_match ((!) cols) predicates r" if "base + cap \<le> r" "r < base + cap + length segments * cap" for r
      using Cons.prems(2) [of r] that by simp
  qed
  ultimately show ?case by simp
qed simp

lemma candidate_work_none:
  assumes "\<And>j. j < length segments \<Longrightarrow> segment_rows cap cols k predicates (base + j * cap) (segments ! j)"
    and "\<And>r. base \<le> r \<Longrightarrow> r < base + length segments * cap \<Longrightarrow> \<not> cells_match ((!) cols) predicates r"
    and "sorted candidates" and "distinct candidates" and "predicates \<noteq> []"
  shows "candidate_work predicates candidates segments base = Some ([], [])"
  using assms(1,2)
proof (induction segments arbitrary: base)
  case (Cons sg segments)
  have sg: "segment_rows cap cols k predicates base sg" using Cons.prems(1) [of 0] by simp
  then have count: "sg_row_count sg = cap" by (simp add: segment_rows_def)
  have "filter_ub (\<lambda>row. if predicates = [] then Some True else Matches (sg_fields sg) row (Some (sg_compressed_columns sg)) predicates)
      (map (\<lambda>r. r - base) (rows_between candidates base (base + sg_row_count sg))) =
      Some (filter (\<lambda>_. False) (map (\<lambda>r. r - base) (rows_between candidates base (base + sg_row_count sg))))"
    unfolding count rows_between_shift [OF assms(3,4)]
    by (rule filter_ub_Some) (use sg Cons.prems(2) assms(5) in \<open>auto simp: segment_rows_def\<close>)
  moreover have "candidate_work predicates candidates segments (base + sg_row_count sg) = Some ([], [])"
    unfolding count
  proof (rule Cons.IH [of "base + cap"])
    show "segment_rows cap cols k predicates (base + cap + j * cap) (segments ! j)" if "j < length segments" for j
      using Cons.prems(1) [of "Suc j"] that by (simp add: add.assoc)
    show "\<not> cells_match ((!) cols) predicates r" if "base + cap \<le> r" "r < base + cap + length segments * cap" for r
      using Cons.prems(2) [of r] that by simp
  qed
  ultimately show ?case by simp
qed simp

text \<open>C33. With the backend set to \<open>vulkan\<close> and predicates that no row satisfies, \<open>VectorSearch\<close> returns
  rows all the same: the empty list of candidates asks the GPU for all sealed rows.  In the same case
  \<open>VectorSearchCandidates\<close> reads outside its empty list of rows.\<close>

theorem gpu_search_ignores_predicates:
  assumes rep: "dataset_rep cfg ds cols" and s: "searchable cfg ds cols k predicates"
    and q: "0 < dimension" "0 < limit" "VectorDimension k ds = dimension" "valid_query ds query dimension predicates"
    and gpu: "gpu_wanted gpu = WantsGpu RouteAuto (Some ''vulkan'') minimum st" "gpu_preloaded gpu"
      "gpu_score gpu [] = Some scores" "i < length scores" "f32_finite (scores ! i)"
    and rows: "length (cols ! k) < 2 ^ 32" "predicates \<noteq> []"
    and none: "\<And>r. r < length (cols ! k) \<Longrightarrow> \<not> cells_match ((!) cols) predicates r"
  shows "(\<exists>hits. VectorSearch cpu gpu ds k query dimension limit metric predicates = Some (Some hits) \<and> hits \<noteq> []) \<and>
    VectorSearchCandidates cpu gpu ds k query dimension limit metric requested predicates = None"
proof -
  let ?cap = "ds_segment_capacity ds" and ?m = "length (ds_segments ds)"
  note t = table_segments [OF rep s, of cpu query dimension limit metric]
  have wanted: "gpu_wanted gpu n d" for n d by (simp add: gpu(1) WantsGpu_def)
  have segs: "\<And>j. j < ?m \<Longrightarrow> segment_rows ?cap cols k predicates (0 + j * ?cap) (ds_segments ds ! j)"
    using t by auto
  have unmatched: "\<not> cells_match ((!) cols) predicates r" if "0 \<le> r" "r < 0 + ?m * ?cap" for r
  proof (rule none)
    show "r < length (cols ! k)" using that t by simp
  qed
  have cands: "gpu_candidate_rows predicates (ds_segments ds) 0 = Some []" 
  proof (rule gpu_candidate_rows_none [OF segs])
    show "\<not> cells_match ((!) cols) predicates r" if "0 \<le> r" "r < 0 + ?m * ?cap" for r
      by (rule unmatched [OF that])
  qed
  have work: "candidate_work predicates (remdups_adj (sort requested)) (ds_segments ds) 0 = Some ([], [])"
  proof (rule candidate_work_none [OF segs])
    show "\<not> cells_match ((!) cols) predicates r" if "0 \<le> r" "r < 0 + ?m * ?cap" for r
      by (rule unmatched [OF that])
    show "sorted (remdups_adj (sort requested))" "distinct (remdups_adj (sort requested))" "predicates \<noteq> []"
      using rows(2) by (simp_all add: sorted_remdups_adj distinct_unique_sorted)
  qed
  define hits where "hits = map (\<lambda>i. \<lparr>hit_row = i, hit_distance = scores ! i\<rparr>) (filter (\<lambda>i. f32_finite (scores ! i)) [0..<length scores])"
  have hits: "finite_hits hits" "distinct (map hit_row hits)" "hits \<noteq> []"
    using gpu(4,5) by (auto simp: hits_def finite_hits_def comp_def filter_empty_conv)
  have "List.map_filter (table_hit cpu query dimension metric predicates cols k) rs = []" if "\<forall>r\<in>set rs. r < length (cols ! k)" for rs
    using that none by (induction rs) (simp_all add: List.map_filter_simps table_hit_def)
  then have active: "map_ub (search_one cpu k query dimension limit metric (query_norm cpu query dimension metric) predicates)
      (active_work ds (?m * ?cap)) = Some (if ActiveRowCount ds = 0 then [] else [[]])"
    using t by (simp add: offer_all_def)
  have top: "sorted_hits (offer_all limit [] (offer_all limit hits [])) = top_k hit_key limit hits"
    using fold_offer_hit [OF q(2) hits(1,2)] sorted_hits_top_k [OF hits(1,2)] by (simp add: offer_all_def)
  have k: "k < length (ds_fields ds)" "fv_type (ds_fields ds ! k) = kVectorFloat32" using s by (simp_all add: searchable_def)
  have widths: "\<not> list_ex (\<lambda>sg. k \<ge> length (sg_fields sg)) (ds_segments ds)"
  proof -
    have "k < length (sg_fields (ds_segments ds ! j))" if "j < ?m" for j
      using segs [OF that] by (simp add: segment_rows_def)
    then show ?thesis by (auto simp: list_ex_iff in_set_conv_nth simp flip: not_less)
  qed
  have small: "?m * ?cap < 2 ^ 32" using t rows(1) by simp
  obtain parts where parts: "map_ub (search_one cpu k query dimension limit metric (query_norm cpu query dimension metric) predicates)
      (active_work ds (?m * ?cap)) = Some parts" "concat parts = []"
    using active by (auto split: if_splits)
  have sum: "sum_list (map sg_row_count (ds_segments ds)) = ?m * ?cap" using t by blast
  have "VectorSearch cpu gpu ds k query dimension limit metric predicates = Some (Some (top_k hit_key limit hits))"
    using q k rows(2) wanted gpu(2,3) cands sum small widths parts top
    by (simp add: VectorSearch_def hits_def Let_def del: concat_eq_Nil_conv)
  moreover have "top_k hit_key limit hits \<noteq> []" using hits(3) q(2) length_top_k [of hit_key limit hits] by (cases hits) auto
  moreover have "VectorSearchCandidates cpu gpu ds k query dimension limit metric requested predicates = None"
    using q k wanted gpu work by (auto simp: VectorSearchCandidates_def)
  ultimately show ?thesis by blast
qed

text \<open>No number equals a NaN.\<close>

definition never :: search_predicate where
  "never = \<lparr>sp_field_index = 0, sp_op = kEq, sp_value = f64_quiet_nan\<rparr>"

definition forced_gpu :: gpu_access where
  "forced_gpu = \<lparr>gpu_wanted = WantsGpu RouteAuto (Some ''vulkan'') 0
      \<lparr>rt_crossover_elements = 0, rt_max_tested_elements = 0, rt_calibrated = False\<rparr>,
    gpu_preloaded = True, gpu_score = (\<lambda>rows. if rows = [] then Some [0] else Some (replicate (length rows) 0))\<rparr>"

lemma gpu_search_ignores_predicates_witness:
  "\<exists>sg hits. VectorSearch plain_cpu forced_gpu (small_dataset sg) 1 [f32_one] 1 3 kDot [never] = Some (Some hits) \<and> hits \<noteq> []"
proof -
  obtain sg where ds: "dataset_rep g_compression_config (small_dataset sg) small_cells"
    "searchable g_compression_config (small_dataset sg) small_cells 1 [never]" by (rule small_dataset_ok) (simp add: never_def)
  have nan: "f64_nan f64_quiet_nan" by (simp add: f64_nan_def f64_quiet_nan_def f64_mag_def f64_inf_mag_def)
  have "\<not> cells_match ((!) small_cells) [never] r" for r
    using nan by (simp add: cells_match_def never_def search_Compare_def split: option.split)
  then have "(\<exists>hits. VectorSearch plain_cpu forced_gpu (small_dataset sg) 1 [f32_one] 1 3 kDot [never] = Some (Some hits) \<and> hits \<noteq> []) \<and>
      VectorSearchCandidates plain_cpu forced_gpu (small_dataset sg) 1 [f32_one] 1 3 kDot [0] [never] = None"
    by (intro gpu_search_ignores_predicates [OF ds, where scores = "[0]" and i = 0])
       (simp_all add: forced_gpu_def f32_one_fields f32_zero_fields valid_query_def small_dataset_def never_def small_cells_def
          VectorDimension_def)
  then show ?thesis by blast
qed

end
