(* ===== verification/Spec2Isabelle.thy ===== *)
theory Spec2Isabelle
  imports Prelude Float64 Hash Bits Compare Masks Dictionary FieldVec Column ColumnSteps Scan
    RowIds Memory Lz4 Codec CodecOps Encoders BitStream CodecReps EncodeCorrect CodecProps Stats
    FloatExact StatsProps ChooseProps Segment SegmentProps SegmentFacts Lossy Batch Parallel
    ArrayCodec Dataset DatasetProps DatasetBatch DatasetRead Projection SegmentIO SegmentIOProps
    SegmentRoundtrip SegmentFiles Catalog CatalogProps CatalogLog CatalogCrash CatalogCompact
    Aggregate AggregateProps AggregateThreads AggregateSegments AggregateTable
    Document DocumentProps Chunks ChunkProps PlanProps
    Float32 TopK VectorSearch VectorRows VectorTopK VectorTable TableRead VectorSearchProps VectorResults
begin

text \<open>
  A verification development of MimicRAG: the column engine MimicDB (\<open>engine/\<close>), and the documents
  and the catalog of the retrieval service on top of it (\<open>rag_cpp/\<close>).

  The program.  A dataset (\<open>dataset.cpp\<close>) is a table that grows by rows or by batches of columns.  Its
  last rows are in active columns (\<open>field_vector.cpp\<close>), which keep one array of values, a validity
  bitmap once a null was appended, and a dictionary or an offset cache where the type has one.  A full
  set of active columns becomes a segment (\<open>segment.cpp\<close>): statistics are computed for every column,
  an encoding is chosen from them, the column is encoded if that makes it smaller, its storage is
  released, and from then on it is read through a compressed view (\<open>compression.cpp\<close>).  Queries prune
  segments by their statistics (\<open>predicate.cpp\<close>), scan the others sequentially or with threads
  (\<open>scan.cpp\<close>), turn masks into row ids (\<open>simd_output.cpp\<close>, \<open>output_compaction.cpp\<close>) and copy the
  selected rows (\<open>projection.cpp\<close>), aggregate them (\<open>aggregate.cpp\<close>) or look for the rows whose vector
  is nearest to a given one (\<open>vector_search.cpp\<close>).  Segments are written to files and read back
  (\<open>segment_io.cpp\<close>).  The service parses a document into blocks and groups them into the chunks that are
  searched (\<open>document.cpp\<close>), appends its documents to a log file (\<open>catalog.cpp\<close>), replays it
  when it starts and compacts it on request.

  Conventions.  A machine integer is a word of its width; a \<open>size_t\<close> that counts things in memory is a
  \<open>nat\<close>.  Raw memory is a list of bytes, little-endian (\<open>Prelude\<close>, \<open>Memory\<close>); an access outside it
  is undefined in C++ and \<open>None\<close> here (\<open>'a ub\<close>), so a theorem that an operation returns \<open>Some\<close> says
  that it stays in bounds.  A double is its IEEE 754 bit pattern, with the conversions, comparisons
  and sums the engine uses computed on it (\<open>Float64\<close>, \<open>FloatExact\<close>).  Errors are values: \<open>false\<close>, a
  null view or a thrown exception is a branch of the result.  Loops are recursion on their counter or
  functions with a termination proof; the only fuel is that of the loop that drains a batch iterator
  (\<open>drain\<close> in \<open>Batch\<close>), where one step per row is shown to be enough, and a run of threads is given by
  its schedule.

  The theories, by component:

  \<^item> Hashing, schemas: \<open>Hash\<close> (\<open>hash.cpp\<close>, \<open>schema.cpp\<close>, \<open>types.h\<close>).
  \<^item> Bitmaps and masks: \<open>Bits\<close>, \<open>Masks\<close> (\<open>bitmap.cpp\<close>, \<open>mask.cpp\<close>), with the locale \<open>bit_store\<close> that
    all three stores implement.  Predicates: \<open>Compare\<close> (\<open>predicate.cpp\<close>).
  \<^item> Columns: \<open>Dictionary\<close>, \<open>FieldVec\<close> (\<open>field_vector.cpp\<close>); \<open>Column\<close> and \<open>ColumnSteps\<close> show that a
    column refines the list of its cells, for every sequence of appends, and where it does not.
  \<^item> Encodings: \<open>Codec\<close>, \<open>CodecOps\<close>, \<open>Lz4\<close>, \<open>BitStream\<close> (\<open>compression.cpp\<close>) and \<open>Encoders\<close>
    (\<open>segment.cpp\<close>).  \<open>CodecReps\<close>, \<open>EncodeCorrect\<close> and \<open>CodecProps\<close> show, through the locales of a view
    that represents values, that reads, predicate scans and batch decodes of every encoding see the
    values of the column.
  \<^item> Statistics and the choice of an encoding: \<open>Stats\<close>, \<open>StatsProps\<close>, \<open>ChooseProps\<close>; the encodings chosen
    are lossless as long as the doubles of the statistics are exact, and \<open>Lossy\<close> has the columns for
    which they are not.
  \<^item> Segments: \<open>Segment\<close> (\<open>segment.cpp\<close>), \<open>SegmentProps\<close>, \<open>SegmentFacts\<close>: a sealed segment shows the
    cells it was loaded with; growing, sealing and re-encoding a segment.
  \<^item> Scans: \<open>Scan\<close>, \<open>RowIds\<close>, \<open>Batch\<close>, and \<open>Parallel\<close> with the threads as a step relation: one outcome
    for every interleaving, termination, and soundness of pruning.
  \<^item> Arrays: \<open>ArrayCodec\<close> (\<open>array_codec.cpp\<close>), round trip of nested arrays.
  \<^item> Datasets: \<open>Dataset\<close> (\<open>dataset.cpp\<close>), \<open>DatasetProps\<close>, \<open>DatasetBatch\<close>, \<open>DatasetRead\<close>: both ways of
    appending refine appending to a table, and (\<open>TableRead\<close>) reading the sealed and active parts gives the
    table, as far as the numbers are ones that doubles represent.
    \<open>Projection\<close> (\<open>projection.cpp\<close>).
  \<^item> Segment files: \<open>SegmentIO\<close> (\<open>segment_io.cpp\<close>), \<open>SegmentIOProps\<close>, \<open>SegmentRoundtrip\<close>,
    \<open>SegmentFiles\<close>: a written segment is read back with its types and cells.
  \<^item> Catalog: \<open>Catalog\<close> (\<open>rag_cpp/src/catalog.cpp\<close>), \<open>CatalogProps\<close> (the locale \<open>framed_log\<close>),
    \<open>CatalogLog\<close>, \<open>CatalogCrash\<close> (runs with crashes at any byte of a write, as an inductive relation)
    and \<open>CatalogCompact\<close>.
  \<^item> Aggregates: \<open>Aggregate\<close> (\<open>aggregate.cpp\<close>, \<open>simd_aggregate.cpp\<close>), \<open>AggregateProps\<close>: what one pass
    computes; \<open>AggregateThreads\<close>: the parallel pass, for every interleaving; \<open>AggregateSegments\<close> and
    \<open>AggregateTable\<close>: sealed and unsealed segments together.
  \<^item> Documents: \<open>Document\<close> and \<open>Chunks\<close> (\<open>rag_cpp/src/document.cpp\<close>), parsing into blocks and planning
    chunks, on byte strings; \<open>DocumentProps\<close> shows that the blocks are in order, disjoint and cover the
    text, \<open>ChunkProps\<close> when fast mode covers, returns and does not, and \<open>PlanProps\<close> that the plan of the
    blocks loses nothing and is bounded.
  \<^item> Vector search: \<open>Float32\<close> is the arithmetic of floats, \<open>VectorSearch\<close> the code
    (\<open>vector_search.cpp\<close>): distances, the bounded heap, predicates, the choice between CPU and GPU and the
    two searches.  \<open>TopK\<close> is the specification of the heap, the first elements in order of a key;
    \<open>VectorTopK\<close> shows that the heap implements it, \<open>VectorRows\<close> and \<open>VectorTable\<close> what the rows of a
    column and of a dataset contribute, and \<open>VectorSearchProps\<close> and \<open>VectorResults\<close> that both searches are
    exact on the CPU, and what a forced GPU does when no row satisfies the predicates.

  Parameters.  SIMD variants are chosen by a flag for the CPU feature; callbacks of scans are functions
  on a caller's state; the outcome of opening, writing and flushing a file is an argument.  JSON and
  Zstandard, which are not part of the repository, are the record \<open>library\<close> of functions; the
  theorems on the catalog assume that they give back the documents they were given
  (\<open>storable_record\<close>), and \<open>example_library\<close> satisfies this.

  The vector search takes the features of the CPU as a parameter (AVX2, and whether the compiler fuses
  the last products of \<open>DotAvx2\<close>); the order of its sums is the one of the source, which the build keeps
  (no fast-math option).  The scores of a GPU are a parameter, for which an empty list of candidates means
  all rows, as \<open>vector_gpu.cpp\<close> has it.  The theorems on the search assume that no vector column has
  4 GiB in one part (its offsets are 32 bits wide).

  Not modelled: the approximate index and the Vulkan calls (\<open>vector_ivf.cpp\<close>, \<open>vector_gpu.cpp\<close>); the locks
  of the worker pool of the vector search, whose work items each write their own slot; CPU probing; the
  server, the HTTP service, the providers and the bindings, which are sockets, threads and libraries from
  outside the repository; the paging of released values back from files.
\<close>

end
